(* ===== verification/DLoad_Prelude.thy ===== *)
theory DLoad_Prelude
  imports Main "HOL-Library.Word"
begin

text \<open>
  Shared vocabulary of the dynamic loader development: the C integer types, the ways a C
  function can fail to return (\<open>abort\<close>), sequencing of such functions (\<open>bindR\<close>), host
  byte order and the byte-wise view of 16 and 32 bit memory cells, C strings, and the generic
  lemmas on lists and words that the components use.
\<close>

unbundle bit_operations_syntax

named_theorems result_simps \<open>characterisations of defined results\<close>
named_theorems mem_simps \<open>loads from and stores to byte buffers\<close>

subsection \<open>C integer types\<close>

type_synonym u8 = "8 word"
type_synonym u16 = "16 word"
type_synonym u32 = "32 word"
type_synonym i32 = "32 word"

text \<open>
  \<open>i32\<close> is \<open>int32_t\<close>: the same 32 bits, read with \<^const>\<open>sint\<close>; conversions between
  \<open>int32_t\<close> and \<open>uint32_t\<close> keep the bits. \<open>INT_MAX\<close> and \<open>INT16_MAX\<close> are the limits of
  \<open>limits.h\<close> and \<open>stdint.h\<close>.
\<close>

definition INT_MAX :: u32 where
  "INT_MAX = 0x7FFFFFFF"

definition INT16_MAX :: u16 where
  "INT16_MAX = 0x7FFF"

subsection \<open>Functions that may not return\<close>

text \<open>
  A call ends the process (\<open>Exit\<close>), trips an \<open>assert\<close> (\<open>AssertFail\<close>), or has no defined
  behaviour in C (\<open>Undefined\<close>: an access outside an object, through a null or dangling
  pointer, to a closed file, or to bytes that were never written), or never returns (\<open>Diverge\<close>).
\<close>

datatype abort = Exit int | AssertFail | Undefined | Diverge

type_synonym 'a result = "abort + 'a"

definition bindR :: "'a result \<Rightarrow> ('a \<Rightarrow> 'b result) \<Rightarrow> 'b result" where
  "bindR m f = (case m of Inl e \<Rightarrow> Inl e | Inr x \<Rightarrow> f x)"

lemma bindR_simps [simp]: "bindR (Inl e) f = Inl e" "bindR (Inr x) f = f x"
  by (simp_all add: bindR_def)

lemma bindR_eq_Inr [result_simps]:
  "bindR m f = Inr y \<longleftrightarrow> (\<exists>x. m = Inr x \<and> f x = Inr y)"
  by (cases m) auto

lemma bindR_eq_Inl [result_simps]:
  "bindR m f = Inl e \<longleftrightarrow> m = Inl e \<or> (\<exists>x. m = Inr x \<and> f x = Inl e)"
  by (cases m) auto

lemma bindR_assoc: "bindR (bindR m f) g = bindR m (\<lambda>x. bindR (f x) g)"
  by (cases m) auto

lemma bindR_cong [fundef_cong]:
  "m = m' \<Longrightarrow> (\<And>x. m' = Inr x \<Longrightarrow> f x = g x) \<Longrightarrow> bindR m f = bindR m' g"
  by (cases m') auto

lemma bindR_split:
  "P (bindR m f) \<longleftrightarrow> (\<forall>e. m = Inl e \<longrightarrow> P (Inl e)) \<and> (\<forall>x. m = Inr x \<longrightarrow> P (f x))"
  by (cases m) auto

text \<open>Dereferencing a pointer: a missing object is undefined behaviour.\<close>

definition deref :: "'a option \<Rightarrow> 'a result" where
  "deref p = (case p of None \<Rightarrow> Inl Undefined | Some x \<Rightarrow> Inr x)"

lemma deref_simps [simp]: "deref None = Inl Undefined" "deref (Some x) = Inr x"
  by (simp_all add: deref_def)

lemma deref_eq_Inr [result_simps]: "deref p = Inr x \<longleftrightarrow> p = Some x"
  by (cases p) auto

text \<open>Array reads: an index outside the array is undefined behaviour.\<close>

definition index :: "'a list \<Rightarrow> nat \<Rightarrow> 'a result" where
  "index xs i = (if i < length xs then Inr (xs ! i) else Inl Undefined)"

lemma index_eq_Inr [result_simps]: "index xs i = Inr x \<longleftrightarrow> i < length xs \<and> xs ! i = x"
  by (auto simp: index_def)

lemma index_in [simp]: "i < length xs \<Longrightarrow> index xs i = Inr (xs ! i)"
  by (simp add: index_def)

text \<open>A loop over a list whose body may fail.\<close>

fun foldR :: "('a \<Rightarrow> 's \<Rightarrow> 's result) \<Rightarrow> 'a list \<Rightarrow> 's \<Rightarrow> 's result" where
  "foldR f [] s = Inr s"
| "foldR f (x # xs) s = bindR (f x s) (foldR f xs)"

lemma foldR_append [simp]: "foldR f (xs @ ys) s = bindR (foldR f xs s) (foldR f ys)"
  by (induction xs arbitrary: s) (auto simp: bindR_assoc intro: bindR_cong)

lemma foldR_invariant:
  assumes "foldR f xs s = Inr s'" and "P s"
    and "\<And>x t t'. x \<in> set xs \<Longrightarrow> P t \<Longrightarrow> f x t = Inr t' \<Longrightarrow> P t'"
  shows "P s'"
  using assms
proof (induction xs arbitrary: s)
  case Nil
  then show ?case by simp
next
  case (Cons x xs)
  from Cons.prems(1) obtain t where t: "f x s = Inr t" and rest: "foldR f xs t = Inr s'"
    by (auto simp: bindR_eq_Inr)
  have "P t" using Cons.prems(2,3) t by (meson list.set_intros(1))
  with rest show ?case
    using Cons.IH Cons.prems(3) by (meson list.set_intros(2))
qed

subsection \<open>Postconditions\<close>

text \<open>
  \<open>holdsR P m\<close>: if the call \<open>m\<close> returns, its result satisfies \<open>P\<close>. The rules below push such a
  postcondition through a sequence of calls; the postconditions of the single calls are collected
  in \<open>post\<close>.
\<close>

named_theorems post \<open>postconditions of single calls\<close>

definition holdsR :: "('a \<Rightarrow> bool) \<Rightarrow> 'a result \<Rightarrow> bool" where
  "holdsR P m \<longleftrightarrow> (\<forall>x. m = Inr x \<longrightarrow> P x)"

lemma holdsR_simps [simp]: "holdsR P (Inr x) = P x" "holdsR P (Inl e)"
  by (simp_all add: holdsR_def)

lemma holdsRD: "holdsR P m \<Longrightarrow> m = Inr x \<Longrightarrow> P x"
  by (simp add: holdsR_def)

lemma holdsR_mono: "holdsR Q m \<Longrightarrow> (\<And>x. Q x \<Longrightarrow> P x) \<Longrightarrow> holdsR P m"
  by (auto simp: holdsR_def)

lemma holdsR_bindI: "holdsR Q m \<Longrightarrow> (\<And>x. Q x \<Longrightarrow> holdsR P (f x)) \<Longrightarrow> holdsR P (bindR m f)"
  by (cases m) (auto simp: holdsR_def)

lemma holdsR_bind_any: "(\<And>x. m = Inr x \<Longrightarrow> holdsR P (f x)) \<Longrightarrow> holdsR P (bindR m f)"
  by (cases m) (auto simp: holdsR_def)

lemma holdsR_deref: "(\<And>x. p = Some x \<Longrightarrow> holdsR P (f x)) \<Longrightarrow> holdsR P (bindR (deref p) f)"
  by (cases p) (auto simp: holdsR_def)

lemma holdsR_index:
  "(i < length xs \<Longrightarrow> holdsR P (f (xs ! i))) \<Longrightarrow> holdsR P (bindR (index xs i) f)"
  by (auto simp: holdsR_def index_def)

lemma holdsR_foldR:
  assumes "P s" and "\<And>x t. x \<in> set xs \<Longrightarrow> P t \<Longrightarrow> holdsR P (f x t)"
  shows "holdsR P (foldR f xs s)"
  using foldR_invariant[of f xs s _ P] assms by (auto simp: holdsR_def)

lemmas holdsR_splits = holdsR_deref holdsR_index

subsection \<open>Host byte order and memory cells\<close>

text \<open>
  The loader reads and writes 16 and 32 bit cells of byte buffers through casted pointers, so
  the result depends on the byte order of the host. \<open>bytes32 h w\<close> is the memory image of \<open>w\<close>
  on a host with byte order \<open>h\<close>, lowest address first.
\<close>

datatype endian = LSB | MSB

fun opposite :: "endian \<Rightarrow> endian" where
  "opposite LSB = MSB"
| "opposite MSB = LSB"

definition byte_of :: "nat \<Rightarrow> 'a::len word \<Rightarrow> u8" where
  "byte_of k w = ucast (drop_bit (8 * k) w)"

definition bytes32 :: "endian \<Rightarrow> u32 \<Rightarrow> u8 list" where
  "bytes32 h w = (let bs = [byte_of 0 w, byte_of 1 w, byte_of 2 w, byte_of 3 w]
     in case h of LSB \<Rightarrow> bs | MSB \<Rightarrow> rev bs)"

definition bytes16 :: "endian \<Rightarrow> u16 \<Rightarrow> u8 list" where
  "bytes16 h w = (let bs = [byte_of 0 w, byte_of 1 w] in case h of LSB \<Rightarrow> bs | MSB \<Rightarrow> rev bs)"

fun word_of_bytes :: "u8 list \<Rightarrow> 'a::len word" where
  "word_of_bytes [] = 0"
| "word_of_bytes (b # bs) = ucast b OR push_bit 8 (word_of_bytes bs)"

definition word32 :: "endian \<Rightarrow> u8 list \<Rightarrow> u32" where
  "word32 h bs = word_of_bytes (case h of LSB \<Rightarrow> bs | MSB \<Rightarrow> rev bs)"

definition word16 :: "endian \<Rightarrow> u8 list \<Rightarrow> u16" where
  "word16 h bs = word_of_bytes (case h of LSB \<Rightarrow> bs | MSB \<Rightarrow> rev bs)"

declare word_of_bytes.simps(2) [simp del]

lemma bit_byte_of [simp]: "bit (byte_of k w) n \<longleftrightarrow> n < 8 \<and> bit w (8 * k + n)"
  by (auto simp: byte_of_def bit_simps dest: bit_imp_le_length)

lemma bit_word_of_bytes:
  "bit (word_of_bytes bs :: 'a::len word) n \<longleftrightarrow>
     n < LENGTH('a) \<and> n div 8 < length bs \<and> bit (bs ! (n div 8)) (n mod 8)"
proof (induction bs arbitrary: n)
  case Nil
  then show ?case by simp
next
  case (Cons b bs)
  show ?case
  proof (cases "n < 8")
    case True
    then show ?thesis by (auto simp: bit_simps word_of_bytes.simps(2))
  next
    case False
    then obtain m where m: "n = m + 8" by (metis add.commute le_Suc_ex not_less)
    have "\<not> bit b n" using False bit_imp_le_length[of b n] by auto
    moreover have "(m + 8) div 8 = Suc (m div 8)" by simp
    ultimately show ?thesis
      using Cons.IH[of m] by (auto simp: bit_simps m word_of_bytes.simps(2))
  qed
qed

lemma nth_list4: "i < 4 \<Longrightarrow> [f 0, f 1, f 2, f 3] ! i = f (i::nat)"
  by (auto simp: less_Suc_eq numeral_eq_Suc)

lemma nth_list2: "i < 2 \<Longrightarrow> [f 0, f 1] ! i = f (i::nat)"
  by (auto simp: less_Suc_eq numeral_eq_Suc)

lemma word_of_bytes_byte_of4:
  "word_of_bytes [byte_of 0 w, byte_of 1 w, byte_of 2 w, byte_of 3 w] = (w :: u32)"
proof (rule bit_word_eqI)
  fix n :: nat assume "n < LENGTH(32)"
  then have "n div 8 < 4" by (simp add: less_mult_imp_div_less)
  then show "bit (word_of_bytes [byte_of 0 w, byte_of 1 w, byte_of 2 w, byte_of 3 w] :: u32) n = bit w n"
    using \<open>n < LENGTH(32)\<close> nth_list4[of "n div 8" "\<lambda>k. byte_of k w"]
    by (simp add: bit_word_of_bytes)
qed

lemma word_of_bytes_byte_of2: "word_of_bytes [byte_of 0 w, byte_of 1 w] = (w :: u16)"
proof (rule bit_word_eqI)
  fix n :: nat assume "n < LENGTH(16)"
  then have "n div 8 < 2" by (simp add: less_mult_imp_div_less)
  then show "bit (word_of_bytes [byte_of 0 w, byte_of 1 w] :: u16) n = bit w n"
    using \<open>n < LENGTH(16)\<close> nth_list2[of "n div 8" "\<lambda>k. byte_of k w"]
    by (simp add: bit_word_of_bytes)
qed

lemma byte_of_word_of_bytes:
  assumes "k < length bs" and "8 * length bs \<le> LENGTH('a)"
  shows "byte_of k (word_of_bytes bs :: 'a::len word) = bs ! k"
proof (rule bit_word_eqI)
  fix n :: nat assume n: "n < LENGTH(8)"
  have "8 * k + n < LENGTH('a)" using assms n by simp
  with assms n show "bit (byte_of k (word_of_bytes bs :: 'a word)) n = bit (bs ! k) n"
    by (simp add: bit_word_of_bytes)
qed

lemma length_bytes [simp]: "length (bytes32 h w) = 4" "length (bytes16 h w') = 2"
  by (cases h; simp add: bytes32_def bytes16_def)+

lemma word32_bytes32 [mem_simps]: "word32 h (bytes32 h w) = w"
  using word_of_bytes_byte_of4[of w] by (cases h) (simp_all add: word32_def bytes32_def)

lemma word16_bytes16 [mem_simps]: "word16 h (bytes16 h w) = w"
  using word_of_bytes_byte_of2[of w] by (cases h) (simp_all add: word16_def bytes16_def)

lemma length4_eq: "length bs = 4 \<Longrightarrow> bs = [bs ! 0, bs ! 1, bs ! 2, bs ! 3]"
  by (rule nth_equalityI) (auto simp: less_Suc_eq numeral_eq_Suc)

lemma bytes32_LSB_word: "length bs = 4 \<Longrightarrow>
    [byte_of 0 (word_of_bytes bs :: u32), byte_of 1 (word_of_bytes bs :: u32),
     byte_of 2 (word_of_bytes bs :: u32), byte_of 3 (word_of_bytes bs :: u32)] = bs"
  using length4_eq[of bs] by (simp add: byte_of_word_of_bytes)

lemma bytes32_word32 [mem_simps]: "length bs = 4 \<Longrightarrow> bytes32 h (word32 h bs) = bs"
proof (cases h)
  case LSB
  assume "length bs = 4"
  with LSB show ?thesis using bytes32_LSB_word[of bs] by (simp add: bytes32_def word32_def)
next
  case MSB
  assume l: "length bs = 4"
  with MSB have "bytes32 h (word32 h bs) = rev (rev bs)"
    using bytes32_LSB_word[of "rev bs"] by (auto simp: bytes32_def word32_def)
  then show ?thesis by simp
qed

lemma bytes32_opposite: "bytes32 (opposite h) w = rev (bytes32 h w)"
  by (cases h) (simp_all add: bytes32_def)

lemma word32_opposite: "word32 (opposite h) bs = word32 h (rev bs)"
  by (cases h) (simp_all add: word32_def)

subsection \<open>Loads and stores\<close>

definition load32 :: "endian \<Rightarrow> u8 list \<Rightarrow> nat \<Rightarrow> u32 result" where
  "load32 h buf off = (if off + 4 \<le> length buf
     then Inr (word32 h (take 4 (drop off buf))) else Inl Undefined)"

definition store_bytes :: "u8 list \<Rightarrow> nat \<Rightarrow> u8 list \<Rightarrow> u8 list result" where
  "store_bytes buf off bs = (if off + length bs \<le> length buf
     then Inr (take off buf @ bs @ drop (off + length bs) buf) else Inl Undefined)"

definition store32 :: "endian \<Rightarrow> u8 list \<Rightarrow> nat \<Rightarrow> u32 \<Rightarrow> u8 list result" where
  "store32 h buf off w = store_bytes buf off (bytes32 h w)"

definition store16 :: "endian \<Rightarrow> u8 list \<Rightarrow> nat \<Rightarrow> u16 \<Rightarrow> u8 list result" where
  "store16 h buf off w = store_bytes buf off (bytes16 h w)"

definition store8 :: "u8 list \<Rightarrow> nat \<Rightarrow> u8 \<Rightarrow> u8 list result" where
  "store8 buf off w = store_bytes buf off [w]"

lemma store_bytes_length [mem_simps]: "store_bytes buf off bs = Inr buf' \<Longrightarrow> length buf' = length buf"
  by (auto simp: store_bytes_def split: if_splits)

lemma store_bytes_take: "store_bytes buf off bs = Inr buf' \<Longrightarrow> take off buf' = take off buf"
  by (auto simp: store_bytes_def split: if_splits)

lemma store_bytes_drop: "store_bytes buf off bs = Inr buf' \<Longrightarrow>
    off + length bs \<le> k \<Longrightarrow> drop k buf' = drop k buf"
  by (auto simp: store_bytes_def split: if_splits)

lemma store_bytes_at: "store_bytes buf off bs = Inr buf' \<Longrightarrow> take (length bs) (drop off buf') = bs"
  by (auto simp: store_bytes_def split: if_splits)

lemma store_bytes_nth:
  assumes "store_bytes buf off bs = Inr buf'" and "i < off \<or> off + length bs \<le> i" and "i < length buf"
  shows "buf' ! i = buf ! i"
  using assms by (auto simp: store_bytes_def nth_append min_def split: if_splits)

lemma load32_store32 [mem_simps]: "store32 h buf off w = Inr buf' \<Longrightarrow> load32 h buf' off = Inr w"
  using store_bytes_at[of buf off "bytes32 h w" buf'] store_bytes_length[of buf off "bytes32 h w" buf']
  by (auto simp: store32_def load32_def store_bytes_def word32_bytes32 split: if_splits)

lemma load32_Inr: "off + 4 \<le> length buf \<Longrightarrow> \<exists>w. load32 h buf off = Inr w"
  by (simp add: load32_def)

lemma store32_Inr: "off + 4 \<le> length buf \<Longrightarrow> \<exists>b. store32 h buf off w = Inr b"
  by (simp add: store32_def store_bytes_def)

subsection \<open>C strings\<close>

text \<open>
  A string table is a list of characters; the C string at an offset runs up to the first NUL
  character. \<open>strcmp_eq s t\<close> is \<open>!strcmp(s, t)\<close> for a string \<open>s\<close> (without its terminator) and
  memory \<open>t\<close>: it stops at the first difference, and runs off the end of \<open>t\<close> when neither a
  difference nor a terminator comes.
\<close>

abbreviation NUL :: char where
  "NUL \<equiv> CHR 0x00"

definition cstring_at :: "string \<Rightarrow> nat \<Rightarrow> string result" where
  "cstring_at tab off = (let s = drop off tab
     in if NUL \<in> set s then Inr (takeWhile (\<lambda>c. c \<noteq> NUL) s) else Inl Undefined)"

fun strcmp_eq :: "string \<Rightarrow> string \<Rightarrow> bool result" where
  "strcmp_eq s [] = Inl Undefined"
| "strcmp_eq [] (c # t) = Inr (c = NUL)"
| "strcmp_eq (x # s) (c # t) = (if x = c then strcmp_eq s t else Inr False)"

lemma strcmp_eq_cstring:
  assumes "NUL \<notin> set s" and "NUL \<in> set t"
  shows "strcmp_eq s t = Inr (takeWhile (\<lambda>c. c \<noteq> NUL) t = s)"
  using assms by (induction s t rule: strcmp_eq.induct) auto

lemma strcmp_eq_at:
  assumes "NUL \<notin> set s" and "cstring_at tab off = Inr t"
  shows "strcmp_eq s (drop off tab) = Inr (t = s)"
  using assms strcmp_eq_cstring[of s "drop off tab"]
  by (auto simp: cstring_at_def Let_def split: if_splits)

lemma cstring_at_no_NUL: "cstring_at tab off = Inr s \<Longrightarrow> NUL \<notin> set s"
  by (auto simp: cstring_at_def Let_def split: if_splits dest: set_takeWhileD)

lemma cstring_at_drop: "cstring_at (drop k tab) off = cstring_at tab (k + off)"
  by (simp add: cstring_at_def add.commute)

definition string_of_bytes :: "u8 list \<Rightarrow> string" where
  "string_of_bytes bs = map (\<lambda>b. char_of (unat b)) bs"

definition bytes_of_string :: "string \<Rightarrow> u8 list" where
  "bytes_of_string s = map (\<lambda>c. of_nat (of_char c)) s"

lemma string_of_bytes_of_string [simp]: "string_of_bytes (bytes_of_string s) = s"
  by (induction s) (auto simp: string_of_bytes_def bytes_of_string_def unat_of_nat take_bit_eq_mod)

end
