(* ===== verification/DLoad_Containers.thy ===== *)
theory DLoad_Containers
  imports DLoad_Prelude
begin

text \<open>
  The loader's containers: \<open>Array_List\<close> (\<open>DLOAD/ArrayList.c\<close>), and the linked \<open>Queue\<close> and
  \<open>Stack\<close> that the macros of \<open>DLOAD/Queue.h\<close> and \<open>DLOAD/Stack.h\<close> define. The linked
  containers are modelled with an explicit heap of nodes, node addresses and a bump allocator
  for \<open>DLIF_malloc\<close> (which is taken to succeed); freed addresses are not reused, so that a use
  of a freed node is visible as \<^const>\<open>Undefined\<close>. The locales \<open>fifo\<close>, \<open>lifo\<close> and
  \<open>growing_array\<close> are what the loader relies on; the interpretations discharge them for the
  pointer-level code, which is why the loader's state holds plain lists.
\<close>

subsection \<open>The interfaces\<close>

locale growing_array =
  fixes init :: "nat \<Rightarrow> 'al"
    and append :: "'al \<Rightarrow> 'a \<Rightarrow> 'al result"
    and size_of :: "'al \<Rightarrow> nat"
    and elems :: "'al \<Rightarrow> 'a list"
    and invar :: "'al \<Rightarrow> bool"
  assumes init_invar: "invar (init n)"
    and init_elems: "elems (init n) = []"
    and append_ok: "invar a \<Longrightarrow> \<exists>a'. append a x = Inr a' \<and> invar a' \<and> elems a' = elems a @ [x]"
    and size_elems: "invar a \<Longrightarrow> size_of a = length (elems a)"
begin

definition append_all :: "'a list \<Rightarrow> 'al \<Rightarrow> 'al result" where
  "append_all xs a = foldR (\<lambda>x s. append s x) xs a"

lemma append_all_ok:
  "invar a \<Longrightarrow> \<exists>a'. append_all xs a = Inr a' \<and> invar a' \<and> elems a' = elems a @ xs"
proof (induction xs arbitrary: a)
  case Nil
  then show ?case by (simp add: append_all_def)
next
  case (Cons x xs)
  from append_ok[OF Cons.prems, of x] obtain b
    where b: "append a x = Inr b" "invar b" "elems b = elems a @ [x]" by blast
  from Cons.IH[OF b(2)] obtain c
    where "append_all xs b = Inr c" "invar c" "elems c = elems b @ xs" by blast
  with b show ?case by (simp add: append_all_def)
qed

lemma built_from_scratch:
  "\<exists>a'. append_all xs (init n) = Inr a' \<and> invar a' \<and> elems a' = xs \<and> size_of a' = length xs"
  using append_all_ok[OF init_invar, of xs n] size_elems by (auto simp: init_elems)

end

locale fifo =
  fixes enq :: "'s \<Rightarrow> 'a \<Rightarrow> 's result"
    and deq :: "'s \<Rightarrow> ('a option \<times> 's) result"
    and rem :: "'s \<Rightarrow> 'a \<Rightarrow> 's result"
    and holds :: "'s \<Rightarrow> 'a list \<Rightarrow> bool"
  assumes enq_ok: "holds s xs \<Longrightarrow> \<exists>s'. enq s x = Inr s' \<and> holds s' (xs @ [x])"
    and deq_empty: "holds s [] \<Longrightarrow> deq s = Inr (None, s)"
    and deq_ok: "holds s (x # xs) \<Longrightarrow> \<exists>s'. deq s = Inr (Some x, s') \<and> holds s' xs"
    and rem_ok: "holds s xs \<Longrightarrow> \<exists>s'. rem s x = Inr s' \<and> holds s' (remove1 x xs)"
begin

lemma enq_all_ok:
  "holds s xs \<Longrightarrow> \<exists>s'. foldR (\<lambda>x t. enq t x) ys s = Inr s' \<and> holds s' (xs @ ys)"
proof (induction ys arbitrary: s xs)
  case Nil
  then show ?case by simp
next
  case (Cons y ys)
  from enq_ok[OF Cons.prems, of y] obtain t where t: "enq s y = Inr t" "holds t (xs @ [y])" by blast
  from Cons.IH[OF t(2)] t(1) show ?case by auto
qed

text \<open>Elements come out in the order they went in, also after a removal.\<close>

lemma enq_rem_deq:
  assumes "holds s []" and "y # ys = remove1 z xs"
  shows "\<exists>s1 s2 s3. foldR (\<lambda>x t. enq t x) xs s = Inr s1 \<and> rem s1 z = Inr s2 \<and>
     deq s2 = Inr (Some y, s3) \<and> holds s3 ys"
proof -
  from enq_all_ok[OF assms(1), of xs] obtain s1
    where s1: "foldR (\<lambda>x t. enq t x) xs s = Inr s1" "holds s1 xs" by auto
  from rem_ok[OF s1(2), of z] assms(2) obtain s2
    where s2: "rem s1 z = Inr s2" "holds s2 (y # ys)" by auto
  from deq_ok[OF s2(2)] s1 s2 show ?thesis by blast
qed

end

locale lifo =
  fixes push :: "'s \<Rightarrow> 'a \<Rightarrow> 's result"
    and pop :: "'s \<Rightarrow> ('a \<times> 's) result"
    and stacked :: "'s \<Rightarrow> 'a list \<Rightarrow> bool"
  assumes push_ok: "stacked s xs \<Longrightarrow> \<exists>s'. push s x = Inr s' \<and> stacked s' (x # xs)"
    and pop_ok: "stacked s (x # xs) \<Longrightarrow> \<exists>s'. pop s = Inr (x, s') \<and> stacked s' xs"
begin

lemma push_pop:
  assumes "stacked s xs"
  shows "\<exists>s1 s2. push s x = Inr s1 \<and> pop s1 = Inr (x, s2) \<and> stacked s2 xs"
  using push_ok[OF assms, of x] pop_ok by blast

end

subsection \<open>Array\_List\<close>

text \<open>
  \<open>buf\<close> is the malloc'ed array of \<open>buffer_size\<close> slots, \<open>None\<close> in a slot that was never
  written; slots hold whole elements (\<open>type_size\<close> bytes are always copied together). An append
  beyond the array is undefined behaviour.
\<close>

record 'a Array_List =
  buf :: "'a option list"
  al_size :: nat
  buffer_size :: nat

definition AL_initialize :: "nat \<Rightarrow> 'a Array_List" where
  "AL_initialize num_elem = (let num_elem = (if num_elem = 0 then 1 else num_elem)
     in \<lparr>buf = replicate num_elem None, al_size = 0, buffer_size = num_elem\<rparr>)"

definition al_put :: "'a Array_List \<Rightarrow> 'a \<Rightarrow> 'a Array_List result" where
  "al_put obj x = (if al_size obj < length (buf obj)
     then Inr (obj\<lparr>buf := (buf obj)[al_size obj := Some x], al_size := al_size obj + 1\<rparr>)
     else Inl Undefined)"

definition AL_append :: "'a Array_List \<Rightarrow> 'a \<Rightarrow> 'a Array_List result" where
  "AL_append obj to_append =
     (if al_size obj < buffer_size obj then al_put obj to_append
      else let old_buffer = buf obj; n = buffer_size obj * 2
        in if al_size obj \<le> length old_buffer \<and> al_size obj \<le> n
           then al_put (obj\<lparr>buffer_size := n,
                  buf := take (al_size obj) old_buffer @ replicate (n - al_size obj) None\<rparr>) to_append
           else Inl Undefined)"

definition AL_size :: "'a Array_List \<Rightarrow> nat" where
  "AL_size obj = al_size obj"

definition al_elems :: "'a Array_List \<Rightarrow> 'a list" where
  "al_elems obj = map the (take (al_size obj) (buf obj))"

definition al_invar :: "'a Array_List \<Rightarrow> bool" where
  "al_invar obj \<longleftrightarrow> 0 < buffer_size obj \<and> al_size obj \<le> buffer_size obj \<and>
     length (buf obj) = buffer_size obj \<and> None \<notin> set (take (al_size obj) (buf obj))"

lemma al_put_ok:
  assumes "al_invar obj" and "al_size obj < buffer_size obj"
  shows "\<exists>obj'. al_put obj x = Inr obj' \<and> al_invar obj' \<and> al_elems obj' = al_elems obj @ [x]
     \<and> buffer_size obj' = buffer_size obj"
  using assms
  by (auto simp: al_put_def al_invar_def al_elems_def take_Suc_conv_app_nth)

lemma AL_append_ok:
  assumes "al_invar obj"
  shows "\<exists>obj'. AL_append obj x = Inr obj' \<and> al_invar obj' \<and> al_elems obj' = al_elems obj @ [x]"
proof (cases "al_size obj < buffer_size obj")
  case True
  with al_put_ok[OF assms True, of x] show ?thesis by (auto simp: AL_append_def)
next
  case False
  let ?grown = "obj\<lparr>buffer_size := buffer_size obj * 2,
    buf := take (al_size obj) (buf obj) @ replicate (buffer_size obj * 2 - al_size obj) None\<rparr>"
  from assms False have "al_invar ?grown" and "al_size ?grown < buffer_size ?grown"
    and "al_elems ?grown = al_elems obj"
    by (auto simp: al_invar_def al_elems_def)
  with al_put_ok[of ?grown x] assms False show ?thesis
    by (auto simp: AL_append_def al_invar_def)
qed

interpretation al: growing_array AL_initialize AL_append AL_size al_elems al_invar
proof unfold_locales
  show "al_invar (AL_initialize n :: 'a Array_List)" for n
    by (simp add: al_invar_def AL_initialize_def)
  show "al_elems (AL_initialize n :: 'a Array_List) = []" for n
    by (simp add: al_elems_def AL_initialize_def)
  show "\<exists>a'. AL_append a x = Inr a' \<and> al_invar a' \<and> al_elems a' = al_elems a @ [x]"
    if "al_invar a" for a :: "'a Array_List" and x
    using that by (rule AL_append_ok)
  show "AL_size a = length (al_elems a)" if "al_invar a" for a :: "'a Array_List"
    using that by (simp add: AL_size_def al_elems_def al_invar_def)
qed

subsection \<open>Linked nodes and their heap\<close>

record 'a node =
  node_value :: 'a
  next_ptr :: "nat option"

record 'a node_heap =
  cells :: "nat \<rightharpoonup> 'a node"
  brk :: nat

definition heap_ok :: "'a node_heap \<Rightarrow> bool" where
  "heap_ok h \<longleftrightarrow> (\<forall>a \<in> dom (cells h). a < brk h)"

text \<open>
  \<open>malloc_node\<close> is \<open>DLIF_malloc\<close> followed by the assignments of both fields, which the code
  makes before anything else reads the node.
\<close>

definition malloc_node :: "'a node_heap \<Rightarrow> 'a node \<Rightarrow> nat \<times> 'a node_heap" where
  "malloc_node h n = (brk h, h\<lparr>cells := (cells h)(brk h \<mapsto> n), brk := Suc (brk h)\<rparr>)"

definition free_node :: "'a node_heap \<Rightarrow> nat \<Rightarrow> 'a node_heap result" where
  "free_node h a = (if a \<in> dom (cells h) then Inr (h\<lparr>cells := (cells h)(a := None)\<rparr>)
     else Inl Undefined)"

definition set_next :: "'a node_heap \<Rightarrow> nat \<Rightarrow> nat option \<Rightarrow> 'a node_heap result" where
  "set_next h a p = bindR (deref (cells h a))
     (\<lambda>n. Inr (h\<lparr>cells := (cells h)(a \<mapsto> n\<lparr>next_ptr := p\<rparr>)\<rparr>))"

fun path :: "(nat \<rightharpoonup> 'a node) \<Rightarrow> nat option \<Rightarrow> (nat \<times> 'a) list \<Rightarrow> nat option \<Rightarrow> bool" where
  "path c p [] e \<longleftrightarrow> p = e"
| "path c p ((a, v) # as) e \<longleftrightarrow> p = Some a \<and>
     (\<exists>n. c a = Some \<lparr>node_value = v, next_ptr = n\<rparr> \<and> path c n as e)"

abbreviation addrs :: "(nat \<times> 'a) list \<Rightarrow> nat set" where
  "addrs as \<equiv> set (map fst as)"

lemma path_append: "path c p (as @ bs) e \<longleftrightarrow> (\<exists>m. path c p as m \<and> path c m bs e)"
  by (induction as arbitrary: p) fastforce+

lemma path_upd [simp]: "a \<notin> addrs as \<Longrightarrow> path (c(a := x)) p as e = path c p as e"
  by (induction as arbitrary: p) auto

lemma path_dom: "path c p as e \<Longrightarrow> addrs as \<subseteq> dom c"
  by (induction as arbitrary: p) fastforce+

lemma path_end: "path c p as e \<Longrightarrow> as \<noteq> [] \<Longrightarrow> p = Some (fst (hd as))"
  by (cases as) auto

lemma path_set_last:
  assumes "path c p (as @ [(b, v)]) e" and "distinct (map fst (as @ [(b, v)]))"
  shows "path (c(b \<mapsto> \<lparr>node_value = v, next_ptr = e'\<rparr>)) p (as @ [(b, v)]) e'"
  using assms by (auto simp: path_append)

lemma heap_ok_malloc: "heap_ok h \<Longrightarrow>
    heap_ok (h\<lparr>cells := (cells h)(brk h \<mapsto> n), brk := Suc (brk h)\<rparr>)"
  by (auto simp: heap_ok_def less_Suc_eq)

lemma heap_ok_upd: "heap_ok h \<Longrightarrow> a \<in> dom (cells h) \<Longrightarrow> heap_ok (h\<lparr>cells := (cells h)(a := n)\<rparr>)"
  by (auto simp: heap_ok_def)

lemma path_length:
  assumes "heap_ok h" and "path (cells h) p as e" and "distinct (map fst as)"
  shows "length as \<le> brk h"
proof -
  have "addrs as \<subseteq> {..<brk h}"
    using path_dom[OF assms(2)] assms(1) by (auto simp: heap_ok_def)
  then have "card (addrs as) \<le> brk h" using card_mono[of "{..<brk h}" "addrs as"] by simp
  then show ?thesis using distinct_card[OF assms(3)] by simp
qed

subsection \<open>Queue\<close>

record Queue =
  front_ptr :: "nat option"
  back_ptr :: "nat option"
  q_size :: nat

definition initialize_queue :: Queue where
  "initialize_queue = \<lparr>front_ptr = None, back_ptr = None, q_size = 0\<rparr>"

fun enqueue :: "'a node_heap \<times> Queue \<Rightarrow> 'a \<Rightarrow> ('a node_heap \<times> Queue) result" where
  "enqueue (h, queue) to_enqueue =
     (let queue = queue\<lparr>q_size := q_size queue + 1\<rparr>;
          (p, h) = malloc_node h \<lparr>node_value = to_enqueue, next_ptr = None\<rparr>
      in case back_ptr queue of
           None \<Rightarrow> Inr (h, queue\<lparr>back_ptr := Some p, front_ptr := Some p\<rparr>)
         | Some b \<Rightarrow> bindR (set_next h b (Some p))
             (\<lambda>h. Inr (h, queue\<lparr>back_ptr := Some p\<rparr>)))"

text \<open>\<open>None\<close> is the \<open>(t) NULL\<close> that an empty queue yields.\<close>

fun dequeue :: "'a node_heap \<times> Queue \<Rightarrow> ('a option \<times> 'a node_heap \<times> Queue) result" where
  "dequeue (h, queue) =
     (if q_size queue = 0 then Inr (None, h, queue)
      else bindR (deref (front_ptr queue)) (\<lambda>f.
           bindR (deref (cells h f)) (\<lambda>n.
           bindR (free_node h f) (\<lambda>h.
             let queue = queue\<lparr>q_size := q_size queue - 1\<rparr>
             in if q_size queue = 0
                then Inr (Some (node_value n), h, queue\<lparr>front_ptr := None, back_ptr := None\<rparr>)
                else Inr (Some (node_value n), h, queue\<lparr>front_ptr := next_ptr n\<rparr>)))))"

text \<open>
  The search loop of \<open>remove\<close>, with the loop variables \<open>prev_ptr\<close> and \<open>curr_ptr\<close>; the result
  adds \<open>next_ptr\<close>. A walk over more nodes than were ever allocated repeats a node and never
  ends, so \<open>brk\<close> many rounds decide it.
\<close>

fun scan_queue :: "nat \<Rightarrow> (nat \<rightharpoonup> 'a node) \<Rightarrow> 'a \<Rightarrow> nat option \<Rightarrow> nat option
    \<Rightarrow> (nat option \<times> nat option \<times> nat option) result" where
  "scan_queue fuel c to_remove prev None = Inr (prev, None, None)"
| "scan_queue 0 c to_remove prev (Some a) = Inl Diverge"
| "scan_queue (Suc fuel) c to_remove prev (Some a) = bindR (deref (c a)) (\<lambda>n.
     if node_value n = to_remove then Inr (prev, Some a, next_ptr n)
     else scan_queue fuel c to_remove (Some a) (next_ptr n))"

definition unlink_node :: "'a node_heap \<Rightarrow> nat option \<Rightarrow> nat option \<Rightarrow> 'a node_heap result" where
  "unlink_node h prev next =
     (case prev of None \<Rightarrow> Inr h | Some b \<Rightarrow> set_next h b next)"

fun queue_remove :: "'a node_heap \<times> Queue \<Rightarrow> 'a \<Rightarrow> ('a node_heap \<times> Queue) result" where
  "queue_remove (h, queue) to_remove =
     bindR (scan_queue (brk h) (cells h) to_remove None (front_ptr queue)) (\<lambda>(prev, curr, next).
     bindR (case curr of
              None \<Rightarrow> Inr (h, queue)
            | Some a \<Rightarrow> bindR (unlink_node h prev next) (\<lambda>h.
                bindR (free_node h a) (\<lambda>h. Inr (h, queue\<lparr>q_size := q_size queue - 1\<rparr>))))
       (\<lambda>(h, queue).
          if q_size queue = 0 then Inr (h, queue\<lparr>front_ptr := None, back_ptr := None\<rparr>)
          else let queue = (if prev = None then queue\<lparr>front_ptr := next\<rparr> else queue);
                   queue = (if next = None then queue\<lparr>back_ptr := prev\<rparr> else queue)
               in Inr (h, queue)))"

definition queue_nodes :: "'a node_heap \<times> Queue \<Rightarrow> (nat \<times> 'a) list \<Rightarrow> bool" where
  "queue_nodes = (\<lambda>(h, queue) as. heap_ok h \<and> path (cells h) (front_ptr queue) as None \<and>
     distinct (map fst as) \<and> q_size queue = length as \<and>
     back_ptr queue = (if as = [] then None else Some (fst (last as))))"

definition queue_holds :: "'a node_heap \<times> Queue \<Rightarrow> 'a list \<Rightarrow> bool" where
  "queue_holds s xs \<longleftrightarrow> (\<exists>as. queue_nodes s as \<and> map snd as = xs)"

lemma fresh_not_in_path: "heap_ok h \<Longrightarrow> path (cells h) p as e \<Longrightarrow> brk h \<notin> addrs as"
  using path_dom[of "cells h" p as e] by (fastforce simp: heap_ok_def)

lemma enqueue_nodes:
  assumes "queue_nodes (h, q) as"
  shows "\<exists>s'. enqueue (h, q) x = Inr s' \<and> queue_nodes s' (as @ [(brk h, x)])"
proof (cases as rule: rev_cases)
  case Nil
  with assms show ?thesis
    by (auto simp: queue_nodes_def malloc_node_def heap_ok_malloc)
next
  case (snoc bs b)
  obtain a v where b: "b = (a, v)" by (cases b)
  from assms snoc b have p: "path (cells h) (front_ptr q) (bs @ [(a, v)]) None"
    and d: "distinct (map fst (bs @ [(a, v)]))" and ok: "heap_ok h"
    and bk: "back_ptr q = Some a" and sz: "q_size q = Suc (length bs)"
    by (auto simp: queue_nodes_def)
  from p have a: "cells h a = Some \<lparr>node_value = v, next_ptr = None\<rparr>"
    by (auto simp: path_append)
  have fresh: "brk h \<notin> addrs (bs @ [(a, v)])" using fresh_not_in_path[OF ok p] .
  let ?n = "\<lparr>node_value = x, next_ptr = None\<rparr>"
  let ?c = "(cells h)(brk h \<mapsto> ?n, a \<mapsto> \<lparr>node_value = v, next_ptr = Some (brk h)\<rparr>)"
  have "path ?c (front_ptr q) (bs @ [(a, v)]) (Some (brk h))"
    by (rule path_set_last[where e = None]) (use p d fresh in simp_all)
  then have pc: "path ?c (front_ptr q) ((bs @ [(a, v)]) @ [(brk h, x)]) None"
    using fresh by (auto simp: path_append)
  have "heap_ok (h\<lparr>brk := Suc (brk h), cells := ?c\<rparr>)"
    using ok a by (auto simp: heap_ok_def less_Suc_eq)
  with pc a bk sz fresh d show ?thesis
    by (auto simp: queue_nodes_def malloc_node_def set_next_def snoc b)
qed

lemma dequeue_nodes:
  assumes "queue_nodes (h, q) ((a, x) # as)"
  shows "\<exists>s'. dequeue (h, q) = Inr (Some x, s') \<and> queue_nodes s' as"
  using assms by (auto simp: queue_nodes_def free_node_def heap_ok_upd domIff)

abbreviation last_addr :: "(nat \<times> 'a) list \<Rightarrow> nat option \<Rightarrow> nat option" where
  "last_addr as p \<equiv> (if as = [] then p else Some (fst (last as)))"

lemma scan_queue_absent:
  assumes "path c p as None" and "x \<notin> set (map snd as)" and "length as \<le> fuel"
  shows "scan_queue fuel c x prev p = Inr (last_addr as prev, None, None)"
  using assms
proof (induction as arbitrary: p prev fuel)
  case Nil
  then show ?case by simp
next
  case (Cons b as)
  obtain a v where b: "b = (a, v)" by (cases b)
  from Cons.prems(3) obtain k where k: "fuel = Suc k" "length as \<le> k" by (cases fuel) auto
  from Cons.prems b obtain n where n: "c a = Some \<lparr>node_value = v, next_ptr = n\<rparr>"
    "path c n as None" "p = Some a" by auto
  from Cons.IH[OF n(2) _ k(2), of "Some a"] Cons.prems(2) n b k(1) show ?case by auto
qed

lemma scan_queue_present:
  assumes "path c p (bs @ (a, x) # cs) None" and "x \<notin> set (map snd bs)"
    and "length (bs @ (a, x) # cs) \<le> fuel"
  shows "\<exists>n. path c p bs (Some a) \<and> c a = Some \<lparr>node_value = x, next_ptr = n\<rparr> \<and> path c n cs None \<and>
     scan_queue fuel c x prev p = Inr (last_addr bs prev, Some a, n)"
  using assms
proof (induction bs arbitrary: p prev fuel)
  case Nil
  then show ?case by (cases fuel) auto
next
  case (Cons b bs)
  obtain d v where b: "b = (d, v)" by (cases b)
  from Cons.prems(3) obtain k where k: "fuel = Suc k" "length (bs @ (a, x) # cs) \<le> k"
    by (cases fuel) auto
  from Cons.prems b obtain n where n: "c d = Some \<lparr>node_value = v, next_ptr = n\<rparr>"
    "path c n (bs @ (a, x) # cs) None" "p = Some d" by auto
  from Cons.IH[OF n(2) _ k(2), of "Some d"] Cons.prems(2) n b k(1) show ?case by auto
qed

text \<open>Unlinking the node behind \<open>bs\<close> joins the two parts of the list.\<close>

lemma unlink_joins:
  assumes "path c p bs (Some a)" and "path c n cs None" and "a \<notin> addrs (bs @ cs)"
    and "distinct (map fst (bs @ cs))" and "bs \<noteq> []"
  shows "\<exists>v. c (fst (last bs)) = Some \<lparr>node_value = v, next_ptr = Some a\<rparr> \<and>
     path (c(fst (last bs) \<mapsto> \<lparr>node_value = v, next_ptr = n\<rparr>, a := None)) p (bs @ cs) None"
proof -
  obtain ds d v where bs: "bs = ds @ [(d, v)]"
    using assms(5) by (metis rev_exhaust surj_pair)
  from assms(1) bs have d: "c d = Some \<lparr>node_value = v, next_ptr = Some a\<rparr>"
    by (auto simp: path_append)
  have "path (c(d \<mapsto> \<lparr>node_value = v, next_ptr = n\<rparr>)) p bs n"
    using path_set_last[of c p ds d v "Some a" n] assms(1,4) bs by auto
  with assms(2,3,4) bs have "path (c(d \<mapsto> \<lparr>node_value = v, next_ptr = n\<rparr>)) p (bs @ cs) None"
    unfolding path_append[of _ p bs] by (intro exI[of _ n]) auto
  with d bs assms(3) show ?thesis by auto
qed

lemma queue_remove_present:
  assumes "queue_nodes (h, q) (bs @ (a, x) # cs)" and "x \<notin> set (map snd bs)"
  shows "\<exists>s'. queue_remove (h, q) x = Inr s' \<and> queue_nodes s' (bs @ cs)"
proof -
  let ?as = "bs @ (a, x) # cs"
  from assms(1) have ok: "heap_ok h" and p: "path (cells h) (front_ptr q) ?as None"
    and d: "distinct (map fst ?as)" and sz: "q_size q = length ?as"
    and bk: "back_ptr q = Some (fst (last ?as))"
    by (auto simp: queue_nodes_def split: if_splits)
  from scan_queue_present[OF p assms(2) path_length[OF ok p d], of None] obtain n
    where n: "path (cells h) (front_ptr q) bs (Some a)" "path (cells h) n cs None"
      and ca: "cells h a = Some \<lparr>node_value = x, next_ptr = n\<rparr>"
      and scan: "scan_queue (brk h) (cells h) x None (front_ptr q) = Inr (last_addr bs None, Some a, n)"
    by blast
  have nn: "n = None \<longleftrightarrow> cs = []" using n(2) by (cases cs) auto
  show ?thesis
  proof (cases "bs = []")
    case True
    with n(2) scan ca ok sz bk d nn show ?thesis
      by (auto simp: queue_nodes_def unlink_node_def free_node_def heap_ok_upd domIff)
  next
    case False
    from unlink_joins[OF n _ _ False] d obtain v
      where v: "cells h (fst (last bs)) = Some \<lparr>node_value = v, next_ptr = Some a\<rparr>"
        and j: "path ((cells h)(fst (last bs) \<mapsto> \<lparr>node_value = v, next_ptr = n\<rparr>, a := None))
          (front_ptr q) (bs @ cs) None" by auto
    have neq: "a \<noteq> fst (last bs)" using d False by (auto dest: last_in_set)
    have "heap_ok (h\<lparr>cells := (cells h)(fst (last bs) \<mapsto> \<lparr>node_value = v, next_ptr = n\<rparr>, a := None)\<rparr>)"
      using ok v ca by (auto simp: heap_ok_def domIff)
    with j v ca neq scan False sz bk d nn show ?thesis
      by (auto simp: queue_nodes_def unlink_node_def free_node_def set_next_def)
  qed
qed

lemma queue_remove_absent:
  assumes "queue_nodes (h, q) as" and "x \<notin> set (map snd as)"
  shows "\<exists>s'. queue_remove (h, q) x = Inr s' \<and> queue_nodes s' as"
proof -
  from assms(1) have ok: "heap_ok h" and p: "path (cells h) (front_ptr q) as None"
    and d: "distinct (map fst as)" by (auto simp: queue_nodes_def)
  from scan_queue_absent[OF p assms(2) path_length[OF ok p d], of None] assms(1)
  show ?thesis by (auto simp: queue_nodes_def)
qed

lemma remove1_split:
  "x \<notin> set bs \<Longrightarrow> remove1 x (bs @ x # cs) = bs @ cs"
  by (simp add: remove1_append)

interpretation lq: fifo enqueue dequeue queue_remove queue_holds
proof unfold_locales
  fix s :: "'a node_heap \<times> Queue" and xs :: "'a list" and x :: 'a
  obtain h q where s: "s = (h, q)" by (cases s)
  show "queue_holds s xs \<Longrightarrow> \<exists>s'. enqueue s x = Inr s' \<and> queue_holds s' (xs @ [x])"
    using enqueue_nodes[of h q _ x] by (fastforce simp: queue_holds_def s simp del: enqueue.simps)
  show "queue_holds s [] \<Longrightarrow> dequeue s = Inr (None, s)"
    by (auto simp: queue_holds_def queue_nodes_def s)
  show "queue_holds s (x # xs) \<Longrightarrow> \<exists>s'. dequeue s = Inr (Some x, s') \<and> queue_holds s' xs"
    using dequeue_nodes[of h q _ x]
    by (fastforce simp: queue_holds_def s map_eq_Cons_conv simp del: dequeue.simps)
  show "\<exists>s'. queue_remove s x = Inr s' \<and> queue_holds s' (remove1 x xs)" if "queue_holds s xs"
  proof -
    from that obtain as where as: "queue_nodes (h, q) as" "map snd as = xs"
      by (auto simp: queue_holds_def s)
    show ?thesis
    proof (cases "x \<in> set xs")
      case False
      with queue_remove_absent[OF as(1), of x] as(2) show ?thesis
        by (auto simp: queue_holds_def s remove1_idem simp del: queue_remove.simps)
    next
      case True
      then obtain ys zs where "xs = ys @ x # zs" "x \<notin> set ys" by (meson split_list_first)
      moreover from this(1) as(2) obtain bs a cs
        where "as = bs @ (a, x) # cs" "map snd bs = ys" "map snd cs = zs"
        by (auto simp: map_eq_append_conv map_eq_Cons_conv)
      ultimately show ?thesis
        using queue_remove_present[of h q bs a x cs] as(1)
        by (fastforce simp: queue_holds_def s remove1_split simp del: queue_remove.simps)
    qed
  qed
qed

subsection \<open>Stack\<close>

record Stack =
  top_ptr :: "nat option"
  bottom_ptr :: "nat option"
  s_size :: nat

definition initialize_stack :: Stack where
  "initialize_stack = \<lparr>top_ptr = None, bottom_ptr = None, s_size = 0\<rparr>"

fun push :: "'a node_heap \<times> Stack \<Rightarrow> 'a \<Rightarrow> ('a node_heap \<times> Stack) result" where
  "push (h, stack) to_push =
     (let stack = stack\<lparr>s_size := s_size stack + 1\<rparr>
      in case top_ptr stack of
           None \<Rightarrow> let (p, h) = malloc_node h \<lparr>node_value = to_push, next_ptr = None\<rparr>
             in Inr (h, stack\<lparr>bottom_ptr := Some p, top_ptr := Some p\<rparr>)
         | Some t \<Rightarrow> let (p, h) = malloc_node h \<lparr>node_value = to_push, next_ptr = Some t\<rparr>
             in Inr (h, stack\<lparr>top_ptr := Some p\<rparr>))"

text \<open>Unlike \<open>dequeue\<close>, \<open>pop\<close> dereferences \<open>top_ptr\<close> without looking at the size.\<close>

fun pop :: "'a node_heap \<times> Stack \<Rightarrow> ('a \<times> 'a node_heap \<times> Stack) result" where
  "pop (h, stack) =
     bindR (deref (top_ptr stack)) (\<lambda>t.
     bindR (deref (cells h t)) (\<lambda>n.
     bindR (free_node h t) (\<lambda>h.
       let stack = stack\<lparr>s_size := s_size stack - 1\<rparr>
       in if s_size stack = 0
          then Inr (node_value n, h, stack\<lparr>top_ptr := None, bottom_ptr := None\<rparr>)
          else Inr (node_value n, h, stack\<lparr>top_ptr := next_ptr n\<rparr>))))"

definition stack_nodes :: "'a node_heap \<times> Stack \<Rightarrow> (nat \<times> 'a) list \<Rightarrow> bool" where
  "stack_nodes = (\<lambda>(h, stack) as. heap_ok h \<and> path (cells h) (top_ptr stack) as None \<and>
     distinct (map fst as) \<and> s_size stack = length as \<and> bottom_ptr stack = last_addr as None)"

definition stack_holds :: "'a node_heap \<times> Stack \<Rightarrow> 'a list \<Rightarrow> bool" where
  "stack_holds s xs \<longleftrightarrow> (\<exists>as. stack_nodes s as \<and> map snd as = xs)"

lemma push_nodes:
  assumes "stack_nodes (h, st) as"
  shows "\<exists>s'. push (h, st) x = Inr s' \<and> stack_nodes s' ((brk h, x) # as)"
proof (cases as)
  case Nil
  with assms show ?thesis by (auto simp: stack_nodes_def malloc_node_def heap_ok_malloc)
next
  case (Cons b bs)
  have "brk h \<notin> addrs as"
    using assms fresh_not_in_path by (fastforce simp: stack_nodes_def)
  with assms Cons show ?thesis
    by (cases b) (auto simp: stack_nodes_def malloc_node_def heap_ok_malloc)
qed

lemma pop_nodes:
  assumes "stack_nodes (h, st) ((a, x) # as)"
  shows "\<exists>s'. pop (h, st) = Inr (x, s') \<and> stack_nodes s' as"
  using assms by (auto simp: stack_nodes_def free_node_def heap_ok_upd domIff)

interpretation ls: lifo push pop stack_holds
proof unfold_locales
  fix s :: "'a node_heap \<times> Stack" and xs :: "'a list" and x :: 'a
  obtain h st where s: "s = (h, st)" by (cases s)
  show "stack_holds s xs \<Longrightarrow> \<exists>s'. push s x = Inr s' \<and> stack_holds s' (x # xs)"
    using push_nodes[of h st _ x] by (fastforce simp: stack_holds_def s simp del: push.simps)
  show "stack_holds s (x # xs) \<Longrightarrow> \<exists>s'. pop s = Inr (x, s') \<and> stack_holds s' xs"
    using pop_nodes[of h st _ x]
    by (fastforce simp: stack_holds_def s map_eq_Cons_conv simp del: pop.simps)
qed

text \<open>The bottom of a non-empty stack is the element pushed first.\<close>

lemma stack_bottom_first:
  assumes "stack_nodes (h, st) as" and "as \<noteq> []"
  shows "\<exists>b n. bottom_ptr st = Some b \<and> cells h b = Some n \<and> node_value n = last (map snd as)"
proof -
  obtain bs a v where as: "as = bs @ [(a, v)]" using assms(2) by (metis rev_exhaust surj_pair)
  with assms(1) show ?thesis by (auto simp: stack_nodes_def path_append)
qed

subsection \<open>Properties\<close>

text \<open>Appending a sequence to a freshly initialised array list never fails,
  however often the buffer has to be doubled, and the array then holds exactly that sequence.\<close>

lemma array_list_is_list:
  "\<exists>a'. foldR (\<lambda>x s. AL_append s x) xs (AL_initialize n) = Inr a' \<and> al_invar a' \<and>
     al_elems a' = xs \<and> AL_size a' = length xs"
  using al.built_from_scratch[of xs n] by (simp add: al.append_all_def)

text \<open>C32: the linked queue behaves as a list: after enqueuing a sequence and
  removing a value, dequeuing yields what is first when the first occurrence of that value is
  taken out of the sequence, and the rest stays in the queue; no pointer dangles on the way.\<close>

theorem queue_is_fifo:
  assumes "queue_holds s []" and "y # ys = remove1 z xs"
  shows "\<exists>s1 s2 s3. foldR (\<lambda>x t. enqueue t x) xs s = Inr s1 \<and> queue_remove s1 z = Inr s2 \<and>
     dequeue s2 = Inr (Some y, s3) \<and> queue_holds s3 ys"
  using assms by (rule lq.enq_rem_deq)

theorem queue_is_fifo_witness:
  "\<exists>s1 s2 s3. foldR (\<lambda>x t. enqueue t x) [1 :: nat, 2, 3] (\<lparr>cells = Map.empty, brk = 0\<rparr>, initialize_queue) = Inr s1 \<and>
     queue_remove s1 1 = Inr s2 \<and> dequeue s2 = Inr (Some 2, s3) \<and> queue_holds s3 [3]"
proof (rule queue_is_fifo)
  show "queue_holds (\<lparr>cells = Map.empty, brk = 0\<rparr>, initialize_queue) ([] :: nat list)"
    by (simp add: queue_holds_def queue_nodes_def heap_ok_def initialize_queue_def)
  show "2 # [3] = remove1 (1 :: nat) [1, 2, 3]" by simp
qed

text \<open>Pushing a module on the dependency stack and popping it returns it and
  leaves the stack holding what it held.\<close>

lemma stack_is_lifo:
  assumes "stack_holds s xs"
  shows "\<exists>s1 s2. push s x = Inr s1 \<and> stack_holds s1 (x # xs) \<and> pop s1 = Inr (x, s2) \<and> stack_holds s2 xs"
proof -
  obtain s1 where "push s x = Inr s1" and "stack_holds s1 (x # xs)" using ls.push_ok[OF assms] by blast
  then show ?thesis using ls.pop_ok[of s1 x xs] by blast
qed

end
