(* ===== verification/DLoad_Elf32.thy ===== *)
theory DLoad_Elf32
  imports DLoad_Prelude
begin

text \<open>
  The ELF-32 data model of \<open>DLOAD/elf32.h\<close> and \<open>C60_DLOAD_DYN/c60_elf32.h\<close>: file header,
  program headers, dynamic entries, symbols and relocation entries as records, the constants the
  loader compares them with, and the layout of each structure in a file (\<open>read_*\<close>, what
  \<open>DLIF_fread\<close> of the structure on a host of the given byte order sees).
\<close>

subsection \<open>Structures\<close>

record Elf32_Ehdr =
  e_ident :: "u8 list"
  e_type :: u16
  e_machine :: u16
  e_version :: u32
  e_entry :: u32
  e_phoff :: u32
  e_shoff :: u32
  e_flags :: u32
  e_ehsize :: u16
  e_phentsize :: u16
  e_phnum :: u16
  e_shentsize :: u16
  e_shnum :: u16
  e_shstrndx :: u16

record Elf32_Phdr =
  p_type :: u32
  p_offset :: u32
  p_vaddr :: u32
  p_paddr :: u32
  p_filesz :: u32
  p_memsz :: u32
  p_flags :: u32
  p_align :: u32

record Elf32_Sym =
  st_name :: u32
  st_value :: u32
  st_size :: u32
  st_info :: u8
  st_other :: u8
  st_shndx :: u16

record Elf32_Rel =
  r_offset :: u32
  r_info :: u32

record Elf32_Rela = Elf32_Rel +
  r_addend :: i32

text \<open>The union \<open>d_un\<close> has two names, \<open>d_val\<close> and \<open>d_ptr\<close>, for the same 32 bits.\<close>

record Elf32_Dyn =
  d_tag :: i32
  d_un :: u32

subsection \<open>Constants\<close>

abbreviation "EI_MAG0 \<equiv> 0 :: nat"
abbreviation "EI_MAG1 \<equiv> 1 :: nat"
abbreviation "EI_MAG2 \<equiv> 2 :: nat"
abbreviation "EI_MAG3 \<equiv> 3 :: nat"
abbreviation "EI_DATA \<equiv> 5 :: nat"
abbreviation "EI_OSABI \<equiv> 7 :: nat"
abbreviation "ELFMAG0 \<equiv> 0x7f :: int"
abbreviation "ELFMAG1 \<equiv> 0x45 :: int"
abbreviation "ELFMAG2 \<equiv> 0x4C :: int"
abbreviation "ELFMAG3 \<equiv> 0x46 :: int"
abbreviation "ELFDATA2LSB \<equiv> 1 :: int"
abbreviation "ELFDATA2MSB \<equiv> 2 :: int"
abbreviation "ELFOSABI_NONE \<equiv> 0 :: u8"
abbreviation "ELFOSABI_C6000_ELFABI \<equiv> 64 :: u8"
abbreviation "ET_EXEC \<equiv> 2 :: u16"
abbreviation "ET_DYN \<equiv> 3 :: u16"
abbreviation "EM_TI_C6000 \<equiv> 140 :: u16"

abbreviation "PT_NULL \<equiv> 0 :: u32"
abbreviation "PT_LOAD \<equiv> 1 :: u32"
abbreviation "PT_DYNAMIC \<equiv> 2 :: u32"
abbreviation "PF_X \<equiv> 1 :: u32"
abbreviation "PF_W \<equiv> 2 :: u32"

abbreviation "SHN_UNDEF \<equiv> 0 :: u16"
abbreviation "SHN_LORESERVE \<equiv> 0xff00 :: u16"
abbreviation "SHN_ABS \<equiv> 0xfff1 :: u16"
abbreviation "SHN_COMMON \<equiv> 0xfff2 :: u16"
abbreviation "SHN_XINDEX \<equiv> 0xffff :: u16"
abbreviation "STB_LOCAL \<equiv> 0 :: u8"
abbreviation "STB_GLOBAL \<equiv> 1 :: u8"
abbreviation "STV_DEFAULT \<equiv> 0 :: u8"

abbreviation "DT_NULL \<equiv> 0 :: i32"
abbreviation "DT_NEEDED \<equiv> 1 :: i32"
abbreviation "DT_PLTRELSZ \<equiv> 2 :: i32"
abbreviation "DT_PLTGOT \<equiv> 3 :: i32"
abbreviation "DT_HASH \<equiv> 4 :: i32"
abbreviation "DT_STRTAB \<equiv> 5 :: i32"
abbreviation "DT_SYMTAB \<equiv> 6 :: i32"
abbreviation "DT_RELA \<equiv> 7 :: i32"
abbreviation "DT_RELASZ \<equiv> 8 :: i32"
abbreviation "DT_RELAENT \<equiv> 9 :: i32"
abbreviation "DT_STRSZ \<equiv> 10 :: i32"
abbreviation "DT_SYMENT \<equiv> 11 :: i32"
abbreviation "DT_INIT \<equiv> 12 :: i32"
abbreviation "DT_FINI \<equiv> 13 :: i32"
abbreviation "DT_SONAME \<equiv> 14 :: i32"
abbreviation "DT_RPATH \<equiv> 15 :: i32"
abbreviation "DT_SYMBOLIC \<equiv> 16 :: i32"
abbreviation "DT_REL \<equiv> 17 :: i32"
abbreviation "DT_RELSZ \<equiv> 18 :: i32"
abbreviation "DT_RELENT \<equiv> 19 :: i32"
abbreviation "DT_PLTREL \<equiv> 20 :: i32"
abbreviation "DT_DEBUG \<equiv> 21 :: i32"
abbreviation "DT_TEXTREL \<equiv> 22 :: i32"
abbreviation "DT_JMPREL \<equiv> 23 :: i32"
abbreviation "DT_BIND_NOW \<equiv> 24 :: i32"
abbreviation "DT_INIT_ARRAY \<equiv> 25 :: i32"
abbreviation "DT_FINI_ARRAY \<equiv> 26 :: i32"
abbreviation "DT_INIT_ARRAYSZ \<equiv> 27 :: i32"
abbreviation "DT_FINI_ARRAYSZ \<equiv> 28 :: i32"
abbreviation "DT_RUNPATH \<equiv> 29 :: i32"
abbreviation "DT_FLAGS \<equiv> 30 :: i32"
abbreviation "DT_PREINIT_ARRAY \<equiv> 32 :: i32"
abbreviation "DT_PREINIT_ARRAYSZ \<equiv> 33 :: i32"
abbreviation "DT_C6000_GSYM_OFFSET \<equiv> 0x6000000D :: i32"
abbreviation "DT_C6000_GSTR_OFFSET \<equiv> 0x6000000F :: i32"
abbreviation "DT_C6000_DSBT_BASE \<equiv> 0x70000000 :: i32"
abbreviation "DT_C6000_DSBT_SIZE \<equiv> 0x70000001 :: i32"
abbreviation "DT_C6000_PREEMPTMAP \<equiv> 0x70000002 :: i32"
abbreviation "DT_C6000_DSBT_INDEX \<equiv> 0x70000003 :: i32"

subsection \<open>Access macros\<close>

definition ELF32_ST_BIND :: "u8 \<Rightarrow> u8" where
  "ELF32_ST_BIND i = drop_bit 4 i"

definition ELF32_ST_TYPE :: "u8 \<Rightarrow> u8" where
  "ELF32_ST_TYPE i = i AND 0xf"

definition ELF32_ST_INFO :: "u8 \<Rightarrow> u8 \<Rightarrow> u8" where
  "ELF32_ST_INFO b t = push_bit 4 b + (t AND 0xf)"

definition ELF32_ST_VISIBILITY :: "u8 \<Rightarrow> u8" where
  "ELF32_ST_VISIBILITY o' = o' AND 0x3"

definition ELF32_R_SYM :: "u32 \<Rightarrow> u32" where
  "ELF32_R_SYM i = drop_bit 8 i"

definition ELF32_R_TYPE :: "u32 \<Rightarrow> u8" where
  "ELF32_R_TYPE i = ucast (i AND 0xFF)"

definition ELF32_R_INFO :: "u32 \<Rightarrow> u8 \<Rightarrow> u32" where
  "ELF32_R_INFO s t = push_bit 8 s + ucast t"

lemma push_add_low:
  fixes a b :: "'a::len word"
  assumes "\<And>n. n \<ge> k \<Longrightarrow> \<not> bit b n"
  shows "push_bit k a + b = push_bit k a OR b"
  by (rule disjunctive_add) (use assms in \<open>auto simp: bit_simps\<close>)

lemma mask_0xF: "(0xF :: u8) = mask 4"
  by (simp add: mask_eq_exp_minus_1)

lemma mask_0xFF: "(0xFF :: u32) = mask 8"
  by (simp add: mask_eq_exp_minus_1)

lemma R_SYM_INFO: "ELF32_R_SYM (ELF32_R_INFO s t) = s AND mask 24"
proof (rule bit_word_eqI)
  fix n assume "n < LENGTH(32)"
  show "bit (ELF32_R_SYM (ELF32_R_INFO s t)) n = bit (s AND mask 24) n"
    unfolding ELF32_R_SYM_def ELF32_R_INFO_def
    by (subst push_add_low) (auto simp: bit_simps dest: bit_imp_le_length)
qed

lemma R_TYPE_INFO: "ELF32_R_TYPE (ELF32_R_INFO s t) = t"
proof (rule bit_word_eqI)
  fix n assume "n < LENGTH(8)"
  then show "bit (ELF32_R_TYPE (ELF32_R_INFO s t)) n = bit t n"
    unfolding ELF32_R_TYPE_def ELF32_R_INFO_def mask_0xFF
    by (subst push_add_low) (auto simp: bit_simps dest: bit_imp_le_length)
qed

lemma ST_BIND_INFO: "ELF32_ST_BIND (ELF32_ST_INFO b t) = b AND 0xf"
proof (rule bit_word_eqI)
  fix n assume "n < LENGTH(8)"
  show "bit (ELF32_ST_BIND (ELF32_ST_INFO b t)) n = bit (b AND 0xf) n"
    unfolding ELF32_ST_BIND_def ELF32_ST_INFO_def mask_0xF
    by (subst push_add_low) (auto simp: bit_simps dest: bit_imp_le_length)
qed

subsection \<open>Layout in a file\<close>

definition slice :: "nat \<Rightarrow> nat \<Rightarrow> 'a list \<Rightarrow> 'a list" where
  "slice off n bs = take n (drop off bs)"

definition u32_at :: "endian \<Rightarrow> u8 list \<Rightarrow> nat \<Rightarrow> u32" where
  "u32_at h bs off = word32 h (slice off 4 bs)"

definition u16_at :: "endian \<Rightarrow> u8 list \<Rightarrow> nat \<Rightarrow> u16" where
  "u16_at h bs off = word16 h (slice off 2 bs)"

definition sizeof_Ehdr :: nat where "sizeof_Ehdr = 52"
definition sizeof_Phdr :: nat where "sizeof_Phdr = 32"
definition sizeof_Dyn :: nat where "sizeof_Dyn = 8"
definition sizeof_Sym :: nat where "sizeof_Sym = 16"
definition sizeof_Rel :: nat where "sizeof_Rel = 8"
definition sizeof_Rela :: nat where "sizeof_Rela = 12"

lemmas sizeof_defs = sizeof_Ehdr_def sizeof_Phdr_def sizeof_Dyn_def sizeof_Sym_def
  sizeof_Rel_def sizeof_Rela_def

definition read_Ehdr :: "endian \<Rightarrow> u8 list \<Rightarrow> Elf32_Ehdr" where
  "read_Ehdr h bs = \<lparr>e_ident = take 16 bs, e_type = u16_at h bs 16, e_machine = u16_at h bs 18,
     e_version = u32_at h bs 20, e_entry = u32_at h bs 24, e_phoff = u32_at h bs 28,
     e_shoff = u32_at h bs 32, e_flags = u32_at h bs 36, e_ehsize = u16_at h bs 40,
     e_phentsize = u16_at h bs 42, e_phnum = u16_at h bs 44, e_shentsize = u16_at h bs 46,
     e_shnum = u16_at h bs 48, e_shstrndx = u16_at h bs 50\<rparr>"

definition read_Phdr :: "endian \<Rightarrow> u8 list \<Rightarrow> Elf32_Phdr" where
  "read_Phdr h bs = \<lparr>p_type = u32_at h bs 0, p_offset = u32_at h bs 4, p_vaddr = u32_at h bs 8,
     p_paddr = u32_at h bs 12, p_filesz = u32_at h bs 16, p_memsz = u32_at h bs 20,
     p_flags = u32_at h bs 24, p_align = u32_at h bs 28\<rparr>"

definition read_Dyn :: "endian \<Rightarrow> u8 list \<Rightarrow> Elf32_Dyn" where
  "read_Dyn h bs = \<lparr>d_tag = u32_at h bs 0, d_un = u32_at h bs 4\<rparr>"

definition read_Sym :: "endian \<Rightarrow> u8 list \<Rightarrow> Elf32_Sym" where
  "read_Sym h bs = \<lparr>st_name = u32_at h bs 0, st_value = u32_at h bs 4, st_size = u32_at h bs 8,
     st_info = bs ! 12, st_other = bs ! 13, st_shndx = u16_at h bs 14\<rparr>"

definition read_Rel :: "endian \<Rightarrow> u8 list \<Rightarrow> Elf32_Rel" where
  "read_Rel h bs = \<lparr>r_offset = u32_at h bs 0, r_info = u32_at h bs 4\<rparr>"

definition read_Rela :: "endian \<Rightarrow> u8 list \<Rightarrow> Elf32_Rela" where
  "read_Rela h bs = \<lparr>r_offset = u32_at h bs 0, r_info = u32_at h bs 4, r_addend = u32_at h bs 8\<rparr>"

text \<open>An array of \<open>n\<close> structures of \<open>sz\<close> bytes each.\<close>

definition read_array :: "(u8 list \<Rightarrow> 'a) \<Rightarrow> nat \<Rightarrow> nat \<Rightarrow> u8 list \<Rightarrow> 'a list" where
  "read_array rd sz n bs = map (\<lambda>i. rd (slice (i * sz) sz bs)) [0..<n]"

lemma length_read_array [simp]: "length (read_array rd sz n bs) = n"
  by (simp add: read_array_def)

end
