(* ===== verification/DLoad_Endian.thy ===== *)
theory DLoad_Endian
  imports DLoad_Elf32
begin

text \<open>
  Byte order of the host and of the file (\<open>DLOAD/dload_endian.c\<close>). Swapping a structure that
  was read on a host of one byte order yields what a host of the other byte order would have
  read.
\<close>

subsection \<open>The operations\<close>

text \<open>\<open>int32_t x = 0x1; if (*((int16_t*)(&x))) return ELFDATA2LSB; return ELFDATA2MSB;\<close>\<close>

definition DLIMP_get_endian :: "endian \<Rightarrow> int" where
  "DLIMP_get_endian h = (if word16 h (take 2 (bytes32 h 1)) \<noteq> 0 then ELFDATA2LSB else ELFDATA2MSB)"

definition DLIMP_change_endian32 :: "i32 \<Rightarrow> i32" where
  "DLIMP_change_endian32 x =
     0 + push_bit 24 (x AND 0x000000FF) + push_bit 8 (x AND 0x0000FF00)
       + drop_bit 8 (x AND 0x00FF0000) + drop_bit 24 (x AND 0xFF000000)"

definition DLIMP_change_endian16 :: "u16 \<Rightarrow> u16" where
  "DLIMP_change_endian16 x = 0 + push_bit 8 (x AND 0x00FF) + drop_bit 8 (x AND 0xFF00)"

definition DLIMP_change_ehdr_endian :: "Elf32_Ehdr \<Rightarrow> Elf32_Ehdr" where
  "DLIMP_change_ehdr_endian ehdr = ehdr\<lparr>
     e_type := DLIMP_change_endian16 (e_type ehdr),
     e_machine := DLIMP_change_endian16 (e_machine ehdr),
     e_version := DLIMP_change_endian32 (e_version ehdr),
     e_entry := DLIMP_change_endian32 (e_entry ehdr),
     e_phoff := DLIMP_change_endian32 (e_phoff ehdr),
     e_shoff := DLIMP_change_endian32 (e_shoff ehdr),
     e_flags := DLIMP_change_endian32 (e_flags ehdr),
     e_ehsize := DLIMP_change_endian16 (e_ehsize ehdr),
     e_phentsize := DLIMP_change_endian16 (e_phentsize ehdr),
     e_phnum := DLIMP_change_endian16 (e_phnum ehdr),
     e_shentsize := DLIMP_change_endian16 (e_shentsize ehdr),
     e_shnum := DLIMP_change_endian16 (e_shnum ehdr),
     e_shstrndx := DLIMP_change_endian16 (e_shstrndx ehdr)\<rparr>"

definition DLIMP_change_phdr_endian :: "Elf32_Phdr \<Rightarrow> Elf32_Phdr" where
  "DLIMP_change_phdr_endian phdr = phdr\<lparr>
     p_type := DLIMP_change_endian32 (p_type phdr),
     p_offset := DLIMP_change_endian32 (p_offset phdr),
     p_vaddr := DLIMP_change_endian32 (p_vaddr phdr),
     p_paddr := DLIMP_change_endian32 (p_paddr phdr),
     p_filesz := DLIMP_change_endian32 (p_filesz phdr),
     p_memsz := DLIMP_change_endian32 (p_memsz phdr),
     p_flags := DLIMP_change_endian32 (p_flags phdr),
     p_align := DLIMP_change_endian32 (p_align phdr)\<rparr>"

definition DLIMP_change_dynent_endian :: "Elf32_Dyn \<Rightarrow> Elf32_Dyn" where
  "DLIMP_change_dynent_endian dyn = dyn\<lparr>
     d_tag := DLIMP_change_endian32 (d_tag dyn),
     d_un := DLIMP_change_endian32 (d_un dyn)\<rparr>"

definition DLIMP_change_sym_endian :: "Elf32_Sym \<Rightarrow> Elf32_Sym" where
  "DLIMP_change_sym_endian sm = sm\<lparr>
     st_name := DLIMP_change_endian32 (st_name sm),
     st_value := DLIMP_change_endian32 (st_value sm),
     st_size := DLIMP_change_endian32 (st_size sm),
     st_shndx := DLIMP_change_endian16 (st_shndx sm)\<rparr>"

definition DLIMP_change_rela_endian :: "Elf32_Rela \<Rightarrow> Elf32_Rela" where
  "DLIMP_change_rela_endian ra = ra\<lparr>
     r_offset := DLIMP_change_endian32 (r_offset ra),
     r_info := DLIMP_change_endian32 (r_info ra),
     r_addend := DLIMP_change_endian32 (r_addend ra)\<rparr>"

definition DLIMP_change_rel_endian :: "Elf32_Rel \<Rightarrow> Elf32_Rel" where
  "DLIMP_change_rel_endian r = r\<lparr>
     r_offset := DLIMP_change_endian32 (r_offset r),
     r_info := DLIMP_change_endian32 (r_info r)\<rparr>"

subsection \<open>Swapping reverses the bytes\<close>

lemma mask_parts32:
  "(0x000000FF :: u32) = mask 8"
  "(0x0000FF00 :: u32) = push_bit 8 (mask 8)"
  "(0x00FF0000 :: u32) = push_bit 16 (mask 8)"
  "(0xFF000000 :: u32) = push_bit 24 (mask 8)"
  by (simp_all add: mask_eq_exp_minus_1)

lemma mask_parts16:
  "(0x00FF :: u16) = mask 8"
  "(0xFF00 :: u16) = push_bit 8 (mask 8)"
  by (simp_all add: mask_eq_exp_minus_1)

lemma change_endian32_OR:
  "DLIMP_change_endian32 x =
     push_bit 24 (x AND 0x000000FF) OR push_bit 8 (x AND 0x0000FF00)
       OR drop_bit 8 (x AND 0x00FF0000) OR drop_bit 24 (x AND 0xFF000000)"
proof -
  have a: "push_bit 24 (x AND 0x000000FF) + push_bit 8 (x AND 0x0000FF00)
     = push_bit 24 (x AND 0x000000FF) OR push_bit 8 (x AND 0x0000FF00)"
    unfolding mask_parts32 by (rule disjunctive_add) (auto simp: bit_simps)
  have b: "(push_bit 24 (x AND 0x000000FF) OR push_bit 8 (x AND 0x0000FF00)) + drop_bit 8 (x AND 0x00FF0000)
     = push_bit 24 (x AND 0x000000FF) OR push_bit 8 (x AND 0x0000FF00) OR drop_bit 8 (x AND 0x00FF0000)"
    unfolding mask_parts32 by (subst disjunctive_add) (auto simp: bit_simps ac_simps)
  have c: "(push_bit 24 (x AND 0x000000FF) OR push_bit 8 (x AND 0x0000FF00) OR drop_bit 8 (x AND 0x00FF0000))
       + drop_bit 24 (x AND 0xFF000000)
     = push_bit 24 (x AND 0x000000FF) OR push_bit 8 (x AND 0x0000FF00) OR drop_bit 8 (x AND 0x00FF0000)
       OR drop_bit 24 (x AND 0xFF000000)"
    unfolding mask_parts32 by (subst disjunctive_add) (auto simp: bit_simps ac_simps)
  show ?thesis unfolding DLIMP_change_endian32_def add_0 a b c ..
qed

lemma change_endian32_bytes:
  "DLIMP_change_endian32 x = word_of_bytes [byte_of 3 x, byte_of 2 x, byte_of 1 x, byte_of 0 x]"
  unfolding change_endian32_OR mask_parts32
  by (rule bit_word_eqI) (auto simp: word_of_bytes.simps(2) bit_simps)

lemma change_endian16_bytes: "DLIMP_change_endian16 x = word_of_bytes [byte_of 1 x, byte_of 0 x]"
proof -
  have "DLIMP_change_endian16 x = push_bit 8 (x AND 0x00FF) OR drop_bit 8 (x AND 0xFF00)"
    unfolding DLIMP_change_endian16_def mask_parts16 add_0
    by (rule disjunctive_add) (auto simp: bit_simps)
  then show ?thesis
    unfolding mask_parts16
    by (simp add: word_of_bytes.simps(2)) (rule bit_word_eqI, auto simp: bit_simps)
qed

lemma word32_swap:
  assumes "length bs = 4"
  shows "DLIMP_change_endian32 (word32 h bs) = word32 (opposite h) bs"
proof -
  obtain a b c d where bs: "bs = [a, b, c, d]" using length4_eq[OF assms] by blast
  show ?thesis
    by (cases h) (simp_all add: change_endian32_bytes word32_def byte_of_word_of_bytes bs)
qed

lemma word16_swap:
  assumes "length bs = 2"
  shows "DLIMP_change_endian16 (word16 h bs) = word16 (opposite h) bs"
proof -
  obtain a b where bs: "bs = [a, b]" using assms by (auto simp: numeral_2_eq_2 length_Suc_conv)
  show ?thesis
    by (cases h) (simp_all add: change_endian16_bytes word16_def byte_of_word_of_bytes bs)
qed

lemma u32_at_swap: "off + 4 \<le> length bs \<Longrightarrow> DLIMP_change_endian32 (u32_at h bs off) = u32_at (opposite h) bs off"
  by (simp add: u32_at_def word32_swap slice_def)

lemma u16_at_swap: "off + 2 \<le> length bs \<Longrightarrow> DLIMP_change_endian16 (u16_at h bs off) = u16_at (opposite h) bs off"
  by (simp add: u16_at_def word16_swap slice_def)

lemma opposite_opposite [simp]: "opposite (opposite h) = h"
  by (cases h) simp_all

lemma change_endian32_involutive [simp]: "DLIMP_change_endian32 (DLIMP_change_endian32 x) = x"
  using word32_swap[of "bytes32 LSB x" LSB] word32_swap[of "bytes32 LSB x" MSB]
  by (simp add: word32_bytes32)

lemma change_endian16_involutive [simp]: "DLIMP_change_endian16 (DLIMP_change_endian16 x) = x"
  using word16_swap[of "bytes16 LSB x" LSB] word16_swap[of "bytes16 LSB x" MSB]
  by (simp add: word16_bytes16)

lemma bytes32_swap: "bytes32 h (DLIMP_change_endian32 x) = rev (bytes32 h x)"
proof -
  have "DLIMP_change_endian32 x = word32 h (rev (bytes32 h x))"
    using word32_swap[of "bytes32 h x" h] by (simp add: word32_bytes32 word32_opposite)
  then show ?thesis by (simp add: bytes32_word32)
qed

lemma swap_structs:
  "sizeof_Ehdr \<le> length bs \<Longrightarrow> DLIMP_change_ehdr_endian (read_Ehdr h bs) = read_Ehdr (opposite h) bs"
  "sizeof_Phdr \<le> length bs \<Longrightarrow> DLIMP_change_phdr_endian (read_Phdr h bs) = read_Phdr (opposite h) bs"
  "sizeof_Dyn \<le> length bs \<Longrightarrow> DLIMP_change_dynent_endian (read_Dyn h bs) = read_Dyn (opposite h) bs"
  "sizeof_Sym \<le> length bs \<Longrightarrow> DLIMP_change_sym_endian (read_Sym h bs) = read_Sym (opposite h) bs"
  "sizeof_Rel \<le> length bs \<Longrightarrow> DLIMP_change_rel_endian (read_Rel h bs) = read_Rel (opposite h) bs"
  "sizeof_Rela \<le> length bs \<Longrightarrow> DLIMP_change_rela_endian (read_Rela h bs) = read_Rela (opposite h) bs"
  by (simp_all add: sizeof_defs DLIMP_change_ehdr_endian_def read_Ehdr_def
      DLIMP_change_phdr_endian_def read_Phdr_def DLIMP_change_dynent_endian_def read_Dyn_def
      DLIMP_change_sym_endian_def read_Sym_def DLIMP_change_rel_endian_def read_Rel_def
      DLIMP_change_rela_endian_def read_Rela_def u32_at_swap u16_at_swap)

text \<open>A whole table, as the loader swaps it entry by entry.\<close>

lemma swap_array:
  assumes "\<And>b. length b = sz \<Longrightarrow> swap (rd h b) = rd (opposite h) b" and "n * sz \<le> length bs"
  shows "map swap (read_array (rd h) sz n bs) = read_array (rd (opposite h)) sz n bs"
proof -
  have "length (slice (i * sz) sz bs) = sz" if "i < n" for i
  proof -
    have "i * sz + sz \<le> n * sz" using that
      by (metis Suc_leI add.commute mult_Suc mult_le_mono1)
    then show ?thesis using assms(2) by (simp add: slice_def)
  qed
  then show ?thesis using assms(1) by (simp add: read_array_def)
qed

lemma get_endian_cases [simp]: "DLIMP_get_endian LSB = ELFDATA2LSB" "DLIMP_get_endian MSB = ELFDATA2MSB"
  by (simp_all add: DLIMP_get_endian_def word16_def bytes32_def byte_of_def word_of_bytes.simps(2))

subsection \<open>Properties\<close>

text \<open>Swapping the fields of a file header, program header, dynamic
  entry, symbol or relocation entry that a host read from a file gives what a host of the other
  byte order reads from the same bytes, so swapping twice gives the original.\<close>

lemma swapped_header_is_foreign:
  assumes "sizeof_Ehdr \<le> length bs"
  shows "DLIMP_change_ehdr_endian (read_Ehdr h bs) = read_Ehdr (opposite h) bs \<and>
     DLIMP_change_phdr_endian (read_Phdr h bs) = read_Phdr (opposite h) bs \<and>
     DLIMP_change_dynent_endian (read_Dyn h bs) = read_Dyn (opposite h) bs \<and>
     DLIMP_change_sym_endian (read_Sym h bs) = read_Sym (opposite h) bs \<and>
     DLIMP_change_rel_endian (read_Rel h bs) = read_Rel (opposite h) bs \<and>
     DLIMP_change_rela_endian (read_Rela h bs) = read_Rela (opposite h) bs"
  using assms swap_structs[of bs h] by (simp add: sizeof_defs)

end
