(* ===== verification/DLoad_State.thy ===== *)
theory DLoad_State
  imports DLoad_Containers DLoad_Endian
begin

text \<open>
  The state of the dynamic loader: the structures of \<open>DLOAD/dload.h\<close>, the memory requests and
  messages of \<open>DLOAD_API/dload_api.h\<close>, the client interface \<open>DLIF_*\<close> as a record of functions
  over a client state, and the loader object together with the globals of \<open>dload.c\<close> and
  \<open>symtab.c\<close>. Module objects live in a host heap (\<open>lmods\<close>, \<open>dmods\<close>, indexed by address), so
  that the list of loaded objects and the dependency stack hold pointers, as in the code. The
  containers are lists, which \<open>DLoad_Containers\<close> justifies.
\<close>

subsection \<open>Messages to the client\<close>

datatype LOADER_ERROR_TYPE = DLET_MISC | DLET_FILE | DLET_SYMBOL | DLET_RELOC | DLET_MEMORY
  | DLET_TRGMEM | DLET_DEBUG

datatype LOADER_WARNING_TYPE = DLWT_MISC | DLWT_FILE

text \<open>A message carries its kind and its format string.\<close>

datatype message = DLIF_error LOADER_ERROR_TYPE string | DLIF_warning LOADER_WARNING_TYPE string

subsection \<open>Files\<close>

text \<open>
  An open file is its contents and its position. \<open>DLIF_fseek\<close>, \<open>DLIF_fread\<close> and \<open>DLIF_ftell\<close>
  are the stdio calls of \<open>ocl_load.c\<close>. The loader ignores the result of \<open>DLIF_fread\<close>: a short
  read leaves bytes of the destination unset, which makes the load undefined.
\<close>

record FILE =
  contents :: "u8 list"
  fpos :: nat

definition DLIF_fseek_set :: "FILE \<Rightarrow> i32 \<Rightarrow> FILE" where
  "DLIF_fseek_set f offset = (if sint offset < 0 then f else f\<lparr>fpos := nat (sint offset)\<rparr>)"

definition DLIF_fseek_end :: "FILE \<Rightarrow> FILE" where
  "DLIF_fseek_end f = f\<lparr>fpos := length (contents f)\<rparr>"

definition DLIF_ftell :: "FILE \<Rightarrow> i32" where
  "DLIF_ftell f = of_nat (fpos f)"

definition DLIF_fread :: "FILE \<Rightarrow> nat \<Rightarrow> nat \<Rightarrow> (u8 list \<times> FILE) result" where
  "DLIF_fread f sz nmemb = (if fpos f + sz * nmemb \<le> length (contents f)
     then Inr (slice (fpos f) (sz * nmemb) (contents f), f\<lparr>fpos := fpos f + sz * nmemb\<rparr>)
     else Inl Undefined)"

subsection \<open>Target memory requests\<close>

abbreviation "DLOAD_SF_executable \<equiv> 1 :: u32"
abbreviation "DLOAD_SF_relocatable \<equiv> 2 :: u32"
abbreviation "DLOAD_SF_writable \<equiv> 4 :: u32"
abbreviation "DSBT_INDEX_INVALID \<equiv> -1 :: i32"

text \<open>\<open>None\<close> in \<open>target_address\<close> is an address that has not been assigned yet.\<close>

record DLOAD_MEMORY_SEGMENT =
  target_page :: u32
  target_address :: "u32 option"
  objsz_in_bytes :: u32
  memsz_in_bytes :: u32

text \<open>\<open>None\<close> in \<open>req_host_address\<close> and \<open>flip_endian\<close> is a field the caller does not set.\<close>

record DLOAD_MEMORY_REQUEST =
  segment :: DLOAD_MEMORY_SEGMENT
  req_host_address :: "u8 list option"
  offset :: u32
  flip_endian :: "bool option"
  flags :: u32
  align :: u32

subsection \<open>Loaded and dynamic modules\<close>

record DLIMP_Loaded_Segment =
  seg_phdr :: Elf32_Phdr
  input_vaddr :: u32
  modified :: bool
  obj_desc :: DLOAD_MEMORY_SEGMENT
  host_address :: "u8 list option"

text \<open>A \<open>char *\<close> that is either malloc'ed or a string literal; only the former may be freed.\<close>

datatype cstr = HeapStr string | LiteralStr string

primrec str_of :: "cstr \<Rightarrow> string" where
  "str_of (HeapStr s) = s"
| "str_of (LiteralStr s) = s"

text \<open>\<open>None\<close> in \<open>entry_point\<close>, \<open>lm_c_args\<close> and \<open>lm_static_base\<close> is a field not yet assigned.\<close>

record DLIMP_Loaded_Module =
  lm_name :: cstr
  lm_file_handle :: i32
  use_count :: i32
  entry_point :: "u32 option"
  gsymtab :: "Elf32_Sym list option"
  gsymnum :: u32
  gstrtab :: "string option"
  gstrsz :: u32
  loaded_segments :: "DLIMP_Loaded_Segment list"
  dependencies :: "i32 list"
  lm_direct_dependent_only :: bool
  fini :: u32
  fini_array :: u32
  fini_arraysz :: i32
  lm_c_args :: "u32 option"
  lm_static_base :: "u32 option"

record DLIMP_Dynamic_Module =
  dm_name :: "string option"
  fd :: nat
  fhdr :: Elf32_Ehdr
  phdr :: "Elf32_Phdr list option"
  phnum :: u32
  strtab :: "string option"
  strsz :: u32
  dyntab :: "Elf32_Dyn list option"
  symtab :: "Elf32_Sym list option"
  symnum :: u32
  gsymtab_offset :: u32
  gstrtab_offset :: u32
  dm_c_args :: u32
  dm_static_base :: u32
  loaded_module :: "nat option"
  wrong_endian :: bool
  dm_direct_dependent_only :: bool
  relocatable :: bool
  relocate_entry_point :: bool
  dsbt_index :: i32
  dsbt_size :: u32
  dsbt_base_tagidx :: int
  preinit_array_idx :: int
  preinit_arraysz :: i32
  init_idx :: int
  init_array_idx :: int
  init_arraysz :: i32

text \<open>
  \<open>new_DLIMP_Dynamic_Module\<close> leaves \<open>fhdr\<close> and \<open>static_base\<close> unset; the loader assigns both before
  it reads them, so any value may stand for them.
\<close>

definition unset_Ehdr :: Elf32_Ehdr where
  "unset_Ehdr = \<lparr>e_ident = [], e_type = 0, e_machine = 0, e_version = 0, e_entry = 0, e_phoff = 0,
     e_shoff = 0, e_flags = 0, e_ehsize = 0, e_phentsize = 0, e_phnum = 0, e_shentsize = 0,
     e_shnum = 0, e_shstrndx = 0\<rparr>"

definition new_DLIMP_Dynamic_Module :: "nat \<Rightarrow> DLIMP_Dynamic_Module" where
  "new_DLIMP_Dynamic_Module f = \<lparr>dm_name = None, fd = f, fhdr = unset_Ehdr, phdr = None, phnum = 0,
     strtab = None, strsz = 0, dyntab = None, symtab = None, symnum = 0, gsymtab_offset = 0,
     gstrtab_offset = 0, dm_c_args = 0, dm_static_base = 0, loaded_module = None,
     wrong_endian = False, dm_direct_dependent_only = True, relocatable = False,
     relocate_entry_point = True, dsbt_index = DSBT_INDEX_INVALID, dsbt_size = 0,
     dsbt_base_tagidx = -1, preinit_array_idx = -1, preinit_arraysz = 0, init_idx = -1,
     init_array_idx = -1, init_arraysz = 0\<rparr>"

record IF_single_record =
  sect_addr :: u32
  if_size :: i32

definition is_dsbt_module :: "DLIMP_Dynamic_Module \<Rightarrow> bool" where
  "is_dsbt_module dyn_module \<longleftrightarrow> dsbt_size dyn_module \<noteq> 0"

definition is_c60_module :: "Elf32_Ehdr \<Rightarrow> bool" where
  "is_c60_module hdr \<longleftrightarrow> e_machine hdr = EM_TI_C6000"

subsection \<open>The client interface\<close>

text \<open>
  The functions that the loader's client provides, over a client state. \<open>DLIF_allocate\<close> may
  rewrite the segment description of the request; \<open>DLIF_copy\<close> yields the host copy of the
  segment, or \<open>None\<close> for a null pointer. \<open>DLIF_copy\<close> receives the file of the request, \<open>None\<close>
  when it has been closed; the position it leaves is not kept because the loader seeks before
  every later read.
\<close>

record 'c DLIF =
  DLIF_allocate :: "'c \<Rightarrow> DLOAD_MEMORY_REQUEST \<Rightarrow> (bool \<times> DLOAD_MEMORY_SEGMENT \<times> 'c) result"
  DLIF_release :: "'c \<Rightarrow> DLOAD_MEMORY_SEGMENT \<Rightarrow> (bool \<times> 'c) result"
  DLIF_copy :: "'c \<Rightarrow> FILE option \<Rightarrow> DLOAD_MEMORY_REQUEST \<Rightarrow> (u8 list option \<times> 'c) result"
  DLIF_write :: "'c \<Rightarrow> DLOAD_MEMORY_REQUEST \<Rightarrow> 'c result"
  DLIF_read :: "'c \<Rightarrow> nat \<Rightarrow> u32 \<Rightarrow> (u8 list \<times> 'c) result"
  DLIF_memcpy :: "'c \<Rightarrow> u32 \<Rightarrow> u8 list \<Rightarrow> 'c result"
  DLIF_execute :: "'c \<Rightarrow> u32 \<Rightarrow> 'c result"
  DLIF_register_dsbt_index_request :: "'c \<Rightarrow> string \<Rightarrow> i32 \<Rightarrow> i32 \<Rightarrow> (bool \<times> 'c) result"
  DLIF_assign_dsbt_indices :: "'c \<Rightarrow> 'c result"
  DLIF_update_all_dsbts :: "'c \<Rightarrow> 'c result"
  DLIF_get_dsbt_index :: "'c \<Rightarrow> i32 \<Rightarrow> i32 result"

subsection \<open>The loader\<close>

text \<open>
  \<open>LOADER_OBJECT\<close> and the globals \<open>TI_init_table\<close>, \<open>cur_target\<close> (\<open>None\<close> for \<open>NULL\<close>, else
  the machine of the target), \<open>DLIMP_application_handle\<close>, \<open>global_argc\<close>, with the host heap,
  the open files, the client state and the log of messages. \<open>DLIMP_module_dependency_list\<close>
  holds the names of the modules being loaded as pointers into those modules.
\<close>

record 'c loader =
  lmods :: "nat \<rightharpoonup> DLIMP_Loaded_Module"
  dmods :: "nat \<rightharpoonup> DLIMP_Dynamic_Module"
  next_obj :: nat
  files :: "nat \<rightharpoonup> FILE"
  DLIMP_module_dependency_list :: "nat list"
  DLIMP_loaded_objects :: "nat list"
  DLIMP_dependency_stack :: "nat list"
  file_handle :: i32
  client :: 'c
  TI_init_table :: "IF_single_record list"
  DLIMP_application_handle :: i32
  cur_target :: "u16 option"
  log :: "message list"

definition report :: "message list \<Rightarrow> 'c loader \<Rightarrow> 'c loader" where
  "report ms st = st\<lparr>log := log st @ ms\<rparr>"

lemma report_simps [simp]:
  "lmods (report ms st) = lmods st" "dmods (report ms st) = dmods st"
  "next_obj (report ms st) = next_obj st" "files (report ms st) = files st"
  "DLIMP_module_dependency_list (report ms st) = DLIMP_module_dependency_list st"
  "DLIMP_loaded_objects (report ms st) = DLIMP_loaded_objects st"
  "DLIMP_dependency_stack (report ms st) = DLIMP_dependency_stack st"
  "file_handle (report ms st) = file_handle st" "client (report ms st) = client st"
  "TI_init_table (report ms st) = TI_init_table st"
  "DLIMP_application_handle (report ms st) = DLIMP_application_handle st"
  "cur_target (report ms st) = cur_target st" "log (report ms st) = log st @ ms"
  by (simp_all add: report_def)

lemma report_report [simp]: "report ms (report ms' st) = report (ms' @ ms) st"
  by (simp add: report_def)

lemma report_Nil [simp]: "report [] st = st"
  by (simp add: report_def)

subsection \<open>Searching\<close>

text \<open>The loader's search loops: the first index or node at which the body returns a value.\<close>

fun first_match :: "('i \<Rightarrow> 'a option result) \<Rightarrow> 'i list \<Rightarrow> 'a option result" where
  "first_match f [] = Inr None"
| "first_match f (i # is) = bindR (f i) (\<lambda>r. case r of
     None \<Rightarrow> first_match f is | Some x \<Rightarrow> Inr (Some x))"

lemma first_match_cong [fundef_cong]:
  "xs = ys \<Longrightarrow> (\<And>x. x \<in> set ys \<Longrightarrow> f x = g x) \<Longrightarrow> first_match f xs = first_match g ys"
proof (induction xs arbitrary: ys)
  case (Cons x xs)
  then show ?case by (auto intro!: bindR_cong split: option.splits)
qed simp

text \<open>Where the body always returns, the loop is a \<^const>\<open>find\<close>.\<close>

lemma first_match_find:
  assumes "\<And>i. i \<in> set is \<Longrightarrow> f i = Inr (if P i then Some (g i) else None)"
  shows "first_match f is = Inr (map_option g (find P is))"
  using assms by (induction "is") auto

lemma find_map_index: "find P (map f is) = map_option f (find (\<lambda>i. P (f i)) is)"
  by (induction "is") auto

lemma find_upt_nth:
  "map_option (\<lambda>i. g (xs ! i)) (find (\<lambda>i. P (xs ! i)) [0..<length xs]) = map_option g (find P xs)"
proof -
  have "map_option g (find P xs) = map_option g (find P (map ((!) xs) [0..<length xs]))"
    by (simp only: map_nth)
  also have "\<dots> = map_option (\<lambda>i. g (xs ! i)) (find (\<lambda>i. P (xs ! i)) [0..<length xs])"
    by (simp add: find_map_index option.map_comp comp_def)
  finally show ?thesis ..
qed

end
