(* ===== verification/DLoad_Symtab.thy ===== *)
theory DLoad_Symtab
  imports DLoad_State
begin

text \<open>
  Symbol tables (\<open>DLOAD_SYM/symtab.c\<close>): copying a module's global symbols into its persistent
  record, looking a name up in one table, in the tables of a module's dependencies or breadth
  first from the application, and the canonical lookup that relocations use.
\<close>

subsection \<open>Copying the global symbols\<close>

definition copied_name :: "DLIMP_Dynamic_Module \<Rightarrow> Elf32_Sym \<Rightarrow> Elf32_Sym" where
  "copied_name dyn_module s = s\<lparr>st_name := st_name s - gstrtab_offset dyn_module\<rparr>"

definition DLSYM_copy_globals ::
    "DLIMP_Dynamic_Module \<Rightarrow> DLIMP_Loaded_Module \<Rightarrow> DLIMP_Loaded_Module result" where
  "DLSYM_copy_globals dyn_module module =
     (let global_index = gsymtab_offset dyn_module div of_nat sizeof_Sym;
          global_symnum = symnum dyn_module - global_index;
          module = module\<lparr>gsymtab := None\<rparr>;
          new_gstrsz = strsz dyn_module - gstrtab_offset dyn_module
      in bindR (deref (symtab dyn_module)) (\<lambda>tab.
         bindR (if global_symnum > 0
                then if unat global_index + unat global_symnum \<le> length tab
                     then Inr (module\<lparr>gsymtab := Some (map (copied_name dyn_module)
                                 (slice (unat global_index) (unat global_symnum) tab))\<rparr>)
                     else Inl Undefined
                else Inr module) (\<lambda>module.
           let module = module\<lparr>gsymnum := global_symnum, gstrtab := None, gstrsz := new_gstrsz\<rparr>
           in if new_gstrsz \<noteq> 0
              then bindR (deref (strtab dyn_module)) (\<lambda>str.
                   if unat (gstrtab_offset dyn_module) + unat new_gstrsz \<le> length str
                   then Inr (module\<lparr>gstrtab := Some (slice (unat (gstrtab_offset dyn_module))
                                                          (unat new_gstrsz) str)\<rparr>)
                   else Inl Undefined)
              else Inr module)))"

subsection \<open>Lookup in one symbol table\<close>

text \<open>The result is the returned flag and the value left in \<open>*sym_value\<close>.\<close>

definition binding_matches :: "bool \<Rightarrow> Elf32_Sym \<Rightarrow> bool" where
  "binding_matches require_local_binding s \<longleftrightarrow>
     require_local_binding \<and> ELF32_ST_BIND (st_info s) = STB_LOCAL \<or>
     \<not> require_local_binding \<and> ELF32_ST_BIND (st_info s) \<noteq> STB_LOCAL"

definition DLSYM_lookup_symtab ::
    "string \<Rightarrow> Elf32_Sym list \<Rightarrow> u32 \<Rightarrow> bool \<Rightarrow> string \<Rightarrow> (bool \<times> u32) result" where
  "DLSYM_lookup_symtab sym_name tab num require_local_binding str =
     bindR (first_match (\<lambda>sym_idx. bindR (index tab sym_idx) (\<lambda>s.
              if st_shndx s \<noteq> SHN_UNDEF \<and> binding_matches require_local_binding s
              then bindR (strcmp_eq sym_name (drop (unat (st_name s)) str)) (\<lambda>eq.
                   Inr (if eq then Some (st_value s) else None))
              else Inr None)) [0..<unat num])
       (\<lambda>r. Inr (case r of Some v \<Rightarrow> (True, v) | None \<Rightarrow> (False, 0)))"

definition DLSYM_lookup_global_symtab ::
    "string \<Rightarrow> Elf32_Sym list \<Rightarrow> u32 \<Rightarrow> string \<Rightarrow> (bool \<times> u32) result" where
  "DLSYM_lookup_global_symtab sym_name tab num str = DLSYM_lookup_symtab sym_name tab num False str"

definition DLSYM_lookup_local_symtab ::
    "string \<Rightarrow> Elf32_Sym list \<Rightarrow> u32 \<Rightarrow> string \<Rightarrow> (bool \<times> u32) result" where
  "DLSYM_lookup_local_symtab sym_name tab num str = DLSYM_lookup_symtab sym_name tab num True str"

text \<open>The table of a loaded module: a null pointer is as good as an empty array.\<close>

definition lookup_module_globals :: "string \<Rightarrow> DLIMP_Loaded_Module \<Rightarrow> (bool \<times> u32) result" where
  "lookup_module_globals sym_name m = DLSYM_lookup_global_symtab sym_name
     (case gsymtab m of None \<Rightarrow> [] | Some t \<Rightarrow> t) (gsymnum m)
     (case gstrtab m of None \<Rightarrow> [] | Some s \<Rightarrow> s)"

subsection \<open>Lookup across modules\<close>

text \<open>
  Walking the list of loaded objects to the module with a given handle; running off the end
  dereferences a null pointer.
\<close>

fun walk_to_handle :: "(nat \<rightharpoonup> DLIMP_Loaded_Module) \<Rightarrow> i32 \<Rightarrow> nat list \<Rightarrow> DLIMP_Loaded_Module result" where
  "walk_to_handle mods h [] = Inl Undefined"
| "walk_to_handle mods h (p # ps) = bindR (deref (mods p)) (\<lambda>m.
     if lm_file_handle m = h then Inr m else walk_to_handle mods h ps)"

text \<open>
  The breadth-first search walks the nodes of the queue with \<open>mod_node++\<close>, that is to the memory
  behind the front node, so it is defined only while every handle it takes from its own queue is
  the handle of the front module. It also takes the dependencies from that module.
\<close>

fun bfs_loop :: "nat \<Rightarrow> DLIMP_Loaded_Module \<Rightarrow> string \<Rightarrow> i32 list \<Rightarrow> (bool \<times> u32) result" where
  "bfs_loop fuel front sym_name [] = Inr (False, 0)"
| "bfs_loop 0 front sym_name (h # q) = Inl Diverge"
| "bfs_loop (Suc fuel) front sym_name (h # q) =
     (if lm_file_handle front \<noteq> h then Inl Undefined
      else bindR (lookup_module_globals sym_name front) (\<lambda>(found, v).
        if found then Inr (True, v)
        else bfs_loop fuel front sym_name (q @ dependencies front)))"

definition breadth_first_lookup :: "'c loader \<Rightarrow> string \<Rightarrow> i32 \<Rightarrow> (bool \<times> u32) result" where
  "breadth_first_lookup st sym_name handle =
     (case DLIMP_loaded_objects st of
        [] \<Rightarrow> Inl Undefined
      | p # ps \<Rightarrow> bindR (deref (lmods st p)) (\<lambda>front.
          bfs_loop (length (dependencies front) + 2) front sym_name [handle]))"

definition DLSYM_global_lookup ::
    "'c loader \<Rightarrow> string \<Rightarrow> DLIMP_Loaded_Module \<Rightarrow> (bool \<times> u32 \<times> 'c loader) result" where
  "DLSYM_global_lookup st sym_name module =
     bindR (if lm_direct_dependent_only module
            then bindR (first_match (\<lambda>child. bindR (walk_to_handle (lmods st) child (DLIMP_loaded_objects st))
                   (\<lambda>m. bindR (lookup_module_globals sym_name m)
                   (\<lambda>(found, v). Inr (if found then Some v else None)))) (dependencies module))
                 (\<lambda>r. Inr (case r of Some v \<Rightarrow> (True, v) | None \<Rightarrow> (False, 0)))
            else breadth_first_lookup st sym_name (DLIMP_application_handle st))
       (\<lambda>(found, v). if found then Inr (True, v, st)
          else Inr (False, v, report [DLIF_error DLET_SYMBOL ''Could not resolve symbol %s!''] st))"

definition is_def :: "Elf32_Sym \<Rightarrow> bool" where
  "is_def s \<longleftrightarrow> st_shndx s \<noteq> SHN_UNDEF \<and> (st_shndx s < SHN_LORESERVE \<or> st_shndx s = SHN_ABS \<or>
     st_shndx s = SHN_COMMON \<or> st_shndx s = SHN_XINDEX)"

text \<open>
  The last component of the result is the value when the lookup succeeds. \<open>module\<close> is the loaded
  module of \<open>dyn_module\<close>.
\<close>

definition DLSYM_canonical_lookup ::
    "'c loader \<Rightarrow> i32 \<Rightarrow> DLIMP_Dynamic_Module \<Rightarrow> DLIMP_Loaded_Module \<Rightarrow> (bool \<times> u32 \<times> 'c loader) result" where
  "DLSYM_canonical_lookup st sym_index dyn_module module =
     bindR (deref (symtab dyn_module)) (\<lambda>tab.
     bindR (index tab (unat sym_index)) (\<lambda>s.
     if ELF32_ST_BIND (st_info s) = STB_LOCAL \<or> ELF32_ST_VISIBILITY (st_other s) \<noteq> STV_DEFAULT
     then if \<not> is_def s
          then Inr (False, 0, report [DLIF_error DLET_SYMBOL
            ''Local/non-imported symbol %s definition is not found in module %s!''] st)
          else Inr (True, st_value s, st)
     else bindR (deref (strtab dyn_module)) (\<lambda>str.
          bindR (cstring_at str (unat (st_name s))) (\<lambda>sym_name.
            DLSYM_global_lookup st sym_name module))))"

subsection \<open>Lookup in one table: the first matching definition\<close>

definition names_terminated :: "Elf32_Sym list \<Rightarrow> string \<Rightarrow> bool" where
  "names_terminated tab str \<longleftrightarrow> (\<forall>s \<in> set tab. NUL \<in> set (drop (unat (st_name s)) str))"

definition sym_string :: "string \<Rightarrow> Elf32_Sym \<Rightarrow> string" where
  "sym_string str s = takeWhile (\<lambda>c. c \<noteq> NUL) (drop (unat (st_name s)) str)"

definition sym_defines :: "string \<Rightarrow> string \<Rightarrow> bool \<Rightarrow> Elf32_Sym \<Rightarrow> bool" where
  "sym_defines str sym_name require_local s \<longleftrightarrow> st_shndx s \<noteq> SHN_UNDEF \<and>
     binding_matches require_local s \<and> sym_string str s = sym_name"

lemma lookup_symtab_find:
  assumes "names_terminated tab str" and "NUL \<notin> set sym_name" and "unat num = length tab"
  shows "DLSYM_lookup_symtab sym_name tab num loc str = Inr (case find (sym_defines str sym_name loc) tab of
     Some s \<Rightarrow> (True, st_value s) | None \<Rightarrow> (False, 0))"
proof -
  let ?body = "\<lambda>sym_idx. bindR (index tab sym_idx) (\<lambda>s.
              if st_shndx s \<noteq> SHN_UNDEF \<and> binding_matches loc s
              then bindR (strcmp_eq sym_name (drop (unat (st_name s)) str)) (\<lambda>eq.
                   Inr (if eq then Some (st_value s) else None))
              else Inr None)"
  have "first_match ?body [0..<length tab] =
     Inr (map_option (\<lambda>i. st_value (tab ! i)) (find (\<lambda>i. sym_defines str sym_name loc (tab ! i)) [0..<length tab]))"
  proof (rule first_match_find)
    fix i assume "i \<in> set [0..<length tab]"
    then have i: "i < length tab" by simp
    then have "NUL \<in> set (drop (unat (st_name (tab ! i))) str)"
      using assms(1) by (simp add: names_terminated_def)
    with i assms(2) show "?body i = Inr (if sym_defines str sym_name loc (tab ! i)
        then Some (st_value (tab ! i)) else None)"
      by (simp add: sym_defines_def strcmp_eq_cstring sym_string_def)
  qed
  then show ?thesis
    using find_upt_nth[of st_value tab "sym_defines str sym_name loc"] assms(3)
    by (auto simp: DLSYM_lookup_symtab_def split: option.splits)
qed

lemma lookup_symtab_absent:
  assumes "DLSYM_lookup_symtab sym_name tab num loc str = Inr (False, v)"
  shows "v = 0"
  using assms by (auto simp: DLSYM_lookup_symtab_def bindR_eq_Inr split: option.splits)

subsection \<open>Copied symbols keep their names and values\<close>

definition gsyms :: "DLIMP_Loaded_Module \<Rightarrow> Elf32_Sym list" where
  "gsyms m = (case gsymtab m of None \<Rightarrow> [] | Some t \<Rightarrow> t)"

definition gstrs :: "DLIMP_Loaded_Module \<Rightarrow> string" where
  "gstrs m = (case gstrtab m of None \<Rightarrow> [] | Some s \<Rightarrow> s)"

definition global_start :: "DLIMP_Dynamic_Module \<Rightarrow> nat" where
  "global_start dyn_module = unat (gsymtab_offset dyn_module) div sizeof_Sym"

text \<open>
  What the linker guarantees of the dynamic symbol table: the sizes are those of the tables, the
  global part starts inside both of them, and the names of the global symbols lie in the global
  part of the string table.
\<close>

definition globals_wf :: "DLIMP_Dynamic_Module \<Rightarrow> Elf32_Sym list \<Rightarrow> string \<Rightarrow> bool" where
  "globals_wf dyn_module tab str \<longleftrightarrow> symtab dyn_module = Some tab \<and> strtab dyn_module = Some str \<and>
     unat (symnum dyn_module) = length tab \<and> unat (strsz dyn_module) = length str \<and>
     global_start dyn_module \<le> length tab \<and> unat (gstrtab_offset dyn_module) \<le> length str \<and>
     (\<forall>s \<in> set (drop (global_start dyn_module) tab). gstrtab_offset dyn_module \<le> st_name s)"

lemma copied_name_string:
  assumes "gstrtab_offset dyn_module \<le> st_name s"
  shows "sym_string (drop (unat (gstrtab_offset dyn_module)) str) (copied_name dyn_module s) = sym_string str s"
  using assms by (simp add: sym_string_def copied_name_def unat_sub word_le_nat_alt)

lemma copy_globals_tables:
  assumes "globals_wf dyn_module tab str"
  shows "\<exists>m'. DLSYM_copy_globals dyn_module m = Inr m' \<and>
     gsyms m' = map (copied_name dyn_module) (drop (global_start dyn_module) tab) \<and>
     gstrs m' = drop (unat (gstrtab_offset dyn_module)) str \<and> unat (gsymnum m') = length (gsyms m')"
proof -
  let ?gi = "gsymtab_offset dyn_module div of_nat sizeof_Sym"
  have gi: "unat ?gi = global_start dyn_module"
    by (simp add: global_start_def sizeof_Sym_def unat_div)
  then have le: "?gi \<le> symnum dyn_module" using assms by (simp add: globals_wf_def word_le_nat_alt)
  have num: "unat (symnum dyn_module - ?gi) = length tab - global_start dyn_module"
    using assms gi by (simp add: unat_sub[OF le] globals_wf_def)
  have "gstrtab_offset dyn_module \<le> strsz dyn_module"
    using assms by (simp add: globals_wf_def word_le_nat_alt)
  then have strn: "unat (strsz dyn_module - gstrtab_offset dyn_module) =
      length str - unat (gstrtab_offset dyn_module)"
    using assms by (simp add: unat_sub globals_wf_def)
  have pos: "symnum dyn_module - ?gi > 0 \<longleftrightarrow> 0 < length tab - global_start dyn_module"
    using num by (simp add: word_less_nat_alt)
  have zero: "strsz dyn_module - gstrtab_offset dyn_module \<noteq> 0 \<longleftrightarrow>
      0 < length str - unat (gstrtab_offset dyn_module)"
    using strn by (metis unat_eq_zero neq0_conv)
  show ?thesis
    using assms
    by (auto simp: DLSYM_copy_globals_def Let_def globals_wf_def gi num strn pos zero gsyms_def
        gstrs_def slice_def simp del: word_neq_0_conv)
qed

lemma copy_globals_entries:
  assumes "globals_wf dyn_module tab str" and "DLSYM_copy_globals dyn_module m = Inr m'"
  shows "map (\<lambda>s. (sym_string (gstrs m') s, s\<lparr>st_name := 0\<rparr>)) (gsyms m') =
     map (\<lambda>s. (sym_string str s, s\<lparr>st_name := 0\<rparr>)) (drop (global_start dyn_module) tab)"
proof -
  from copy_globals_tables[OF assms(1), of m] assms(2)
  have t: "gsyms m' = map (copied_name dyn_module) (drop (global_start dyn_module) tab)"
    "gstrs m' = drop (unat (gstrtab_offset dyn_module)) str" by auto
  have "(copied_name dyn_module s)\<lparr>st_name := 0\<rparr> = s\<lparr>st_name := 0\<rparr>" for s
    by (simp add: copied_name_def)
  moreover have "sym_string (gstrs m') (copied_name dyn_module s) = sym_string str s"
    if "s \<in> set (drop (global_start dyn_module) tab)" for s
    using that assms(1) t(2) copied_name_string by (simp add: globals_wf_def)
  ultimately show ?thesis by (auto simp: t(1))
qed

lemma copy_globals_frame:
  assumes "DLSYM_copy_globals dyn_module m = Inr m'"
  shows "lm_name m' = lm_name m" "lm_file_handle m' = lm_file_handle m" "use_count m' = use_count m"
    "dependencies m' = dependencies m" "loaded_segments m' = loaded_segments m"
    "lm_direct_dependent_only m' = lm_direct_dependent_only m"
  using assms by (auto simp: DLSYM_copy_globals_def Let_def bindR_eq_Inr split: if_splits)

subsection \<open>Lookup across modules\<close>

definition lm_wf :: "DLIMP_Loaded_Module \<Rightarrow> bool" where
  "lm_wf m \<longleftrightarrow> names_terminated (gsyms m) (gstrs m) \<and> unat (gsymnum m) = length (gsyms m)"

definition module_value :: "string \<Rightarrow> DLIMP_Loaded_Module \<Rightarrow> u32 option" where
  "module_value sym_name m = map_option st_value (find (sym_defines (gstrs m) sym_name False) (gsyms m))"

lemma lookup_module_globals_value:
  assumes "lm_wf m" and "NUL \<notin> set sym_name"
  shows "lookup_module_globals sym_name m = Inr (case module_value sym_name m of
     Some v \<Rightarrow> (True, v) | None \<Rightarrow> (False, 0))"
proof -
  have "lookup_module_globals sym_name m =
      DLSYM_lookup_symtab sym_name (gsyms m) (gsymnum m) False (gstrs m)"
    by (simp add: lookup_module_globals_def DLSYM_lookup_global_symtab_def gsyms_def gstrs_def)
  with lookup_symtab_find[of "gsyms m" "gstrs m" sym_name "gsymnum m" False] assms show ?thesis
    by (auto simp: lm_wf_def module_value_def split: option.splits)
qed

text \<open>The modules on the list of loaded objects, and the one with a given handle.\<close>

definition loaded_list :: "'c loader \<Rightarrow> DLIMP_Loaded_Module list" where
  "loaded_list st = map (\<lambda>p. the (lmods st p)) (DLIMP_loaded_objects st)"

definition no_dangling :: "'c loader \<Rightarrow> bool" where
  "no_dangling st \<longleftrightarrow> set (DLIMP_loaded_objects st) \<subseteq> dom (lmods st)"

definition module_of :: "'c loader \<Rightarrow> i32 \<Rightarrow> DLIMP_Loaded_Module option" where
  "module_of st h = find (\<lambda>m. lm_file_handle m = h) (loaded_list st)"

lemma walk_to_handle_find:
  assumes "set ps \<subseteq> dom mods"
  shows "walk_to_handle mods h ps =
     deref (find (\<lambda>m. lm_file_handle m = h) (map (\<lambda>p. the (mods p)) ps))"
  using assms by (induction ps) auto

definition first_some :: "'a option list \<Rightarrow> 'a option" where
  "first_some xs = (case find (\<lambda>x. x \<noteq> None) xs of Some r \<Rightarrow> r | None \<Rightarrow> None)"

lemma first_some_simps [simp]: "first_some [] = None" "first_some (None # xs) = first_some xs"
  "first_some (Some x # xs) = Some x"
  by (simp_all add: first_some_def)

lemma first_match_first_some:
  assumes "\<And>i. i \<in> set is \<Longrightarrow> f i = Inr (g i)"
  shows "first_match f is = Inr (first_some (map g is))"
  using assms
proof (induction "is")
  case (Cons i "is")
  then show ?case by (cases "g i") auto
qed simp

lemma global_lookup_direct:
  assumes "no_dangling st" and "lm_direct_dependent_only module" and "NUL \<notin> set sym_name"
    and "\<And>h. h \<in> set (dependencies module) \<Longrightarrow> \<exists>m. module_of st h = Some m \<and> lm_wf m"
  shows "DLSYM_global_lookup st sym_name module =
     Inr (case first_some (map (\<lambda>h. module_value sym_name (the (module_of st h))) (dependencies module)) of
            Some v \<Rightarrow> (True, v, st)
          | None \<Rightarrow> (False, 0, report [DLIF_error DLET_SYMBOL ''Could not resolve symbol %s!''] st))"
proof -
  let ?body = "\<lambda>child. bindR (walk_to_handle (lmods st) child (DLIMP_loaded_objects st))
                   (\<lambda>m. bindR (lookup_module_globals sym_name m)
                   (\<lambda>(found, v). Inr (if found then Some v else None)))"
  have "?body h = Inr (module_value sym_name (the (module_of st h)))" if "h \<in> set (dependencies module)" for h
  proof -
    from assms(4)[OF that] obtain m where m: "module_of st h = Some m" "lm_wf m" by blast
    with assms(1) have "walk_to_handle (lmods st) h (DLIMP_loaded_objects st) = Inr m"
      by (simp add: walk_to_handle_find no_dangling_def module_of_def loaded_list_def)
    with m lookup_module_globals_value[OF m(2) assms(3)] show ?thesis
      by (auto split: option.splits)
  qed
  then have "first_match ?body (dependencies module) =
      Inr (first_some (map (\<lambda>h. module_value sym_name (the (module_of st h))) (dependencies module)))"
    by (rule first_match_first_some)
  with assms(2) show ?thesis
    by (simp add: DLSYM_global_lookup_def split: option.splits)
qed

text \<open>A lookup changes nothing of the loader but the log.\<close>

lemma global_lookup_state:
  assumes "DLSYM_global_lookup st sym_name module = Inr (found, v, st')"
  shows "\<exists>ms. st' = report ms st \<and> (found \<longrightarrow> ms = []) \<and> (\<not> found \<longrightarrow> ms \<noteq> [])"
proof -
  from assms obtain f w where "(if f then Inr (True, w, st) else Inr (False, w,
      report [DLIF_error DLET_SYMBOL ''Could not resolve symbol %s!''] st)) = (Inr (found, v, st') :: _ result)"
    by (auto simp: DLSYM_global_lookup_def bindR_eq_Inr simp del: if_split_asm)
  moreover have "report [] st = st" by (simp add: report_def)
  ultimately show ?thesis
    by (cases f) (auto intro: exI[of _ "[]"] exI[of _ "[DLIF_error DLET_SYMBOL ''Could not resolve symbol %s!'']"])
qed

lemma canonical_lookup_state:
  assumes "DLSYM_canonical_lookup st i dyn_module module = Inr (found, v, st')"
  shows "\<exists>ms. st' = report ms st \<and> (found \<longrightarrow> ms = []) \<and> (\<not> found \<longrightarrow> ms \<noteq> [])"
proof -
  have r: "report [] st = st" by (simp add: report_def)
  have "\<exists>ms. st = report ms st \<and> ms = []" using r by auto
  then show ?thesis
    using assms global_lookup_state
    by (auto simp: DLSYM_canonical_lookup_def bindR_eq_Inr split: if_splits)
qed

subsection \<open>Properties\<close>

text \<open>In a table whose names are terminated, a lookup yields the value of
  the first defined symbol of that name with the required kind of binding, and fails with value 0
  when there is none.\<close>

lemma lookup_first_definition:
  assumes "names_terminated tab str" and "NUL \<notin> set sym_name" and "unat num = length tab"
  shows "DLSYM_lookup_symtab sym_name tab num loc str = Inr (case find (sym_defines str sym_name loc) tab of
     Some s \<Rightarrow> (True, st_value s) | None \<Rightarrow> (False, 0))"
  using assms by (rule lookup_symtab_find)

definition example_symbol :: "u32 \<Rightarrow> u32 \<Rightarrow> u8 \<Rightarrow> Elf32_Sym" where
  "example_symbol name v info = \<lparr>st_name = name, st_value = v, st_size = 4, st_info = info,
     st_other = 0, st_shndx = 1\<rparr>"

definition example_strings :: string where
  "example_strings = [CHR ''a'', NUL, CHR ''b'', NUL]"

lemmas example_simps = example_symbol_def example_strings_def sym_string_def sym_defines_def
  binding_matches_def ELF32_ST_BIND_def names_terminated_def

text \<open>The persistent copy of a module's global symbols has, entry by entry, the
  names, values and attributes of the global part of its dynamic symbol table.\<close>

lemma copied_globals:
  assumes "globals_wf dyn_module tab str"
  shows "\<exists>m'. DLSYM_copy_globals dyn_module m = Inr m' \<and>
     map (\<lambda>s. (sym_string (gstrs m') s, s\<lparr>st_name := 0\<rparr>)) (gsyms m') =
     map (\<lambda>s. (sym_string str s, s\<lparr>st_name := 0\<rparr>)) (drop (global_start dyn_module) tab)"
  using copy_globals_tables[OF assms, of m] copy_globals_entries[OF assms] by blast


definition example_module :: "i32 \<Rightarrow> i32 list \<Rightarrow> DLIMP_Loaded_Module" where
  "example_module h deps = \<lparr>lm_name = HeapStr ''m'', lm_file_handle = h, use_count = 1, entry_point = None,
     gsymtab = Some [example_symbol 0 7 0x10, example_symbol 2 9 0x10], gsymnum = 2,
     gstrtab = Some example_strings, gstrsz = 4, loaded_segments = [], dependencies = deps,
     lm_direct_dependent_only = True, fini = 0, fini_array = 0, fini_arraysz = 0, lm_c_args = None,
     lm_static_base = None\<rparr>"

definition example_loader :: "unit loader" where
  "example_loader = \<lparr>lmods = [0 \<mapsto> example_module 1 [], 1 \<mapsto> example_module 2 [1]], dmods = Map.empty,
     next_obj = 4, files = Map.empty, DLIMP_module_dependency_list = [], DLIMP_loaded_objects = [0, 1],
     DLIMP_dependency_stack = [], file_handle = 3, client = (), TI_init_table = [],
     DLIMP_application_handle = 0, cur_target = None, log = []\<rparr>"


text \<open>A relocation against a symbol that is local to the module or
  not of default visibility resolves to the module's own value for it without asking any other
  module, provided the symbol is defined; an undefined one is an error.\<close>

lemma local_symbols_resolve_locally:
  assumes "symtab dyn_module = Some tab" and "unat i < length tab"
    and "ELF32_ST_BIND (st_info (tab ! unat i)) = STB_LOCAL \<or>
         ELF32_ST_VISIBILITY (st_other (tab ! unat i)) \<noteq> STV_DEFAULT"
  shows "\<exists>ms. DLSYM_canonical_lookup st i dyn_module module =
     Inr (is_def (tab ! unat i), if is_def (tab ! unat i) then st_value (tab ! unat i) else 0, report ms st) \<and>
     (is_def (tab ! unat i) \<longleftrightarrow> ms = [])"
  using assms by (auto simp: DLSYM_canonical_lookup_def intro: exI[of _ "[]"])

end
