(* ===== verification/C60_Dynamic.thy ===== *)
theory C60_Dynamic
  imports DLoad_State
begin

text \<open>
  Dynamic tags: the lookup of a tag and the relocation of a tag's address that the core shares
  with its targets (two functions of \<open>DLOAD/dload.c\<close>), and the C6000 handlers of
  \<open>C60_DLOAD_DYN/c60_dynamic.c\<close>.
\<close>

subsection \<open>Tags\<close>

text \<open>The table ends with \<open>DT_NULL\<close>; running past its end is undefined.\<close>

fun DLIMP_get_first_dyntag :: "i32 \<Rightarrow> Elf32_Dyn list \<Rightarrow> u32 result" where
  "DLIMP_get_first_dyntag tag [] = Inl Undefined"
| "DLIMP_get_first_dyntag tag (dtp # ds) =
     (if d_tag dtp \<noteq> DT_NULL
      then if d_tag dtp = tag then Inr (d_un dtp) else DLIMP_get_first_dyntag tag ds
      else Inr INT_MAX)"

definition in_segment :: "DLIMP_Loaded_Segment \<Rightarrow> u32 \<Rightarrow> bool" where
  "in_segment seg a \<longleftrightarrow> a \<ge> input_vaddr seg \<and> a < input_vaddr seg + p_memsz (seg_phdr seg)"

definition DLIMP_update_dyntag_section_address ::
    "DLIMP_Loaded_Segment list \<Rightarrow> nat \<Rightarrow> DLIMP_Dynamic_Module \<Rightarrow> (bool \<times> DLIMP_Dynamic_Module) result" where
  "DLIMP_update_dyntag_section_address segs i dyn_module =
     bindR (deref (dyntab dyn_module)) (\<lambda>tab.
     bindR (index tab i) (\<lambda>d.
       if d_un d = 0 then Inr (True, dyn_module)
       else case find (\<lambda>seg. in_segment seg (d_un d)) segs of
              Some seg \<Rightarrow> Inr (True, dyn_module\<lparr>dyntab := Some
                (tab[i := d\<lparr>d_un := d_un d + (p_vaddr (seg_phdr seg) - input_vaddr seg)\<rparr>])\<rparr>)
            | None \<Rightarrow> Inr (False, dyn_module)))"

subsection \<open>C6000 tags\<close>

definition DLDYN_c60_process_dynamic_tag ::
    "DLIMP_Dynamic_Module \<Rightarrow> nat \<Rightarrow> (bool \<times> DLIMP_Dynamic_Module) result" where
  "DLDYN_c60_process_dynamic_tag dyn_module i =
     bindR (deref (dyntab dyn_module)) (\<lambda>tab.
     bindR (index tab i) (\<lambda>d.
       if d_tag d = DT_C6000_GSYM_OFFSET then Inr (True, dyn_module\<lparr>gsymtab_offset := d_un d\<rparr>)
       else if d_tag d = DT_C6000_GSTR_OFFSET then Inr (True, dyn_module\<lparr>gstrtab_offset := d_un d\<rparr>)
       else if d_tag d = DT_C6000_DSBT_BASE then Inr (True, dyn_module\<lparr>dsbt_base_tagidx := int i\<rparr>)
       else if d_tag d = DT_C6000_DSBT_INDEX then Inr (True, dyn_module\<lparr>dsbt_index := d_un d\<rparr>)
       else if d_tag d = DT_C6000_DSBT_SIZE then Inr (True, dyn_module\<lparr>dsbt_size := d_un d\<rparr>)
       else Inr (False, dyn_module)))"

definition DLDYN_c60_relocate_dynamic_tag_info ::
    "DLIMP_Loaded_Segment list \<Rightarrow> DLIMP_Dynamic_Module \<Rightarrow> nat \<Rightarrow>
       (bool \<times> DLIMP_Dynamic_Module \<times> message list) result" where
  "DLDYN_c60_relocate_dynamic_tag_info segs dyn_module i =
     bindR (deref (dyntab dyn_module)) (\<lambda>tab.
     bindR (index tab i) (\<lambda>d.
       if d_tag d \<in> {DT_C6000_GSYM_OFFSET, DT_C6000_GSTR_OFFSET, DT_C6000_DSBT_INDEX, DT_C6000_DSBT_SIZE}
       then Inr (True, dyn_module, [])
       else if d_tag d = DT_C6000_DSBT_BASE
       then bindR (DLIMP_update_dyntag_section_address segs i dyn_module) (\<lambda>(ok, dyn_module).
              Inr (ok, dyn_module, []))
       else Inr (False, dyn_module, [DLIF_error DLET_MISC ''Invalid dynamic tag encountered, %d''])))"

definition DLDYN_c60_process_eiosabi :: "DLIMP_Dynamic_Module \<Rightarrow> bool result" where
  "DLDYN_c60_process_eiosabi dyn_module =
     bindR (index (e_ident (fhdr dyn_module)) EI_OSABI) (\<lambda>osabi.
       if relocatable dyn_module then Inr (osabi = ELFOSABI_C6000_ELFABI)
       else Inr (osabi = ELFOSABI_NONE))"

subsection \<open>Behaviour\<close>

text \<open>The entries in front of the terminator.\<close>

definition dyn_entries :: "Elf32_Dyn list \<Rightarrow> Elf32_Dyn list" where
  "dyn_entries tab = takeWhile (\<lambda>d. d_tag d \<noteq> DT_NULL) tab"

definition terminated :: "Elf32_Dyn list \<Rightarrow> bool" where
  "terminated tab \<longleftrightarrow> (\<exists>d \<in> set tab. d_tag d = DT_NULL)"

lemma get_first_dyntag_find:
  assumes "terminated tab"
  shows "DLIMP_get_first_dyntag tag tab =
     Inr (case find (\<lambda>d. d_tag d = tag) (dyn_entries tab) of Some d \<Rightarrow> d_un d | None \<Rightarrow> INT_MAX)"
  using assms by (induction tab) (auto simp: terminated_def dyn_entries_def)

lemma get_first_dyntag_unterminated:
  assumes "\<not> terminated tab" and "\<forall>d \<in> set tab. d_tag d \<noteq> tag"
  shows "DLIMP_get_first_dyntag tag tab = Inl Undefined"
  using assms by (induction tab) (auto simp: terminated_def)

lemma update_dyntag_frame:
  assumes "DLIMP_update_dyntag_section_address segs i dm = Inr (ok, dm')" and "dyntab dm = Some tab"
  shows "i < length tab" and "\<exists>d. dm' = dm\<lparr>dyntab := Some (tab[i := d])\<rparr> \<and> d_tag d = d_tag (tab ! i)"
proof -
  have same: "dm\<lparr>dyntab := Some (tab[i := tab ! i])\<rparr> = dm" using assms(2) by simp
  from assms show "i < length tab"
    by (auto simp: DLIMP_update_dyntag_section_address_def bindR_eq_Inr index_eq_Inr)
  from assms have "dm' = dm \<or> (\<exists>x. dm' = dm\<lparr>dyntab := Some (tab[i := (tab ! i)\<lparr>d_un := x\<rparr>])\<rparr>)"
    by (auto simp: DLIMP_update_dyntag_section_address_def bindR_eq_Inr index_eq_Inr split: if_splits option.splits)
  then show "\<exists>d. dm' = dm\<lparr>dyntab := Some (tab[i := d])\<rparr> \<and> d_tag d = d_tag (tab ! i)"
  proof
    assume "dm' = dm"
    with same show ?thesis by metis
  next
    assume "\<exists>x. dm' = dm\<lparr>dyntab := Some (tab[i := (tab ! i)\<lparr>d_un := x\<rparr>])\<rparr>"
    then obtain x where "dm' = dm\<lparr>dyntab := Some (tab[i := (tab ! i)\<lparr>d_un := x\<rparr>])\<rparr>" ..
    then show ?thesis by (intro exI[of _ "(tab ! i)\<lparr>d_un := x\<rparr>"]) simp
  qed
qed

lemma find_in_segment:
  assumes "find (\<lambda>seg. in_segment seg a) segs = Some seg"
  shows "seg \<in> set segs \<and> in_segment seg a"
  using assms by (auto simp: find_Some_iff)

subsection \<open>Properties\<close>

text \<open>Relocating a section address in the dynamic table moves a
  non-zero address by the displacement of the first segment that contained it when the file was
  linked, keeps its offset inside that segment and every other entry of the table, and fails
  without a change when no segment contains it.\<close>

lemma dyntag_relocation:
  assumes "dyntab dm = Some tab" and "i < length tab" and "d_un (tab ! i) \<noteq> 0"
  shows "(\<exists>seg \<in> set segs. in_segment seg (d_un (tab ! i)) \<and>
            DLIMP_update_dyntag_section_address segs i dm = Inr (True, dm\<lparr>dyntab := Some (tab[i := (tab ! i)
              \<lparr>d_un := p_vaddr (seg_phdr seg) + (d_un (tab ! i) - input_vaddr seg)\<rparr>])\<rparr>)) \<or>
         (\<forall>seg \<in> set segs. \<not> in_segment seg (d_un (tab ! i))) \<and>
            DLIMP_update_dyntag_section_address segs i dm = Inr (False, dm)"
proof (cases "find (\<lambda>seg. in_segment seg (d_un (tab ! i))) segs")
  case None
  then have "\<forall>seg \<in> set segs. \<not> in_segment seg (d_un (tab ! i))" by (simp add: find_None_iff)
  with None assms show ?thesis by (simp add: DLIMP_update_dyntag_section_address_def)
next
  case (Some seg)
  with assms find_in_segment[OF Some] show ?thesis
    by (auto simp: DLIMP_update_dyntag_section_address_def algebra_simps intro!: bexI[of _ seg])
qed

text \<open>In a table with a \<open>DT_NULL\<close> entry, looking up a tag yields the value of its
  first entry in front of the terminator, and \<open>INT_MAX\<close> when there is none.\<close>

lemma first_dyntag:
  assumes "terminated tab"
  shows "DLIMP_get_first_dyntag tag tab =
     Inr (case find (\<lambda>d. d_tag d = tag) (dyn_entries tab) of Some d \<Rightarrow> d_un d | None \<Rightarrow> INT_MAX)"
  using assms by (rule get_first_dyntag_find)

end
