(* ===== verification/C60_Reloc.thy ===== *)
theory C60_Reloc
  imports DLoad_Symtab C60_Dynamic
begin

text \<open>
  C6000 relocations (\<open>C60_DLOAD_REL/c60_reloc.c\<close>): computing, range checking, scaling, masking
  and writing one relocation field (\<open>reloc_do\<close>), reading the relocation tables of a file, and
  walking them segment by segment. Functions that report errors return the messages with their
  result.
\<close>

subsection \<open>Relocation types\<close>

datatype C60_RELOC_TYPE = R_C6000_NONE | R_C6000_ABS32 | R_C6000_ABS16 | R_C6000_ABS8
  | R_C6000_PCR_S21 | R_C6000_PCR_S12 | R_C6000_PCR_S10 | R_C6000_PCR_S7
  | R_C6000_ABS_S16 | R_C6000_ABS_L16 | R_C6000_ABS_H16
  | R_C6000_SBR_U15_B | R_C6000_SBR_U15_H | R_C6000_SBR_U15_W | R_C6000_SBR_S16
  | R_C6000_SBR_L16_B | R_C6000_SBR_L16_H | R_C6000_SBR_L16_W
  | R_C6000_SBR_H16_B | R_C6000_SBR_H16_H | R_C6000_SBR_H16_W
  | R_C6000_SBR_GOT_U15_W | R_C6000_SBR_GOT_L16_W | R_C6000_SBR_GOT_H16_W
  | R_C6000_DSBT_INDEX | R_C6000_PREL31 | R_C6000_COPY | R_C6000_other u8

text \<open>The cast of \<open>ELF32_R_TYPE\<close> to the enumeration; numbers without a name stay what they are.\<close>

definition reloc_types :: "C60_RELOC_TYPE list" where
  "reloc_types = [R_C6000_NONE, R_C6000_ABS32, R_C6000_ABS16, R_C6000_ABS8,
     R_C6000_PCR_S21, R_C6000_PCR_S12, R_C6000_PCR_S10, R_C6000_PCR_S7,
     R_C6000_ABS_S16, R_C6000_ABS_L16, R_C6000_ABS_H16,
     R_C6000_SBR_U15_B, R_C6000_SBR_U15_H, R_C6000_SBR_U15_W, R_C6000_SBR_S16,
     R_C6000_SBR_L16_B, R_C6000_SBR_L16_H, R_C6000_SBR_L16_W,
     R_C6000_SBR_H16_B, R_C6000_SBR_H16_H, R_C6000_SBR_H16_W,
     R_C6000_SBR_GOT_U15_W, R_C6000_SBR_GOT_L16_W, R_C6000_SBR_GOT_H16_W,
     R_C6000_DSBT_INDEX, R_C6000_PREL31, R_C6000_COPY]"

definition reloc_type_of :: "u8 \<Rightarrow> C60_RELOC_TYPE" where
  "reloc_type_of t = (if unat t < length reloc_types then reloc_types ! unat t else R_C6000_other t)"

subsection \<open>One relocation field\<close>

definition MASK :: "nat \<Rightarrow> nat \<Rightarrow> u32" where
  "MASK n s = push_bit s (push_bit n 1 - 1)"

text \<open>\<open>*rel_field_ptr = (*rel_field_ptr & ~MASK(n,s)) | (r << s)\<close>.\<close>

definition rmw_field :: "endian \<Rightarrow> u8 list \<Rightarrow> nat \<Rightarrow> nat \<Rightarrow> nat \<Rightarrow> u32 \<Rightarrow> u8 list result" where
  "rmw_field h mem off n s r = bindR (load32 h mem off) (\<lambda>w.
     store32 h mem off ((w AND NOT (MASK n s)) OR push_bit s r))"

definition write_reloc_r ::
    "endian \<Rightarrow> u8 list \<Rightarrow> u32 \<Rightarrow> C60_RELOC_TYPE \<Rightarrow> u32 \<Rightarrow> (u8 list \<times> message list) result" where
  "write_reloc_r h buffered_segment segment_offset r_type r =
     (let off = unat segment_offset;
          field = (\<lambda>n s. bindR (rmw_field h buffered_segment off n s r) (\<lambda>b. Inr (b, [])));
          bad = Inr (buffered_segment,
                  [DLIF_error DLET_RELOC ''write_reloc_r called with invalid relocation type!''])
      in case r_type of
        R_C6000_ABS32 \<Rightarrow> bindR (store32 h buffered_segment off r) (\<lambda>b. Inr (b, []))
      | R_C6000_PREL31 \<Rightarrow> field 30 0
      | R_C6000_ABS16 \<Rightarrow> bindR (store16 h buffered_segment off (ucast r)) (\<lambda>b. Inr (b, []))
      | R_C6000_ABS8 \<Rightarrow> bindR (store8 buffered_segment off (ucast r)) (\<lambda>b. Inr (b, []))
      | R_C6000_PCR_S21 \<Rightarrow> field 21 7
      | R_C6000_PCR_S12 \<Rightarrow> field 12 16
      | R_C6000_PCR_S10 \<Rightarrow> field 10 13
      | R_C6000_PCR_S7 \<Rightarrow> field 7 16
      | R_C6000_ABS_S16 \<Rightarrow> field 16 7
      | R_C6000_ABS_L16 \<Rightarrow> field 16 7
      | R_C6000_ABS_H16 \<Rightarrow> field 16 7
      | R_C6000_SBR_U15_B \<Rightarrow> field 15 8
      | R_C6000_SBR_U15_H \<Rightarrow> field 15 8
      | R_C6000_SBR_U15_W \<Rightarrow> field 15 8
      | R_C6000_DSBT_INDEX \<Rightarrow> field 15 8
      | R_C6000_SBR_S16 \<Rightarrow> field 16 7
      | R_C6000_SBR_L16_B \<Rightarrow> field 16 7
      | R_C6000_SBR_L16_H \<Rightarrow> field 16 7
      | R_C6000_SBR_L16_W \<Rightarrow> field 16 7
      | R_C6000_SBR_H16_B \<Rightarrow> field 16 7
      | R_C6000_SBR_H16_H \<Rightarrow> field 16 7
      | R_C6000_SBR_H16_W \<Rightarrow> field 16 7
      | _ \<Rightarrow> bad)"

text \<open>\<open>>>\<close> on \<open>int32_t\<close> is an arithmetic shift.\<close>

definition pack_result :: "i32 \<Rightarrow> C60_RELOC_TYPE \<Rightarrow> i32 \<times> message list" where
  "pack_result unpacked_result r_type = (let shr = (\<lambda>k. (signed_drop_bit k unpacked_result, [])) in
     case r_type of
        R_C6000_ABS32 \<Rightarrow> (unpacked_result, [])
      | R_C6000_ABS16 \<Rightarrow> (unpacked_result, [])
      | R_C6000_ABS8 \<Rightarrow> (unpacked_result, [])
      | R_C6000_ABS_S16 \<Rightarrow> (unpacked_result, [])
      | R_C6000_ABS_L16 \<Rightarrow> (unpacked_result, [])
      | R_C6000_SBR_U15_B \<Rightarrow> (unpacked_result, [])
      | R_C6000_SBR_S16 \<Rightarrow> (unpacked_result, [])
      | R_C6000_SBR_L16_B \<Rightarrow> (unpacked_result, [])
      | R_C6000_SBR_U15_H \<Rightarrow> shr 1
      | R_C6000_SBR_L16_H \<Rightarrow> shr 1
      | R_C6000_PREL31 \<Rightarrow> shr 1
      | R_C6000_PCR_S21 \<Rightarrow> shr 2
      | R_C6000_PCR_S12 \<Rightarrow> shr 2
      | R_C6000_PCR_S10 \<Rightarrow> shr 2
      | R_C6000_PCR_S7 \<Rightarrow> shr 2
      | R_C6000_SBR_U15_W \<Rightarrow> shr 2
      | R_C6000_SBR_L16_W \<Rightarrow> shr 2
      | R_C6000_DSBT_INDEX \<Rightarrow> shr 2
      | R_C6000_ABS_H16 \<Rightarrow> shr 16
      | R_C6000_SBR_H16_B \<Rightarrow> shr 16
      | R_C6000_SBR_H16_H \<Rightarrow> shr 17
      | R_C6000_SBR_H16_W \<Rightarrow> shr 18
      | _ \<Rightarrow> (0, [DLIF_error DLET_RELOC ''pack_result called with invalid relocation type!'']))"

definition mask_result :: "i32 \<Rightarrow> C60_RELOC_TYPE \<Rightarrow> i32 \<times> message list" where
  "mask_result unmasked_result r_type = (let msk = (\<lambda>m. (unmasked_result AND m, [])) in
     case r_type of
        R_C6000_ABS8 \<Rightarrow> msk 0xFF
      | R_C6000_ABS32 \<Rightarrow> (unmasked_result, [])
      | R_C6000_ABS16 \<Rightarrow> msk 0xFFFF
      | R_C6000_ABS_S16 \<Rightarrow> msk 0xFFFF
      | R_C6000_ABS_L16 \<Rightarrow> msk 0xFFFF
      | R_C6000_ABS_H16 \<Rightarrow> msk 0xFFFF
      | R_C6000_SBR_S16 \<Rightarrow> msk 0xFFFF
      | R_C6000_SBR_L16_B \<Rightarrow> msk 0xFFFF
      | R_C6000_SBR_L16_H \<Rightarrow> msk 0xFFFF
      | R_C6000_SBR_L16_W \<Rightarrow> msk 0xFFFF
      | R_C6000_SBR_H16_B \<Rightarrow> msk 0xFFFF
      | R_C6000_SBR_H16_H \<Rightarrow> msk 0xFFFF
      | R_C6000_SBR_H16_W \<Rightarrow> msk 0xFFFF
      | R_C6000_PCR_S21 \<Rightarrow> msk 0x1FFFFF
      | R_C6000_PCR_S12 \<Rightarrow> msk 0xFFF
      | R_C6000_PCR_S10 \<Rightarrow> msk 0x3FF
      | R_C6000_PCR_S7 \<Rightarrow> msk 0x7F
      | R_C6000_SBR_U15_B \<Rightarrow> msk 0x7FFF
      | R_C6000_SBR_U15_H \<Rightarrow> msk 0x7FFF
      | R_C6000_SBR_U15_W \<Rightarrow> msk 0x7FFF
      | R_C6000_DSBT_INDEX \<Rightarrow> msk 0x7FFF
      | R_C6000_PREL31 \<Rightarrow> msk 0x7FFFFFFF
      | _ \<Rightarrow> (0, [DLIF_error DLET_RELOC ''mask_result called with invalid relocation type!'']))"

definition rel_overflow :: "C60_RELOC_TYPE \<Rightarrow> i32 \<Rightarrow> bool \<times> message list" where
  "rel_overflow r_type reloc_value = (let v = sint reloc_value; u = uint reloc_value in
     case r_type of
        R_C6000_ABS16 \<Rightarrow> (v > 65535 \<or> v < -32768, [])
      | R_C6000_ABS8 \<Rightarrow> (v > 255 \<or> v < -128, [])
      | R_C6000_PCR_S21 \<Rightarrow> (v \<ge> 0x400000 \<or> v < -0x400000, [])
      | R_C6000_PCR_S12 \<Rightarrow> (v \<ge> 0x2000 \<or> v < -0x2000, [])
      | R_C6000_PCR_S10 \<Rightarrow> (v \<ge> 0x800 \<or> v < -0x800, [])
      | R_C6000_PCR_S7 \<Rightarrow> (v \<ge> 0x100 \<or> v < -0x100, [])
      | R_C6000_SBR_S16 \<Rightarrow> (v \<ge> 0x8000 \<or> v < -0x8000, [])
      | R_C6000_ABS_S16 \<Rightarrow> (v \<ge> 0x8000 \<or> v < -0x8000, [])
      | R_C6000_SBR_U15_B \<Rightarrow> (u \<ge> 0x8000, [])
      | R_C6000_SBR_U15_H \<Rightarrow> (u \<ge> 0xFFFF, [])
      | R_C6000_DSBT_INDEX \<Rightarrow> (u \<ge> 0x1FFFD, [])
      | R_C6000_SBR_U15_W \<Rightarrow> (u \<ge> 0x1FFFD, [])
      | R_C6000_ABS_L16 \<Rightarrow> (False, [])
      | R_C6000_ABS_H16 \<Rightarrow> (False, [])
      | R_C6000_SBR_L16_B \<Rightarrow> (False, [])
      | R_C6000_SBR_L16_H \<Rightarrow> (False, [])
      | R_C6000_SBR_L16_W \<Rightarrow> (False, [])
      | R_C6000_SBR_H16_B \<Rightarrow> (False, [])
      | R_C6000_SBR_H16_H \<Rightarrow> (False, [])
      | R_C6000_SBR_H16_W \<Rightarrow> (False, [])
      | R_C6000_ABS32 \<Rightarrow> (False, [])
      | R_C6000_PREL31 \<Rightarrow> (False, [])
      | _ \<Rightarrow> (True, [DLIF_error DLET_RELOC ''rel_overflow called with invalid relocation type!'']))"

text \<open>The switch at the head of \<open>reloc_do\<close>: the value before scaling.\<close>

definition reloc_value_of ::
    "C60_RELOC_TYPE \<Rightarrow> u32 \<Rightarrow> u32 \<Rightarrow> u32 \<Rightarrow> u32 \<Rightarrow> u32 \<Rightarrow> i32 \<Rightarrow> i32 \<times> message list" where
  "reloc_value_of r_type segment_vaddr addend symval spc base_pointer dsbt =
     (let absolute = (symval + addend, []);
          pc_relative = (symval + addend - ((spc + segment_vaddr) AND 0xffffffe0), []);
          base_relative = (symval + addend - base_pointer, [])
      in case r_type of
        R_C6000_ABS32 \<Rightarrow> absolute
      | R_C6000_ABS16 \<Rightarrow> absolute
      | R_C6000_ABS8 \<Rightarrow> absolute
      | R_C6000_ABS_S16 \<Rightarrow> absolute
      | R_C6000_ABS_L16 \<Rightarrow> absolute
      | R_C6000_ABS_H16 \<Rightarrow> absolute
      | R_C6000_PCR_S21 \<Rightarrow> pc_relative
      | R_C6000_PCR_S12 \<Rightarrow> pc_relative
      | R_C6000_PCR_S10 \<Rightarrow> pc_relative
      | R_C6000_PCR_S7 \<Rightarrow> pc_relative
      | R_C6000_PREL31 \<Rightarrow> (symval + addend - (spc + segment_vaddr), [])
      | R_C6000_SBR_U15_B \<Rightarrow> base_relative
      | R_C6000_SBR_U15_H \<Rightarrow> base_relative
      | R_C6000_SBR_U15_W \<Rightarrow> base_relative
      | R_C6000_SBR_S16 \<Rightarrow> base_relative
      | R_C6000_SBR_L16_B \<Rightarrow> base_relative
      | R_C6000_SBR_L16_H \<Rightarrow> base_relative
      | R_C6000_SBR_L16_W \<Rightarrow> base_relative
      | R_C6000_SBR_H16_B \<Rightarrow> base_relative
      | R_C6000_SBR_H16_H \<Rightarrow> base_relative
      | R_C6000_SBR_H16_W \<Rightarrow> base_relative
      | R_C6000_DSBT_INDEX \<Rightarrow> (((symval + addend) - base_pointer) + push_bit 2 dsbt, [])
      | _ \<Rightarrow> (0, [DLIF_error DLET_RELOC ''reloc_do called with invalid relocation type!'']))"

text \<open>\<open>DLIMP_change_endian32\<close> applied in place to a cell of the segment buffer.\<close>

definition swap32_at :: "endian \<Rightarrow> u8 list \<Rightarrow> nat \<Rightarrow> u8 list result" where
  "swap32_at h mem off = bindR (load32 h mem off) (\<lambda>w. store32 h mem off (DLIMP_change_endian32 w))"

definition reloc_do ::
    "endian \<Rightarrow> C60_RELOC_TYPE \<Rightarrow> u32 \<Rightarrow> u8 list \<Rightarrow> u32 \<Rightarrow> u32 \<Rightarrow> u32 \<Rightarrow> bool \<Rightarrow> u32 \<Rightarrow> i32 \<Rightarrow>
       (u8 list \<times> message list) result" where
  "reloc_do h r_type segment_vaddr segment_buffer addend symval spc wrong_end base_pointer dsbt =
     (let (reloc_value, ms1) = reloc_value_of r_type segment_vaddr addend symval spc base_pointer dsbt;
          (overflow, ms2) = rel_overflow r_type reloc_value;
          ms3 = (if overflow then [DLIF_error DLET_RELOC ''relocation overflow!''] else []);
          (packed, ms4) = pack_result reloc_value r_type;
          (masked, ms5) = mask_result packed r_type
      in bindR (if wrong_end then swap32_at h segment_buffer (unat spc) else Inr segment_buffer) (\<lambda>buf.
         bindR (write_reloc_r h buf spc r_type masked) (\<lambda>(buf, ms6).
         bindR (if wrong_end then swap32_at h buf (unat spc) else Inr buf) (\<lambda>buf.
           Inr (buf, ms1 @ ms2 @ ms3 @ ms4 @ ms5 @ ms6)))))"

text \<open>
  Addends stored in the relocation field are not supported on the C6000: the process exits. The
  exit is the result; the message that precedes it is lost with the process.
\<close>

definition rel_unpack_addend :: "C60_RELOC_TYPE \<Rightarrow> u8 list \<Rightarrow> u32 result" where
  "rel_unpack_addend r_type address = Inl (Exit 1)"

definition rel_swap_endian :: "DLIMP_Dynamic_Module \<Rightarrow> C60_RELOC_TYPE \<Rightarrow> bool" where
  "rel_swap_endian dyn_module r_type = (if wrong_endian dyn_module then True else False)"

definition rel_change_endian :: "endian \<Rightarrow> C60_RELOC_TYPE \<Rightarrow> u8 list \<Rightarrow> nat \<Rightarrow> u8 list result" where
  "rel_change_endian h r_type mem off = swap32_at h mem off"

subsection \<open>Relocation tables\<close>

text \<open>
  The tables are read as \<open>relnum\<close> entries of \<open>relent\<close> bytes into an array that is then indexed
  as an array of structures, so entries that are not wholly inside the bytes read are not there.
  \<open>None\<close> is a null table. The file position after a read is not kept, as every read is preceded
  by a seek to an absolute position.
\<close>

definition table_bytes :: "FILE option \<Rightarrow> i32 \<Rightarrow> u32 \<Rightarrow> u32 \<Rightarrow> u8 list result" where
  "table_bytes fp table_offset num ent = bindR (deref fp) (\<lambda>f.
     bindR (DLIF_fread (DLIF_fseek_set f table_offset) (unat num) (unat ent)) (\<lambda>(bs, f'). Inr bs))"

definition read_rel_table ::
    "endian \<Rightarrow> i32 \<Rightarrow> u32 \<Rightarrow> u32 \<Rightarrow> FILE option \<Rightarrow> bool \<Rightarrow> Elf32_Rel list option result" where
  "read_rel_table h table_offset num relent fp wrong_end =
     (if num = 0 then Inr None
      else bindR (table_bytes fp table_offset num relent) (\<lambda>bs.
        let tab = read_array (read_Rel h) sizeof_Rel (length bs div sizeof_Rel) bs
        in if wrong_end
           then if unat num \<le> length tab
                then Inr (Some (map DLIMP_change_rel_endian (take (unat num) tab) @ drop (unat num) tab))
                else Inl Undefined
           else Inr (Some tab)))"

definition read_rela_table ::
    "endian \<Rightarrow> i32 \<Rightarrow> u32 \<Rightarrow> u32 \<Rightarrow> FILE option \<Rightarrow> bool \<Rightarrow> Elf32_Rela list option result" where
  "read_rela_table h table_offset num relaent fp wrong_end =
     (if num = 0 then Inr None
      else bindR (table_bytes fp table_offset num relaent) (\<lambda>bs.
        let tab = read_array (read_Rela h) sizeof_Rela (length bs div sizeof_Rela) bs
        in if wrong_end
           then if unat num \<le> length tab
                then Inr (Some (map DLIMP_change_rela_endian (take (unat num) tab) @ drop (unat num) tab))
                else Inl Undefined
           else Inr (Some tab)))"

text \<open>
  One entry of a table of \<open>Elf32_Rela\<close> relocations: the body of the loop, for an entry that falls
  into the segment. The segment is passed and returned by value.
\<close>

definition rela_entry ::
    "endian \<Rightarrow> DLIMP_Dynamic_Module \<Rightarrow> DLIMP_Loaded_Module \<Rightarrow> u32 \<Rightarrow> Elf32_Rela \<Rightarrow>
       'c loader \<times> DLIMP_Loaded_Segment \<Rightarrow> ('c loader \<times> DLIMP_Loaded_Segment) result" where
  "rela_entry h dyn_module module ti_static_base r = (\<lambda>(st, seg).
     let r_type = reloc_type_of (ELF32_R_TYPE (r_info r)); r_symid = ELF32_R_SYM (r_info r)
     in bindR (DLSYM_canonical_lookup st r_symid dyn_module module) (\<lambda>(found, r_symval, st).
        if \<not> found then Inr (st, seg)
        else bindR (deref (host_address seg)) (\<lambda>buf.
             bindR (reloc_do h r_type (p_vaddr (seg_phdr seg)) buf (r_addend r) r_symval
                      (r_offset r - input_vaddr seg) (wrong_endian dyn_module) ti_static_base
                      (dsbt_index dyn_module)) (\<lambda>(buf, ms).
               Inr (report ms st, seg\<lparr>host_address := Some buf\<rparr>)))))"

definition rel_entry ::
    "endian \<Rightarrow> DLIMP_Dynamic_Module \<Rightarrow> DLIMP_Loaded_Module \<Rightarrow> u32 \<Rightarrow> Elf32_Rel \<Rightarrow>
       'c loader \<times> DLIMP_Loaded_Segment \<Rightarrow> ('c loader \<times> DLIMP_Loaded_Segment) result" where
  "rel_entry h dyn_module module ti_static_base r = (\<lambda>(st, seg).
     let r_type = reloc_type_of (ELF32_R_TYPE (r_info r)); r_symid = ELF32_R_SYM (r_info r)
     in bindR (DLSYM_canonical_lookup st r_symid dyn_module module) (\<lambda>(found, r_symval, st).
        if \<not> found then Inr (st, seg)
        else let pc = r_offset r - input_vaddr seg
             in bindR (deref (host_address seg)) (\<lambda>buf.
                bindR (if rel_swap_endian dyn_module r_type
                       then rel_change_endian h r_type buf (unat pc) else Inr buf) (\<lambda>buf.
                bindR (rel_unpack_addend r_type (drop (unat pc) buf)) (\<lambda>addend.
                bindR (reloc_do h r_type (p_vaddr (seg_phdr seg)) buf addend r_symval pc
                         (wrong_endian dyn_module) ti_static_base (dsbt_index dyn_module)) (\<lambda>(buf, ms).
                  Inr (report ms st, seg\<lparr>host_address := Some buf\<rparr>)))))))"

text \<open>The loop: entries outside the segment are skipped until one was found, and end it after.\<close>

fun reloc_loop ::
    "('r \<Rightarrow> 's \<Rightarrow> 's result) \<Rightarrow> ('r \<Rightarrow> bool) \<Rightarrow> 'r list \<Rightarrow> bool \<Rightarrow> nat list \<Rightarrow> 's \<Rightarrow> 's result" where
  "reloc_loop entry falls tab found [] s = Inr s"
| "reloc_loop entry falls tab found (relidx # is) s = bindR (index tab relidx) (\<lambda>r.
     if falls r then bindR (entry r s) (reloc_loop entry falls tab True is)
     else if found then Inr s
     else reloc_loop entry falls tab found is s)"

definition process_rel_table ::
    "endian \<Rightarrow> DLIMP_Dynamic_Module \<Rightarrow> DLIMP_Loaded_Module \<Rightarrow> Elf32_Rel list \<Rightarrow> u32 \<Rightarrow> i32 \<Rightarrow> u32 \<Rightarrow>
       'c loader \<times> DLIMP_Loaded_Segment \<Rightarrow> ('c loader \<times> DLIMP_Loaded_Segment) result" where
  "process_rel_table h dyn_module module rel_table num start_relidx ti_static_base = (\<lambda>(st, seg).
     let relidx = (if start_relidx \<ge> num then 0 else start_relidx)
     in reloc_loop (rel_entry h dyn_module module ti_static_base) (\<lambda>r. in_segment seg (r_offset r))
          rel_table False [unat relidx..<unat num] (st, seg))"

definition process_rela_table ::
    "endian \<Rightarrow> DLIMP_Dynamic_Module \<Rightarrow> DLIMP_Loaded_Module \<Rightarrow> Elf32_Rela list \<Rightarrow> u32 \<Rightarrow> i32 \<Rightarrow> u32 \<Rightarrow>
       'c loader \<times> DLIMP_Loaded_Segment \<Rightarrow> ('c loader \<times> DLIMP_Loaded_Segment) result" where
  "process_rela_table h dyn_module module rela_table num start_relidx ti_static_base = (\<lambda>(st, seg).
     let relidx = (if start_relidx > num then 0 else start_relidx)
     in reloc_loop (rela_entry h dyn_module module ti_static_base) (\<lambda>r. in_segment seg (r_offset r))
          rela_table False [unat relidx..<unat num] (st, seg))"

text \<open>Updating the segments of a module one by one, the first index being \<open>k\<close>.\<close>

fun map_segments ::
    "(DLIMP_Loaded_Segment \<Rightarrow> 'c loader \<Rightarrow> ('c loader \<times> DLIMP_Loaded_Segment) result) \<Rightarrow>
       DLIMP_Loaded_Segment list \<Rightarrow> 'c loader \<Rightarrow> ('c loader \<times> DLIMP_Loaded_Segment list) result" where
  "map_segments f [] st = Inr (st, [])"
| "map_segments f (seg # segs) st = bindR (f seg st) (\<lambda>(st, seg).
     bindR (map_segments f segs st) (\<lambda>(st, segs). Inr (st, seg # segs)))"

text \<open>Looking up \<open>__TI_STATIC_BASE\<close>; an unresolved base is reported and taken to be 0.\<close>

definition static_base_value :: "DLIMP_Dynamic_Module \<Rightarrow> 'c loader \<Rightarrow> (u32 \<times> 'c loader) result" where
  "static_base_value dyn_module st =
     bindR (DLSYM_lookup_local_symtab ''__TI_STATIC_BASE''
              (case symtab dyn_module of None \<Rightarrow> [] | Some t \<Rightarrow> t) (symnum dyn_module)
              (case strtab dyn_module of None \<Rightarrow> [] | Some s \<Rightarrow> s)) (\<lambda>(found, v).
       Inr (v, if found then st
               else report [DLIF_error DLET_RELOC ''Could not resolve value of __TI_STATIC_BASE''] st))"

definition process_got_relocs ::
    "endian \<Rightarrow> Elf32_Rel list option \<Rightarrow> u32 \<Rightarrow> Elf32_Rela list option \<Rightarrow> u32 \<Rightarrow> DLIMP_Dynamic_Module \<Rightarrow>
       'c loader \<Rightarrow> DLIMP_Loaded_Module \<Rightarrow> ('c loader \<times> DLIMP_Loaded_Module) result" where
  "process_got_relocs h rel_table num rela_table numa dyn_module st module =
     bindR (static_base_value dyn_module st) (\<lambda>(ti_static_base, st).
     bindR (map_segments (\<lambda>seg st.
        if p_filesz (seg_phdr seg) = 0 then Inr (st, seg)
        else bindR (case rela_table of None \<Rightarrow> Inr (st, seg)
                    | Some tab \<Rightarrow> process_rela_table h dyn_module module tab numa 0 ti_static_base (st, seg))
               (\<lambda>(st, seg). case rel_table of None \<Rightarrow> Inr (st, seg)
                    | Some tab \<Rightarrow> process_rel_table h dyn_module module tab num 0 ti_static_base (st, seg)))
        (loaded_segments module) st) (\<lambda>(st, segs). Inr (st, module\<lparr>loaded_segments := segs\<rparr>)))"

text \<open>The PLTGOT table is of one of two types.\<close>

datatype plt_table = PltRel "Elf32_Rel list" | PltRela "Elf32_Rela list"

fun process_first_segment ::
    "(DLIMP_Loaded_Segment \<Rightarrow> 'c loader \<Rightarrow> ('c loader \<times> DLIMP_Loaded_Segment) result) \<Rightarrow>
       (DLIMP_Loaded_Segment \<Rightarrow> bool) \<Rightarrow> DLIMP_Loaded_Segment list \<Rightarrow> 'c loader \<Rightarrow>
       ('c loader \<times> DLIMP_Loaded_Segment list) result" where
  "process_first_segment f falls [] st = Inr (st, [])"
| "process_first_segment f falls (seg # segs) st =
     (if p_filesz (seg_phdr seg) \<noteq> 0 \<and> falls seg
      then bindR (f seg st) (\<lambda>(st, seg). Inr (st, seg # segs))
      else bindR (process_first_segment f falls segs st) (\<lambda>(st, segs). Inr (st, seg # segs)))"

definition process_pltgot_relocs ::
    "endian \<Rightarrow> plt_table \<Rightarrow> u32 \<Rightarrow> DLIMP_Dynamic_Module \<Rightarrow> 'c loader \<Rightarrow> DLIMP_Loaded_Module \<Rightarrow>
       ('c loader \<times> DLIMP_Loaded_Module) result" where
  "process_pltgot_relocs h plt num dyn_module st module =
     bindR (case plt of PltRel t \<Rightarrow> bindR (index t 0) (\<lambda>r. Inr (r_offset r))
                      | PltRela t \<Rightarrow> bindR (index t 0) (\<lambda>r. Inr (r_offset r))) (\<lambda>off.
     bindR (static_base_value dyn_module st) (\<lambda>(ti_static_base, st).
     bindR (process_first_segment (\<lambda>seg st. case plt of
          PltRel t \<Rightarrow> process_rel_table h dyn_module module t num 0 ti_static_base (st, seg)
        | PltRela t \<Rightarrow> process_rela_table h dyn_module module t num 0 ti_static_base (st, seg))
        (\<lambda>seg. in_segment seg off) (loaded_segments module) st)
       (\<lambda>(st, segs). Inr (st, module\<lparr>loaded_segments := segs\<rparr>))))"


subsection \<open>Relocating a module\<close>

text \<open>Unsigned division, undefined for a zero divisor.\<close>

definition udiv :: "u32 \<Rightarrow> u32 \<Rightarrow> u32 result" where
  "udiv a b = (if b = 0 then Inl Undefined else Inr (a div b))"

text \<open>The module's DSBT index, asked from the client when the module uses a DSBT without a fixed one.\<close>

definition record_dsbt_index ::
    "'c DLIF \<Rightarrow> 'c loader \<Rightarrow> DLIMP_Loaded_Module \<Rightarrow> DLIMP_Dynamic_Module \<Rightarrow> DLIMP_Dynamic_Module result" where
  "record_dsbt_index D st module dyn_module =
     (if is_dsbt_module dyn_module \<and> dsbt_index dyn_module = DSBT_INDEX_INVALID
      then bindR (DLIF_get_dsbt_index D (client st) (lm_file_handle module)) (\<lambda>i.
             Inr (dyn_module\<lparr>dsbt_index := i\<rparr>))
      else Inr dyn_module)"

text \<open>
  Reading the PLTGOT table: the table (if any), its number of entries, the sizes that are left for
  the other two tables, and the messages.
\<close>

definition read_plt_table ::
    "endian \<Rightarrow> FILE option \<Rightarrow> bool \<Rightarrow> Elf32_Dyn list \<Rightarrow> u32 \<Rightarrow> u32 \<Rightarrow> u32 \<Rightarrow> u32 \<Rightarrow> u32 \<Rightarrow> i32 \<Rightarrow>
       (plt_table option \<times> u32 \<times> u32 \<times> u32 \<times> message list) result" where
  "read_plt_table h fp wrong_end tab relasz relaent relsz relent pltrelsz pltreltyp =
     (if pltrelsz \<noteq> INT_MAX \<and> pltrelsz \<noteq> 0
      then if pltreltyp = DT_REL
           then bindR (udiv pltrelsz relent) (\<lambda>pltnum.
                bindR (DLIMP_get_first_dyntag DT_JMPREL tab) (\<lambda>jmprel.
                bindR (read_rel_table h jmprel pltnum relent fp wrong_end) (\<lambda>t.
                  Inr (map_option PltRel t, pltnum, relasz, relsz - pltrelsz, []))))
           else if pltreltyp = DT_RELA
           then bindR (udiv pltrelsz relaent) (\<lambda>pltnum.
                bindR (DLIMP_get_first_dyntag DT_JMPREL tab) (\<lambda>jmprel.
                bindR (read_rela_table h jmprel pltnum relaent fp wrong_end) (\<lambda>t.
                  Inr (map_option PltRela t, pltnum, relasz - pltrelsz, relsz, []))))
           else Inr (None, 0, relasz, relsz,
                  [DLIF_error DLET_RELOC ''DT_PLTREL is invalid: must be either %d or %d''])
      else Inr (None, 0, relasz, relsz, []))"

definition read_got_rela ::
    "endian \<Rightarrow> FILE option \<Rightarrow> bool \<Rightarrow> Elf32_Dyn list \<Rightarrow> u32 \<Rightarrow> u32 \<Rightarrow> (Elf32_Rela list option \<times> u32) result" where
  "read_got_rela h fp wrong_end tab relasz relaent =
     (if relasz \<noteq> INT_MAX \<and> relasz \<noteq> 0
      then bindR (udiv relasz relaent) (\<lambda>relanum.
           bindR (DLIMP_get_first_dyntag DT_RELA tab) (\<lambda>off.
           bindR (read_rela_table h off relanum relaent fp wrong_end) (\<lambda>t. Inr (t, relanum))))
      else Inr (None, 0))"

definition read_got_rel ::
    "endian \<Rightarrow> FILE option \<Rightarrow> bool \<Rightarrow> Elf32_Dyn list \<Rightarrow> u32 \<Rightarrow> u32 \<Rightarrow> (Elf32_Rel list option \<times> u32) result" where
  "read_got_rel h fp wrong_end tab relsz relent =
     (if relsz \<noteq> INT_MAX \<and> relsz \<noteq> 0
      then bindR (udiv relsz relent) (\<lambda>relnum.
           bindR (DLIMP_get_first_dyntag DT_REL tab) (\<lambda>off.
           bindR (read_rel_table h off relnum relent fp wrong_end) (\<lambda>t. Inr (t, relnum))))
      else Inr (None, 0))"

definition DLREL_c60_relocate ::
    "'c DLIF \<Rightarrow> endian \<Rightarrow> FILE option \<Rightarrow> DLIMP_Dynamic_Module \<Rightarrow> 'c loader \<Rightarrow> DLIMP_Loaded_Module \<Rightarrow>
       ('c loader \<times> DLIMP_Dynamic_Module \<times> DLIMP_Loaded_Module) result" where
  "DLREL_c60_relocate D h fp dyn_module st module =
     bindR (deref (dyntab dyn_module)) (\<lambda>tab.
     bindR (DLIMP_get_first_dyntag DT_RELASZ tab) (\<lambda>relasz.
     bindR (DLIMP_get_first_dyntag DT_RELAENT tab) (\<lambda>relaent.
     bindR (DLIMP_get_first_dyntag DT_RELSZ tab) (\<lambda>relsz.
     bindR (DLIMP_get_first_dyntag DT_RELENT tab) (\<lambda>relent.
     bindR (DLIMP_get_first_dyntag DT_PLTRELSZ tab) (\<lambda>pltrelsz.
     bindR (DLIMP_get_first_dyntag DT_PLTREL tab) (\<lambda>pltreltyp.
     bindR (record_dsbt_index D st module dyn_module) (\<lambda>dyn_module.
     bindR (read_plt_table h fp (wrong_endian dyn_module) tab relasz relaent relsz relent pltrelsz pltreltyp)
       (\<lambda>(plt, pltnum, relasz, relsz, ms).
     bindR (read_got_rela h fp (wrong_endian dyn_module) tab relasz relaent) (\<lambda>(rela_table, relanum).
     bindR (read_got_rel h fp (wrong_endian dyn_module) tab relsz relent) (\<lambda>(rel_table, relnum).
     let st = report ms st in
     bindR (case plt of None \<Rightarrow> Inr (st, module)
            | Some t \<Rightarrow> process_pltgot_relocs h t pltnum dyn_module st module) (\<lambda>(st, module).
     bindR (if rel_table \<noteq> None \<or> rela_table \<noteq> None
            then process_got_relocs h rel_table relnum rela_table relanum dyn_module st module
            else Inr (st, module)) (\<lambda>(st, module).
       Inr (st, dyn_module, module))))))))))))))"

subsection \<open>Reference: the fields of an instruction word\<close>

text \<open>
  The relocation fields inside a 32 bit cell as the C6000 ABI tabulates them: width, position of
  the lowest bit, and number of low bits of the value that are dropped.
\<close>

fun reloc_field :: "C60_RELOC_TYPE \<Rightarrow> (nat \<times> nat \<times> nat) option" where
  "reloc_field R_C6000_ABS32 = Some (32, 0, 0)"
| "reloc_field R_C6000_PCR_S21 = Some (21, 7, 2)"
| "reloc_field R_C6000_PCR_S12 = Some (12, 16, 2)"
| "reloc_field R_C6000_PCR_S10 = Some (10, 13, 2)"
| "reloc_field R_C6000_PCR_S7 = Some (7, 16, 2)"
| "reloc_field R_C6000_ABS_S16 = Some (16, 7, 0)"
| "reloc_field R_C6000_ABS_L16 = Some (16, 7, 0)"
| "reloc_field R_C6000_ABS_H16 = Some (16, 7, 16)"
| "reloc_field R_C6000_SBR_U15_B = Some (15, 8, 0)"
| "reloc_field R_C6000_SBR_U15_H = Some (15, 8, 1)"
| "reloc_field R_C6000_SBR_U15_W = Some (15, 8, 2)"
| "reloc_field R_C6000_SBR_S16 = Some (16, 7, 0)"
| "reloc_field R_C6000_SBR_L16_B = Some (16, 7, 0)"
| "reloc_field R_C6000_SBR_L16_H = Some (16, 7, 1)"
| "reloc_field R_C6000_SBR_L16_W = Some (16, 7, 2)"
| "reloc_field R_C6000_SBR_H16_B = Some (16, 7, 16)"
| "reloc_field R_C6000_SBR_H16_H = Some (16, 7, 17)"
| "reloc_field R_C6000_SBR_H16_W = Some (16, 7, 18)"
| "reloc_field R_C6000_DSBT_INDEX = Some (15, 8, 2)"
| "reloc_field _ = None"

definition get_field :: "nat \<Rightarrow> nat \<Rightarrow> u32 \<Rightarrow> u32" where
  "get_field n s w = take_bit n (drop_bit s w)"

definition put_field :: "nat \<Rightarrow> nat \<Rightarrow> u32 \<Rightarrow> u32 \<Rightarrow> u32" where
  "put_field n s w x = (w AND NOT (push_bit s (mask n))) OR push_bit s (take_bit n x)"

text \<open>What the field of a relocated value holds.\<close>

definition field_value :: "nat \<Rightarrow> nat \<Rightarrow> u32 \<Rightarrow> u32" where
  "field_value n k v = take_bit n (signed_drop_bit k v)"

lemma reloc_field_bounds: "reloc_field t = Some (n, s, k) \<Longrightarrow> 0 < n \<and> n + s \<le> 32 \<and> k < 32"
  by (cases t) auto

lemma MASK_mask: "MASK n s = push_bit s (mask n)"
  by (simp add: MASK_def mask_eq_exp_minus_1 push_bit_eq_mult)

lemma get_put_field [simp]: "n + s \<le> 32 \<Longrightarrow> get_field n s (put_field n s w x) = take_bit n x"
  by (rule bit_word_eqI) (auto simp: get_field_def put_field_def bit_simps)

lemma bit_put_field_other:
  "i < s \<or> s + n \<le> i \<Longrightarrow> bit (put_field n s w x) i = bit w i"
  by (auto simp: put_field_def bit_simps dest: bit_imp_le_length)

subsection \<open>The steps of a relocation agree with the reference\<close>

lemma hex_masks:
  "(0xFF :: u32) = mask 8" "(0xFFFF :: u32) = mask 16" "(0x1FFFFF :: u32) = mask 21"
  "(0xFFF :: u32) = mask 12" "(0x3FF :: u32) = mask 10" "(0x7F :: u32) = mask 7"
  "(0x7FFF :: u32) = mask 15"
  by (simp_all add: mask_eq_exp_minus_1)

lemma mask_pack_result:
  assumes "reloc_field t = Some (n, s, k)"
  shows "mask_result (fst (pack_result v t)) t = (field_value n k v, [])" and "snd (pack_result v t) = []"
proof -
  have 32: "take_bit 32 v = v" by (simp add: take_bit_word_eq_self)
  show "mask_result (fst (pack_result v t)) t = (field_value n k v, [])"
    using assms by (cases t)
      (auto simp: pack_result_def mask_result_def field_value_def hex_masks take_bit_eq_mask 32[unfolded take_bit_eq_mask])
  show "snd (pack_result v t) = []"
    using assms by (cases t) (auto simp: pack_result_def)
qed

lemma rmw_field_put:
  "rmw_field h mem off n s (take_bit n r) = bindR (load32 h mem off) (\<lambda>w. store32 h mem off (put_field n s w r))"
  by (simp add: rmw_field_def MASK_mask put_field_def)

lemma store32_via_load:
  "store32 h mem off r = bindR (load32 h mem off) (\<lambda>w. store32 h mem off (put_field 32 0 w r))"
proof -
  have "put_field 32 0 w r = r" for w
    by (rule bit_word_eqI) (simp add: put_field_def bit_simps)
  then show ?thesis
    by (auto simp: load32_def store32_def store_bytes_def)
qed

lemma write_reloc_field:
  assumes "reloc_field t = Some (n, s, k)"
  shows "write_reloc_r h mem off t (field_value n k v) =
     bindR (load32 h mem (unat off)) (\<lambda>w.
     bindR (store32 h mem (unat off) (put_field n s w (signed_drop_bit k v))) (\<lambda>b. Inr (b, [])))"
  using assms rmw_field_put[of h mem "unat off" n s "signed_drop_bit k v"]
    store32_via_load[of h mem "unat off" v]
  by (cases t) (auto simp: write_reloc_r_def field_value_def bindR_assoc take_bit_word_eq_self)

lemma overflow_quiet: "reloc_field t \<noteq> None \<Longrightarrow> snd (rel_overflow t v) = []"
  by (cases t) (auto simp: rel_overflow_def Let_def)

lemma reloc_value_quiet: "reloc_field t \<noteq> None \<Longrightarrow> snd (reloc_value_of t sv a y spc b d) = []"
  by (cases t) (auto simp: reloc_value_of_def Let_def)

text \<open>Storing twice; swapping in place before and after a write.\<close>

lemma store_store:
  assumes "store_bytes mem off a = Inr mem'" and "length a = length b"
  shows "store_bytes mem' off b = store_bytes mem off b"
  using assms by (auto simp: store_bytes_def split: if_splits)

lemma store32_store32: "store32 h mem off a = Inr mem' \<Longrightarrow> store32 h' mem' off b = store32 h' mem off b"
  by (simp add: store32_def store_store)

lemma store32_swap: "store32 h mem off (DLIMP_change_endian32 x) = store32 (opposite h) mem off x"
  by (simp add: store32_def bytes32_swap bytes32_opposite)

lemma load32_swap:
  "load32 (opposite h) mem off = bindR (load32 h mem off) (\<lambda>w. Inr (DLIMP_change_endian32 w))"
  by (simp add: load32_def word32_swap)

definition target_endian :: "endian \<Rightarrow> bool \<Rightarrow> endian" where
  "target_endian h wrong_end = (if wrong_end then opposite h else h)"

lemma swap_update_swap:
  "bindR (swap32_at h mem off) (\<lambda>m. bindR (load32 h m off) (\<lambda>w.
     bindR (store32 h m off (f w)) (\<lambda>m. swap32_at h m off)))
   = bindR (load32 (opposite h) mem off) (\<lambda>w. store32 (opposite h) mem off (f w))"
proof (cases "off + 4 \<le> length mem")
  case False
  then show ?thesis by (simp add: swap32_at_def load32_def)
next
  case True
  then obtain w where w: "load32 h mem off = Inr w" by (meson load32_Inr)
  let ?w = "DLIMP_change_endian32 w"
  obtain m1 where m1: "store32 h mem off ?w = Inr m1" using True store32_Inr by blast
  have l1: "load32 h m1 off = Inr ?w" using m1 by (rule load32_store32)
  obtain m2 where m2: "store32 h m1 off (f ?w) = Inr m2"
    using True store32_Inr m1 store32_store32[OF m1] by metis
  have l2: "load32 h m2 off = Inr (f ?w)" using m2 by (rule load32_store32)
  have "store32 h m2 off (DLIMP_change_endian32 (f ?w)) = store32 (opposite h) mem off (f ?w)"
    using store32_store32[OF m2] store32_store32[OF m1] by (simp add: store32_swap)
  then show ?thesis
    by (simp add: swap32_at_def w m1 l1 m2 l2 load32_swap)
qed

text \<open>
  One relocation writes the scaled value into its field of the cell, in the byte order of the
  target, and leaves every other bit of the cell and every other byte of the segment alone.
\<close>

lemma reloc_do_field:
  assumes "reloc_field t = Some (n, s, k)"
  shows "reloc_do h t sv mem addend symval spc wrong_end base dsbt =
    (let v = fst (reloc_value_of t sv addend symval spc base dsbt); e = target_endian h wrong_end in
     bindR (load32 e mem (unat spc)) (\<lambda>w.
     bindR (store32 e mem (unat spc) (put_field n s w (signed_drop_bit k v))) (\<lambda>mem'.
       Inr (mem', if fst (rel_overflow t v) then [DLIF_error DLET_RELOC ''relocation overflow!''] else []))))"
proof -
  obtain v where v: "reloc_value_of t sv addend symval spc base dsbt = (v, [])"
    using reloc_value_quiet[of t sv addend symval spc base dsbt] assms by (metis option.distinct(1) prod.collapse)
  obtain o' where o': "rel_overflow t v = (o', [])"
    using overflow_quiet[of t v] assms by (metis option.distinct(1) prod.collapse)
  obtain p where p: "pack_result v t = (p, [])" "mask_result p t = (field_value n k v, [])"
    using mask_pack_result[OF assms, of v] by (metis prod.collapse)
  let ?u = "\<lambda>w. put_field n s w (signed_drop_bit k v)"
  let ?ms = "if o' then [DLIF_error DLET_RELOC ''relocation overflow!''] else []"
  have "reloc_do h t sv mem addend symval spc True base dsbt =
      bindR (bindR (swap32_at h mem (unat spc)) (\<lambda>m. bindR (load32 h m (unat spc)) (\<lambda>w.
        bindR (store32 h m (unat spc) (?u w)) (\<lambda>m. swap32_at h m (unat spc))))) (\<lambda>m. Inr (m, ?ms))"
    by (simp add: reloc_do_def v o' p write_reloc_field[OF assms] bindR_assoc)
  then show ?thesis
    by (cases wrong_end)
      (simp_all add: swap_update_swap Let_def target_endian_def bindR_assoc v o' reloc_do_def p write_reloc_field[OF assms])
qed

subsection \<open>Range checks are exact\<close>

text \<open>How the target reads a field back: the unsigned or sign-extended field, scaled.\<close>

fun field_signed :: "C60_RELOC_TYPE \<Rightarrow> bool" where
  "field_signed R_C6000_PCR_S21 = True"
| "field_signed R_C6000_PCR_S12 = True"
| "field_signed R_C6000_PCR_S10 = True"
| "field_signed R_C6000_PCR_S7 = True"
| "field_signed R_C6000_ABS_S16 = True"
| "field_signed R_C6000_SBR_S16 = True"
| "field_signed _ = False"

definition decode_field :: "C60_RELOC_TYPE \<Rightarrow> nat \<Rightarrow> nat \<Rightarrow> u32 \<Rightarrow> u32" where
  "decode_field t n k f = push_bit k (if field_signed t then signed_take_bit (n - 1) f else f)"

lemma bit_sint_min: "bit (sint v) i = bit (v :: u32) (min i 31)"
  by (auto simp: bit_sint_iff min_def dest: bit_imp_le_length)

lemma signed_range_iff:
  assumes "m < 32"
  shows "signed_take_bit m v = (v :: u32) \<longleftrightarrow> - (2 ^ m) \<le> sint v \<and> sint v < 2 ^ m"
proof -
  have "signed_take_bit m v = v \<longleftrightarrow> signed_take_bit m (sint v) = sint v"
  proof
    assume v: "signed_take_bit m v = v"
    show "signed_take_bit m (sint v) = sint v"
    proof (rule bit_eqI)
      fix i
      have "bit (signed_take_bit m v) (min i 31) = bit v (min (min i 31) m)"
        by (simp add: bit_signed_take_bit_iff min.commute min_less_iff_disj)
      with v show "bit (signed_take_bit m (sint v)) i = bit (sint v) i"
        by (simp add: bit_signed_take_bit_iff bit_sint_min ac_simps)
    qed
  next
    assume v: "signed_take_bit m (sint v) = sint v"
    show "signed_take_bit m v = v"
    proof (rule bit_word_eqI)
      fix i assume "i < LENGTH(32)"
      moreover have "bit (sint v) (min m i) = bit (sint v) i"
        using v by (metis bit_signed_take_bit_iff min.commute possible_bit_int)
      ultimately show "bit (signed_take_bit m v) i = bit v i"
        using assms by (auto simp: bit_signed_take_bit_iff bit_sint_iff min_def)
    qed
  qed
  then show ?thesis by (simp add: signed_take_bit_int_eq_self_iff)
qed

lemma decode_signed:
  assumes "take_bit k v = 0" and "0 < n" and "n + k \<le> 32"
  shows "push_bit k (signed_take_bit (n - 1) (field_value n k v)) = signed_take_bit (n - 1 + k) (v :: u32)"
proof (rule bit_word_eqI)
  fix i assume i: "i < LENGTH(32)"
  have low: "\<not> bit v i" if "i < k" using that assms(1) by (metis bit_0_eq bit_take_bit_iff bot_apply bot_bool_def)
  show "bit (push_bit k (signed_take_bit (n - 1) (field_value n k v))) i = bit (signed_take_bit (n - 1 + k) v) i"
  proof (cases "i < k")
    case True
    with low i show ?thesis by (simp add: bit_simps min_def)
  next
    case False
    with assms i show ?thesis
      by (auto simp: field_value_def bit_simps bit_signed_drop_bit_iff min_def ac_simps)
  qed
qed

lemma decode_unsigned:
  assumes "take_bit k v = 0" and "n + k \<le> 32"
  shows "push_bit k (field_value n k v) = take_bit (n + k) (v :: u32)"
proof (rule bit_word_eqI)
  fix i assume i: "i < LENGTH(32)"
  have "\<not> bit v i" if "i < k" using that assms(1) by (metis bit_0_eq bit_take_bit_iff bot_apply bot_bool_def)
  with assms i show "bit (push_bit k (field_value n k v)) i = bit (take_bit (n + k) v) i"
    by (cases "i < k") (auto simp: field_value_def bit_simps bit_signed_drop_bit_iff)
qed

lemma unsigned_range_iff: "m < 32 \<Longrightarrow> take_bit m v = (v :: u32) \<longleftrightarrow> uint v < 2 ^ m"
  by (simp add: word_uint_eq_iff unsigned_take_bit_eq take_bit_int_eq_self_iff)

fun range_checked :: "C60_RELOC_TYPE \<Rightarrow> bool" where
  "range_checked R_C6000_SBR_U15_B = True"
| "range_checked R_C6000_SBR_U15_H = True"
| "range_checked R_C6000_SBR_U15_W = True"
| "range_checked R_C6000_DSBT_INDEX = True"
| "range_checked t = field_signed t"

lemma multiple_uint: "take_bit k v = 0 \<Longrightarrow> uint (v :: u32) mod 2 ^ k = 0"
  by (metis take_bit_eq_mod unsigned_0 unsigned_take_bit_eq)

lemma overflow_exact:
  assumes "reloc_field t = Some (n, s, k)" and "range_checked t" and "take_bit k v = 0"
  shows "fst (rel_overflow t v) \<longleftrightarrow> decode_field t n k (field_value n k v) \<noteq> v"
proof (cases "field_signed t")
  case True
  then have b: "0 < n" "n + k \<le> 32" "n - 1 + k < 32" using assms(1) by (cases t; simp)+
  have "decode_field t n k (field_value n k v) = v \<longleftrightarrow> - (2 ^ (n - 1 + k)) \<le> sint v \<and> sint v < 2 ^ (n - 1 + k)"
    using True decode_signed[OF assms(3) b(1,2)] signed_range_iff[OF b(3), of v] by (simp add: decode_field_def)
  with True assms(1) show ?thesis
    by (cases t) (auto simp: rel_overflow_def)
next
  case False
  then have b: "n + k \<le> 32" "n + k < 32" using assms(1,2) by (cases t; simp)+
  have "decode_field t n k (field_value n k v) = v \<longleftrightarrow> uint v < 2 ^ (n + k)"
    using False by (simp add: decode_field_def decode_unsigned[OF assms(3) b(1)] unsigned_range_iff[OF b(2)])
  with False assms multiple_uint[of 1 v] multiple_uint[of 2 v] show ?thesis
    by (cases t) (auto simp: rel_overflow_def; presburger)+
qed

subsection \<open>What the target computes from a relocated field\<close>

text \<open>The low and high halves of a value, as \<open>MVKL\<close> and \<open>MVKH\<close> put them together.\<close>

definition join_halves :: "u32 \<Rightarrow> u32 \<Rightarrow> u32" where
  "join_halves lo hi = push_bit 16 (take_bit 16 hi) OR take_bit 16 lo"

lemma join_halves_field:
  "k \<le> 15 \<Longrightarrow> join_halves (field_value 16 k v) (field_value 16 (16 + k) v) = signed_drop_bit k v"
  by (rule bit_word_eqI)
    (auto simp: join_halves_def field_value_def bit_simps bit_signed_drop_bit_iff ac_simps)

lemma reloc_do_Inr:
  assumes "reloc_field t = Some (n, s, k)" and "unat spc + 4 \<le> length mem"
  shows "\<exists>w mem'. load32 (target_endian h wrong_end) mem (unat spc) = Inr w \<and>
     store32 (target_endian h wrong_end) mem (unat spc)
       (put_field n s w (signed_drop_bit k (fst (reloc_value_of t sv addend symval spc base dsbt)))) = Inr mem' \<and>
     reloc_do h t sv mem addend symval spc wrong_end base dsbt = Inr (mem',
       if fst (rel_overflow t (fst (reloc_value_of t sv addend symval spc base dsbt)))
       then [DLIF_error DLET_RELOC ''relocation overflow!''] else [])"
proof -
  let ?e = "target_endian h wrong_end"
  obtain w where w: "load32 ?e mem (unat spc) = Inr w" using assms(2) load32_Inr by blast
  obtain m where "store32 ?e mem (unat spc)
     (put_field n s w (signed_drop_bit k (fst (reloc_value_of t sv addend symval spc base dsbt)))) = Inr m"
    using assms(2) store32_Inr by blast
  with w show ?thesis by (simp add: reloc_do_field[OF assms(1)] Let_def)
qed

lemma store32_frame:
  assumes "store32 h mem off x = Inr mem'"
  shows "length mem' = length mem"
    and "i < length mem \<Longrightarrow> i < off \<or> off + 4 \<le> i \<Longrightarrow> mem' ! i = mem ! i"
  using assms store_bytes_length[of mem off "bytes32 h x" mem'] store_bytes_nth[of mem off "bytes32 h x" mem' i]
  by (simp_all add: store32_def)

lemma store_lengths:
  "store32 h mem off x = Inr mem' \<Longrightarrow> length mem' = length mem"
  "store16 h mem off y = Inr mem' \<Longrightarrow> length mem' = length mem"
  "store8 mem off z = Inr mem' \<Longrightarrow> length mem' = length mem"
  "rmw_field h mem off n s r = Inr mem' \<Longrightarrow> length mem' = length mem"
  by (auto simp: store32_def store16_def store8_def rmw_field_def bindR_eq_Inr dest: store_bytes_length)

lemma write_reloc_length:
  assumes "write_reloc_r h mem off t r = Inr (mem', ms)"
  shows "length mem' = length mem"
  using assms by (cases t) (auto simp: write_reloc_r_def bindR_eq_Inr dest: store_lengths)

lemma swap32_at_length: "swap32_at h mem off = Inr mem' \<Longrightarrow> length mem' = length mem"
  using store32_frame(1) by (fastforce simp: swap32_at_def bindR_eq_Inr)

lemma reloc_do_length:
  assumes "reloc_do h t sv mem addend symval spc wrong_end base dsbt = Inr (mem', ms)"
  shows "length mem' = length mem"
  using assms
  by (auto simp: reloc_do_def Let_def bindR_eq_Inr split: prod.splits if_splits
      dest!: write_reloc_length swap32_at_length)

subsection \<open>Tables\<close>

text \<open>
  The loop runs the entries of the first contiguous group that falls into the segment: a table
  whose entries for a segment are not contiguous is not processed completely.
\<close>

lemma reloc_loop_found:
  assumes "set is \<subseteq> {..<length tab}"
  shows "reloc_loop entry falls tab True is s = foldR entry (takeWhile falls (map ((!) tab) is)) s"
  using assms by (induction "is" arbitrary: s) (auto intro!: bindR_cong)

lemma reloc_loop_spec:
  assumes "set is \<subseteq> {..<length tab}"
  shows "reloc_loop entry falls tab False is s =
     foldR entry (takeWhile falls (dropWhile (\<lambda>r. \<not> falls r) (map ((!) tab) is))) s"
  using assms by (induction "is" arbitrary: s) (auto intro!: bindR_cong simp: reloc_loop_found)

definition contiguous :: "('a \<Rightarrow> bool) \<Rightarrow> 'a list \<Rightarrow> bool" where
  "contiguous P xs \<longleftrightarrow> (\<exists>pre mid post. xs = pre @ mid @ post \<and> (\<forall>x \<in> set pre. \<not> P x) \<and>
     (\<forall>x \<in> set mid. P x) \<and> (\<forall>x \<in> set post. \<not> P x))"

lemma contiguous_filter:
  assumes "contiguous P xs"
  shows "takeWhile P (dropWhile (\<lambda>x. \<not> P x) xs) = filter P xs"
proof -
  from assms obtain pre mid post where xs: "xs = pre @ mid @ post" and pre: "\<forall>x \<in> set pre. \<not> P x"
    and mid: "\<forall>x \<in> set mid. P x" and post: "\<forall>x \<in> set post. \<not> P x"
    unfolding contiguous_def by blast
  have "takeWhile P post = []" using post by (cases post) auto
  moreover have "dropWhile (\<lambda>x. \<not> P x) (mid @ post) = mid @ post" if "mid \<noteq> []"
    using that mid by (cases mid) auto
  moreover have "takeWhile P (dropWhile (\<lambda>x. \<not> P x) post) = []" using post by (induction post) auto
  ultimately show ?thesis
    using pre mid post by (cases "mid = []") (simp_all add: xs)
qed

lemma process_rela_table_fold:
  assumes "length tab = unat num" and "contiguous (\<lambda>r. in_segment seg (r_offset r)) tab"
  shows "process_rela_table h dm m tab num 0 sb (st, seg) =
     foldR (rela_entry h dm m sb) (filter (\<lambda>r. in_segment seg (r_offset r)) tab) (st, seg)"
proof -
  have "map ((!) tab) [0..<unat num] = tab" by (metis assms(1) map_nth)
  then show ?thesis
    using assms(1) contiguous_filter[OF assms(2)]
    by (simp add: process_rela_table_def reloc_loop_spec lessThan_atLeast0)
qed

text \<open>A relocation entry changes only its segment's bytes and the log.\<close>

lemma rela_entry_frame:
  assumes "rela_entry h dm m sb r (st, seg) = Inr (st', seg')"
  shows "\<exists>ms. st' = report ms st" and "seg_phdr seg' = seg_phdr seg" and "input_vaddr seg' = input_vaddr seg"
    and "obj_desc seg' = obj_desc seg"
    and "map_option length (host_address seg') = map_option length (host_address seg)"
proof -
  from assms obtain found v st1 where l: "DLSYM_canonical_lookup st (ELF32_R_SYM (r_info r)) dm m = Inr (found, v, st1)"
    by (auto simp: rela_entry_def bindR_eq_Inr)
  then obtain ms where ms: "st1 = report ms st" using canonical_lookup_state by blast
  have rr: "report ms2 (report ms st) = report (ms @ ms2) st" for ms2 by (simp add: report_def)
  show "\<exists>ms. st' = report ms st"
    using assms l ms by (auto simp: rela_entry_def bindR_eq_Inr rr split: if_splits)
  show "seg_phdr seg' = seg_phdr seg" "input_vaddr seg' = input_vaddr seg" "obj_desc seg' = obj_desc seg"
    using assms l by (auto simp: rela_entry_def bindR_eq_Inr split: if_splits)
  show "map_option length (host_address seg') = map_option length (host_address seg)"
    using assms l reloc_do_length by (fastforce simp: rela_entry_def bindR_eq_Inr deref_eq_Inr split: if_splits)
qed

text \<open>
  The addend of an \<open>Elf32_Rel\<close> entry cannot be read: resolving such an entry ends the process, so
  a table of them is processed only if no symbol of it resolves.
\<close>

lemma rel_entry_never_relocates:
  assumes "rel_entry h dm m sb r (st, seg) = Inr (st', seg')"
  shows "seg' = seg \<and> (\<exists>v. DLSYM_canonical_lookup st (ELF32_R_SYM (r_info r)) dm m = Inr (False, v, st'))"
  using assms by (auto simp: rel_entry_def rel_unpack_addend_def Let_def bindR_eq_Inr split: if_splits)

lemma rel_entry_exits:
  assumes "DLSYM_canonical_lookup st (ELF32_R_SYM (r_info r)) dm m = Inr (True, v, st')"
    and "host_address seg = Some mem" and "unat (r_offset r - input_vaddr seg) + 4 \<le> length mem"
  shows "rel_entry h dm m sb r (st, seg) = Inl (Exit 1)"
proof -
  have "\<exists>b. rel_change_endian h t mem (unat (r_offset r - input_vaddr seg)) = Inr b" for t
    using assms(3) by (metis bindR_simps(2) load32_Inr rel_change_endian_def store32_Inr swap32_at_def)
  then show ?thesis
    using assms by (auto simp: rel_entry_def rel_unpack_addend_def rel_swap_endian_def Let_def bindR_eq_Inl)
qed

subsection \<open>What relocating a module may change\<close>

text \<open>Two segments that differ in the bytes of the host copy only.\<close>

definition same_layout :: "DLIMP_Loaded_Segment \<Rightarrow> DLIMP_Loaded_Segment \<Rightarrow> bool" where
  "same_layout seg seg' \<longleftrightarrow> seg' = seg\<lparr>host_address := host_address seg'\<rparr> \<and>
     map_option length (host_address seg') = map_option length (host_address seg)"

lemma same_layout_refl [simp]: "same_layout seg seg"
  by (simp add: same_layout_def)

lemma same_layout_trans: "same_layout a b \<Longrightarrow> same_layout b c \<Longrightarrow> same_layout a c"
  by (cases a; cases b; cases c) (auto simp: same_layout_def)

text \<open>A step on a segment that only relocates: the log may grow.\<close>

definition relocates :: "('c loader \<times> DLIMP_Loaded_Segment) \<Rightarrow> ('c loader \<times> DLIMP_Loaded_Segment) \<Rightarrow> bool" where
  "relocates s s' \<longleftrightarrow> (\<exists>ms. fst s' = report ms (fst s)) \<and> same_layout (snd s) (snd s')"

lemma relocates_refl [simp]: "relocates s s"
  by (auto simp: relocates_def intro: exI[of _ "[]"])

lemma relocates_trans: "relocates a b \<Longrightarrow> relocates b c \<Longrightarrow> relocates a c"
  by (auto simp: relocates_def intro: same_layout_trans)

lemma rela_entry_relocates:
  assumes "rela_entry h dm m sb r s = Inr s'"
  shows "relocates s s'"
proof -
  obtain st seg st' seg' where s: "s = (st, seg)" "s' = (st', seg')" by (metis surj_pair)
  note f = rela_entry_frame[OF assms[unfolded s]]
  have "modified seg' = modified seg"
    using assms by (auto simp: s rela_entry_def bindR_eq_Inr split: if_splits)
  with f show ?thesis by (cases seg; cases seg') (auto simp: s relocates_def same_layout_def)
qed

lemma rel_entry_relocates:
  assumes "rel_entry h dm m sb r s = Inr s'"
  shows "relocates s s'"
  using assms rel_entry_never_relocates[of h dm m sb r "fst s" "snd s" "fst s'" "snd s'"] canonical_lookup_state
  by (fastforce simp: relocates_def)

lemma reloc_loop_relocates:
  assumes "reloc_loop entry falls tab found is s = Inr s'"
    and "\<And>r t t'. entry r t = Inr t' \<Longrightarrow> relocates t t'"
  shows "relocates s s'"
  using assms
proof (induction entry falls tab found "is" s rule: reloc_loop.induct)
  case (2 entry falls tab found i "is" s)
  from "2.prems"(1) obtain r where r: "index tab i = Inr r" by (auto simp: bindR_eq_Inr)
  show ?case
  proof (cases "falls r")
    case True
    with "2.prems"(1) r obtain t where t: "entry r s = Inr t" "reloc_loop entry falls tab True is t = Inr s'"
      by (auto simp: bindR_eq_Inr)
    with "2.IH"(1)[OF r True t(1,2)] "2.prems"(2) show ?thesis using relocates_trans by blast
  next
    case False
    with "2.prems" "2.IH"(2) r show ?thesis by (auto split: if_splits)
  qed
qed simp

lemma process_tables_relocate:
  "process_rela_table h dm m tab num start sb s = Inr s' \<Longrightarrow> relocates s s'"
  "process_rel_table h dm m rtab num start sb s = Inr s' \<Longrightarrow> relocates s s'"
  by (auto simp: process_rela_table_def process_rel_table_def Let_def case_prod_unfold
      intro: reloc_loop_relocates rela_entry_relocates rel_entry_relocates)

lemma map_segments_relocate:
  assumes "map_segments f segs st = Inr (st', segs')"
    and "\<And>seg st st' seg'. f seg st = Inr (st', seg') \<Longrightarrow> relocates (st, seg) (st', seg')"
  shows "(\<exists>ms. st' = report ms st) \<and> list_all2 same_layout segs segs'"
  using assms(1)
proof (induction segs arbitrary: st segs')
  case Nil
  then show ?case by (auto intro: exI[of _ "[]"])
next
  case (Cons seg segs)
  then obtain st1 seg1 segs1 where 1: "f seg st = Inr (st1, seg1)"
    and 2: "map_segments f segs st1 = Inr (st', segs1)" and 3: "segs' = seg1 # segs1"
    by (auto simp: bindR_eq_Inr)
  from assms(2)[OF 1] obtain ms where "st1 = report ms st" "same_layout seg seg1"
    by (auto simp: relocates_def)
  with Cons.IH[OF 2] 3 show ?case by auto
qed

lemma process_first_segment_relocate:
  assumes "process_first_segment f falls segs st = Inr (st', segs')"
    and "\<And>seg st st' seg'. f seg st = Inr (st', seg') \<Longrightarrow> relocates (st, seg) (st', seg')"
  shows "(\<exists>ms. st' = report ms st) \<and> list_all2 same_layout segs segs'"
  using assms(1)
proof (induction segs arbitrary: segs')
  case Nil
  then show ?case by (auto intro: exI[of _ "[]"])
next
  case (Cons seg segs)
  have refl: "list_all2 same_layout xs xs" for xs by (simp add: list_all2_refl)
  from Cons show ?case
    using assms(2) by (auto simp: bindR_eq_Inr relocates_def refl split: if_splits)
qed

lemma static_base_value_state:
  "static_base_value dm st = Inr (v, st') \<Longrightarrow> \<exists>ms. st' = report ms st"
  by (auto simp: static_base_value_def bindR_eq_Inr intro: exI[of _ "[]"] split: if_splits)

lemma got_relocs_relocate:
  assumes "process_got_relocs h rt n rat na dm st m = Inr (st', m')"
  shows "(\<exists>ms. st' = report ms st) \<and>
     (\<exists>segs. m' = m\<lparr>loaded_segments := segs\<rparr> \<and> list_all2 same_layout (loaded_segments m) segs)"
proof -
  obtain sb st1 segs where sb: "static_base_value dm st = Inr (sb, st1)" and m': "m' = m\<lparr>loaded_segments := segs\<rparr>"
    and ms: "map_segments (\<lambda>seg st.
        if p_filesz (seg_phdr seg) = 0 then Inr (st, seg)
        else bindR (case rat of None \<Rightarrow> Inr (st, seg)
                    | Some tab \<Rightarrow> process_rela_table h dm m tab na 0 sb (st, seg))
               (\<lambda>(st, seg). case rt of None \<Rightarrow> Inr (st, seg)
                    | Some tab \<Rightarrow> process_rel_table h dm m tab n 0 sb (st, seg)))
        (loaded_segments m) st1 = Inr (st', segs)"
    using assms by (auto simp: process_got_relocs_def bindR_eq_Inr)
  have "(\<exists>ms. st' = report ms st1) \<and> list_all2 same_layout (loaded_segments m) segs"
    by (rule map_segments_relocate[OF ms])
      (auto simp: bindR_eq_Inr split: if_splits option.splits
        dest!: process_tables_relocate intro: relocates_trans)
  with static_base_value_state[OF sb] m' show ?thesis by auto
qed

lemma pltgot_relocs_relocate:
  assumes "process_pltgot_relocs h plt n dm st m = Inr (st', m')"
  shows "(\<exists>ms. st' = report ms st) \<and>
     (\<exists>segs. m' = m\<lparr>loaded_segments := segs\<rparr> \<and> list_all2 same_layout (loaded_segments m) segs)"
proof -
  obtain off sb st1 segs where sb: "static_base_value dm st = Inr (sb, st1)" and m': "m' = m\<lparr>loaded_segments := segs\<rparr>"
    and ms: "process_first_segment (\<lambda>seg st. case plt of
          PltRel t \<Rightarrow> process_rel_table h dm m t n 0 sb (st, seg)
        | PltRela t \<Rightarrow> process_rela_table h dm m t n 0 sb (st, seg))
        (\<lambda>seg. in_segment seg off) (loaded_segments m) st1 = Inr (st', segs)"
    using assms by (auto simp: process_pltgot_relocs_def bindR_eq_Inr)
  have "(\<exists>ms. st' = report ms st1) \<and> list_all2 same_layout (loaded_segments m) segs"
    by (rule process_first_segment_relocate[OF ms])
      (auto split: plt_table.splits dest!: process_tables_relocate)
  with static_base_value_state[OF sb] m' show ?thesis by auto
qed

lemma same_layouts_trans:
  "list_all2 same_layout a b \<Longrightarrow> list_all2 same_layout b c \<Longrightarrow> list_all2 same_layout a c"
  using list_all2_trans[of same_layout same_layout same_layout a b c] same_layout_trans by blast

lemma relocate_frame_lemma:
  assumes "DLREL_c60_relocate D h fp dm st m = Inr (st', dm', m')"
  shows "(\<exists>ms. st' = report ms st) \<and> dm' = dm\<lparr>dsbt_index := dsbt_index dm'\<rparr> \<and>
     (\<exists>segs. m' = m\<lparr>loaded_segments := segs\<rparr> \<and> list_all2 same_layout (loaded_segments m) segs)"
proof -
  let ?ok = "\<lambda>st m st' m'. (\<exists>ms. st' = report ms st) \<and>
     (\<exists>segs. m' = m\<lparr>loaded_segments := segs\<rparr> \<and> list_all2 same_layout (loaded_segments m) segs)"
  from assms obtain plt n ms st1 m1 rt rn rat rna where
    d: "record_dsbt_index D st m dm = Inr dm'"
    and 1: "(case plt of None \<Rightarrow> Inr (report ms st, m)
            | Some t \<Rightarrow> process_pltgot_relocs h t n dm' (report ms st) m) = Inr (st1, m1)"
    and 2: "(if rt \<noteq> None \<or> rat \<noteq> None then process_got_relocs h rt rn rat rna dm' st1 m1
            else Inr (st1, m1)) = Inr (st', m')"
    by (clarsimp simp: DLREL_c60_relocate_def Let_def bindR_eq_Inr split del: if_split)
  have refl: "list_all2 same_layout xs xs" for xs by (simp add: list_all2_refl)
  have same: "\<exists>segs. m = m\<lparr>loaded_segments := segs\<rparr> \<and> list_all2 same_layout (loaded_segments m) segs" for m
    by (intro exI[of _ "loaded_segments m"]) (simp add: refl)
  have a: "?ok st m st1 m1"
    using 1 pltgot_relocs_relocate[of h _ n dm' "report ms st" m st1 m1] same
    by (cases plt) auto
  have b: "?ok st1 m1 st' m'"
    using 2 got_relocs_relocate[of h rt rn rat rna dm' st1 m1 st' m'] same
    by (auto split: if_splits intro: exI[of _ "[]"])
  have "dm' = dm\<lparr>dsbt_index := dsbt_index dm'\<rparr>"
    using d by (auto simp: record_dsbt_index_def bindR_eq_Inr split: if_splits)
  with a b show ?thesis using same_layouts_trans by fastforce
qed

subsection \<open>Properties\<close>

lemma store32_load32: "load32 h mem off = Inr x \<Longrightarrow> store32 h mem off x = Inr mem"
  by (auto simp: load32_def store32_def store_bytes_def bytes32_word32 split: if_splits)
    (metis append_take_drop_id drop_drop add.commute)

lemma load32_store32_other:
  assumes "store32 h mem off x = Inr mem'" and "k + 4 \<le> off \<or> off + 4 \<le> k"
  shows "load32 h' mem' k = load32 h' mem k"
proof -
  have "take 4 (drop k mem') = take 4 (drop k mem)"
  proof (rule nth_equalityI)
    show "length (take 4 (drop k mem')) = length (take 4 (drop k mem))"
      using store32_frame(1)[OF assms(1)] by simp
    fix i assume "i < length (take 4 (drop k mem'))"
    then have i: "i < 4" "k + i < length mem" "k + i < off \<or> off + 4 \<le> k + i"
      using store32_frame(1)[OF assms(1)] assms(2) by auto
    show "take 4 (drop k mem') ! i = take 4 (drop k mem) ! i"
      using i store32_frame[OF assms(1)] by simp
  qed
  then show ?thesis using store32_frame(1)[OF assms(1)] by (simp add: load32_def)
qed



lemma fetch_packet_aligned: "take_bit 2 (x AND 0xffffffe0) = (0 :: u32)"
  by (simp only: take_bit_and) simp

lemma take_bit_word_diff: "take_bit k a = 0 \<Longrightarrow> take_bit k b = 0 \<Longrightarrow> take_bit k (a - b) = (0 :: u32)"
  by (simp add: take_bit_eq_0_iff)





text \<open>A static-base relative data access (\<open>SBR_U15\<close>, byte, half-word or word)
  to a naturally aligned offset reports nothing exactly when base register plus scaled field is
  the address of the object.\<close>

lemma near_data_address:
  assumes "t \<in> {R_C6000_SBR_U15_B, R_C6000_SBR_U15_H, R_C6000_SBR_U15_W}"
    and "reloc_field t = Some (n, s, k)" and "unat spc + 4 \<le> length mem"
    and "take_bit k (symval + addend - base) = 0"
  shows "\<exists>mem' ms w. reloc_do h t sv mem addend symval spc wrong_end base dsbt = Inr (mem', ms) \<and>
     load32 (target_endian h wrong_end) mem' (unat spc) = Inr w \<and>
     (ms = [] \<longleftrightarrow> base + push_bit k (get_field n s w) = symval + addend)"
proof -
  let ?v = "fst (reloc_value_of t sv addend symval spc base dsbt)"
  have v: "?v = symval + addend - base" and f: "\<not> field_signed t" "range_checked t"
    using assms(1) by (auto simp: reloc_value_of_def)
  obtain w mem' where
    st: "store32 (target_endian h wrong_end) mem (unat spc) (put_field n s w (signed_drop_bit k ?v)) = Inr mem'"
    and r: "reloc_do h t sv mem addend symval spc wrong_end base dsbt = Inr (mem',
       if fst (rel_overflow t ?v) then [DLIF_error DLET_RELOC ''relocation overflow!''] else [])"
    using reloc_do_Inr[OF assms(2,3)] by blast
  have "n + s \<le> 32" using reloc_field_bounds[OF assms(2)] by simp
  then have g: "get_field n s (put_field n s w (signed_drop_bit k ?v)) = field_value n k ?v"
    by (simp add: field_value_def)
  have "\<not> fst (rel_overflow t ?v) \<longleftrightarrow> push_bit k (field_value n k ?v) = ?v"
    using overflow_exact[OF assms(2) f(2), of ?v] assms(4) f(1) v by (simp add: decode_field_def)
  also have "\<dots> \<longleftrightarrow> base + push_bit k (field_value n k ?v) = symval + addend"
    unfolding v by (metis add.commute add_diff_cancel_right' diff_add_cancel)
  finally show ?thesis
    using r load32_store32[OF st] g by auto
qed

text \<open>Relocating the \<open>MVKL\<close> and the \<open>MVKH\<close> instruction of a pair at two
  different words of a segment makes the pair build the address of the object, whatever was in
  the two words.\<close>

lemma mvkl_mvkh_pair:
  assumes "unat a + 4 \<le> length mem" and "unat b + 4 \<le> length mem"
    and "unat a + 4 \<le> unat b \<or> unat b + 4 \<le> unat a"
  shows "\<exists>mem1 mem2 w1 w2.
     reloc_do h R_C6000_ABS_L16 sv mem addend symval a wrong_end base dsbt = Inr (mem1, []) \<and>
     reloc_do h R_C6000_ABS_H16 sv mem1 addend symval b wrong_end base dsbt = Inr (mem2, []) \<and>
     load32 (target_endian h wrong_end) mem2 (unat a) = Inr w1 \<and>
     load32 (target_endian h wrong_end) mem2 (unat b) = Inr w2 \<and>
     join_halves (get_field 16 7 w1) (get_field 16 7 w2) = symval + addend"
proof -
  let ?e = "target_endian h wrong_end" and ?v = "symval + addend"
  obtain w mem1 where s1: "store32 ?e mem (unat a) (put_field 16 7 w ?v) = Inr mem1"
    and r1: "reloc_do h R_C6000_ABS_L16 sv mem addend symval a wrong_end base dsbt = Inr (mem1, [])"
    using reloc_do_Inr[of R_C6000_ABS_L16 16 7 0 a mem h wrong_end sv addend symval base dsbt] assms(1)
    by (auto simp: reloc_value_of_def rel_overflow_def)
  have l1: "length mem1 = length mem" using store32_frame(1)[OF s1] .
  obtain w' mem2 where s2: "store32 ?e mem1 (unat b) (put_field 16 7 w' (signed_drop_bit 16 ?v)) = Inr mem2"
    and r2: "reloc_do h R_C6000_ABS_H16 sv mem1 addend symval b wrong_end base dsbt = Inr (mem2, [])"
    using reloc_do_Inr[of R_C6000_ABS_H16 16 7 16 b mem1 h wrong_end sv addend symval base dsbt] assms(2) l1
    by (auto simp: reloc_value_of_def rel_overflow_def)
  have "load32 ?e mem2 (unat a) = load32 ?e mem1 (unat a)"
    using load32_store32_other[OF s2] assms(3) by blast
  with load32_store32[OF s1] have "load32 ?e mem2 (unat a) = Inr (put_field 16 7 w ?v)" by simp
  with r1 r2 load32_store32[OF s2] show ?thesis
    using join_halves_field[of 0 ?v] by (auto simp: field_value_def)
qed

text \<open>A place-relative (\<open>PREL31\<close>) relocation masks its value to 31 bits
  but clears only the low 30 bits of the cell, so bit 30 of the old contents survives in the
  result: the field is right only if that bit was clear or belongs to the value.\<close>

lemma prel31_keeps_old_bit:
  assumes "unat spc + 4 \<le> length mem" and "load32 h mem (unat spc) = Inr w"
  shows "\<exists>mem'. reloc_do h R_C6000_PREL31 sv mem addend symval spc False base dsbt = Inr (mem', []) \<and>
     load32 h mem' (unat spc) = Inr ((w AND 0xC0000000) OR field_value 31 1 (symval + addend - (spc + sv)))"
proof -
  let ?v = "symval + addend - (spc + sv)"
  let ?x = "(w AND NOT (MASK 30 0)) OR push_bit 0 (signed_drop_bit 1 ?v AND 0x7FFFFFFF)"
  have "NOT (MASK 30 0) = 0xC0000000" by (simp add: MASK_def)
  moreover have "(0x7FFFFFFF :: u32) = mask 31" by (simp add: mask_eq_exp_minus_1)
  ultimately have x: "?x = (w AND 0xC0000000) OR field_value 31 1 ?v"
    by (simp add: field_value_def take_bit_eq_mask)
  obtain mem' where m: "store32 h mem (unat spc) ?x = Inr mem'" using assms(1) store32_Inr by blast
  then have "reloc_do h R_C6000_PREL31 sv mem addend symval spc False base dsbt = Inr (mem', [])"
    using assms(2) by (simp add: reloc_do_def reloc_value_of_def rel_overflow_def pack_result_def
        mask_result_def write_reloc_r_def rmw_field_def)
  with load32_store32[OF m] x show ?thesis by auto
qed

text \<open>When file and host disagree in byte order, a 16 bit relocation
  swaps the 32 bit cell at its address, writes the lower half-word and swaps back: it overwrites
  the two bytes behind the relocation field and leaves the field itself unchanged.\<close>

lemma wrong_endian_abs16:
  assumes "length pre < 2 ^ 32"
  shows "\<exists>ms. reloc_do h R_C6000_ABS16 sv (pre @ [a, b, c, d] @ post) addend symval (of_nat (length pre)) True base dsbt
     = Inr (pre @ [a, b] @ rev (bytes16 h (ucast (symval + addend))) @ post, ms)"
proof -
  let ?x = "ucast (symval + addend) :: u16"
  have p: "unat (of_nat (length pre) :: u32) = length pre" using assms by (simp add: unat_of_nat take_bit_nat_eq_self)
  have swap: "swap32_at h (pre @ [p, q, r, s] @ post) (length pre) = Inr (pre @ [s, r, q, p] @ post)" for p q r s
    by (simp add: swap32_at_def load32_def store32_def bytes32_swap bytes32_word32 store_bytes_def)
  have m: "ucast ((symval + addend) AND 0xFFFF) = ?x"
    by (rule bit_word_eqI) (simp add: hex_masks bit_simps)
  obtain p q where pq: "bytes16 h ?x = [p, q]"
    using length_bytes(2)[of h ?x] by (auto simp: numeral_2_eq_2 length_Suc_conv simp del: length_bytes)
  have w: "store16 h (pre @ [d, c, b, a] @ post) (length pre) ?x = Inr (pre @ [p, q, b, a] @ post)"
    by (simp add: store16_def store_bytes_def pq)
  show ?thesis
    using swap[of a b c d] swap[of p q b a] w
    by (auto simp: reloc_do_def reloc_value_of_def rel_overflow_def pack_result_def mask_result_def
        write_reloc_r_def p m pq split: prod.splits)
qed

text \<open>A relocation of an unsupported type (among them
  \<open>R_C6000_COPY\<close>, the \<open>GOT\<close> forms and numbers the ABI does not define) changes nothing in the
  segment, is reported as an overflow as well, and lets the load go on.\<close>

lemma unsupported_relocation:
  assumes "reloc_field t = None" and "t \<notin> {R_C6000_PREL31, R_C6000_ABS16, R_C6000_ABS8}"
    and "unat spc + 4 \<le> length mem"
  shows "\<exists>ms. reloc_do h t sv mem addend symval spc wrong_end base dsbt = Inr (mem, ms) \<and>
     length ms = 6 \<and> DLIF_error DLET_RELOC ''relocation overflow!'' \<in> set ms"
proof -
  have w: "write_reloc_r h m spc t r = Inr (m, [DLIF_error DLET_RELOC ''write_reloc_r called with invalid relocation type!''])"
    for m r using assms(1,2) by (cases t) (simp_all add: write_reloc_r_def)
  obtain x where x: "load32 h mem (unat spc) = Inr x" using assms(3) load32_Inr by blast
  then have same: "store32 h mem (unat spc) x = Inr mem" by (rule store32_load32)
  obtain m1 where m1: "store32 h mem (unat spc) (DLIMP_change_endian32 x) = Inr m1"
    using assms(3) store32_Inr by blast
  then have "swap32_at h m1 (unat spc) = Inr mem"
    using load32_store32[OF m1] store32_store32[OF m1] same by (simp add: swap32_at_def)
  then have "bindR (if wrong_end then swap32_at h mem (unat spc) else Inr mem)
      (\<lambda>m. if wrong_end then swap32_at h m (unat spc) else Inr m) = Inr mem"
    using x m1 by (simp add: swap32_at_def)
  then show ?thesis
    using assms(1,2) w
    by (cases t; cases wrong_end)
      (auto simp: reloc_do_def reloc_value_of_def rel_overflow_def pack_result_def mask_result_def bindR_eq_Inr)
qed

text \<open>Reading a relocation table of a file in the other byte
  order, with the entries swapped in place, gives the table that a host of that byte order reads
  without swapping.\<close>

lemma read_rela_table_wrong_endian:
  "read_rela_table h off num 12 fp True = read_rela_table (opposite h) off num 12 fp False"
proof -
  have "map DLIMP_change_rela_endian (read_array (read_Rela h) sizeof_Rela (unat num) bs)
      = read_array (read_Rela (opposite h)) sizeof_Rela (unat num) bs" if "length bs = unat num * 12" for bs
    by (rule swap_array) (simp_all add: swap_structs that sizeof_defs)
  moreover have "length bs = unat num * 12" if "table_bytes fp off num 12 = Inr bs" for bs
    using that by (auto simp: table_bytes_def DLIF_fread_def bindR_eq_Inr slice_def split: if_splits)
  ultimately have "length bs = unat num * 12 \<and>
      map DLIMP_change_rela_endian (read_array (read_Rela h) sizeof_Rela (unat num) bs)
      = read_array (read_Rela (opposite h)) sizeof_Rela (unat num) bs" if "table_bytes fp off num 12 = Inr bs" for bs
    using that by blast
  then show ?thesis
    unfolding read_rela_table_def
    by (auto simp: sizeof_Rela_def intro!: bindR_cong)
qed


definition example_segment :: "u32 \<Rightarrow> u8 list \<Rightarrow> DLIMP_Loaded_Segment" where
  "example_segment a bs = \<lparr>seg_phdr = \<lparr>p_type = PT_NULL, p_offset = 0, p_vaddr = a + 0x1000, p_paddr = 0,
       p_filesz = of_nat (length bs), p_memsz = of_nat (length bs), p_flags = 0, p_align = 4\<rparr>,
     input_vaddr = a, modified = False,
     obj_desc = \<lparr>target_page = 0, target_address = Some (a + 0x1000), objsz_in_bytes = of_nat (length bs),
       memsz_in_bytes = of_nat (length bs)\<rparr>, host_address = Some bs\<rparr>"


text \<open>An \<open>Elf32_Rel\<close> table whose first entry for a segment names a symbol
  that resolves ends the process with status 1.\<close>

lemma rel_table_exits:
  assumes "length tab = unat num" and "tab = pre @ r # post"
    and "\<forall>x \<in> set pre. \<not> in_segment seg (r_offset x)" and "in_segment seg (r_offset r)"
    and "DLSYM_canonical_lookup st (ELF32_R_SYM (r_info r)) dm m = Inr (True, v, st')"
    and "host_address seg = Some mem" and "unat (r_offset r - input_vaddr seg) + 4 \<le> length mem"
  shows "process_rel_table h dm m tab num 0 sb (st, seg) = Inl (Exit 1)"
proof -
  have "map ((!) tab) [0..<unat num] = tab" by (metis assms(1) map_nth)
  moreover have "dropWhile (\<lambda>x. \<not> in_segment seg (r_offset x)) tab = r # post"
    using assms(2,3,4) by (simp add: dropWhile_append2)
  ultimately show ?thesis
    using assms(1,4) rel_entry_exits[OF assms(5-7)]
    by (simp add: process_rel_table_def reloc_loop_spec lessThan_atLeast0)
qed

text \<open>Relocating a module changes nothing but the bytes of the host copies of its
  segments (whose sizes stay), the log, and the module's DSBT index; symbol tables, addresses,
  target memory and every other module are as before.\<close>

lemma relocate_frame:
  assumes "DLREL_c60_relocate D h fp dm st m = Inr (st', dm', m')"
  shows "(\<exists>ms. st' = report ms st) \<and> dm' = dm\<lparr>dsbt_index := dsbt_index dm'\<rparr> \<and>
     (\<exists>segs. m' = m\<lparr>loaded_segments := segs\<rparr> \<and> list_all2 same_layout (loaded_segments m) segs)"
  using assms by (rule relocate_frame_lemma)

end
