(* ===== verification/DLoad_Headers.thy ===== *)
theory DLoad_Headers
  imports DLoad_Symtab C60_Dynamic
begin

text \<open>
  Reading a file (\<open>DLOAD/dload.c\<close>): file header, program header table, dynamic segment, string,
  hash and symbol tables, and the checks that decide whether a file is loaded at all. A dynamic
  module is passed by value; the file it reads is the one its \<open>fd\<close> names in the loader state.
\<close>

subsection \<open>File access\<close>

definition with_file ::
    "'c loader \<Rightarrow> nat \<Rightarrow> (FILE \<Rightarrow> ('a \<times> FILE) result) \<Rightarrow> ('a \<times> 'c loader) result" where
  "with_file st f g = bindR (deref (files st f)) (\<lambda>s. bindR (g s) (\<lambda>(x, s').
     Inr (x, st\<lparr>files := (files st)(f \<mapsto> s')\<rparr>)))"

definition read_at :: "'c loader \<Rightarrow> nat \<Rightarrow> i32 \<Rightarrow> nat \<Rightarrow> nat \<Rightarrow> (u8 list \<times> 'c loader) result" where
  "read_at st f off sz nmemb = with_file st f (\<lambda>s. DLIF_fread (DLIF_fseek_set s off) sz nmemb)"

text \<open>
  An array of structures read from a file. It is indexed by the size of the structure, so entries
  that are not wholly inside the bytes read are not there; swapping the first \<open>num\<close> entries in
  place runs out of the array when there are fewer.
\<close>

definition read_structs ::
    "(u8 list \<Rightarrow> 'a) \<Rightarrow> ('a \<Rightarrow> 'a) \<Rightarrow> nat \<Rightarrow> nat \<Rightarrow> bool \<Rightarrow> u8 list \<Rightarrow> 'a list result" where
  "read_structs rd swap sz num wrong_end bs =
     (let tab = read_array rd sz (length bs div sz) bs
      in if wrong_end
         then if num \<le> length tab then Inr (map swap (take num tab) @ drop num tab) else Inl Undefined
         else Inr tab)"

subsection \<open>File header\<close>

text \<open>\<open>!x == ELFMAG0\<close> compares the truth value of \<open>!x\<close>, 0 or 1.\<close>

definition logical_not :: "u8 \<Rightarrow> int" where
  "logical_not x = (if x = 0 then 1 else 0)"

definition file_header_magic_number_is_valid :: "Elf32_Ehdr \<Rightarrow> (bool \<times> message list) result" where
  "file_header_magic_number_is_valid header =
     bindR (index (e_ident header) EI_MAG0) (\<lambda>m0. bindR (index (e_ident header) EI_MAG1) (\<lambda>m1.
     bindR (index (e_ident header) EI_MAG2) (\<lambda>m2. bindR (index (e_ident header) EI_MAG3) (\<lambda>m3.
       if logical_not m0 = ELFMAG0 \<or> logical_not m1 = ELFMAG1 \<or> logical_not m2 = ELFMAG2 \<or>
          logical_not m3 = ELFMAG3
       then Inr (False, [DLIF_error DLET_FILE ''Invalid ELF magic number.''])
       else Inr (True, [])))))"

definition file_header_machine_is_valid :: "u16 \<Rightarrow> bool" where
  "file_header_machine_is_valid machine = (if machine = EM_TI_C6000 then True else False)"

definition dload_file_header ::
    "endian \<Rightarrow> 'c loader \<Rightarrow> DLIMP_Dynamic_Module \<Rightarrow> (bool \<times> DLIMP_Dynamic_Module \<times> 'c loader) result" where
  "dload_file_header h st dyn_module =
     bindR (with_file st (fd dyn_module) (\<lambda>s. DLIF_fread s sizeof_Ehdr 1)) (\<lambda>(bs, st).
     let dyn_module = dyn_module\<lparr>fhdr := read_Ehdr h bs\<rparr> in
     bindR (index (e_ident (fhdr dyn_module)) EI_DATA) (\<lambda>enc.
     let dyn_module = dyn_module\<lparr>wrong_endian := (uint enc \<noteq> DLIMP_get_endian h)\<rparr>;
         dyn_module = (if wrong_endian dyn_module
                       then dyn_module\<lparr>fhdr := DLIMP_change_ehdr_endian (fhdr dyn_module)\<rparr> else dyn_module)
     in bindR (file_header_magic_number_is_valid (fhdr dyn_module)) (\<lambda>(ok, ms).
        let st = report ms st
        in if \<not> ok
           then Inr (False, dyn_module, report [DLIF_error DLET_FILE ''Invalid ELF file header magic number.''] st)
           else if \<not> file_header_machine_is_valid (e_machine (fhdr dyn_module))
           then Inr (False, dyn_module, report [DLIF_error DLET_FILE ''Invalid ELF file target machine.''] st)
           else if e_type (fhdr dyn_module) \<noteq> ET_EXEC \<and> e_type (fhdr dyn_module) \<noteq> ET_DYN
           then Inr (False, dyn_module, report [DLIF_error DLET_FILE ''Invalid ELF file type.''] st)
           else Inr (True, dyn_module, st))))"

definition dload_program_header_table ::
    "endian \<Rightarrow> 'c loader \<Rightarrow> DLIMP_Dynamic_Module \<Rightarrow> (DLIMP_Dynamic_Module \<times> 'c loader) result" where
  "dload_program_header_table h st dyn_module =
     (let hdr = fhdr dyn_module
      in bindR (read_at st (fd dyn_module) (e_phoff hdr) (unat (e_phentsize hdr)) (unat (e_phnum hdr))) (\<lambda>(bs, st).
         bindR (read_structs (read_Phdr h) DLIMP_change_phdr_endian sizeof_Phdr (unat (e_phnum hdr))
                  (wrong_endian dyn_module) bs) (\<lambda>tab.
           Inr (dyn_module\<lparr>phdr := Some tab, phnum := ucast (e_phnum hdr)\<rparr>, st))))"

text \<open>The table of targets has one entry, for the C6000.\<close>

definition vt_arr :: "u16 list" where
  "vt_arr = [EM_TI_C6000]"

definition get_vt_obj :: "u16 \<Rightarrow> u16 option" where
  "get_vt_obj given_id = find (\<lambda>machine_id. machine_id = given_id) vt_arr"

definition dload_headers ::
    "endian \<Rightarrow> 'c loader \<Rightarrow> DLIMP_Dynamic_Module \<Rightarrow> (bool \<times> DLIMP_Dynamic_Module \<times> 'c loader) result" where
  "dload_headers h st dyn_module =
     bindR (dload_file_header h st dyn_module) (\<lambda>(ok, dyn_module, st).
       if \<not> ok then Inr (False, dyn_module, st)
       else bindR (dload_program_header_table h st dyn_module) (\<lambda>(dyn_module, st).
            let st = st\<lparr>cur_target := get_vt_obj (e_machine (fhdr dyn_module))\<rparr>
            in if cur_target st = None
               then Inr (False, dyn_module,
                      report [DLIF_error DLET_FILE ''Attempt to load invalid ELF file, '%s'.''] st)
               else Inr (True, dyn_module, st)))"

subsection \<open>Dynamic segment\<close>

definition find_dynamic_segment ::
    "DLIMP_Dynamic_Module \<Rightarrow> (nat option \<times> DLIMP_Dynamic_Module) result" where
  "find_dynamic_segment dyn_module =
     bindR (first_match (\<lambda>i. bindR (deref (phdr dyn_module)) (\<lambda>tab. bindR (index tab i) (\<lambda>p.
              Inr (if p_type p = PT_DYNAMIC then Some i else None)))) [0..<unat (phnum dyn_module)])
       (\<lambda>r. Inr (r, dyn_module\<lparr>relocatable := (r \<noteq> None)\<rparr>))"

definition copy_dynamic_table ::
    "endian \<Rightarrow> 'c loader \<Rightarrow> DLIMP_Dynamic_Module \<Rightarrow> nat \<Rightarrow> (DLIMP_Dynamic_Module \<times> 'c loader) result" where
  "copy_dynamic_table h st dyn_module dyn_seg_idx =
     bindR (deref (phdr dyn_module)) (\<lambda>tab. bindR (index tab dyn_seg_idx) (\<lambda>p.
     let num_elem = unat (p_filesz p) div sizeof_Dyn
     in bindR (read_at st (fd dyn_module) (p_offset p) sizeof_Dyn num_elem) (\<lambda>(bs, st).
        bindR (read_structs (read_Dyn h) DLIMP_change_dynent_endian sizeof_Dyn num_elem
                 (wrong_endian dyn_module) bs) (\<lambda>entries.
          Inr (dyn_module\<lparr>dyntab := Some entries\<rparr>, st)))))"

text \<open>
  A loop over the dynamic table up to its terminator, the index of the first entry being \<open>i\<close>. The
  body may end the loop early by returning \<open>Inl\<close> of an answer.
\<close>

fun for_tags :: "(nat \<Rightarrow> Elf32_Dyn \<Rightarrow> 's \<Rightarrow> ('a + 's) result) \<Rightarrow> nat \<Rightarrow> Elf32_Dyn list \<Rightarrow> 's \<Rightarrow> ('a + 's) result" where
  "for_tags body i [] s = Inl Undefined"
| "for_tags body i (d # ds) s =
     (if d_tag d = DT_NULL then Inr (Inr s)
      else bindR (body i d s) (\<lambda>r. case r of Inl a \<Rightarrow> Inr (Inl a) | Inr s \<Rightarrow> for_tags body (Suc i) ds s))"

text \<open>The locals of \<open>process_dynamic_table\<close>; \<open>scan_soname\<close> is \<open>None\<close> until the tag is found.\<close>

record dyn_scan =
  scan_module :: DLIMP_Dynamic_Module
  scan_soname :: "u32 option"
  scan_strtab :: u32
  scan_hash :: u32
  scan_symtab :: u32

definition process_tag :: "u16 option \<Rightarrow> nat \<Rightarrow> Elf32_Dyn \<Rightarrow> dyn_scan \<Rightarrow> (bool + dyn_scan) result" where
  "process_tag target i d s =
     (let dm = scan_module s; set = (\<lambda>dm. Inr (Inr (s\<lparr>scan_module := dm\<rparr>)))
      in if d_tag d = DT_SONAME then Inr (Inr (s\<lparr>scan_soname := Some (d_un d)\<rparr>))
      else if d_tag d = DT_STRSZ then set (dm\<lparr>strsz := d_un d\<rparr>)
      else if d_tag d = DT_STRTAB then Inr (Inr (s\<lparr>scan_strtab := d_un d\<rparr>))
      else if d_tag d = DT_HASH then Inr (Inr (s\<lparr>scan_hash := d_un d\<rparr>))
      else if d_tag d = DT_SYMTAB then Inr (Inr (s\<lparr>scan_symtab := d_un d\<rparr>))
      else if d_tag d = DT_PREINIT_ARRAY then set (dm\<lparr>preinit_array_idx := int i\<rparr>)
      else if d_tag d = DT_PREINIT_ARRAYSZ then set (dm\<lparr>preinit_arraysz := d_un d\<rparr>)
      else if d_tag d = DT_INIT then set (dm\<lparr>init_idx := int i\<rparr>)
      else if d_tag d = DT_INIT_ARRAY then set (dm\<lparr>init_array_idx := int i\<rparr>)
      else if d_tag d = DT_INIT_ARRAYSZ then set (dm\<lparr>init_arraysz := d_un d\<rparr>)
      else if d_tag d \<in> {DT_FINI_ARRAY, DT_FINI_ARRAYSZ, DT_FINI} then Inr (Inr s)
      else bindR (deref target) (\<lambda>_. bindR (DLDYN_c60_process_dynamic_tag dm i) (\<lambda>(_, dm). set dm)))"

definition read_string_table ::
    "'c loader \<Rightarrow> u32 \<Rightarrow> DLIMP_Dynamic_Module \<Rightarrow> (bool \<times> DLIMP_Dynamic_Module \<times> 'c loader) result" where
  "read_string_table st strtab_offset dyn_module =
     (if strtab_offset \<noteq> 0 \<and> strsz dyn_module \<noteq> 0
      then bindR (read_at st (fd dyn_module) strtab_offset 1 (unat (strsz dyn_module))) (\<lambda>(bs, st).
             Inr (True, dyn_module\<lparr>strtab := Some (string_of_bytes bs)\<rparr>, st))
      else Inr (False, dyn_module,
             report [DLIF_warning DLWT_MISC ''Mandatory dynamic tag DT_STRTAB/DT_STRSZ not found!''] st))"

definition read_hash_table ::
    "endian \<Rightarrow> 'c loader \<Rightarrow> u32 \<Rightarrow> DLIMP_Dynamic_Module \<Rightarrow> (bool \<times> DLIMP_Dynamic_Module \<times> 'c loader) result" where
  "read_hash_table h st hash_offset dyn_module =
     (if hash_offset \<noteq> 0
      then bindR (read_at st (fd dyn_module) hash_offset 4 1) (\<lambda>(nbucket_bytes, st).
           bindR (with_file st (fd dyn_module) (\<lambda>s. DLIF_fread s 4 1)) (\<lambda>(nchain_bytes, st).
           let hash_nchain = word32 h nchain_bytes;
               hash_nchain = (if wrong_endian dyn_module then DLIMP_change_endian32 hash_nchain else hash_nchain)
           in Inr (True, dyn_module\<lparr>symnum := hash_nchain\<rparr>, st)))
      else Inr (False, dyn_module,
             report [DLIF_warning DLWT_MISC ''Mandatory dynamic tag DT_HASH is not found!''] st))"

definition read_symbol_table ::
    "endian \<Rightarrow> 'c loader \<Rightarrow> u32 \<Rightarrow> DLIMP_Dynamic_Module \<Rightarrow> (bool \<times> DLIMP_Dynamic_Module \<times> 'c loader) result" where
  "read_symbol_table h st symtab_offset dyn_module =
     (if symtab_offset \<noteq> 0
      then bindR (read_at st (fd dyn_module) symtab_offset sizeof_Sym (unat (symnum dyn_module))) (\<lambda>(bs, st).
           bindR (read_structs (read_Sym h) DLIMP_change_sym_endian sizeof_Sym (unat (symnum dyn_module))
                    (wrong_endian dyn_module) bs) (\<lambda>tab.
             Inr (True, dyn_module\<lparr>symtab := Some tab\<rparr>, st)))
      else Inr (False, dyn_module,
             report [DLIF_warning DLWT_MISC ''Mandatory dynamic tag DT_SYMTAB is not found!''] st))"

definition read_soname ::
    "'c loader \<Rightarrow> u32 option \<Rightarrow> DLIMP_Dynamic_Module \<Rightarrow> (DLIMP_Dynamic_Module \<times> 'c loader) result" where
  "read_soname st soname dyn_module =
     (case soname of
        None \<Rightarrow> Inr (dyn_module\<lparr>dm_name := Some []\<rparr>,
                  report [DLIF_warning DLWT_MISC ''Dynamic tag DT_SONAME is not found!''] st)
      | Some soname_offset \<Rightarrow> bindR (deref (strtab dyn_module)) (\<lambda>str.
          bindR (cstring_at str (unat soname_offset)) (\<lambda>name.
            Inr (dyn_module\<lparr>dm_name := Some name\<rparr>, st))))"

definition process_dynamic_table ::
    "endian \<Rightarrow> 'c loader \<Rightarrow> DLIMP_Dynamic_Module \<Rightarrow> (bool \<times> DLIMP_Dynamic_Module \<times> 'c loader) result" where
  "process_dynamic_table h st dyn_module =
     bindR (deref (dyntab dyn_module)) (\<lambda>tab.
     bindR (for_tags (process_tag (cur_target st)) 0 tab \<lparr>scan_module = dyn_module, scan_soname = None,
              scan_strtab = 0, scan_hash = 0, scan_symtab = 0\<rparr>) (\<lambda>r.
     case r of Inl ok \<Rightarrow> Inr (ok, dyn_module, st) | Inr s \<Rightarrow>
     bindR (read_string_table st (scan_strtab s) (scan_module s)) (\<lambda>(ok, dyn_module, st).
     if \<not> ok then Inr (False, dyn_module, st) else
     bindR (read_hash_table h st (scan_hash s) dyn_module) (\<lambda>(ok, dyn_module, st).
     if \<not> ok then Inr (False, dyn_module, st) else
     bindR (read_symbol_table h st (scan_symtab s) dyn_module) (\<lambda>(ok, dyn_module, st).
     if \<not> ok then Inr (False, dyn_module, st) else
     bindR (read_soname st (scan_soname s) dyn_module) (\<lambda>(dyn_module, st).
       Inr (True, dyn_module, st)))))))"

definition dload_dynamic_information ::
    "endian \<Rightarrow> 'c loader \<Rightarrow> DLIMP_Dynamic_Module \<Rightarrow> nat \<Rightarrow> (bool \<times> DLIMP_Dynamic_Module \<times> 'c loader) result" where
  "dload_dynamic_information h st dyn_module dyn_seg_idx =
     bindR (copy_dynamic_table h st dyn_module dyn_seg_idx) (\<lambda>(dyn_module, st).
       process_dynamic_table h st dyn_module)"

text \<open>The names of the modules being loaded are read through pointers to those modules.\<close>

definition check_circular_dependency :: "'c loader \<Rightarrow> string \<Rightarrow> (bool \<times> 'c loader) result" where
  "check_circular_dependency st dyn_mod_name =
     bindR (first_match (\<lambda>p. bindR (deref (dmods st p)) (\<lambda>dm. bindR (deref (dm_name dm)) (\<lambda>name.
              Inr (if dyn_mod_name = name then Some () else None)))) (DLIMP_module_dependency_list st))
       (\<lambda>r. case r of
          Some _ \<Rightarrow> Inr (False, report [DLIF_error DLET_MISC
            ''Circular dependency detected, '%s' is already in the process of loading.''] st)
        | None \<Rightarrow> Inr (True, st))"

definition dload_dynamic_segment ::
    "endian \<Rightarrow> 'c loader \<Rightarrow> DLIMP_Dynamic_Module \<Rightarrow> (bool \<times> DLIMP_Dynamic_Module \<times> 'c loader) result" where
  "dload_dynamic_segment h st dyn_module =
     bindR (find_dynamic_segment dyn_module) (\<lambda>(seg, dyn_module).
     case seg of
       None \<Rightarrow> Inr (True, dyn_module, st)
     | Some dyn_seg_idx \<Rightarrow>
         bindR (deref (cur_target st)) (\<lambda>_.
         bindR (DLDYN_c60_process_eiosabi dyn_module) (\<lambda>ok.
         if \<not> ok then Inr (False, dyn_module, report [DLIF_error DLET_FILE ''Unsupported EI_OSABI value.''] st)
         else bindR (dload_dynamic_information h st dyn_module dyn_seg_idx) (\<lambda>(ok, dyn_module, st).
              if \<not> ok then Inr (False, dyn_module, st)
              else bindR (deref (dm_name dyn_module)) (\<lambda>name.
                   bindR (check_circular_dependency st name) (\<lambda>(ok, st).
                     Inr (ok, dyn_module, st)))))))"

subsection \<open>Sanity checks\<close>

definition phdr_check :: "u32 \<Rightarrow> Elf32_Phdr \<Rightarrow> message option" where
  "phdr_check fsz p =
     (if \<not> (p_type p \<noteq> PT_LOAD \<or> p_filesz p \<le> p_memsz p)
      then Some (DLIF_error DLET_MISC ''Invalid file or memory size for segment %d.'')
      else if \<not> (p_offset p + p_filesz p < fsz)
      then Some (DLIF_error DLET_FILE ''File location of segment %d is past the end of file.'')
      else None)"

definition is_valid_elf_object_file ::
    "'c loader \<Rightarrow> DLIMP_Dynamic_Module \<Rightarrow> (bool \<times> 'c loader) result" where
  "is_valid_elf_object_file st dyn_module =
     bindR (with_file st (fd dyn_module) (\<lambda>s. let s = DLIF_fseek_end s in Inr (DLIF_ftell s, s))) (\<lambda>(fsz, st).
     if \<not> (strsz dyn_module < fsz \<and> symnum dyn_module < fsz \<and> phnum dyn_module * of_nat sizeof_Phdr < fsz)
     then Inr (False, report [DLIF_error DLET_FILE ''Invalid ELF table bounds.''] st)
     else bindR (case dyntab dyn_module of None \<Rightarrow> Inr False
                 | Some _ \<Rightarrow> bindR (deref (dm_name dyn_module)) (\<lambda>name. Inr (name = []))) (\<lambda>nameless.
          if nameless
          then Inr (False, report [DLIF_error DLET_MISC ''Dynamic file lacks SO_NAME identifier.''] st)
          else bindR (first_match (\<lambda>i. bindR (deref (phdr dyn_module)) (\<lambda>tab. bindR (index tab i) (\<lambda>p.
                        Inr (phdr_check fsz p)))) [0..<unat (phnum dyn_module)]) (\<lambda>bad.
               case bad of
                 Some m \<Rightarrow> Inr (False, report [m] st)
               | None \<Rightarrow> Inr (\<not> (e_type (fhdr dyn_module) = ET_DYN \<and> symtab dyn_module = None), st))))"

subsection \<open>Behaviour\<close>

definition file_endian :: "u8 \<Rightarrow> endian" where
  "file_endian enc = (if uint enc = ELFDATA2LSB then LSB else MSB)"

lemma wrong_endian_iff:
  assumes "uint enc = ELFDATA2LSB \<or> uint enc = ELFDATA2MSB"
  shows "uint enc \<noteq> DLIMP_get_endian h \<longleftrightarrow> h \<noteq> file_endian enc"
  using assms by (cases h) (auto simp: file_endian_def)

lemma not_same_opposite: "h \<noteq> e \<longleftrightarrow> opposite h = e"
  by (cases h; cases e) simp_all

lemma ident_swap [simp]: "e_ident (DLIMP_change_ehdr_endian x) = e_ident x"
  by (simp add: DLIMP_change_ehdr_endian_def)

lemma ident_read: "length bs = sizeof_Ehdr \<Longrightarrow> e_ident (read_Ehdr h bs) = take 16 bs"
  by (simp add: read_Ehdr_def)

lemma magic_true:
  assumes "4 \<le> length (e_ident hdr)"
  shows "file_header_magic_number_is_valid hdr = Inr (True, [])"
proof -
  have "index (e_ident hdr) i = Inr (e_ident hdr ! i)" if "i < 4" for i using assms that by simp
  then show ?thesis by (simp add: file_header_magic_number_is_valid_def logical_not_def)
qed

lemma read_structs_native: "read_structs rd swap sz num False bs = Inr (read_array rd sz (length bs div sz) bs)"
  by (simp add: read_structs_def)

lemma read_structs_foreign:
  assumes "\<And>b. length b = sz \<Longrightarrow> swap (rd h b) = rd (opposite h) b" and "length bs = sz * num" and "0 < sz"
  shows "read_structs (rd h) swap sz num True bs = Inr (read_array (rd (opposite h)) sz num bs)"
proof -
  have "map swap (read_array (rd h) sz num bs) = read_array (rd (opposite h)) sz num bs"
    by (rule swap_array) (use assms in \<open>simp_all add: mult.commute\<close>)
  with assms(2,3) show ?thesis by (simp add: read_structs_def)
qed

lemma with_file_fread:
  assumes "with_file st f (\<lambda>s. DLIF_fread (g s) sz n) = Inr (bs, st')"
  shows "length bs = sz * n" and "\<exists>s. st' = st\<lparr>files := (files st)(f \<mapsto> s)\<rparr>"
  using assms by (auto simp: with_file_def bindR_eq_Inr DLIF_fread_def slice_def split: if_splits)

lemma read_at_fread:
  assumes "read_at st f off sz n = Inr (bs, st')"
  shows "length bs = sz * n" and "\<exists>s. st' = st\<lparr>files := (files st)(f \<mapsto> s)\<rparr>"
  using assms with_file_fread[of st f "\<lambda>s. DLIF_fseek_set s off" sz n bs st'] by (simp_all add: read_at_def)

text \<open>What reading a file may change of the loader: file positions, the log and the target.\<close>

definition reads_only :: "'c loader \<Rightarrow> 'c loader \<Rightarrow> bool" where
  "reads_only st st' \<longleftrightarrow> lmods st' = lmods st \<and> dmods st' = dmods st \<and> next_obj st' = next_obj st \<and>
     dom (files st') = dom (files st) \<and>
     DLIMP_module_dependency_list st' = DLIMP_module_dependency_list st \<and>
     DLIMP_loaded_objects st' = DLIMP_loaded_objects st \<and>
     DLIMP_dependency_stack st' = DLIMP_dependency_stack st \<and> file_handle st' = file_handle st \<and>
     client st' = client st \<and> TI_init_table st' = TI_init_table st \<and>
     DLIMP_application_handle st' = DLIMP_application_handle st"

lemma reads_only_refl [simp]: "reads_only st st"
  by (simp add: reads_only_def)

lemma reads_only_trans [trans]: "reads_only a b \<Longrightarrow> reads_only b c \<Longrightarrow> reads_only a c"
  by (simp add: reads_only_def)

lemma reads_only_report [simp]: "reads_only a (report ms b) = reads_only a b"
  by (simp add: reads_only_def)

lemma reads_only_target [simp]: "reads_only a (b\<lparr>cur_target := t\<rparr>) = reads_only a b"
  by (simp add: reads_only_def)

abbreviation "reads1 st \<equiv> holdsR (\<lambda>(x, st'). reads_only st st')"
abbreviation "reads2 st \<equiv> holdsR (\<lambda>(x, y, st'). reads_only st st')"

lemma with_file_reads: "reads1 st (with_file st f g)"
  by (auto simp: with_file_def holdsR_def bindR_eq_Inr deref_eq_Inr reads_only_def split: if_splits)

lemma read_at_reads: "reads1 st (read_at st f off sz n)"
  by (simp add: read_at_def with_file_reads)

lemmas file_post = holdsR_bindI[OF with_file_reads] holdsR_bindI[OF read_at_reads] holdsR_splits

lemma read_string_table_reads: "reads2 st (read_string_table st off dm)"
  by (auto simp: read_string_table_def intro!: file_post)

lemma read_hash_table_reads: "reads2 st (read_hash_table h st off dm)"
  by (auto simp: read_hash_table_def Let_def intro!: file_post intro: reads_only_trans)

lemma read_symbol_table_reads: "reads2 st (read_symbol_table h st off dm)"
  by (auto simp: read_symbol_table_def Let_def
      intro!: file_post holdsR_bind_any[of "read_structs _ _ _ _ _ _"])

lemma read_soname_reads: "reads1 st (read_soname st soname dm)"
  by (auto simp: read_soname_def intro!: file_post holdsR_bind_any[of "cstring_at _ _"] split: option.splits)

lemmas table_post = holdsR_bindI[OF read_string_table_reads] holdsR_bindI[OF read_hash_table_reads]
  holdsR_bindI[OF read_symbol_table_reads] holdsR_bindI[OF read_soname_reads] holdsR_splits

lemma process_dynamic_table_reads: "reads2 st (process_dynamic_table h st dm)"
  unfolding process_dynamic_table_def
proof (intro holdsR_deref holdsR_bind_any)
  fix tab r
  show "reads2 st (case r of Inl ok \<Rightarrow> Inr (ok, dm, st) | Inr s \<Rightarrow>
     bindR (read_string_table st (scan_strtab s) (scan_module s)) (\<lambda>(ok, dyn_module, st).
     if \<not> ok then Inr (False, dyn_module, st) else
     bindR (read_hash_table h st (scan_hash s) dyn_module) (\<lambda>(ok, dyn_module, st).
     if \<not> ok then Inr (False, dyn_module, st) else
     bindR (read_symbol_table h st (scan_symtab s) dyn_module) (\<lambda>(ok, dyn_module, st).
     if \<not> ok then Inr (False, dyn_module, st) else
     bindR (read_soname st (scan_soname s) dyn_module) (\<lambda>(dyn_module, st).
       Inr (True, dyn_module, st))))))"
    by (cases r) (auto intro!: table_post simp: reads_only_def)
qed

lemma check_circular_reads: "reads1 st (check_circular_dependency st name)"
  by (auto simp: check_circular_dependency_def intro!: holdsR_bind_any split: option.splits)

lemma dynamic_information_reads: "reads2 st (dload_dynamic_information h st dm i)"
  unfolding dload_dynamic_information_def
proof (rule holdsR_bindI)
  show "reads1 st (copy_dynamic_table h st dm i)"
    by (auto simp: copy_dynamic_table_def Let_def
        intro!: file_post holdsR_bind_any[of "read_structs _ _ _ _ _ _"])
  show "reads2 st (case x of (dm, st) \<Rightarrow> process_dynamic_table h st dm)"
    if "case x of (y, st') \<Rightarrow> reads_only st st'" for x
    using that by (auto intro: holdsR_mono[OF process_dynamic_table_reads] reads_only_trans)
qed

lemma dload_dynamic_segment_reads: "reads2 st (dload_dynamic_segment h st dm)"
  by (auto simp: dload_dynamic_segment_def reads_only_def split: option.splits
      intro!: holdsR_deref holdsR_bindI[OF dynamic_information_reads] holdsR_bindI[OF check_circular_reads]
        holdsR_bind_any[of "find_dynamic_segment dm"] holdsR_bind_any[of "DLDYN_c60_process_eiosabi _"])

lemma dload_file_header_reads: "reads2 st (dload_file_header h st dm)"
  by (auto simp: dload_file_header_def Let_def
      intro!: file_post holdsR_bind_any[of "file_header_magic_number_is_valid _"])

lemma dload_headers_reads: "reads2 st (dload_headers h st dm)"
proof -
  have p: "reads1 st (dload_program_header_table h st dm)" for st :: "'a loader" and dm
    by (auto simp: dload_program_header_table_def Let_def
        intro!: file_post holdsR_bind_any[of "read_structs _ _ _ _ _ _"])
  show ?thesis
    unfolding dload_headers_def Let_def
    by (auto simp: reads_only_def intro!: holdsR_bindI[OF dload_file_header_reads] holdsR_bindI[OF p])
qed

lemma is_valid_reads: "reads1 st (is_valid_elf_object_file st dm)"
  unfolding is_valid_elf_object_file_def Let_def
  by (auto intro!: holdsR_bindI[OF with_file_reads] holdsR_bind_any[of "first_match _ _"]
      holdsR_deref simp: bindR_assoc split: option.splits)


subsection \<open>Properties\<close>

text \<open>The check of the ELF magic number accepts every file header,
  whatever its first four bytes are.\<close>

lemma magic_number_never_checked:
  assumes "16 \<le> length (e_ident hdr)"
  shows "file_header_magic_number_is_valid hdr = Inr (True, [])"
  using assms by (simp add: magic_true)


definition example_header_file :: FILE where
  "example_header_file = \<lparr>contents = [0x7f, 0x45, 0x4c, 0x46, 1, 1] @ replicate 10 0 @ [3, 0, 140, 0] @ replicate 32 0, fpos = 0\<rparr>"


definition segments_in_bounds :: "u32 \<Rightarrow> Elf32_Phdr list \<Rightarrow> bool" where
  "segments_in_bounds fsz tab \<longleftrightarrow> (\<forall>p \<in> set tab. (p_type p = PT_LOAD \<longrightarrow> p_filesz p \<le> p_memsz p) \<and>
     p_offset p + p_filesz p < fsz)"

lemma first_match_None_iff:
  assumes "\<And>i. i \<in> set is \<Longrightarrow> f i = Inr (g i)"
  shows "\<exists>r. first_match f is = Inr r \<and> (r = None \<longleftrightarrow> (\<forall>i \<in> set is. g i = None))"
  using assms by (induction "is") (auto split: option.splits)

lemma phdr_check_None: "phdr_check fsz p = None \<longleftrightarrow>
    (p_type p = PT_LOAD \<longrightarrow> p_filesz p \<le> p_memsz p) \<and> p_offset p + p_filesz p < fsz"
  by (auto simp: phdr_check_def)


definition example_module_file :: "u32 \<Rightarrow> u32 \<Rightarrow> DLIMP_Dynamic_Module" where
  "example_module_file off fsz = (new_DLIMP_Dynamic_Module 5)\<lparr>phnum := 1, phdr := Some [\<lparr>p_type = PT_LOAD,
     p_offset = off, p_vaddr = 0, p_paddr = 0, p_filesz = fsz, p_memsz = fsz, p_flags = 0, p_align = 0\<rparr>]\<rparr>"


definition loading_names :: "'c loader \<Rightarrow> string list" where
  "loading_names st = map (\<lambda>p. the (dm_name (the (dmods st p)))) (DLIMP_module_dependency_list st)"

definition loading_ok :: "'c loader \<Rightarrow> bool" where
  "loading_ok st \<longleftrightarrow> (\<forall>p \<in> set (DLIMP_module_dependency_list st). \<exists>dm. dmods st p = Some dm \<and> dm_name dm \<noteq> None)"

lemma check_circular_names:
  assumes "loading_ok st"
  shows "check_circular_dependency st name = Inr (if name \<in> set (loading_names st)
     then (False, report [DLIF_error DLET_MISC
            ''Circular dependency detected, '%s' is already in the process of loading.''] st)
     else (True, st))"
proof -
  have "first_match (\<lambda>p. bindR (deref (dmods st p)) (\<lambda>dm. bindR (deref (dm_name dm)) (\<lambda>n.
           Inr (if name = n then Some () else None)))) (DLIMP_module_dependency_list st) =
      Inr (map_option (\<lambda>_. ()) (find (\<lambda>p. name = the (dm_name (the (dmods st p)))) (DLIMP_module_dependency_list st)))"
    by (rule first_match_find) (use assms in \<open>auto simp: loading_ok_def\<close>)
  then show ?thesis
    by (auto simp: check_circular_dependency_def loading_names_def find_None_iff find_Some_iff split: option.splits)
qed

text \<open>While the names of the modules being loaded can be read, a
  module is refused as circular exactly when its name is one of them.\<close>

lemma circular_dependency_detected:
  assumes "loading_ok st"
  shows "\<exists>st'. check_circular_dependency st name = Inr (name \<notin> set (loading_names st), st')"
  using check_circular_names[OF assms] by simp

definition tables_wf :: "DLIMP_Dynamic_Module \<Rightarrow> bool" where
  "tables_wf dm \<longleftrightarrow> (\<exists>tab str name. symtab dm = Some tab \<and> length tab = unat (symnum dm) \<and>
     strtab dm = Some str \<and> length str = unat (strsz dm) \<and> dm_name dm = Some name \<and> NUL \<notin> set name)"

lemma read_structs_length:
  assumes "read_structs rd swap sz num w bs = Inr tab" and "length bs = sz * num" and "0 < sz"
  shows "length tab = num"
  using assms by (auto simp: read_structs_def Let_def split: if_splits)

lemma read_tables_wf:
  "read_string_table st off dm = Inr (True, dm', st') \<Longrightarrow>
     \<exists>str. dm' = dm\<lparr>strtab := Some str\<rparr> \<and> length str = unat (strsz dm)"
  "read_hash_table h st off dm = Inr (True, dm', st') \<Longrightarrow> \<exists>n. dm' = dm\<lparr>symnum := n\<rparr>"
  "read_symbol_table h st off dm = Inr (True, dm', st') \<Longrightarrow>
     \<exists>tab. dm' = dm\<lparr>symtab := Some tab\<rparr> \<and> length tab = unat (symnum dm)"
  "read_soname st soname dm = Inr (dm', st') \<Longrightarrow> \<exists>name. dm' = dm\<lparr>dm_name := Some name\<rparr> \<and> NUL \<notin> set name"
proof -
  show "read_string_table st off dm = Inr (True, dm', st') \<Longrightarrow>
     \<exists>str. dm' = dm\<lparr>strtab := Some str\<rparr> \<and> length str = unat (strsz dm)"
    by (auto simp: read_string_table_def bindR_eq_Inr string_of_bytes_def split: if_splits dest!: read_at_fread(1))
  show "read_hash_table h st off dm = Inr (True, dm', st') \<Longrightarrow> \<exists>n. dm' = dm\<lparr>symnum := n\<rparr>"
    by (auto simp: read_hash_table_def bindR_eq_Inr Let_def split: if_splits)
  show "read_symbol_table h st off dm = Inr (True, dm', st') \<Longrightarrow>
     \<exists>tab. dm' = dm\<lparr>symtab := Some tab\<rparr> \<and> length tab = unat (symnum dm)"
    by (clarsimp simp: read_symbol_table_def bindR_eq_Inr sizeof_Sym_def split: if_splits)
      (metis read_at_fread(1) read_structs_length zero_less_numeral)
  show "read_soname st soname dm = Inr (dm', st') \<Longrightarrow> \<exists>name. dm' = dm\<lparr>dm_name := Some name\<rparr> \<and> NUL \<notin> set name"
    by (auto simp: read_soname_def bindR_eq_Inr split: option.splits dest: cstring_at_no_NUL)
qed

lemma for_tags_never_stops:
  assumes "\<And>i d s r. body i d s = Inr r \<Longrightarrow> \<exists>t. r = Inr t" and "for_tags body i ds s = Inr r"
  shows "\<exists>t. r = Inr t"
  using assms(2)
proof (induction ds arbitrary: i s)
  case (Cons d ds)
  show ?case
  proof (cases "d_tag d = DT_NULL")
    case False
    with Cons.prems obtain q where q: "body i d s = Inr q"
      "(case q of Inl a \<Rightarrow> Inr (Inl a) | Inr s \<Rightarrow> for_tags body (Suc i) ds s) = Inr r"
      by (auto simp: bindR_eq_Inr)
    from assms(1)[OF q(1)] obtain t where "q = Inr t" ..
    with q(2) Cons.IH show ?thesis by simp
  qed (use Cons.prems in auto)
qed simp

lemma process_tag_continues: "process_tag target i d s = Inr r \<Longrightarrow> \<exists>t. r = Inr t"
  by (auto simp: process_tag_def Let_def bindR_eq_Inr split: if_splits)


definition example_dynamic_file :: FILE where
  "example_dynamic_file = \<lparr>contents = replicate 4 0 @ [1, 0, 0, 0] @ [1, 0, 0, 0] @ [97, 0, 98, 0] @ replicate 16 0, fpos = 0\<rparr>"

definition example_dynamic_module :: DLIMP_Dynamic_Module where
  "example_dynamic_module = (new_DLIMP_Dynamic_Module 5)\<lparr>dyntab := Some
     [\<lparr>d_tag = DT_SONAME, d_un = 2\<rparr>, \<lparr>d_tag = DT_STRTAB, d_un = 12\<rparr>, \<lparr>d_tag = DT_STRSZ, d_un = 4\<rparr>,
      \<lparr>d_tag = DT_HASH, d_un = 4\<rparr>, \<lparr>d_tag = DT_SYMTAB, d_un = 16\<rparr>, \<lparr>d_tag = DT_NULL, d_un = 0\<rparr>]\<rparr>"

lemma example_dynamic_table:
  "\<exists>dm st. process_dynamic_table LSB (example_loader\<lparr>files := [5 \<mapsto> example_dynamic_file]\<rparr>) example_dynamic_module
     = Inr (True, dm, st) \<and> dm_name dm = Some ''b''"
  by (simp add: process_dynamic_table_def example_dynamic_module_def new_DLIMP_Dynamic_Module_def process_tag_def
      read_string_table_def read_hash_table_def read_symbol_table_def read_soname_def read_at_def with_file_def
      DLIF_fread_def DLIF_fseek_set_def example_dynamic_file_def string_of_bytes_def word32_def slice_def
      cstring_at_def word_of_bytes.simps(2) read_structs_def sizeof_defs char_of_def bit_0)

end
