(* ===== verification/DLoad_Segments.thy ===== *)
theory DLoad_Segments
  imports DLoad_Headers C60_Reloc
begin

text \<open>
  Placing a module (\<open>DLOAD/dload.c\<close>): the loaded module and its segments, static and dynamic
  allocation of target memory through the client, the relocation of entry point, program
  headers, symbols and dynamic tags, copying segments to the host and writing them to the
  target, and the destruction of modules.
\<close>

subsection \<open>The loaded module\<close>

definition make_segment :: "Elf32_Phdr \<Rightarrow> DLIMP_Loaded_Segment" where
  "make_segment p = \<lparr>
     seg_phdr = \<lparr>p_type = PT_NULL, p_offset = p_offset p, p_vaddr = p_vaddr p, p_paddr = 0,
       p_filesz = p_filesz p, p_memsz = p_memsz p, p_flags = p_flags p, p_align = p_align p\<rparr>,
     input_vaddr = 0, modified = False,
     obj_desc = \<lparr>target_page = 0, target_address = None, objsz_in_bytes = p_filesz p,
       memsz_in_bytes = p_memsz p\<rparr>,
     host_address = None\<rparr>"

definition load_segments :: "DLIMP_Dynamic_Module \<Rightarrow> DLIMP_Loaded_Segment list result" where
  "load_segments dyn_module = foldR (\<lambda>i segs. bindR (deref (phdr dyn_module)) (\<lambda>tab.
     bindR (index tab i) (\<lambda>p. Inr (if p_type p = PT_LOAD then segs @ [make_segment p] else segs))))
     [0..<unat (phnum dyn_module)] []"

definition initialize_loaded_module ::
    "'c loader \<Rightarrow> DLIMP_Dynamic_Module \<Rightarrow> (nat \<times> DLIMP_Loaded_Module \<times> 'c loader) result" where
  "initialize_loaded_module st dyn_module =
     (let addr = next_obj st;
          module = \<lparr>lm_name = (case dm_name dyn_module of Some n \<Rightarrow> HeapStr n
                                | None \<Rightarrow> LiteralStr ''<unknown>''),
            lm_file_handle = file_handle st, use_count = 1, entry_point = None, gsymtab = None,
            gsymnum = 0, gstrtab = None, gstrsz = 0, loaded_segments = [], dependencies = [],
            lm_direct_dependent_only = dm_direct_dependent_only dyn_module, fini = 0, fini_array = 0,
            fini_arraysz = 0, lm_c_args = None, lm_static_base = None\<rparr>;
          st = st\<lparr>next_obj := Suc addr, file_handle := file_handle st + 1\<rparr>;
          st = (if file_handle st = 0
                then report [DLIF_error DLET_MISC ''DLOAD File handle overflowed.''] st else st)
      in bindR (if symtab dyn_module \<noteq> None then DLSYM_copy_globals dyn_module module else Inr module) (\<lambda>module.
         bindR (load_segments dyn_module) (\<lambda>segs.
           Inr (addr, module\<lparr>loaded_segments := segs\<rparr>, st))))"

subsection \<open>Destruction\<close>

fun release_segments ::
    "'c DLIF \<Rightarrow> DLIMP_Loaded_Segment list \<Rightarrow> 'c loader \<Rightarrow> 'c loader result" where
  "release_segments D [] st = Inr st"
| "release_segments D (seg # segs) st =
     bindR (DLIF_release D (client st) (obj_desc seg)) (\<lambda>(ok, c).
       let st = st\<lparr>client := c\<rparr>
       in release_segments D segs
            (if ok then st else report [DLIF_error DLET_MISC ''Failed call to DLIF_release!''] st))"

text \<open>Freeing a string literal is undefined.\<close>

definition free_name :: "cstr \<Rightarrow> unit result" where
  "free_name n = (case n of HeapStr _ \<Rightarrow> Inr () | LiteralStr _ \<Rightarrow> Inl Undefined)"

definition delete_DLIMP_Loaded_Module :: "'c DLIF \<Rightarrow> 'c loader \<Rightarrow> nat \<Rightarrow> 'c loader result" where
  "delete_DLIMP_Loaded_Module D st p =
     bindR (deref (lmods st p)) (\<lambda>module.
     bindR (release_segments D (loaded_segments module) st) (\<lambda>st.
     let st = (if lm_file_handle module = DLIMP_application_handle st
               then st\<lparr>DLIMP_application_handle := 0\<rparr> else st)
     in bindR (free_name (lm_name module)) (\<lambda>_.
          Inr (st\<lparr>lmods := (lmods st)(p := None)\<rparr>))))"

definition detach_loaded_module :: "DLIMP_Dynamic_Module \<Rightarrow> DLIMP_Dynamic_Module" where
  "detach_loaded_module dyn_module = dyn_module\<lparr>loaded_module := None\<rparr>"

text \<open>The dynamic module is the object at address \<open>a\<close>; a null pointer ends the process.\<close>

definition delete_DLIMP_Dynamic_Module :: "'c DLIF \<Rightarrow> 'c loader \<Rightarrow> nat \<Rightarrow> 'c loader result" where
  "delete_DLIMP_Dynamic_Module D st a =
     bindR (deref (dmods st a)) (\<lambda>dyn_module.
     bindR (case loaded_module dyn_module of None \<Rightarrow> Inr st
            | Some p \<Rightarrow> delete_DLIMP_Loaded_Module D st p) (\<lambda>st.
       Inr (st\<lparr>dmods := (dmods st)(a := None)\<rparr>)))"

subsection \<open>Requests to the client\<close>

definition segment_flags :: "Elf32_Phdr \<Rightarrow> u32 \<Rightarrow> u32" where
  "segment_flags p base =
     (let f = base; f = (if p_flags p AND PF_X \<noteq> 0 then f OR DLOAD_SF_executable else f)
      in (if p_flags p AND PF_W \<noteq> 0 then f OR DLOAD_SF_writable else f))"

text \<open>The file of a module, if it is open.\<close>

abbreviation module_file :: "'c loader \<Rightarrow> DLIMP_Dynamic_Module \<Rightarrow> FILE option" where
  "module_file st dyn_module \<equiv> files st (fd dyn_module)"

subsection \<open>Static executables\<close>

fun load_static_segment ::
    "'c DLIF \<Rightarrow> DLIMP_Dynamic_Module \<Rightarrow> DLIMP_Loaded_Segment list \<Rightarrow> 'c loader \<Rightarrow>
       (bool \<times> DLIMP_Loaded_Segment list \<times> 'c loader) result" where
  "load_static_segment D dyn_module [] st = Inr (True, [], st)"
| "load_static_segment D dyn_module (seg # segs) st =
     (let desc = (obj_desc seg)\<lparr>target_page := 0, target_address := Some (p_vaddr (seg_phdr seg))\<rparr>;
          targ_req = \<lparr>segment = desc, req_host_address = None, offset = p_offset (seg_phdr seg),
            flip_endian = Some (wrong_endian dyn_module),
            flags = segment_flags (seg_phdr seg) 0 AND NOT DLOAD_SF_relocatable,
            align = p_align (seg_phdr seg)\<rparr>
      in bindR (DLIF_allocate D (client st) targ_req) (\<lambda>(ok, desc, c).
         let st = st\<lparr>client := c\<rparr>; seg = seg\<lparr>obj_desc := desc\<rparr>; targ_req = targ_req\<lparr>segment := desc\<rparr>
         in if \<not> ok then Inr (False, seg # segs, st)
            else bindR (if p_filesz (seg_phdr seg) \<noteq> 0
                   then bindR (DLIF_copy D (client st) (module_file st dyn_module) targ_req) (\<lambda>(mem, c).
                        bindR (DLIF_write D c (targ_req\<lparr>req_host_address := mem\<rparr>)) (\<lambda>c.
                          Inr (st\<lparr>client := c\<rparr>)))
                   else Inr st) (\<lambda>st.
                 bindR (load_static_segment D dyn_module segs st) (\<lambda>(ok, segs, st).
                   Inr (ok, seg # segs, st)))))"

definition load_object :: "DLIMP_Dynamic_Module \<Rightarrow> int" where
  "load_object dyn_module = 1"

text \<open>Writing a loaded or dynamic module back to its address.\<close>

definition set_lm :: "nat \<Rightarrow> DLIMP_Loaded_Module \<Rightarrow> 'c loader \<Rightarrow> 'c loader" where
  "set_lm p m st = st\<lparr>lmods := (lmods st)(p \<mapsto> m)\<rparr>"

definition set_dm :: "nat \<Rightarrow> DLIMP_Dynamic_Module \<Rightarrow> 'c loader \<Rightarrow> 'c loader" where
  "set_dm a dm st = st\<lparr>dmods := (dmods st)(a \<mapsto> dm)\<rparr>"

definition dload_static_executable ::
    "'c DLIF \<Rightarrow> 'c loader \<Rightarrow> nat \<Rightarrow> (i32 \<times> 'c loader) result" where
  "dload_static_executable D st a =
     bindR (deref (dmods st a)) (\<lambda>dyn_module.
     bindR (deref (loaded_module dyn_module)) (\<lambda>p.
     bindR (deref (lmods st p)) (\<lambda>module.
     let module = module\<lparr>entry_point := Some (e_entry (fhdr dyn_module))\<rparr>
     in bindR (load_static_segment D dyn_module (loaded_segments module) st) (\<lambda>(ok, segs, st).
        let module = module\<lparr>loaded_segments := segs\<rparr>; st = set_lm p module st;
            (local_file_handle, st) = (if ok \<and> load_object dyn_module \<noteq> 0
               then (lm_file_handle module, set_dm a (detach_loaded_module dyn_module) st)
               else (0, report [DLIF_error DLET_MEMORY
                 ''Failed to allocate target memory for static executable.''] st))
        in bindR (delete_DLIMP_Dynamic_Module D st a) (\<lambda>st. Inr (local_file_handle, st))))))"

subsection \<open>Dynamic tags after placement\<close>

definition plain_tags :: "i32 set" where
  "plain_tags = {DT_NEEDED, DT_PLTRELSZ, DT_HASH, DT_STRTAB, DT_SYMTAB, DT_RELA, DT_RELASZ, DT_RELAENT,
     DT_STRSZ, DT_SYMENT, DT_SONAME, DT_RPATH, DT_SYMBOLIC, DT_REL, DT_RELSZ, DT_RELENT, DT_PLTREL,
     DT_DEBUG, DT_TEXTREL, DT_BIND_NOW, DT_INIT_ARRAYSZ, DT_RUNPATH, DT_FLAGS, DT_PREINIT_ARRAYSZ}"

type_synonym placed = "DLIMP_Dynamic_Module \<times> DLIMP_Loaded_Module \<times> message list"

definition relocate_tag :: "u16 option \<Rightarrow> nat \<Rightarrow> Elf32_Dyn \<Rightarrow> placed \<Rightarrow> (placed + placed) result" where
  "relocate_tag target i d = (\<lambda>(dm, m, ms).
     if d_tag d \<in> plain_tags then Inr (Inr (dm, m, ms))
     else if d_tag d \<in> {DT_PREINIT_ARRAY, DT_INIT, DT_INIT_ARRAY}
     then bindR (DLIMP_update_dyntag_section_address (loaded_segments m) i dm) (\<lambda>(ok, dm).
            Inr (if ok then Inr (dm, m, ms) else Inl (dm, m, ms)))
     else if d_tag d \<in> {DT_FINI_ARRAY, DT_FINI}
     then bindR (DLIMP_update_dyntag_section_address (loaded_segments m) i dm) (\<lambda>(ok, dm).
            if \<not> ok then Inr (Inl (dm, m, ms))
            else bindR (deref (dyntab dm)) (\<lambda>tab. bindR (index tab i) (\<lambda>d.
                 Inr (Inr (dm, if d_tag d = DT_FINI then m\<lparr>fini := d_un d\<rparr> else m\<lparr>fini_array := d_un d\<rparr>, ms)))))
     else if d_tag d = DT_FINI_ARRAYSZ then Inr (Inr (dm, m\<lparr>fini_arraysz := d_un d\<rparr>, ms))
     else if d_tag d = DT_JMPREL then Inr (Inr (dm, m, ms))
     else bindR (deref target) (\<lambda>_.
          bindR (DLDYN_c60_relocate_dynamic_tag_info (loaded_segments m) dm i) (\<lambda>(ok, dm, ms').
            Inr (if ok then Inr (dm, m, ms @ ms') else Inl (dm, m, ms @ ms')))))"

definition relocate_dynamic_tag_info ::
    "'c loader \<Rightarrow> DLIMP_Dynamic_Module \<Rightarrow> DLIMP_Loaded_Module \<Rightarrow>
       (bool \<times> DLIMP_Dynamic_Module \<times> DLIMP_Loaded_Module \<times> 'c loader) result" where
  "relocate_dynamic_tag_info st dyn_module module =
     bindR (deref (dyntab dyn_module)) (\<lambda>tab.
     bindR (for_tags (relocate_tag (cur_target st)) 0 tab (dyn_module, module, [])) (\<lambda>r.
       case r of Inl (dm, m, ms) \<Rightarrow> Inr (False, dm, m, report ms st)
               | Inr (dm, m, ms) \<Rightarrow> Inr (True, dm, m, report ms st)))"

subsection \<open>Dynamic segments\<close>

text \<open>Relocating the entry point, if it lies in a segment at \<open>start\<close> of \<open>memsz\<close> bytes.\<close>

definition place_entry_point :: "u32 \<Rightarrow> u32 \<Rightarrow> u32 \<Rightarrow> DLIMP_Dynamic_Module \<Rightarrow> DLIMP_Dynamic_Module" where
  "place_entry_point start memsz addr_offset dm =
     (let e = e_entry (fhdr dm)
      in if relocate_entry_point dm \<and> e \<ge> start \<and> e < start + memsz
         then dm\<lparr>fhdr := (fhdr dm)\<lparr>e_entry := e + addr_offset\<rparr>, relocate_entry_point := False\<rparr>
         else dm)"

text \<open>
  Fixing the program headers: the first entry with the segment's old address gets the new one; the
  physical address that is moved is the one of the entry with the number \<open>i\<close> of the segment.
\<close>

definition place_phdr :: "nat \<Rightarrow> u32 \<Rightarrow> u32 \<Rightarrow> DLIMP_Dynamic_Module \<Rightarrow> DLIMP_Dynamic_Module result" where
  "place_phdr i vaddr addr_offset dm =
     bindR (first_match (\<lambda>j. bindR (deref (phdr dm)) (\<lambda>tab. bindR (index tab j) (\<lambda>p.
              Inr (if p_vaddr p = vaddr then Some j else None)))) [0..<unat (e_phnum (fhdr dm))]) (\<lambda>r.
     case r of None \<Rightarrow> Inr dm
     | Some j \<Rightarrow> bindR (deref (phdr dm)) (\<lambda>tab.
         let tab = tab[j := (tab ! j)\<lparr>p_vaddr := p_vaddr (tab ! j) + addr_offset\<rparr>]
         in bindR (index tab i) (\<lambda>p.
              Inr (dm\<lparr>phdr := Some (tab[i := p\<lparr>p_paddr := p_paddr p + addr_offset\<rparr>])\<rparr>))))"

text \<open>
  Fixing one symbol: a symbol not yet marked whose relocated value falls into the segment gets
  that value, in the persistent table too if it is a global one, and is marked in \<open>st_shndx\<close>.
\<close>

definition place_symbol ::
    "u32 \<Rightarrow> u32 \<Rightarrow> u32 \<Rightarrow> nat \<Rightarrow> DLIMP_Dynamic_Module \<times> DLIMP_Loaded_Module \<Rightarrow>
       (DLIMP_Dynamic_Module \<times> DLIMP_Loaded_Module) result" where
  "place_symbol segment_start segment_end addr_offset j = (\<lambda>(dm, m).
     bindR (deref (symtab dm)) (\<lambda>tab. bindR (index tab j) (\<lambda>s.
     let symval_adj = st_value s + addr_offset; global_index = symnum dm - gsymnum m
     in if symval_adj \<ge> segment_start \<and> symval_adj < segment_end \<and> st_shndx s \<noteq> INT16_MAX
        then let dm = dm\<lparr>symtab := Some (tab[j := s\<lparr>st_value := symval_adj, st_shndx := INT16_MAX\<rparr>])\<rparr>
             in if of_nat j \<ge> global_index
                then bindR (deref (gsymtab m)) (\<lambda>g. bindR (index g (unat (of_nat j - global_index))) (\<lambda>gs.
                       Inr (dm, m\<lparr>gsymtab := Some (g[unat (of_nat j - global_index) := gs\<lparr>st_value := symval_adj\<rparr>])\<rparr>)))
                else Inr (dm, m)
        else Inr (dm, m))))"

definition place_symbols ::
    "u32 \<Rightarrow> u32 \<Rightarrow> u32 \<Rightarrow> DLIMP_Dynamic_Module \<times> DLIMP_Loaded_Module \<Rightarrow>
       (DLIMP_Dynamic_Module \<times> DLIMP_Loaded_Module) result" where
  "place_symbols segment_start segment_end addr_offset s =
     foldR (place_symbol segment_start segment_end addr_offset) [0..<unat (symnum (fst s))] s"

text \<open>One round of the loop, for the segment with number \<open>i\<close>; the flag says that memory was given.\<close>

definition allocate_segment ::
    "'c DLIF \<Rightarrow> nat \<Rightarrow> DLIMP_Dynamic_Module \<times> DLIMP_Loaded_Module \<times> 'c loader \<Rightarrow>
       (bool \<times> DLIMP_Dynamic_Module \<times> DLIMP_Loaded_Module \<times> 'c loader) result" where
  "allocate_segment D i = (\<lambda>(dm, m, st).
     bindR (index (loaded_segments m) i) (\<lambda>seg.
     let p = seg_phdr seg;
         desc = (obj_desc seg)\<lparr>target_page := 0, target_address := Some (p_vaddr p)\<rparr>;
         targ_req = \<lparr>segment = desc, req_host_address = None, offset = p_offset p,
           flip_endian = Some (wrong_endian dm), flags = segment_flags p 0 OR DLOAD_SF_relocatable,
           align = 0x20\<rparr>
     in bindR (DLIF_allocate D (client st) targ_req) (\<lambda>(ok, desc, c).
        let st = st\<lparr>client := c\<rparr>; seg = seg\<lparr>obj_desc := desc\<rparr>
        in if \<not> ok
           then Inr (False, dm, m\<lparr>loaded_segments := (loaded_segments m)[i := seg]\<rparr>,
                  report [DLIF_error DLET_MEMORY ''DLIF allocation failure.''] st)
           else bindR (deref (target_address desc)) (\<lambda>addr.
             let addr_offset = addr - p_vaddr p;
                 dm = place_entry_point (p_vaddr p) (p_memsz p) addr_offset dm
             in bindR (place_phdr i (p_vaddr p) addr_offset dm) (\<lambda>dm.
                let seg = seg\<lparr>input_vaddr := p_vaddr p, seg_phdr := p\<lparr>p_vaddr := p_vaddr p + addr_offset\<rparr>\<rparr>;
                    m = m\<lparr>loaded_segments := (loaded_segments m)[i := seg]\<rparr>;
                    segment_start = p_vaddr (seg_phdr seg);
                    segment_end = p_vaddr (seg_phdr seg) + p_memsz (seg_phdr seg)
                in bindR (place_symbols segment_start segment_end addr_offset (dm, m)) (\<lambda>(dm, m).
                     Inr (True, dm, m, st)))))))"

fun allocate_segments ::
    "'c DLIF \<Rightarrow> nat list \<Rightarrow> DLIMP_Dynamic_Module \<times> DLIMP_Loaded_Module \<times> 'c loader \<Rightarrow>
       (bool \<times> DLIMP_Dynamic_Module \<times> DLIMP_Loaded_Module \<times> 'c loader) result" where
  "allocate_segments D [] s = (case s of (dm, m, st) \<Rightarrow> Inr (True, dm, m, st))"
| "allocate_segments D (i # is) s = bindR (allocate_segment D i s) (\<lambda>(ok, s).
     if ok then allocate_segments D is s else (case s of (dm, m, st) \<Rightarrow> Inr (False, dm, m, st)))"

definition allocate_dynamic_segments_and_relocate_symbols ::
    "'c DLIF \<Rightarrow> DLIMP_Dynamic_Module \<times> DLIMP_Loaded_Module \<times> 'c loader \<Rightarrow>
       (bool \<times> DLIMP_Dynamic_Module \<times> DLIMP_Loaded_Module \<times> 'c loader) result" where
  "allocate_dynamic_segments_and_relocate_symbols D = (\<lambda>(dm, m, st).
     bindR (allocate_segments D [0..<length (loaded_segments m)] (dm, m, st)) (\<lambda>(ok, dm, m, st).
       if \<not> ok then Inr (False, dm, m, st)
       else bindR (relocate_dynamic_tag_info st dm m) (\<lambda>(ok, dm, m, st).
              if \<not> ok
              then Inr (False, dm, m, report [DLIF_error DLET_MISC ''Failed dynamic table update.''] st)
              else Inr (True, dm, m, st))))"

subsection \<open>Host copies\<close>

definition relocation_request :: "DLIMP_Loaded_Segment \<Rightarrow> u8 list option \<Rightarrow> DLOAD_MEMORY_REQUEST" where
  "relocation_request seg mem = \<lparr>segment = obj_desc seg, req_host_address = mem,
     offset = p_offset (seg_phdr seg), flip_endian = None,
     flags = segment_flags (seg_phdr seg) DLOAD_SF_relocatable, align = p_align (seg_phdr seg)\<rparr>"

definition copy_segments ::
    "'c DLIF \<Rightarrow> DLIMP_Dynamic_Module \<Rightarrow> 'c loader \<Rightarrow> DLIMP_Loaded_Module \<Rightarrow>
       ('c loader \<times> DLIMP_Loaded_Module) result" where
  "copy_segments D dyn_module st module =
     bindR (map_segments (\<lambda>seg st.
        bindR (DLIF_copy D (client st) (module_file st dyn_module) (relocation_request seg None)) (\<lambda>(mem, c).
          Inr (st\<lparr>client := c\<rparr>, seg\<lparr>host_address := mem\<rparr>))) (loaded_segments module) st)
       (\<lambda>(st, segs). Inr (st, module\<lparr>loaded_segments := segs\<rparr>))"

definition write_segments :: "'c DLIF \<Rightarrow> 'c loader \<Rightarrow> DLIMP_Loaded_Module \<Rightarrow> 'c loader result" where
  "write_segments D st module =
     foldR (\<lambda>seg st. bindR (DLIF_write D (client st) (relocation_request seg (host_address seg))) (\<lambda>c.
        Inr (st\<lparr>client := c\<rparr>))) (loaded_segments module) st"

definition DLREL_relocate ::
    "'c DLIF \<Rightarrow> endian \<Rightarrow> FILE option \<Rightarrow> DLIMP_Dynamic_Module \<Rightarrow> 'c loader \<Rightarrow> DLIMP_Loaded_Module \<Rightarrow>
       ('c loader \<times> DLIMP_Dynamic_Module \<times> DLIMP_Loaded_Module) result" where
  "DLREL_relocate D h fp dyn_module st module =
     bindR (deref (cur_target st)) (\<lambda>_. DLREL_c60_relocate D h fp dyn_module st module)"

definition process_dynamic_module_relocations ::
    "'c DLIF \<Rightarrow> endian \<Rightarrow> DLIMP_Dynamic_Module \<Rightarrow> 'c loader \<Rightarrow> DLIMP_Loaded_Module \<Rightarrow>
       ('c loader \<times> DLIMP_Dynamic_Module \<times> DLIMP_Loaded_Module) result" where
  "process_dynamic_module_relocations D h dyn_module st module =
     bindR (copy_segments D dyn_module st module) (\<lambda>(st, module).
     bindR (DLREL_relocate D h (module_file st dyn_module) dyn_module st module) (\<lambda>(st, dyn_module, module).
     bindR (write_segments D st module) (\<lambda>st. Inr (st, dyn_module, module))))"

definition seg_has_space_for_write :: "DLIMP_Loaded_Module \<Rightarrow> u32 \<Rightarrow> bool result" where
  "seg_has_space_for_write lmodule sz = bindR (deref (lm_c_args lmodule)) (\<lambda>write_address.
     Inr (case find (\<lambda>seg. write_address \<ge> p_vaddr (seg_phdr seg) \<and>
                write_address < p_vaddr (seg_phdr seg) + memsz_in_bytes (obj_desc seg)) (loaded_segments lmodule) of
       Some seg \<Rightarrow> \<not> (write_address + sz > p_vaddr (seg_phdr seg) + memsz_in_bytes (obj_desc seg))
     | None \<Rightarrow> False))"

subsection \<open>Segments of a module\<close>

lemma load_segments_filter:
  assumes "phdr dm = Some tab" and "unat (phnum dm) \<le> length tab"
  shows "load_segments dm = Inr (map make_segment (filter (\<lambda>p. p_type p = PT_LOAD) (take (unat (phnum dm)) tab)))"
proof -
  let ?body = "\<lambda>i segs. bindR (deref (phdr dm)) (\<lambda>tab. bindR (index tab i) (\<lambda>p.
      Inr (if p_type p = PT_LOAD then segs @ [make_segment p] else segs)))"
  have "foldR ?body [0..<n] [] = Inr (map make_segment (filter (\<lambda>p. p_type p = PT_LOAD) (take n tab)))"
    if "n \<le> length tab" for n
    using that by (induction n) (simp_all add: assms(1) take_Suc_conv_app_nth)
  with assms(2) show ?thesis by (simp add: load_segments_def)
qed

subsection \<open>Symbols\<close>

text \<open>Whether a symbol belongs to the segment, and what placing the segment makes of it.\<close>

definition moves :: "u32 \<Rightarrow> u32 \<Rightarrow> u32 \<Rightarrow> Elf32_Sym \<Rightarrow> bool" where
  "moves lo hi off s \<longleftrightarrow> st_value s + off \<ge> lo \<and> st_value s + off < hi \<and> st_shndx s \<noteq> INT16_MAX"

definition moved :: "u32 \<Rightarrow> u32 \<Rightarrow> u32 \<Rightarrow> Elf32_Sym \<Rightarrow> Elf32_Sym" where
  "moved lo hi off s = (if moves lo hi off s
     then s\<lparr>st_value := st_value s + off, st_shndx := INT16_MAX\<rparr> else s)"

lemma moved_marked [simp]: "st_shndx s = INT16_MAX \<Longrightarrow> moved lo hi off s = s"
  by (simp add: moved_def moves_def)

text \<open>
  The persistent table of a module agrees with its dynamic symbol table: one entry for every
  global symbol, with the same value.
\<close>

definition globals_agree :: "DLIMP_Dynamic_Module \<Rightarrow> DLIMP_Loaded_Module \<Rightarrow> bool" where
  "globals_agree dm m \<longleftrightarrow> (\<exists>tab. symtab dm = Some tab \<and> length tab = unat (symnum dm) \<and>
     gsymnum m \<le> symnum dm \<and> length (gsyms m) = unat (gsymnum m) \<and> (gsymnum m \<noteq> 0 \<longrightarrow> gsymtab m \<noteq> None) \<and>
     map st_value (gsyms m) = map st_value (drop (length tab - unat (gsymnum m)) tab))"

lemma agree_index:
  assumes "globals_agree dm m" and "symtab dm = Some tab" and "j < length tab"
  shows "of_nat j \<ge> symnum dm - gsymnum m \<longleftrightarrow> length tab - unat (gsymnum m) \<le> j"
    and "length tab - unat (gsymnum m) \<le> j \<Longrightarrow>
      unat (of_nat j - (symnum dm - gsymnum m) :: u32) = j - (length tab - unat (gsymnum m))"
    and "length tab - unat (gsymnum m) \<le> j \<Longrightarrow> gsymtab m = Some (gsyms m)"
proof -
  have le: "gsymnum m \<le> symnum dm" and len: "length tab = unat (symnum dm)"
    using assms(1,2) by (auto simp: globals_agree_def)
  have "length tab < 2 ^ 32" using len unsigned_less[of "symnum dm"] by simp
  then have uj: "unat (of_nat j :: u32) = j" using assms(3) by (simp add: unat_of_nat take_bit_nat_eq_self)
  have gi: "unat (symnum dm - gsymnum m) = length tab - unat (gsymnum m)"
    using le len by (simp add: unat_sub)
  show c: "of_nat j \<ge> symnum dm - gsymnum m \<longleftrightarrow> length tab - unat (gsymnum m) \<le> j"
    by (simp only: word_le_nat_alt uj gi)
  then show "length tab - unat (gsymnum m) \<le> j \<Longrightarrow>
      unat (of_nat j - (symnum dm - gsymnum m) :: u32) = j - (length tab - unat (gsymnum m))"
    using uj gi by (simp add: unat_sub)
  show "length tab - unat (gsymnum m) \<le> j \<Longrightarrow> gsymtab m = Some (gsyms m)"
    using assms by (auto simp: globals_agree_def gsyms_def split: option.splits)
qed

lemma drop_list_update: "length xs - n \<le> j \<Longrightarrow> j < length xs \<Longrightarrow>
    drop (length xs - n) (xs[j := x]) = (drop (length xs - n) xs)[j - (length xs - n) := x]"
  by (simp add: drop_update_swap)

lemma symtab_same: "symtab dm = Some tab \<Longrightarrow> dm\<lparr>symtab := Some tab\<rparr> = dm"
  by simp

lemma place_symbol_step:
  assumes "globals_agree dm m" and "symtab dm = Some tab" and "j < length tab"
  shows "\<exists>dm' m'. place_symbol lo hi off j (dm, m) = Inr (dm', m') \<and> globals_agree dm' m' \<and>
     dm' = dm\<lparr>symtab := Some (tab[j := moved lo hi off (tab ! j)])\<rparr> \<and> m' = m\<lparr>gsymtab := gsymtab m'\<rparr>"
proof (cases "moves lo hi off (tab ! j)")
  case False
  with assms show ?thesis
    by (auto simp: place_symbol_def moves_def moved_def symtab_same intro!: exI[of _ dm] exI[of _ m])
next
  case True
  let ?s = "(tab ! j)\<lparr>st_value := st_value (tab ! j) + off, st_shndx := INT16_MAX\<rparr>"
  let ?dm = "dm\<lparr>symtab := Some (tab[j := ?s])\<rparr>"
  let ?n = "unat (gsymnum m)" and ?gi = "length tab - unat (gsymnum m)"
  have md: "moved lo hi off (tab ! j) = ?s" using True by (simp add: moved_def)
  have cond: "lo \<le> st_value (tab ! j) + off \<and> st_value (tab ! j) + off < hi \<and> st_shndx (tab ! j) \<noteq> INT16_MAX"
    using True by (simp add: moves_def)
  have ag: "length tab = unat (symnum dm)" "gsymnum m \<le> symnum dm" "length (gsyms m) = ?n"
    "gsymnum m \<noteq> 0 \<longrightarrow> gsymtab m \<noteq> None" "map st_value (gsyms m) = map st_value (drop ?gi tab)"
    using assms(1,2) by (auto simp: globals_agree_def)
  show ?thesis
  proof (cases "?gi \<le> j")
    case False
    then have "map st_value (drop ?gi (tab[j := ?s])) = map st_value (drop ?gi tab)" by simp
    with ag have "globals_agree ?dm m" by (simp add: globals_agree_def)
    with False assms(2,3) cond agree_index(1)[OF assms] md show ?thesis
      by (intro exI[of _ ?dm] exI[of _ m]) (simp add: place_symbol_def Let_def)
  next
    case gl: True
    have k: "j - ?gi < length (gsyms m)" using ag gl assms(3) by linarith
    let ?g = "(gsyms m)[j - ?gi := (gsyms m ! (j - ?gi))\<lparr>st_value := st_value (tab ! j) + off\<rparr>]"
    let ?m = "m\<lparr>gsymtab := Some ?g\<rparr>"
    have gs: "gsyms ?m = ?g" by (simp add: gsyms_def)
    have "map st_value ?g = map st_value (drop ?gi (tab[j := ?s]))"
      using ag(5) by (simp add: drop_list_update[OF gl assms(3)] map_update)
    with ag k gs have "globals_agree ?dm ?m" by (simp add: globals_agree_def)
    moreover have "place_symbol lo hi off j (dm, m) = Inr (?dm, ?m)"
      using assms(2,3) cond gl agree_index[OF assms] k by (simp add: place_symbol_def Let_def)
    ultimately show ?thesis using md by (intro exI[of _ ?dm] exI[of _ ?m]) simp
  qed
qed

lemma place_symbols_map:
  assumes "globals_agree dm m" and "symtab dm = Some tab"
  shows "\<exists>m'. place_symbols lo hi off (dm, m) = Inr (dm\<lparr>symtab := Some (map (moved lo hi off) tab)\<rparr>, m') \<and>
     globals_agree (dm\<lparr>symtab := Some (map (moved lo hi off) tab)\<rparr>) m' \<and> m' = m\<lparr>gsymtab := gsymtab m'\<rparr>"
proof -
  let ?part = "\<lambda>n. map (moved lo hi off) (take n tab) @ drop n tab"
  have "\<exists>m'. foldR (place_symbol lo hi off) [0..<n] (dm, m) = Inr (dm\<lparr>symtab := Some (?part n)\<rparr>, m') \<and>
      globals_agree (dm\<lparr>symtab := Some (?part n)\<rparr>) m' \<and> m' = m\<lparr>gsymtab := gsymtab m'\<rparr>"
    if "n \<le> length tab" for n
    using that
  proof (induction n)
    case 0
    with assms show ?case by (intro exI[of _ m]) (simp add: symtab_same)
  next
    case (Suc n)
    then obtain m' where f: "foldR (place_symbol lo hi off) [0..<n] (dm, m) = Inr (dm\<lparr>symtab := Some (?part n)\<rparr>, m')"
      and ag: "globals_agree (dm\<lparr>symtab := Some (?part n)\<rparr>) m'" and fr: "m' = m\<lparr>gsymtab := gsymtab m'\<rparr>" by auto
    have n: "n < length (?part n)" "?part n ! n = tab ! n" using Suc.prems by (simp_all add: nth_append)
    have upd: "(?part n)[n := moved lo hi off (tab ! n)] = ?part (Suc n)"
      using Suc.prems by (simp add: list_update_append take_Suc_conv_app_nth flip: Cons_nth_drop_Suc)
    obtain m2 where "place_symbol lo hi off n (dm\<lparr>symtab := Some (?part n)\<rparr>, m') =
        Inr (dm\<lparr>symtab := Some (?part (Suc n))\<rparr>, m2)" "globals_agree (dm\<lparr>symtab := Some (?part (Suc n))\<rparr>) m2"
      "m2 = m'\<lparr>gsymtab := gsymtab m2\<rparr>"
      using place_symbol_step[OF ag _ n(1), of lo hi off] n(2) upd by auto
    with f fr show ?case
      by (intro exI[of _ m2]) (metis (no_types, lifting) DLIMP_Loaded_Module.update_convs(5) DLIMP_Loaded_Module.surjective
          bindR_simps(2) foldR.simps foldR_append upt_Suc_append zero_le)
  qed
  from this[of "length tab"] assms show ?thesis
    by (auto simp: place_symbols_def globals_agree_def)
qed

subsection \<open>Placing all segments\<close>

text \<open>Every symbol is as it was, or has been moved once and marked.\<close>

definition relocated_once :: "Elf32_Sym list \<Rightarrow> Elf32_Sym list \<Rightarrow> bool" where
  "relocated_once = list_all2 (\<lambda>s s'. s' = s \<or> st_shndx s \<noteq> INT16_MAX \<and>
     (\<exists>off. s' = s\<lparr>st_value := st_value s + off, st_shndx := INT16_MAX\<rparr>))"

lemma relocated_once_refl [simp]: "relocated_once tab tab"
  by (simp add: relocated_once_def list_all2_refl)

lemma relocated_once_trans: "relocated_once a b \<Longrightarrow> relocated_once b c \<Longrightarrow> relocated_once a c"
  unfolding relocated_once_def by (rule list_all2_trans) auto

lemma relocated_once_moved: "relocated_once tab (map (moved lo hi off) tab)"
  by (auto simp: relocated_once_def list_all2_map2 moved_def moves_def intro!: list_all2_refl)

definition symbols_kept :: "DLIMP_Dynamic_Module \<times> DLIMP_Loaded_Module \<Rightarrow>
    DLIMP_Dynamic_Module \<times> DLIMP_Loaded_Module \<Rightarrow> bool" where
  "symbols_kept s s' \<longleftrightarrow> globals_agree (fst s') (snd s') \<and>
     relocated_once (the (symtab (fst s))) (the (symtab (fst s')))"

lemma symbols_kept_trans: "symbols_kept a b \<Longrightarrow> symbols_kept b c \<Longrightarrow> symbols_kept a c"
  by (auto simp: symbols_kept_def intro: relocated_once_trans)

lemma globals_agree_cong:
  "symtab dm' = symtab dm \<Longrightarrow> symnum dm' = symnum dm \<Longrightarrow> gsymtab m' = gsymtab m \<Longrightarrow>
   gsymnum m' = gsymnum m \<Longrightarrow> globals_agree dm m \<Longrightarrow> globals_agree dm' m'"
  by (simp add: globals_agree_def gsyms_def)

lemma place_entry_point_symbols [simp]:
  "symtab (place_entry_point a b c dm) = symtab dm" "symnum (place_entry_point a b c dm) = symnum dm"
  by (simp_all add: place_entry_point_def Let_def)

lemma place_phdr_symbols: "holdsR (\<lambda>dm'. symtab dm' = symtab dm \<and> symnum dm' = symnum dm) (place_phdr i v off dm)"
  by (auto simp: place_phdr_def Let_def intro!: holdsR_bind_any[of "first_match _ _"] holdsR_splits split: option.splits)

lemma place_symbols_kept:
  assumes "globals_agree dm m"
  shows "holdsR (\<lambda>s'. symbols_kept (dm, m) s') (place_symbols lo hi off (dm, m))"
proof -
  obtain tab where tab: "symtab dm = Some tab" using assms by (auto simp: globals_agree_def)
  from place_symbols_map[OF assms tab, of lo hi off] show ?thesis
    by (auto simp: symbols_kept_def tab relocated_once_moved)
qed

lemma allocate_segment_kept:
  assumes "globals_agree dm m"
  shows "holdsR (\<lambda>(ok, dm', m', st'). symbols_kept (dm, m) (dm', m')) (allocate_segment D i (dm, m, st))"
proof -
  have fail: "symbols_kept (dm, m) (dm, m\<lparr>loaded_segments := x\<rparr>)" for x
    using globals_agree_cong[OF _ _ _ _ assms] by (simp add: symbols_kept_def)
  have step: "holdsR (\<lambda>s'. symbols_kept (dm, m) s') (place_symbols lo hi off (dm1, m\<lparr>loaded_segments := x\<rparr>))"
    if "symtab dm1 = symtab dm" "symnum dm1 = symnum dm" for dm1 x lo hi off
  proof (rule holdsR_mono[OF place_symbols_kept])
    show "globals_agree dm1 (m\<lparr>loaded_segments := x\<rparr>)" using globals_agree_cong[OF _ _ _ _ assms] that by simp
    show "symbols_kept (dm, m) s'" if "symbols_kept (dm1, m\<lparr>loaded_segments := x\<rparr>) s'" for s'
      using that \<open>symtab dm1 = symtab dm\<close> by (simp add: symbols_kept_def)
  qed
  show ?thesis
    unfolding allocate_segment_def Let_def
    by (auto intro!: holdsR_splits holdsR_bind_any[of "DLIF_allocate _ _ _"] fail
        holdsR_bindI[OF place_phdr_symbols] holdsR_bindI[OF step])
qed

lemma allocate_segments_kept:
  assumes "globals_agree dm m"
  shows "holdsR (\<lambda>(ok, dm', m', st'). symbols_kept (dm, m) (dm', m')) (allocate_segments D is (dm, m, st))"
  using assms
proof (induction "is" arbitrary: dm m st)
  case Nil
  then show ?case by (simp add: symbols_kept_def)
next
  case (Cons i "is")
  have rest: "holdsR (\<lambda>(ok, dm', m', st'). symbols_kept (dm, m) (dm', m')) (allocate_segments D is (dm1, m1, st1))"
    if "symbols_kept (dm, m) (dm1, m1)" for dm1 m1 st1
    using that by (intro holdsR_mono[OF Cons.IH]) (auto simp: symbols_kept_def intro: relocated_once_trans)
  show ?case
    by (auto intro!: holdsR_bindI[OF allocate_segment_kept[OF Cons.prems]] rest)
qed

lemma update_dyntag_symbols:
  "holdsR (\<lambda>(ok, dm'). symtab dm' = symtab dm \<and> symnum dm' = symnum dm) (DLIMP_update_dyntag_section_address segs i dm)"
  by (auto simp: DLIMP_update_dyntag_section_address_def intro!: holdsR_splits split: option.splits)

definition same_symbols :: "placed \<Rightarrow> placed \<Rightarrow> bool" where
  "same_symbols s s' \<longleftrightarrow> (case s of (dm, m, ms) \<Rightarrow> case s' of (dm', m', ms') \<Rightarrow>
     symtab dm' = symtab dm \<and> symnum dm' = symnum dm \<and> gsymtab m' = gsymtab m \<and> gsymnum m' = gsymnum m)"

definition both :: "('a \<Rightarrow> bool) \<Rightarrow> 'a + 'a \<Rightarrow> bool" where
  "both P r = (case r of Inl x \<Rightarrow> P x | Inr x \<Rightarrow> P x)"

lemma both_simps [simp]: "both P (Inl x) = P x" "both P (Inr x) = P x"
  by (simp_all add: both_def)

lemma relocate_tag_symbols: "holdsR (both (same_symbols s)) (relocate_tag t i d s)"
proof -
  have c60: "holdsR (\<lambda>(ok, dm', ms). symtab dm' = symtab dm \<and> symnum dm' = symnum dm)
      (DLDYN_c60_relocate_dynamic_tag_info segs dm i)" for segs dm
    by (auto simp: DLDYN_c60_relocate_dynamic_tag_info_def intro!: holdsR_splits holdsR_bindI[OF update_dyntag_symbols])
  show ?thesis
    by (cases s) (auto simp: relocate_tag_def same_symbols_def
        intro!: holdsR_splits holdsR_bindI[OF update_dyntag_symbols] holdsR_bindI[OF c60])
qed

lemma for_tags_symbols: "holdsR (both (same_symbols s)) (for_tags (relocate_tag t) i ds s)"
proof (induction ds arbitrary: i s)
  case (Cons d ds)
  have "holdsR (both (same_symbols s)) (case r of Inl a \<Rightarrow> Inr (Inl a) | Inr s1 \<Rightarrow> for_tags (relocate_tag t) (Suc i) ds s1)"
    if r: "both (same_symbols s) r" for r
  proof (cases r)
    case (Inr s1)
    with r have "both (same_symbols s) x" if "both (same_symbols s1) x" for x
      using that by (cases x) (auto simp: same_symbols_def)
    with Inr show ?thesis using holdsR_mono[OF Cons.IH] by simp
  qed (use r in simp)
  then have "holdsR (both (same_symbols s)) (bindR (relocate_tag t i d s)
      (\<lambda>r. case r of Inl a \<Rightarrow> Inr (Inl a) | Inr s1 \<Rightarrow> for_tags (relocate_tag t) (Suc i) ds s1))"
    by (rule holdsR_bindI[OF relocate_tag_symbols])
  moreover have "same_symbols s s" by (cases s) (simp add: same_symbols_def)
  ultimately show ?case by simp
qed simp

lemma relocate_info_symbols:
  "holdsR (\<lambda>(ok, dm', m', st'). same_symbols (dm, m, []) (dm', m', [])) (relocate_dynamic_tag_info st dm m)"
proof -
  have "holdsR (\<lambda>(ok, dm', m', st'). same_symbols (dm, m, []) (dm', m', []))
     (case r of Inl (dm, m, ms) \<Rightarrow> Inr (False, dm, m, report ms st) | Inr (dm, m, ms) \<Rightarrow> Inr (True, dm, m, report ms st))"
    if "both (same_symbols (dm, m, [])) r" for r
    using that by (cases r) (auto simp: same_symbols_def)
  then show ?thesis
    unfolding relocate_dynamic_tag_info_def by (intro holdsR_deref holdsR_bindI[OF for_tags_symbols])
qed

lemma allocate_dynamic_kept:
  assumes "globals_agree dm m"
  shows "holdsR (\<lambda>(ok, dm', m', st'). symbols_kept (dm, m) (dm', m'))
     (allocate_dynamic_segments_and_relocate_symbols D (dm, m, st))"
proof -
  have same: "symbols_kept (dm, m) (dm2, m2)"
    if "symbols_kept (dm, m) (dm1, m1)" "same_symbols (dm1, m1, []) (dm2, m2, [])" for dm1 m1 dm2 m2
    using that globals_agree_cong[of dm2 dm1 m2 m1] by (auto simp: symbols_kept_def same_symbols_def)
  show ?thesis
    unfolding allocate_dynamic_segments_and_relocate_symbols_def
    by (auto intro!: holdsR_bindI[OF allocate_segments_kept[OF assms]] holdsR_bindI[OF relocate_info_symbols])
      (blast intro: same)+
qed

subsection \<open>Properties\<close>

text \<open>A new loaded module has one segment for every loadable program header, in
  order, with the header's address, offset, sizes, flags and alignment, and no memory yet.\<close>

lemma module_segments:
  assumes "phdr dm = Some tab" and "unat (phnum dm) \<le> length tab" and "symtab dm = None"
  shows "\<exists>m. initialize_loaded_module st dm = Inr (next_obj st, m, (if file_handle st + 1 = 0
       then report [DLIF_error DLET_MISC ''DLOAD File handle overflowed.''] else (\<lambda>s. s))
         (st\<lparr>next_obj := Suc (next_obj st), file_handle := file_handle st + 1\<rparr>)) \<and>
     loaded_segments m = map make_segment (filter (\<lambda>p. p_type p = PT_LOAD) (take (unat (phnum dm)) tab)) \<and>
     lm_file_handle m = file_handle st \<and> use_count m = 1 \<and> dependencies m = []"
  using load_segments_filter[OF assms(1,2)] assms(3)
  by (simp add: initialize_loaded_module_def Let_def)

lemma initialize_agrees:
  assumes "globals_wf dm tab str" and "initialize_loaded_module st dm = Inr (p, m, st')"
  shows "globals_agree dm m"
proof -
  from assms(1) have sy: "symtab dm \<noteq> None" by (simp add: globals_wf_def)
  with assms(2) obtain m0 m1 segs where c: "DLSYM_copy_globals dm m0 = Inr m1" and m: "m = m1\<lparr>loaded_segments := segs\<rparr>"
    by (clarsimp simp: initialize_loaded_module_def Let_def bindR_eq_Inr)
  from copy_globals_tables[OF assms(1), of m0] c
  have t: "gsyms m1 = map (copied_name dm) (drop (global_start dm) tab)" and n: "unat (gsymnum m1) = length (gsyms m1)"
    by auto
  have wf: "symtab dm = Some tab" "unat (symnum dm) = length tab" "global_start dm \<le> length tab"
    using assms(1) by (auto simp: globals_wf_def)
  have v: "st_value (copied_name dm s) = st_value s" for s by (simp add: copied_name_def)
  have "gsymnum m1 \<noteq> 0 \<longrightarrow> gsymtab m1 \<noteq> None"
    using n by (cases "gsymtab m1") (auto simp: gsyms_def unat_eq_zero)
  then show ?thesis
    using t n wf by (simp add: globals_agree_def m gsyms_def word_le_nat_alt v comp_def)
qed

text \<open>C22: a new loaded module's persistent symbol table has, entry by
  entry, the values of the global part of the dynamic symbol table, and allocating all segments
  keeps it so, whether the allocation succeeds or fails, while every symbol is moved at most
  once.\<close>

theorem globals_copied_then_placed:
  assumes "globals_wf dm tab str" and "initialize_loaded_module st dm = Inr (p, m, st1)"
    and "allocate_dynamic_segments_and_relocate_symbols D (dm, m, st1) = Inr (ok, dm', m', st')"
  shows "globals_agree dm' m' \<and> relocated_once tab (the (symtab dm'))"
  using holdsRD[OF allocate_dynamic_kept[OF initialize_agrees[OF assms(1,2)]] assms(3)] assms(1)
  by (simp add: symbols_kept_def globals_wf_def)

definition example_client :: "unit DLIF" where
  "example_client = \<lparr>DLIF_allocate = (\<lambda>c req. Inr (True, (segment req)\<lparr>target_address := Some 0x8000\<rparr>, c)),
     DLIF_release = (\<lambda>c desc. Inr (True, c)), DLIF_copy = (\<lambda>c f req. Inr (None, c)),
     DLIF_write = (\<lambda>c req. Inr c), DLIF_read = (\<lambda>c n a. Inl AssertFail), DLIF_memcpy = (\<lambda>c a bs. Inr c),
     DLIF_execute = (\<lambda>c a. Inl AssertFail), DLIF_register_dsbt_index_request = (\<lambda>c n f i. Inl AssertFail),
     DLIF_assign_dsbt_indices = (\<lambda>c. Inl AssertFail), DLIF_update_all_dsbts = (\<lambda>c. Inl AssertFail),
     DLIF_get_dsbt_index = (\<lambda>c f. Inl AssertFail)\<rparr>"

definition example_globals_module :: DLIMP_Dynamic_Module where
  "example_globals_module = (new_DLIMP_Dynamic_Module 0)\<lparr>symtab := Some [example_symbol 0 7 0, example_symbol 2 9 0x10],
     symnum := 2, strtab := Some example_strings, strsz := 4, gsymtab_offset := 16, gstrtab_offset := 2,
     phnum := 1, phdr := Some [\<lparr>p_type = PT_LOAD, p_offset = 64, p_vaddr = 0, p_paddr = 0, p_filesz = 0x10,
       p_memsz = 0x10, p_flags = PF_W, p_align = 4\<rparr>], dyntab := Some [\<lparr>d_tag = DT_NULL, d_un = 0\<rparr>]\<rparr>"

theorem globals_copied_then_placed_witness:
  "\<exists>p m st1 ok dm' m' st'. initialize_loaded_module example_loader example_globals_module = Inr (p, m, st1) \<and>
     allocate_dynamic_segments_and_relocate_symbols example_client (example_globals_module, m, st1) = Inr (ok, dm', m', st') \<and>
     ok \<and> map st_value (gsyms m') = [0x8009] \<and> globals_agree dm' m'"
proof -
  let ?tab = "[example_symbol 0 7 0, example_symbol 2 9 0x10]"
  have wf: "globals_wf example_globals_module ?tab example_strings"
    by (simp add: globals_wf_def global_start_def sizeof_Sym_def example_symbol_def example_strings_def example_globals_module_def)
  obtain p m st1 where i: "initialize_loaded_module example_loader example_globals_module = Inr (p, m, st1)"
    and al: "\<exists>dm' m' st'. allocate_dynamic_segments_and_relocate_symbols example_client (example_globals_module, m, st1) =
      Inr (True, dm', m', st') \<and> map st_value (gsyms m') = [0x8009]"
    by (simp add: initialize_loaded_module_def example_globals_module_def example_loader_def DLSYM_copy_globals_def
        load_segments_def make_segment_def new_DLIMP_Dynamic_Module_def sizeof_Sym_def slice_def example_strings_def
        allocate_dynamic_segments_and_relocate_symbols_def allocate_segment_def example_client_def place_entry_point_def
        place_phdr_def unset_Ehdr_def place_symbols_def place_symbol_def INT16_MAX_def example_symbol_def
        relocate_dynamic_tag_info_def gsyms_def copied_name_def upt_rec report_def)
  from al obtain dm' m' st' where a: "allocate_dynamic_segments_and_relocate_symbols example_client (example_globals_module, m, st1) =
      Inr (True, dm', m', st')" "map st_value (gsyms m') = [0x8009]" by (elim exE conjE) (rule that)
  with i globals_copied_then_placed[OF wf i a(1)] show ?thesis
    by (intro exI[of _ p] exI[of _ m] exI[of _ st1] exI[of _ True] exI[of _ dm'] exI[of _ m'] exI[of _ st']) simp
qed

text \<open>Placing one segment moves exactly the symbols not yet marked
  whose relocated value falls into it, by the displacement of the segment, and marks them.\<close>

lemma symbols_follow_their_segment:
  assumes "globals_agree dm m" and "symtab dm = Some tab"
  shows "\<exists>m'. place_symbols lo hi off (dm, m) = Inr (dm\<lparr>symtab := Some (map (moved lo hi off) tab)\<rparr>, m') \<and>
     globals_agree (dm\<lparr>symtab := Some (map (moved lo hi off) tab)\<rparr>) m'"
  using place_symbols_map[OF assms, of lo hi off] by blast

definition make_phdr :: "u32 \<Rightarrow> u32 \<Rightarrow> Elf32_Phdr" where
  "make_phdr t v = \<lparr>p_type = t, p_offset = 64, p_vaddr = v, p_paddr = v, p_filesz = 0x10, p_memsz = 0x10,
     p_flags = PF_W, p_align = 4\<rparr>"

text \<open>Placing the segment with number \<open>i\<close> whose program header
  has number \<open>j\<close> moves the virtual address of header \<open>j\<close> but the physical address of header \<open>i\<close>; when
  a header in front of the loadable ones shifts the numbers, a foreign header is changed.\<close>

lemma physical_address_of_other_header:
  assumes "phdr dm = Some tab" and "length tab = unat (e_phnum (fhdr dm))" and "i < length tab" and "j < length tab"
    and "p_vaddr (tab ! j) = v" and "\<forall>k < j. p_vaddr (tab ! k) \<noteq> v" and "i \<noteq> j"
  shows "\<exists>tab'. place_phdr i v off dm = Inr (dm\<lparr>phdr := Some tab'\<rparr>) \<and>
     p_vaddr (tab' ! j) = v + off \<and> p_paddr (tab' ! j) = p_paddr (tab ! j) \<and>
     p_vaddr (tab' ! i) = p_vaddr (tab ! i) \<and> p_paddr (tab' ! i) = p_paddr (tab ! i) + off"
proof -
  have f: "find (\<lambda>k. p_vaddr (tab ! k) = v) [0..<length tab] = Some j"
    using assms(4-6) by (auto simp: find_Some_iff intro!: exI[of _ j])
  have "first_match (\<lambda>j. bindR (deref (phdr dm)) (\<lambda>tab. bindR (index tab j) (\<lambda>p.
              Inr (if p_vaddr p = v then Some j else None)))) [0..<length tab] =
      Inr (map_option (\<lambda>k. k) (find (\<lambda>k. p_vaddr (tab ! k) = v) [0..<length tab]))"
    by (rule first_match_find) (simp add: assms(1))
  with f assms show ?thesis
    by (intro exI[of _ "tab[j := (tab ! j)\<lparr>p_vaddr := v + off\<rparr>, i := (tab ! i)\<lparr>p_paddr := p_paddr (tab ! i) + off\<rparr>]"])
      (simp add: place_phdr_def Let_def)
qed

text \<open>The entry point moves with its segment, once.\<close>

lemma entry_point_moves_once:
  "(let dm1 = place_entry_point lo n off dm; dm2 = place_entry_point lo' n' off' dm1 in
    (relocate_entry_point dm \<and> e_entry (fhdr dm) \<ge> lo \<and> e_entry (fhdr dm) < lo + n \<longrightarrow>
       e_entry (fhdr dm2) = e_entry (fhdr dm) + off \<and> \<not> relocate_entry_point dm2) \<and>
    (\<not> relocate_entry_point dm \<longrightarrow> dm2 = dm))"
  by (auto simp: place_entry_point_def Let_def)

text \<open>When the loader finds space for the arguments, the addresses written
  lie inside the memory of one segment, provided the end address does not wrap around.\<close>

lemma args_fit_in_segment:
  assumes "seg_has_space_for_write m sz = Inr True" and "lm_c_args m = Some a"
    and "unat a + unat sz < 2 ^ 32"
  shows "\<exists>seg \<in> set (loaded_segments m). unat (p_vaddr (seg_phdr seg)) \<le> unat a \<and>
     unat a + unat sz \<le> unat (p_vaddr (seg_phdr seg) + memsz_in_bytes (obj_desc seg))"
proof -
  let ?P = "\<lambda>seg. a \<ge> p_vaddr (seg_phdr seg) \<and> a < p_vaddr (seg_phdr seg) + memsz_in_bytes (obj_desc seg)"
  from assms(1,2) obtain seg where f: "find ?P (loaded_segments m) = Some seg"
    and le: "a + sz \<le> p_vaddr (seg_phdr seg) + memsz_in_bytes (obj_desc seg)"
    by (auto simp: seg_has_space_for_write_def split: option.splits)
  from f have "seg \<in> set (loaded_segments m)" "?P seg" by (auto simp: find_Some_iff)
  moreover have "unat (a + sz) = unat a + unat sz" using assms(3) by (simp add: unat_word_ariths)
  ultimately show ?thesis using le by (auto simp: word_le_nat_alt)
qed

end
