(* ===== verification/DLoad_Args.thy ===== *)
theory DLoad_Args
  imports DLoad_Segments
begin

text \<open>
  Passing command line arguments to a loaded program (\<open>DLOAD/dload.c\<close>): the image that is written
  to the \<open>.args\<close> section, and reading it back.
\<close>

subsection \<open>Writing the arguments\<close>

text \<open>Sizes in target address units: \<open>MEM_INC\<close> is 8, pointers and \<open>int\<close> have 32 bits, \<open>char\<close> has 8.\<close>

definition p_size :: nat where "p_size = 32 div 8"
definition i_size :: nat where "i_size = 32 div 8"
definition c_size :: nat where "c_size = 8 div 8"

lemmas unit_sizes [simp] = p_size_def i_size_def c_size_def

text \<open>The values for \<open>argv[0]\<close>, \<open>argv[1]\<close>, \<dots>, the first string being at address \<open>a\<close>.\<close>

fun targ_argv_pointers :: "u32 \<Rightarrow> string list \<Rightarrow> u32 list" where
  "targ_argv_pointers a [] = []"
| "targ_argv_pointers a (s # ss) = a # targ_argv_pointers (a + of_nat ((length s + 1) * c_size)) ss"

text \<open>A sequence of copies to target memory.\<close>

fun memcpy_all :: "'c DLIF \<Rightarrow> (u32 \<times> u8 list) list \<Rightarrow> 'c loader \<Rightarrow> 'c loader result" where
  "memcpy_all D [] st = Inr st"
| "memcpy_all D ((a, bs) # cs) st = bindR (DLIF_memcpy D (client st) a bs) (\<lambda>c.
     memcpy_all D cs (st\<lparr>client := c\<rparr>))"

text \<open>\<open>argv\<close> is the array of strings; \<open>argc\<close> of them are used. A negative count has no array.\<close>

definition write_arguments_to_args_section ::
    "'c DLIF \<Rightarrow> endian \<Rightarrow> int \<Rightarrow> string list \<Rightarrow> DLIMP_Loaded_Module \<Rightarrow> 'c loader \<Rightarrow> (bool \<times> 'c loader) result" where
  "write_arguments_to_args_section D h argc argv ep_module st =
     (if argc = 0 then Inr (True, st)
      else bindR (deref (lm_c_args ep_module)) (\<lambda>c_args.
        if c_args = 0 \<or> c_args = 0xFFFFFFFF
        then Inr (False, report [DLIF_warning DLWT_MISC ''__c_args__ does not have valid value.''] st)
        else if c_args AND of_nat (max p_size i_size - 1) \<noteq> 0
        then Inr (False, report [DLIF_warning DLWT_MISC ''.args section not properly aligned''] st)
        else
          let argv_offset = of_nat (max p_size i_size) :: u32;
              str_offset = argv_offset + of_int argc * of_nat p_size + of_nat p_size
          in if argc > int (length argv) then Inl Undefined
          else let used = take (nat argc) argv;
                   sz = str_offset + of_nat (sum_list (map (\<lambda>s. c_size * (length s + 1)) used))
          in bindR (seg_has_space_for_write ep_module sz) (\<lambda>space.
             if \<not> space
             then Inr (False, report [DLIF_warning DLWT_MISC ''Segment has insufficient space for .args contents''] st)
             else bindR (DLIF_memcpy D (client st) c_args (bytes32 h (of_int argc))) (\<lambda>c.
               if argc < 0 then Inl Undefined
               else let pointers = targ_argv_pointers (c_args + str_offset) used;
                        slots = map (\<lambda>(k, p). (c_args + argv_offset + of_nat (k * p_size), bytes32 h p))
                                  (enumerate 0 (pointers @ [0]));
                        strings = map (\<lambda>(p, s). (p, bytes_of_string s @ [0])) (zip pointers used)
               in bindR (memcpy_all D slots (st\<lparr>client := c\<rparr>)) (\<lambda>st.
                  bindR (memcpy_all D strings st) (\<lambda>st. Inr (True, st)))))))"

text \<open>
  The read-back of the reference implementation takes the section's address for a host pointer;
  \<open>peek\<close> reads a word through it. The result is \<open>global_argc\<close> and \<open>global_argv\<close>.
\<close>

definition read_args_from_section ::
    "('c \<Rightarrow> u32 \<Rightarrow> u32 result) \<Rightarrow> DLIMP_Loaded_Module \<Rightarrow> 'c loader \<Rightarrow> (i32 \<times> u32) result" where
  "read_args_from_section peek ep_module st = bindR (deref (lm_c_args ep_module)) (\<lambda>pargs.
     if pargs = 0 \<or> pargs = 0xFFFFFFFF then Inr (0, 0)
     else bindR (peek (client st) pargs) (\<lambda>argc. bindR (peek (client st) (pargs + 4)) (\<lambda>argv.
            Inr (argc, argv))))"

subsection \<open>Target memory\<close>

text \<open>Writing bytes from an address on.\<close>

definition poke :: "(u32 \<Rightarrow> u8) \<Rightarrow> u32 \<Rightarrow> u8 list \<Rightarrow> u32 \<Rightarrow> u8" where
  "poke m a bs x = (if unat (x - a) < length bs then bs ! unat (x - a) else m x)"

lemma poke_Nil [simp]: "poke m a [] = m"
  by (rule ext) (simp add: poke_def)

lemma poke_append:
  assumes "length xs + length ys \<le> 2 ^ 32"
  shows "poke (poke m a xs) (a + of_nat (length xs)) ys = poke m a (xs @ ys)"
proof
  fix x :: u32
  let ?d = "unat (x - a)"
  show "poke (poke m a xs) (a + of_nat (length xs)) ys x = poke m a (xs @ ys) x"
  proof (cases "ys = []")
    case True
    then show ?thesis by simp
  next
    case False
    then have lx: "length xs < 2 ^ 32" using assms by (cases ys) auto
    then have ux: "unat (of_nat (length xs) :: u32) = length xs" by (simp add: unat_of_nat take_bit_nat_eq_self)
    have e: "x - (a + of_nat (length xs)) = (x - a) - of_nat (length xs)" by (simp add: algebra_simps)
    show ?thesis
    proof (cases "length xs \<le> ?d")
      case True
      then have "unat (x - (a + of_nat (length xs))) = ?d - length xs"
        unfolding e by (subst unat_sub) (simp_all add: word_le_nat_alt ux)
      with True show ?thesis by (auto simp: poke_def nth_append)
    next
      case less: False
      then have "unat ((x - a) - of_nat (length xs)) = 2 ^ 32 + ?d - length xs"
        using ux lx by (simp add: unat_sub_if' word_le_nat_alt)
      then have "\<not> unat (x - (a + of_nat (length xs))) < length ys"
        unfolding e using assms less by simp
      with less show ?thesis by (simp add: poke_def nth_append)
    qed
  qed
qed

text \<open>Copies to adjacent places, beginning at \<open>a\<close>.\<close>

fun adjacent :: "u32 \<Rightarrow> (u32 \<times> u8 list) list \<Rightarrow> bool" where
  "adjacent a [] = True"
| "adjacent a ((b, bs) # cs) \<longleftrightarrow> b = a \<and> adjacent (a + of_nat (length bs)) cs"

text \<open>A client whose \<open>DLIF_memcpy\<close> writes to a target memory that can be looked at.\<close>

locale target_memory =
  fixes D :: "'c DLIF" and view :: "'c \<Rightarrow> u32 \<Rightarrow> u8"
  assumes memcpy_ok: "\<exists>c'. DLIF_memcpy D c a bs = Inr c' \<and> view c' = poke (view c) a bs"
begin

lemma memcpy_all_adjacent:
  assumes "adjacent (a + of_nat (length pre)) cs" and "length (pre @ concat (map snd cs)) \<le> 2 ^ 32"
    and "view (client st) = poke m a pre"
  shows "\<exists>c. memcpy_all D cs st = Inr (st\<lparr>client := c\<rparr>) \<and> view c = poke m a (pre @ concat (map snd cs))"
  using assms
proof (induction cs arbitrary: pre st)
  case Nil
  then show ?case by (intro exI[of _ "client st"]) simp
next
  case (Cons x cs)
  obtain b bs where x: "x = (b, bs)" by (cases x)
  with Cons.prems(1) have b: "b = a + of_nat (length pre)"
    and adj: "adjacent (a + of_nat (length (pre @ bs))) cs" by (simp_all add: algebra_simps)
  obtain c where c: "DLIF_memcpy D (client st) b bs = Inr c" "view c = poke (view (client st)) b bs"
    using memcpy_ok by blast
  have "view c = poke m a (pre @ bs)"
    using c(2) Cons.prems(2,3) x by (simp add: b poke_append)
  with Cons.IH[OF adj, of "st\<lparr>client := c\<rparr>"] Cons.prems(2) x c(1) show ?case by simp
qed

end

subsection \<open>The image of the arguments\<close>

text \<open>
  What the comment in the code draws: the count, a pointer for every argument, a null pointer, the
  strings with their terminators; \<open>a\<close> is the address of the section.
\<close>

definition args_image :: "endian \<Rightarrow> u32 \<Rightarrow> string list \<Rightarrow> u8 list" where
  "args_image h a argv = bytes32 h (of_nat (length argv)) @
     concat (map (bytes32 h) (targ_argv_pointers (a + of_nat (8 + 4 * length argv)) argv @ [0])) @
     concat (map (\<lambda>s. bytes_of_string s @ [0]) argv)"

lemma length_pointers [simp]: "length (targ_argv_pointers a ss) = length ss"
  by (induction ss arbitrary: a) simp_all

lemma length_bytes_of_string [simp]: "length (bytes_of_string s) = length s"
  by (simp add: bytes_of_string_def)

lemma length_concat_words [simp]: "length (concat (map (bytes32 h) ws)) = 4 * length ws"
  by (induction ws) simp_all

context target_memory
begin

lemma adjacent_slots:
  "adjacent a (map (\<lambda>(k, p). (a + of_nat (k * 4), bytes32 h p)) (enumerate 0 ps))"
proof -
  have "adjacent (a + of_nat (n * 4)) (map (\<lambda>(k, p). (a + of_nat (k * 4), bytes32 h p)) (enumerate n ps))" for n
  proof (induction ps arbitrary: n)
    case (Cons p ps)
    from Cons.IH[of "Suc n"] show ?case by (simp add: algebra_simps)
  qed simp
  from this[of 0] show ?thesis by simp
qed

lemma adjacent_strings:
  "adjacent a (map (\<lambda>(p, s). (p, bytes_of_string s @ [0])) (zip (targ_argv_pointers a ss) ss))"
  by (induction ss arbitrary: a) (simp_all add: algebra_simps)

lemma concat_slots: "concat (map snd (map (\<lambda>(k, p). (f k, bytes32 h p)) (enumerate n ps))) = concat (map (bytes32 h) ps)"
  by (induction ps arbitrary: n) simp_all

lemma concat_strings:
  "concat (map snd (map (\<lambda>(p, s). (p, bytes_of_string s @ [0])) (zip (targ_argv_pointers a ss) ss))) =
   concat (map (\<lambda>s. bytes_of_string s @ [0]) ss)"
  by (induction ss arbitrary: a) simp_all

lemma arguments_written:
  assumes "argv \<noteq> []" and "lm_c_args m = Some a" and "a \<noteq> 0" and "a \<noteq> 0xFFFFFFFF" and "a AND 3 = 0"
    and "length (args_image h a argv) \<le> 2 ^ 31"
    and "seg_has_space_for_write m (of_nat (length (args_image h a argv))) = Inr True"
  shows "\<exists>c. write_arguments_to_args_section D h (int (length argv)) argv m st = Inr (True, st\<lparr>client := c\<rparr>) \<and>
     view c = poke (view (client st)) a (args_image h a argv)"
proof -
  let ?n = "length argv" and ?str = "a + of_nat (8 + 4 * length argv)"
  let ?ps = "targ_argv_pointers ?str argv"
  let ?slots = "map (\<lambda>(k, p). (a + 4 + of_nat (k * 4), bytes32 h p)) (enumerate 0 (?ps @ [0]))"
  let ?strs = "map (\<lambda>(p, s). (p, bytes_of_string s @ [0])) (zip ?ps argv)"
  let ?i0 = "bytes32 h (of_nat ?n)" and ?i1 = "concat (map snd ?slots)" and ?i2 = "concat (map snd ?strs)"
  have img: "args_image h a argv = ?i0 @ ?i1 @ ?i2"
    unfolding args_image_def concat_slots concat_strings by simp
  have sz: "(4 + of_int (int ?n) * 4 + 4 + of_nat (sum_list (map (\<lambda>s. length s + 1) argv)) :: u32) =
      of_nat (length (args_image h a argv))"
  proof -
    have "length (concat (map (\<lambda>s. bytes_of_string s @ [0]) argv)) = sum_list (map (\<lambda>s. length s + 1) argv)"
      by (induction argv) simp_all
    then show ?thesis by (simp add: args_image_def algebra_simps)
  qed
  have str: "4 + of_int (int ?n) * 4 + 4 + a = ?str" by (simp add: algebra_simps)
  obtain c0 where c0: "DLIF_memcpy D (client st) a ?i0 = Inr c0" "view c0 = poke (view (client st)) a ?i0"
    using memcpy_ok by blast
  have l0: "of_nat (length ?i0) = (4 :: u32)" by simp
  have le: "length (?i0 @ ?i1 @ ?i2) \<le> 2 ^ 32" using assms(6) img by simp
  have "adjacent (a + of_nat (length ?i0)) ?slots" using adjacent_slots[of "a + 4" h "?ps @ [0]"] by simp
  then obtain c1 where c1: "memcpy_all D ?slots (st\<lparr>client := c0\<rparr>) = Inr (st\<lparr>client := c1\<rparr>)"
    "view c1 = poke (view (client st)) a (?i0 @ ?i1)"
    using memcpy_all_adjacent[of a ?i0 ?slots "st\<lparr>client := c0\<rparr>" "view (client st)"] le c0(2) by auto
  have "a + of_nat (length (?i0 @ ?i1)) = ?str" unfolding concat_slots by (simp add: algebra_simps)
  then have "adjacent (a + of_nat (length (?i0 @ ?i1))) ?strs" using adjacent_strings[of ?str argv] by simp
  then obtain c2 where c2: "memcpy_all D ?strs (st\<lparr>client := c1\<rparr>) = Inr (st\<lparr>client := c2\<rparr>)"
    "view c2 = poke (view (client st)) a (?i0 @ ?i1 @ ?i2)"
    using memcpy_all_adjacent[of a "?i0 @ ?i1" ?strs "st\<lparr>client := c1\<rparr>" "view (client st)"] le c1(2) by auto
  have "write_arguments_to_args_section D h (int ?n) argv m st = Inr (True, st\<lparr>client := c2\<rparr>)"
    using assms(1-5) assms(7) c0(1) c1(1) c2(1) sz str
    by (simp add: write_arguments_to_args_section_def Let_def algebra_simps)
  with c2(2) img show ?thesis by auto
qed

end

end
