(* ===== verification/DLoad_Init.thy ===== *)
theory DLoad_Init
  imports DLoad_Segments
begin

text \<open>
  Module initialisation and termination (\<open>DLOAD/dload.c\<close>): recording initialisation functions in
  \<open>TI_init_table\<close>, executing them, and executing the termination functions of a module.
\<close>

subsection \<open>The operations\<close>

text \<open>A C index of type \<open>int\<close> into an array.\<close>

definition index_int :: "'a list \<Rightarrow> int \<Rightarrow> 'a result" where
  "index_int xs i = (if i < 0 then Inl Undefined else index xs (nat i))"

definition tag_value :: "DLIMP_Dynamic_Module \<Rightarrow> int \<Rightarrow> u32 result" where
  "tag_value dyn_module i = bindR (deref (dyntab dyn_module)) (\<lambda>tab.
     bindR (index_int tab i) (\<lambda>d. Inr (d_un d)))"

definition store_preinit_data :: "DLIMP_Dynamic_Module \<Rightarrow> 'c loader \<Rightarrow> 'c loader result" where
  "store_preinit_data dyn_module st =
     (if sint (preinit_arraysz dyn_module) > 0
      then bindR (tag_value dyn_module (preinit_array_idx dyn_module)) (\<lambda>addr.
             Inr (st\<lparr>TI_init_table := TI_init_table st @
               [\<lparr>sect_addr = addr, if_size = preinit_arraysz dyn_module\<rparr>]\<rparr>))
      else Inr st)"

definition store_init_data :: "DLIMP_Dynamic_Module \<Rightarrow> 'c loader \<Rightarrow> 'c loader result" where
  "store_init_data dyn_module st =
     bindR (if init_idx dyn_module \<noteq> -1
            then bindR (tag_value dyn_module (init_idx dyn_module)) (\<lambda>addr.
                   Inr (st\<lparr>TI_init_table := TI_init_table st @ [\<lparr>sect_addr = addr, if_size = 0\<rparr>]\<rparr>))
            else Inr st) (\<lambda>st.
     if sint (init_arraysz dyn_module) > 0
     then bindR (tag_value dyn_module (init_array_idx dyn_module)) (\<lambda>addr.
            Inr (st\<lparr>TI_init_table := TI_init_table st @
              [\<lparr>sect_addr = addr, if_size = init_arraysz dyn_module\<rparr>]\<rparr>))
     else Inr st)"

text \<open>The first \<open>n\<close> words of a buffer.\<close>

definition words_of :: "endian \<Rightarrow> nat \<Rightarrow> u8 list \<Rightarrow> u32 list result" where
  "words_of h n bs = (if 4 * n \<le> length bs then Inr (read_array (word32 h) 4 n bs) else Inl Undefined)"

definition execute_at :: "'c DLIF \<Rightarrow> u32 \<Rightarrow> 'c loader \<Rightarrow> 'c loader result" where
  "execute_at D addr st = bindR (DLIF_execute D (client st) addr) (\<lambda>c. Inr (st\<lparr>client := c\<rparr>))"

text \<open>A function array in target memory, copied to the host.\<close>

definition read_functions :: "'c DLIF \<Rightarrow> endian \<Rightarrow> i32 \<Rightarrow> u32 \<Rightarrow> 'c loader \<Rightarrow> (u32 list \<times> 'c loader) result" where
  "read_functions D h sz addr st = bindR (DLIF_read D (client st) (unat sz) addr) (\<lambda>(bs, c).
     bindR (words_of h (unat sz div 4) bs) (\<lambda>ws. Inr (ws, st\<lparr>client := c\<rparr>)))"

definition execute_record :: "'c DLIF \<Rightarrow> endian \<Rightarrow> IF_single_record \<Rightarrow> 'c loader \<Rightarrow> 'c loader result" where
  "execute_record D h val st =
     (if if_size val \<noteq> 0
      then bindR (read_functions D h (if_size val) (sect_addr val) st) (\<lambda>(fs, st).
             foldR (\<lambda>f st. if f \<noteq> 0 then execute_at D f st
               else Inr (report [DLIF_warning DLWT_MISC
                      ''DT_INIT_ARRAY/DT_PREINIT_ARRAY function address is NULL!''] st)) fs st)
      else if sect_addr val \<noteq> 0 then execute_at D (sect_addr val) st
      else Inr (report [DLIF_warning DLWT_MISC ''DT_INIT function address is NULL!''] st))"

definition execute_module_initialization :: "'c DLIF \<Rightarrow> endian \<Rightarrow> 'c loader \<Rightarrow> 'c loader result" where
  "execute_module_initialization D h st = foldR (execute_record D h) (TI_init_table st) st"

definition adjust_module_init_fini ::
    "DLIMP_Dynamic_Module \<Rightarrow> DLIMP_Loaded_Module \<Rightarrow> (DLIMP_Dynamic_Module \<times> DLIMP_Loaded_Module) result" where
  "adjust_module_init_fini dm m =
     (if e_type (fhdr dm) = ET_EXEC
      then bindR (DLSYM_lookup_local_symtab ''__TI_STACK_SIZE''
                    (case symtab dm of None \<Rightarrow> [] | Some t \<Rightarrow> t) (symnum dm)
                    (case strtab dm of None \<Rightarrow> [] | Some s \<Rightarrow> s)) (\<lambda>(found, v).
             if found
             then Inr (dm\<lparr>init_arraysz := 0, init_array_idx := -1, preinit_arraysz := 0, preinit_array_idx := -1\<rparr>,
                       m\<lparr>fini_arraysz := 0, fini_array := 0, fini := 0\<rparr>)
             else Inr (dm, m))
      else Inr (dm, m))"

definition execute_module_termination ::
    "'c DLIF \<Rightarrow> endian \<Rightarrow> DLIMP_Loaded_Module \<Rightarrow> 'c loader \<Rightarrow> 'c loader result" where
  "execute_module_termination D h module st =
     bindR (if fini_arraysz module \<noteq> 0
            then bindR (read_functions D h (fini_arraysz module) (fini_array module) st) (\<lambda>(fs, st).
                   foldR (execute_at D) (rev fs) st)
            else Inr st) (\<lambda>st.
     if fini module \<noteq> 0 then execute_at D (fini module) st else Inr st)"

subsection \<open>Which functions are called\<close>

text \<open>
  A client that can read target memory and call functions there: \<open>trace\<close> is the list of calls so
  far, \<open>view\<close> the target memory, which the called functions leave as it is.
\<close>

definition executing :: "'c DLIF \<Rightarrow> ('c \<Rightarrow> u32 list) \<Rightarrow> ('c \<Rightarrow> u32 \<Rightarrow> u8) \<Rightarrow> bool" where
  "executing D trace view \<longleftrightarrow>
     (\<forall>c a. \<exists>c'. DLIF_execute D c a = Inr c' \<and> trace c' = trace c @ [a] \<and> view c' = view c) \<and>
     (\<forall>c n a. \<exists>c'. DLIF_read D c n a = Inr (map (\<lambda>i. view c (a + of_nat i)) [0..<n], c') \<and>
        trace c' = trace c \<and> view c' = view c)"

text \<open>The words of an array in target memory, and the functions a record stands for.\<close>

definition target_words :: "endian \<Rightarrow> (u32 \<Rightarrow> u8) \<Rightarrow> nat \<Rightarrow> u32 \<Rightarrow> u32 list" where
  "target_words h m n a = map (\<lambda>k. word32 h (map (\<lambda>i. m (a + of_nat (4 * k + i))) [0..<4])) [0..<n]"

definition record_calls :: "endian \<Rightarrow> (u32 \<Rightarrow> u8) \<Rightarrow> IF_single_record \<Rightarrow> u32 list" where
  "record_calls h m val = filter (\<lambda>f. f \<noteq> 0) (if if_size val \<noteq> 0
     then target_words h m (unat (if_size val) div 4) (sect_addr val) else [sect_addr val])"

text \<open>\<open>st'\<close> comes from \<open>st\<close> by calling the functions \<open>fs\<close> and reporting.\<close>

definition called :: "('c \<Rightarrow> u32 list) \<Rightarrow> ('c \<Rightarrow> u32 \<Rightarrow> u8) \<Rightarrow> u32 list \<Rightarrow> 'c loader \<Rightarrow> 'c loader \<Rightarrow> bool" where
  "called trace view fs st st' \<longleftrightarrow> trace (client st') = trace (client st) @ fs \<and>
     view (client st') = view (client st) \<and> (\<exists>c ms. st' = report ms (st\<lparr>client := c\<rparr>))"

lemma called_refl: "called trace view [] st st"
proof -
  have "st = report [] (st\<lparr>client := client st\<rparr>)" by simp
  then show ?thesis unfolding called_def by blast
qed

lemma called_trans:
  assumes "called trace view fs st st1" and "called trace view gs st1 st2"
  shows "called trace view (fs @ gs) st st2"
proof -
  obtain c ms c' ms' where "st1 = report ms (st\<lparr>client := c\<rparr>)" "st2 = report ms' (st1\<lparr>client := c'\<rparr>)"
    using assms by (auto simp: called_def)
  then have "st2 = report (ms @ ms') (st\<lparr>client := c'\<rparr>)" by (simp add: report_def)
  with assms show ?thesis by (auto simp: called_def)
qed

lemma called_report: "called trace view [] st (report ms st)"
proof -
  have "report ms st = report ms (st\<lparr>client := client st\<rparr>)" by simp
  then show ?thesis unfolding called_def by (metis append_Nil2 report_simps(9))
qed

lemma called_client:
  "trace c = trace (client st) @ fs \<Longrightarrow> view c = view (client st) \<Longrightarrow> called trace view fs st (st\<lparr>client := c\<rparr>)"
  unfolding called_def by (metis loader.select_convs(9) loader.surjective loader.update_convs(9) report_Nil)

lemma execute_at_called:
  assumes "executing D trace view"
  shows "\<exists>st'. execute_at D f st = Inr st' \<and> called trace view [f] st st'"
proof -
  obtain c where "DLIF_execute D (client st) f = Inr c" "trace c = trace (client st) @ [f]" "view c = view (client st)"
    using assms unfolding executing_def by blast
  then show ?thesis by (simp add: execute_at_def called_client)
qed

lemma words_of_target:
  "words_of h (n div 4) (map (\<lambda>i. m (a + of_nat i)) [0..<n]) = Inr (target_words h m (n div 4) a)"
proof -
  have "slice (4 * k) 4 (map (\<lambda>i. m (a + of_nat i)) [0..<n]) = map (\<lambda>i. m (a + of_nat (4 * k + i))) [0..<4]"
    if "k < n div 4" for k
  proof -
    have "4 * k + 4 \<le> n" using that by linarith
    then show ?thesis
      by (intro nth_equalityI) (simp_all add: slice_def drop_map take_map algebra_simps)
  qed
  then show ?thesis
    by (simp add: words_of_def target_words_def read_array_def mult.commute)
qed

lemma read_functions_called:
  assumes "executing D trace view"
  shows "\<exists>st'. read_functions D h sz a st =
     Inr (target_words h (view (client st)) (unat sz div 4) a, st') \<and> called trace view [] st st'"
proof -
  obtain c where "DLIF_read D (client st) (unat sz) a = Inr (map (\<lambda>i. view (client st) (a + of_nat i)) [0..<unat sz], c)"
    "trace c = trace (client st)" "view c = view (client st)"
    using assms unfolding executing_def by blast
  then show ?thesis by (simp add: read_functions_def words_of_target called_client)
qed

lemma foldR_called:
  assumes "\<And>x st. \<exists>st'. body x st = Inr st' \<and> called trace view (g (view (client st)) x) st st'"
  shows "\<exists>st'. foldR body xs st = Inr st' \<and> called trace view (concat (map (g (view (client st))) xs)) st st'"
proof (induction xs arbitrary: st)
  case Nil
  then show ?case by (simp add: called_refl)
next
  case (Cons x xs)
  obtain st1 where 1: "body x st = Inr st1" "called trace view (g (view (client st)) x) st st1" using assms by blast
  then have "view (client st1) = view (client st)" by (simp add: called_def)
  with Cons.IH[of st1] 1 show ?case using called_trans[OF 1(2)] by auto
qed

lemma execute_record_called:
  assumes "executing D trace view"
  shows "\<exists>st'. execute_record D h val st = Inr st' \<and> called trace view (record_calls h (view (client st)) val) st st'"
proof (cases "if_size val = 0")
  case True
  then show ?thesis
    using execute_at_called[OF assms, of "sect_addr val" st] called_report
    by (auto simp: execute_record_def record_calls_def)
next
  case False
  let ?fs = "target_words h (view (client st)) (unat (if_size val) div 4) (sect_addr val)"
  obtain st1 where 1: "read_functions D h (if_size val) (sect_addr val) st = Inr (?fs, st1)" "called trace view [] st st1"
    using read_functions_called[OF assms] by blast
  let ?body = "\<lambda>f st. if f \<noteq> 0 then execute_at D f st
      else Inr (report [DLIF_warning DLWT_MISC ''DT_INIT_ARRAY/DT_PREINIT_ARRAY function address is NULL!''] st)"
  have "\<exists>st'. ?body f st = Inr st' \<and> called trace view (if f \<noteq> 0 then [f] else []) st st'" for f st
    using execute_at_called[OF assms, of f st] called_report by auto
  then have "\<exists>st'. foldR ?body ?fs st1 = Inr st' \<and> called trace view (concat (map (\<lambda>f. if f \<noteq> 0 then [f] else []) ?fs)) st1 st'"
    by (rule foldR_called[where g = "\<lambda>_ f. if f \<noteq> 0 then [f] else []"])
  moreover have "concat (map (\<lambda>f. if f \<noteq> 0 then [f] else []) fs) = filter (\<lambda>f. f \<noteq> 0) fs" for fs :: "u32 list"
    by (induction fs) auto
  ultimately obtain st2 where 2: "foldR ?body ?fs st1 = Inr st2" "called trace view (filter (\<lambda>f. f \<noteq> 0) ?fs) st1 st2"
    by auto
  from called_trans[OF 1(2) 2(2)] 1 2 False show ?thesis
    by (auto simp: execute_record_def record_calls_def)
qed

text \<open>A client that records the calls; its memory holds the words 0x40 and 0x50 at 0x1000.\<close>

type_synonym example_target = "u32 list \<times> (u32 \<Rightarrow> u8)"

definition example_executor :: "example_target DLIF" where
  "example_executor = \<lparr>DLIF_allocate = (\<lambda>c req. Inl AssertFail),
     DLIF_release = (\<lambda>c desc. Inl AssertFail), DLIF_copy = (\<lambda>c f req. Inl AssertFail),
     DLIF_write = (\<lambda>c req. Inl AssertFail),
     DLIF_read = (\<lambda>c n a. Inr (map (\<lambda>i. snd c (a + of_nat i)) [0..<n], c)),
     DLIF_memcpy = (\<lambda>c a bs. Inl AssertFail),
     DLIF_execute = (\<lambda>(t, m) a. Inr (t @ [a], m)),
     DLIF_register_dsbt_index_request = (\<lambda>c n f i. Inl AssertFail),
     DLIF_assign_dsbt_indices = (\<lambda>c. Inl AssertFail), DLIF_update_all_dsbts = (\<lambda>c. Inl AssertFail),
     DLIF_get_dsbt_index = (\<lambda>c f. Inl AssertFail)\<rparr>"

lemma example_executing: "executing example_executor fst snd"
  by (auto simp: executing_def example_executor_def)

definition example_target_memory :: "u32 \<Rightarrow> u8" where
  "example_target_memory a = (if a = 0x1000 then 0x40 else if a = 0x1004 then 0x50 else 0)"

definition example_running :: "IF_single_record list \<Rightarrow> example_target loader" where
  "example_running tab = \<lparr>lmods = Map.empty, dmods = Map.empty, next_obj = 0, files = Map.empty,
     DLIMP_module_dependency_list = [], DLIMP_loaded_objects = [], DLIMP_dependency_stack = [],
     file_handle = 1, client = ([], example_target_memory), TI_init_table = tab,
     DLIMP_application_handle = 0, cur_target = None, log = []\<rparr>"

lemma example_words: "target_words LSB example_target_memory 3 0x1000 = [0x40, 0x50, 0]"
  by (simp add: target_words_def upt_rec example_target_memory_def word32_def word_of_bytes.simps(2))

subsection \<open>Properties\<close>

text \<open>Module initialisation calls the functions of all records of the table
  in the order in which they were stored, arrays element by element, without the null ones, and
  leaves the table as it is, so that a later load calls all of them again.\<close>

lemma initialization_order:
  assumes "executing D trace view"
  shows "\<exists>st'. execute_module_initialization D h st = Inr st' \<and>
     trace (client st') = trace (client st) @ concat (map (record_calls h (view (client st))) (TI_init_table st)) \<and>
     TI_init_table st' = TI_init_table st"
proof -
  obtain st' where "execute_module_initialization D h st = Inr st'"
    "called trace view (concat (map (record_calls h (view (client st))) (TI_init_table st))) st st'"
    using foldR_called[of "execute_record D h" trace view "record_calls h", OF execute_record_called[OF assms]]
    unfolding execute_module_initialization_def by blast
  then show ?thesis by (auto simp: called_def)
qed

text \<open>The termination of a module calls the functions of its \<open>DT_FINI_ARRAY\<close> from
  the last to the first and then its \<open>DT_FINI\<close> function, if it has one.\<close>

lemma termination_order:
  assumes "executing D trace view"
  shows "\<exists>st'. execute_module_termination D h m st = Inr st' \<and> trace (client st') = trace (client st) @
     rev (target_words h (view (client st)) (unat (fini_arraysz m) div 4) (fini_array m)) @
     (if fini m \<noteq> 0 then [fini m] else [])"
proof -
  let ?fs = "target_words h (view (client st)) (unat (fini_arraysz m) div 4) (fini_array m)"
  have 1: "\<exists>st1. (if fini_arraysz m \<noteq> 0
            then bindR (read_functions D h (fini_arraysz m) (fini_array m) st) (\<lambda>(fs, st).
                   foldR (execute_at D) (rev fs) st)
            else Inr st) = Inr st1 \<and> called trace view (rev ?fs) st st1"
  proof (cases "fini_arraysz m = 0")
    case True
    then show ?thesis by (simp add: target_words_def called_refl)
  next
    case False
    obtain st0 where 0: "read_functions D h (fini_arraysz m) (fini_array m) st = Inr (?fs, st0)" "called trace view [] st st0"
      using read_functions_called[OF assms] by blast
    obtain st1 where "foldR (execute_at D) (rev ?fs) st0 = Inr st1" "called trace view (concat (map (\<lambda>f. [f]) (rev ?fs))) st0 st1"
      using foldR_called[where g = "\<lambda>_ f. [f]" and xs = "rev ?fs" and st = st0, OF execute_at_called[OF assms]] by blast
    with 0 False called_trans[OF 0(2)] show ?thesis by fastforce
  qed
  then obtain st1 where st1: "called trace view (rev ?fs) st st1" and
    e: "execute_module_termination D h m st = (if fini m \<noteq> 0 then execute_at D (fini m) st1 else Inr st1)"
    by (auto simp: execute_module_termination_def)
  show ?thesis
    using e st1 execute_at_called[OF assms, of "fini m" st1] by (auto simp: called_def)
qed

end
