(* ===== verification/DLoad_Core.thy ===== *)
theory DLoad_Core
  imports DLoad_Args DLoad_Init
begin

text \<open>
  The entry points of the loader (\<open>DLOAD/dload.c\<close>): creating an instance, loading a file together
  with its dependents, relocating the modules on the dependency stack, unloading by use count, and
  the queries. \<open>DLOAD_load\<close> and \<open>DLOAD_unload\<close> call themselves through the client
  (\<open>DLIF_load_dependent\<close>, \<open>DLIF_unload_dependent\<close> of \<open>dload.cpp\<close>); fuel bounds the depth, and running
  out of it is \<open>Diverge\<close>.
\<close>

subsection \<open>Creating an instance\<close>

text \<open>The heap and the globals of the C program stay; the fields of the loader object are set.\<close>

definition DLOAD_create :: "'c \<Rightarrow> 'c loader \<Rightarrow> 'c loader" where
  "DLOAD_create client_handle st = st\<lparr>DLIMP_module_dependency_list := [], DLIMP_loaded_objects := [],
     DLIMP_dependency_stack := [], file_handle := 1, client := client_handle\<rparr>"

subsection \<open>Dependents\<close>

text \<open>Signed counters: overflow is undefined.\<close>

definition count_up :: "i32 \<Rightarrow> i32 result" where
  "count_up n = (if n = INT_MAX then Inl Undefined else Inr (n + 1))"

definition count_down :: "i32 \<Rightarrow> i32 result" where
  "count_down n = (if n = INT_MAX + 1 then Inl Undefined else Inr (n - 1))"

text \<open>The node of the first loaded module whose name is the string at \<open>s\<close>.\<close>

definition find_loaded_name :: "'c loader \<Rightarrow> string \<Rightarrow> nat option result" where
  "find_loaded_name st s = first_match (\<lambda>q. bindR (deref (lmods st q)) (\<lambda>m.
     bindR (strcmp_eq (str_of (lm_name m)) s) (\<lambda>eq. Inr (if eq then Some q else None))))
     (DLIMP_loaded_objects st)"

definition append_dependency :: "nat \<Rightarrow> i32 \<Rightarrow> 'c loader \<Rightarrow> 'c loader result" where
  "append_dependency p h st = bindR (deref (lmods st p)) (\<lambda>m.
     Inr (set_lm p (m\<lparr>dependencies := dependencies m @ [h]\<rparr>) st))"

text \<open>
  The client opens the file, loads it and closes the file again, although the loader still holds
  it. \<open>fs\<close> stands for the file system: the contents of the files that \<open>fopen\<close> can open.
\<close>

type_synonym 'c load_fun = "nat option \<Rightarrow> 'c loader \<Rightarrow> (i32 \<times> 'c loader) result"

definition fopen :: "u8 list \<Rightarrow> 'c loader \<Rightarrow> nat \<times> 'c loader" where
  "fopen bs st = (next_obj st, st\<lparr>next_obj := Suc (next_obj st),
     files := (files st)(next_obj st \<mapsto> \<lparr>contents = bs, fpos = 0\<rparr>)\<rparr>)"

definition DLIF_fclose :: "nat \<Rightarrow> 'c loader \<Rightarrow> 'c loader result" where
  "DLIF_fclose f st = bindR (deref (files st f)) (\<lambda>_. Inr (st\<lparr>files := (files st)(f := None)\<rparr>))"

definition DLIF_load_dependent ::
    "(string \<Rightarrow> u8 list option) \<Rightarrow> 'c load_fun \<Rightarrow> string \<Rightarrow> 'c loader \<Rightarrow> (i32 \<times> 'c loader) result" where
  "DLIF_load_dependent fs load so_name st =
     (case fs so_name of
        None \<Rightarrow> Inr (0, report [DLIF_error DLET_FILE ''Can't open dependent file '%s'.''] st)
      | Some bs \<Rightarrow> let (fp, st) = fopen bs st
         in bindR (load (Some fp) st) (\<lambda>(to_ret, st).
            let st = (if to_ret = 0
                      then report [DLIF_error DLET_MISC ''Failed load of dependent file '%s'.''] st else st)
            in bindR (DLIF_fclose fp st) (\<lambda>st. Inr (to_ret, st))))"

text \<open>One \<open>DT_NEEDED\<close> entry; \<open>Inl\<close> ends the loop with \<open>FALSE\<close>.\<close>

definition load_needed ::
    "(string \<Rightarrow> u8 list option) \<Rightarrow> 'c load_fun \<Rightarrow> DLIMP_Dynamic_Module \<Rightarrow> nat \<Rightarrow> nat \<Rightarrow> Elf32_Dyn \<Rightarrow>
       'c loader \<Rightarrow> ('c loader + 'c loader) result" where
  "load_needed fs load dyn_module p i d st =
     (if d_tag d \<noteq> DT_NEEDED then Inr (Inr st)
      else bindR (deref (strtab dyn_module)) (\<lambda>str.
           bindR (find_loaded_name st (drop (unat (d_un d)) str)) (\<lambda>r. case r of
             Some q \<Rightarrow> bindR (deref (lmods st q)) (\<lambda>m. bindR (count_up (use_count m)) (\<lambda>n.
               bindR (append_dependency p (lm_file_handle m) (set_lm q (m\<lparr>use_count := n\<rparr>) st)) (\<lambda>st.
                 Inr (Inr st))))
           | None \<Rightarrow> bindR (cstring_at str (unat (d_un d))) (\<lambda>so_name.
               bindR (DLIF_load_dependent fs load so_name st) (\<lambda>(dependent_handle, st).
               bindR (append_dependency p dependent_handle st) (\<lambda>st.
                 Inr (if dependent_handle = 0 then Inl st else Inr st)))))))"

definition dload_and_allocate_dependencies ::
    "(string \<Rightarrow> u8 list option) \<Rightarrow> 'c load_fun \<Rightarrow> nat \<Rightarrow> 'c loader \<Rightarrow> (bool \<times> 'c loader) result" where
  "dload_and_allocate_dependencies fs load a st =
     bindR (deref (dmods st a)) (\<lambda>dyn_module.
     bindR (deref (dyntab dyn_module)) (\<lambda>tab.
     bindR (deref (loaded_module dyn_module)) (\<lambda>p.
     bindR (for_tags (load_needed fs load dyn_module p) 0 tab st) (\<lambda>r.
       Inr (case r of Inl st \<Rightarrow> (False, st) | Inr st \<Rightarrow> (True, st))))))"

subsection \<open>Relocating the dependency stack\<close>

text \<open>The value that a lookup of a local symbol leaves in its destination: 0 when it fails.\<close>

definition local_symbol :: "string \<Rightarrow> DLIMP_Dynamic_Module \<Rightarrow> u32 result" where
  "local_symbol name dm = bindR (DLSYM_lookup_local_symtab name
     (case symtab dm of None \<Rightarrow> [] | Some t \<Rightarrow> t) (symnum dm)
     (case strtab dm of None \<Rightarrow> [] | Some s \<Rightarrow> s)) (\<lambda>(found, v). Inr v)"

text \<open>One module popped from the stack; \<open>fd0\<close> is the file of the module whose load started it all.\<close>

definition relocate_module :: "'c DLIF \<Rightarrow> endian \<Rightarrow> nat \<Rightarrow> nat \<Rightarrow> 'c loader \<Rightarrow> 'c loader result" where
  "relocate_module D h fd0 a st =
     bindR (deref (dmods st a)) (\<lambda>dm.
     bindR (deref (loaded_module dm)) (\<lambda>p.
     bindR (deref (lmods st p)) (\<lambda>m.
     bindR (process_dynamic_module_relocations D h dm st m) (\<lambda>(st, dm, m).
     bindR (local_symbol ''__c_args__'' dm) (\<lambda>v.
     let dm = dm\<lparr>dm_c_args := v\<rparr>; m = m\<lparr>lm_c_args := Some v, entry_point := Some (e_entry (fhdr dm))\<rparr>
     in bindR (store_init_data dm st) (\<lambda>st.
        bindR (if fd dm \<noteq> fd0 then DLIF_fclose (fd dm) st else Inr st) (\<lambda>st.
          delete_DLIMP_Dynamic_Module D (set_dm a (detach_loaded_module dm) (set_lm p m st)) a)))))))"

fun relocate_stack :: "'c DLIF \<Rightarrow> endian \<Rightarrow> nat \<Rightarrow> nat list \<Rightarrow> 'c loader \<Rightarrow> 'c loader result" where
  "relocate_stack D h fd0 [] st = Inr st"
| "relocate_stack D h fd0 (a # as) st =
     bindR (relocate_module D h fd0 a (st\<lparr>DLIMP_dependency_stack := as\<rparr>)) (relocate_stack D h fd0 as)"

definition relocate_dependency_graph_modules ::
    "'c DLIF \<Rightarrow> endian \<Rightarrow> nat \<Rightarrow> nat \<Rightarrow> 'c loader \<Rightarrow> (i32 \<times> 'c loader) result" where
  "relocate_dependency_graph_modules D h fd0 a st =
     bindR (deref (dmods st a)) (\<lambda>dyn_module.
     bindR (deref (loaded_module dyn_module)) (\<lambda>p.
     bindR (deref (lmods st p)) (\<lambda>m.
     if DLIMP_dependency_stack st \<noteq> [] \<and> last (DLIMP_dependency_stack st) \<noteq> a
     then Inr (lm_file_handle m, st)
     else bindR (if is_dsbt_module dyn_module
            then bindR (DLIF_assign_dsbt_indices D (client st)) (\<lambda>c.
                 bindR (DLIF_update_all_dsbts D c) (\<lambda>c. Inr (st\<lparr>client := c\<rparr>)))
            else Inr st) (\<lambda>st.
          bindR (relocate_stack D h fd0 (DLIMP_dependency_stack st) st) (\<lambda>st.
            Inr (lm_file_handle m, st))))))"

subsection \<open>Loading\<close>

text \<open>Headers, dynamic segment and sanity checks, for a module object at address \<open>a\<close>.\<close>

definition discard :: "'c DLIF \<Rightarrow> nat \<Rightarrow> DLIMP_Dynamic_Module \<Rightarrow> 'c loader \<Rightarrow> 'c loader result" where
  "discard D a dm st = delete_DLIMP_Dynamic_Module D (set_dm a dm st) a"

definition read_module ::
    "'c DLIF \<Rightarrow> endian \<Rightarrow> nat \<Rightarrow> nat \<Rightarrow> 'c loader \<Rightarrow> (DLIMP_Dynamic_Module option \<times> 'c loader) result" where
  "read_module D h f a st =
     bindR (dload_headers h st (new_DLIMP_Dynamic_Module f)) (\<lambda>(ok, dm, st).
     if \<not> ok then bindR (discard D a dm st) (\<lambda>st. Inr (None, st))
     else bindR (dload_dynamic_segment h st dm) (\<lambda>(ok, dm, st).
     if \<not> ok then bindR (discard D a dm st) (\<lambda>st. Inr (None, st))
     else bindR (is_valid_elf_object_file st dm) (\<lambda>(ok, st).
     if \<not> ok then bindR (discard D a dm (report [DLIF_error DLET_FILE
                     ''Attempt to load invalid ELF file, '%s'.''] st)) (\<lambda>st. Inr (None, st))
     else Inr (Some dm, st))))"

text \<open>Creating the loaded module and appending it to the list of loaded objects.\<close>

definition add_loaded_module ::
    "nat \<Rightarrow> DLIMP_Dynamic_Module \<Rightarrow> 'c loader \<Rightarrow>
       (nat \<times> DLIMP_Dynamic_Module \<times> DLIMP_Loaded_Module \<times> 'c loader) result" where
  "add_loaded_module a dm st = bindR (initialize_loaded_module st dm) (\<lambda>(p, m, st).
     let dm = dm\<lparr>loaded_module := Some p\<rparr>
     in Inr (p, dm, m, set_dm a dm (set_lm p m
          (st\<lparr>DLIMP_loaded_objects := DLIMP_loaded_objects st @ [p]\<rparr>))))"

text \<open>The addresses that are recorded once the segments have their place.\<close>

definition record_addresses ::
    "DLIMP_Dynamic_Module \<Rightarrow> DLIMP_Loaded_Module \<Rightarrow> (DLIMP_Dynamic_Module \<times> DLIMP_Loaded_Module) result" where
  "record_addresses dm m = bindR (local_symbol ''__c_args__'' dm) (\<lambda>args.
     bindR (local_symbol ''__TI_STATIC_BASE'' dm) (\<lambda>base.
       Inr (dm\<lparr>dm_c_args := args, dm_static_base := base\<rparr>, m\<lparr>lm_static_base := Some base\<rparr>)))"

definition register_dsbt ::
    "'c DLIF \<Rightarrow> DLIMP_Dynamic_Module \<Rightarrow> DLIMP_Loaded_Module \<Rightarrow> 'c loader \<Rightarrow> (bool \<times> 'c loader) result" where
  "register_dsbt D dm m st = bindR (deref (dm_name dm)) (\<lambda>name.
     bindR (DLIF_register_dsbt_index_request D (client st) name (lm_file_handle m) (dsbt_index dm)) (\<lambda>(ok, c).
       Inr (ok, st\<lparr>client := c\<rparr>)))"

text \<open>
  From the allocation of a dynamic module's segments to the registration of its DSBT; the module is
  then on the list of modules being loaded and on the dependency stack.
\<close>

definition place_module ::
    "'c DLIF \<Rightarrow> nat \<Rightarrow> nat \<Rightarrow> DLIMP_Dynamic_Module \<Rightarrow> DLIMP_Loaded_Module \<Rightarrow> 'c loader \<Rightarrow> (bool \<times> 'c loader) result" where
  "place_module D a p dm m st =
     bindR (allocate_dynamic_segments_and_relocate_symbols D (dm, m, st)) (\<lambda>(ok, dm, m, st).
     if \<not> ok then bindR (discard D a dm (set_lm p m st)) (\<lambda>st. Inr (False, st))
     else bindR (record_addresses dm m) (\<lambda>(dm, m).
     bindR (adjust_module_init_fini dm m) (\<lambda>(dm, m).
     bindR (if e_type (fhdr dm) = ET_EXEC then store_preinit_data dm st else Inr st) (\<lambda>st.
     let st = set_dm a dm (set_lm p m st);
         st = st\<lparr>DLIMP_module_dependency_list := DLIMP_module_dependency_list st @ [a],
                 DLIMP_dependency_stack := a # DLIMP_dependency_stack st\<rparr>
     in bindR (if is_dsbt_module dm then register_dsbt D dm m st else Inr (True, st)) (\<lambda>(ok, st).
     if \<not> ok then bindR (delete_DLIMP_Dynamic_Module D st a) (\<lambda>st. Inr (False, st))
     else Inr (True, st))))))"

text \<open>The load of a dynamic module once its loaded module exists.\<close>

definition load_dynamic_module ::
    "(string \<Rightarrow> u8 list option) \<Rightarrow> 'c DLIF \<Rightarrow> endian \<Rightarrow> 'c load_fun \<Rightarrow> nat \<Rightarrow> nat \<Rightarrow> nat \<Rightarrow>
       DLIMP_Dynamic_Module \<Rightarrow> DLIMP_Loaded_Module \<Rightarrow> 'c loader \<Rightarrow> (i32 \<times> 'c loader) result" where
  "load_dynamic_module fs D h load f a p dm m st =
     bindR (place_module D a p dm m st) (\<lambda>(ok, st).
     if \<not> ok then Inr (0, st)
     else bindR (dload_and_allocate_dependencies fs load a st) (\<lambda>(ok, st).
     if \<not> ok then bindR (delete_DLIMP_Dynamic_Module D st a) (\<lambda>st. Inr (0, st))
     else bindR (relocate_dependency_graph_modules D h f a
            (st\<lparr>DLIMP_module_dependency_list := butlast (DLIMP_module_dependency_list st)\<rparr>)) (\<lambda>(fl_handle, st).
     bindR (execute_module_initialization D h st) (\<lambda>st. Inr (fl_handle, st)))))"

definition load_file ::
    "(string \<Rightarrow> u8 list option) \<Rightarrow> 'c DLIF \<Rightarrow> endian \<Rightarrow> 'c load_fun \<Rightarrow> 'c load_fun" where
  "load_file fs D h load fdo st =
     (case fdo of
        None \<Rightarrow> Inr (0, report [DLIF_error DLET_FILE ''Missing file specification.''] st)
      | Some f \<Rightarrow>
          let a = next_obj st
          in bindR (read_module D h f a (st\<lparr>next_obj := Suc a\<rparr>)) (\<lambda>(r, st). case r of
               None \<Rightarrow> Inr (0, st)
             | Some dm \<Rightarrow> bindR (add_loaded_module a dm st) (\<lambda>(p, dm, m, st).
                 if \<not> relocatable dm then dload_static_executable D st a
                 else load_dynamic_module fs D h load f a p dm m st)))"

fun DLOAD_load :: "(string \<Rightarrow> u8 list option) \<Rightarrow> 'c DLIF \<Rightarrow> endian \<Rightarrow> nat \<Rightarrow> 'c load_fun" where
  "DLOAD_load fs D h 0 fdo st = Inl Diverge"
| "DLOAD_load fs D h (Suc fuel) fdo st = load_file fs D h (DLOAD_load fs D h fuel) fdo st"

text \<open>Loading only the symbols of a file.\<close>

definition DLOAD_load_symbols :: "'c DLIF \<Rightarrow> endian \<Rightarrow> 'c load_fun" where
  "DLOAD_load_symbols D h fdo st =
     (case fdo of
        None \<Rightarrow> Inr (0, report [DLIF_error DLET_FILE ''Missing file specification.''] st)
      | Some f \<Rightarrow>
          let a = next_obj st
          in bindR (read_module D h f a (st\<lparr>next_obj := Suc a\<rparr>)) (\<lambda>(r, st). case r of
               None \<Rightarrow> Inr (0, st)
             | Some dm \<Rightarrow> bindR (add_loaded_module a dm st) (\<lambda>(p, dm, m, st).
                 bindR (if is_dsbt_module dm
                        then bindR (register_dsbt D dm m (st\<lparr>DLIMP_dependency_stack := a # DLIMP_dependency_stack st\<rparr>)) (\<lambda>(ok, st).
                             bindR (DLIF_assign_dsbt_indices D (client st)) (\<lambda>c.
                             bindR (DLIF_update_all_dsbts D c) (\<lambda>c.
                               Inr (st\<lparr>client := c, DLIMP_dependency_stack := tl (DLIMP_dependency_stack st)\<rparr>))))
                        else Inr st) (\<lambda>st.
                 bindR (delete_DLIMP_Dynamic_Module D (set_dm a (detach_loaded_module dm) st) a) (\<lambda>st.
                   Inr (lm_file_handle m, st))))))"

subsection \<open>Unloading\<close>

type_synonym 'c unload_fun = "i32 \<Rightarrow> 'c loader \<Rightarrow> (bool \<times> 'c loader) result"

definition DLIF_unload_dependent :: "'c unload_fun \<Rightarrow> i32 \<Rightarrow> 'c loader \<Rightarrow> 'c loader result" where
  "DLIF_unload_dependent unload fh st = bindR (unload fh st) (\<lambda>(_, st). Inr st)"

text \<open>The loop over the dependencies looks at the module's list in every round.\<close>

fun unload_dependents :: "'c unload_fun \<Rightarrow> nat \<Rightarrow> i32 list \<Rightarrow> 'c loader \<Rightarrow> 'c loader result" where
  "unload_dependents unload p [] st = Inr st"
| "unload_dependents unload p (d # ds) st = bindR (DLIF_unload_dependent unload d st) (\<lambda>st.
     bindR (deref (lmods st p)) (\<lambda>_. unload_dependents unload p ds st))"

text \<open>The search for the predecessor of a node runs off a list that does not hold the node.\<close>

definition unlink_loaded_module :: "nat \<Rightarrow> 'c loader \<Rightarrow> 'c loader result" where
  "unlink_loaded_module p st = (if p \<in> set (DLIMP_loaded_objects st)
     then Inr (st\<lparr>DLIMP_loaded_objects := remove1 p (DLIMP_loaded_objects st)\<rparr>) else Inl Undefined)"

definition remove_loaded_module :: "'c DLIF \<Rightarrow> nat \<Rightarrow> 'c loader \<Rightarrow> 'c loader result" where
  "remove_loaded_module D p st = bindR (unlink_loaded_module p st) (\<lambda>st. delete_DLIMP_Loaded_Module D st p)"

definition unload_module :: "'c DLIF \<Rightarrow> endian \<Rightarrow> 'c unload_fun \<Rightarrow> nat \<Rightarrow> 'c loader \<Rightarrow> 'c loader result" where
  "unload_module D h unload p st = bindR (deref (lmods st p)) (\<lambda>m.
     bindR (execute_module_termination D h m st) (\<lambda>st.
     bindR (unload_dependents unload p (dependencies m) st) (\<lambda>st.
     bindR (remove_loaded_module D p st) (\<lambda>st. Inr (st\<lparr>cur_target := None\<rparr>)))))"

fun unload_scan :: "'c DLIF \<Rightarrow> endian \<Rightarrow> 'c unload_fun \<Rightarrow> i32 \<Rightarrow> nat list \<Rightarrow> 'c loader \<Rightarrow> (bool \<times> 'c loader) result" where
  "unload_scan D h unload fh [] st = Inr (False, st)"
| "unload_scan D h unload fh (p # ps) st = bindR (deref (lmods st p)) (\<lambda>m.
     if lm_file_handle m = fh
     then bindR (count_down (use_count m)) (\<lambda>n.
          let st = set_lm p (m\<lparr>use_count := n\<rparr>) st
          in if n = 0 then bindR (unload_module D h unload p st) (\<lambda>st. Inr (True, st))
             else unload_scan D h unload fh ps st)
     else unload_scan D h unload fh ps st)"

fun DLOAD_unload :: "'c DLIF \<Rightarrow> endian \<Rightarrow> nat \<Rightarrow> 'c unload_fun" where
  "DLOAD_unload D h 0 fh st = Inl Diverge"
| "DLOAD_unload D h (Suc fuel) fh st = unload_scan D h (DLOAD_unload D h fuel) fh (DLIMP_loaded_objects st) st"

end
