(* ===== verification/DLoad_Frame.thy ===== *)
theory DLoad_Frame
  imports DLoad_Core
begin

text \<open>
  What the steps of a load and an unload leave alone: which of them touch the module objects and the
  lists of the loader, and what they keep of a module's handle, use count and dependencies.
\<close>

subsection \<open>Steps that change no module and no list\<close>

definition keeps :: "'c loader \<Rightarrow> 'c loader \<Rightarrow> bool" where
  "keeps st st' \<longleftrightarrow> lmods st' = lmods st \<and> dmods st' = dmods st \<and> next_obj st' = next_obj st \<and>
     DLIMP_module_dependency_list st' = DLIMP_module_dependency_list st \<and>
     DLIMP_loaded_objects st' = DLIMP_loaded_objects st \<and>
     DLIMP_dependency_stack st' = DLIMP_dependency_stack st \<and> file_handle st' = file_handle st"

lemma keeps_refl [simp]: "keeps st st"
  by (simp add: keeps_def)

lemma keeps_trans: "keeps a b \<Longrightarrow> keeps b c \<Longrightarrow> keeps a c"
  by (simp add: keeps_def)

lemma keeps_simps [simp]:
  "keeps a (report ms b) = keeps a b" "keeps a (b\<lparr>client := c\<rparr>) = keeps a b"
  "keeps a (b\<lparr>TI_init_table := t\<rparr>) = keeps a b" "keeps a (b\<lparr>files := f\<rparr>) = keeps a b"
  "keeps a (b\<lparr>cur_target := v\<rparr>) = keeps a b" "keeps a (b\<lparr>DLIMP_application_handle := x\<rparr>) = keeps a b"
  by (simp_all add: keeps_def)

lemma reads_keeps: "reads_only a b \<Longrightarrow> keeps a b"
  by (simp add: reads_only_def keeps_def)

text \<open>A loop whose rounds keep the modules keeps them.\<close>

lemma foldR_keeps:
  assumes "\<And>x st. holdsR (keeps st) (body x st)"
  shows "holdsR (keeps st) (foldR body xs st)"
proof (rule holdsR_foldR)
  show "holdsR (keeps st) (body x t)" if "keeps st t" for x t
    using holdsR_mono[OF assms] keeps_trans[OF that] .
qed simp

lemma release_segments_keeps: "holdsR (keeps st) (release_segments D segs st)"
proof (induction segs arbitrary: st)
  case (Cons seg segs)
  have "holdsR (keeps st) (release_segments D segs st1)" if "keeps st st1" for st1
    using holdsR_mono[OF Cons.IH] keeps_trans[OF that] .
  then show ?case by (auto simp: Let_def intro!: holdsR_bind_any)
qed simp

lemma execute_at_keeps: "holdsR (keeps st) (execute_at D a st)"
  by (auto simp: execute_at_def intro!: holdsR_bind_any)

lemma read_functions_keeps: "holdsR (\<lambda>(fs, st'). keeps st st') (read_functions D h sz a st)"
  by (auto simp: read_functions_def intro!: holdsR_bind_any)

lemma execute_record_keeps: "holdsR (keeps st) (execute_record D h val st)"
proof -
  have f: "holdsR (keeps st) (foldR (\<lambda>f st. if f \<noteq> 0 then execute_at D f st else Inr (report ms st)) fs st1)"
    if "keeps st st1" for st1 :: "'a loader" and fs ms
    by (rule holdsR_mono[OF foldR_keeps keeps_trans[OF that]]) (auto simp: execute_at_keeps)
  show ?thesis
    by (auto simp: execute_record_def execute_at_keeps f intro!: holdsR_bindI[OF read_functions_keeps])
qed

lemma initialization_keeps: "holdsR (keeps st) (execute_module_initialization D h st)"
  unfolding execute_module_initialization_def by (rule foldR_keeps) (rule execute_record_keeps)

lemma termination_keeps: "holdsR (keeps st) (execute_module_termination D h m st)"
proof -
  have f: "holdsR (keeps st) (foldR (execute_at D) fs st1)" if "keeps st st1" for st1 :: "'a loader" and fs
    by (rule holdsR_mono[OF foldR_keeps keeps_trans[OF that]]) (rule execute_at_keeps)
  have a: "holdsR (keeps st) (if fini m \<noteq> 0 then execute_at D (fini m) st1 else Inr st1)"
    if "keeps st st1" for st1
    using that by (auto intro: holdsR_mono[OF execute_at_keeps] keeps_trans)
  have "holdsR (keeps st) (if fini_arraysz m \<noteq> 0
            then bindR (read_functions D h (fini_arraysz m) (fini_array m) st) (\<lambda>(fs, st).
                   foldR (execute_at D) (rev fs) st)
            else Inr st)"
    by (auto simp: f intro!: holdsR_bindI[OF read_functions_keeps])
  then show ?thesis unfolding execute_module_termination_def by (rule holdsR_bindI) (rule a)
qed

lemma store_data_keeps:
  "holdsR (keeps st) (store_preinit_data dm st)" "holdsR (keeps st) (store_init_data dm st)"
  by (auto simp: store_preinit_data_def store_init_data_def bindR_eq_Inr intro!: holdsR_bind_any)

lemma fclose_keeps: "holdsR (keeps st) (DLIF_fclose f st)"
  by (auto simp: DLIF_fclose_def intro!: holdsR_splits)

lemma register_dsbt_keeps: "holdsR (\<lambda>(ok, st'). keeps st st') (register_dsbt D dm m st)"
  by (auto simp: register_dsbt_def intro!: holdsR_bind_any)

subsection \<open>Steps that change a module but not its references\<close>

definition same_ref :: "DLIMP_Loaded_Module \<Rightarrow> DLIMP_Loaded_Module \<Rightarrow> bool" where
  "same_ref m m' \<longleftrightarrow> lm_file_handle m' = lm_file_handle m \<and> use_count m' = use_count m \<and>
     dependencies m' = dependencies m \<and> lm_name m' = lm_name m"

definition kept :: "DLIMP_Dynamic_Module \<times> DLIMP_Loaded_Module \<Rightarrow> DLIMP_Dynamic_Module \<times> DLIMP_Loaded_Module \<Rightarrow> bool" where
  "kept s s' \<longleftrightarrow> same_ref (snd s) (snd s') \<and> loaded_module (fst s') = loaded_module (fst s) \<and> fd (fst s') = fd (fst s)"

lemma kept_refl [simp]: "kept s s" "same_ref m m"
  by (simp_all add: kept_def same_ref_def)

lemma kept_segments [simp]: "kept (dm, m) (dm, m\<lparr>loaded_segments := x\<rparr>)"
  by (simp add: kept_def same_ref_def)

lemma kept_trans: "kept a b \<Longrightarrow> kept b c \<Longrightarrow> kept a c"
  by (simp add: kept_def same_ref_def)

lemma same_ref_trans: "same_ref a b \<Longrightarrow> same_ref b c \<Longrightarrow> same_ref a c"
  by (simp add: same_ref_def)

lemma place_symbol_kept2: "holdsR (kept s) (place_symbol lo hi off j s)"
  by (cases s) (auto simp: place_symbol_def Let_def kept_def same_ref_def intro!: holdsR_splits)

lemma place_symbols_kept2: "holdsR (kept s) (place_symbols lo hi off s)"
  unfolding place_symbols_def
proof (rule holdsR_foldR)
  show "holdsR (kept s) (place_symbol lo hi off x t)" if "kept s t" for x t
    using holdsR_mono[OF place_symbol_kept2] kept_trans[OF that] .
qed simp

lemma place_phdr_kept: "holdsR (\<lambda>dm'. loaded_module dm' = loaded_module dm \<and> fd dm' = fd dm) (place_phdr i v off dm)"
  by (auto simp: place_phdr_def Let_def intro!: holdsR_bind_any[of "first_match _ _"] holdsR_splits split: option.splits)

lemma place_entry_kept [simp]:
  "loaded_module (place_entry_point a b c dm) = loaded_module dm" "fd (place_entry_point a b c dm) = fd dm"
  by (simp_all add: place_entry_point_def Let_def)

abbreviation placed_ok where
  "placed_ok dm m st \<equiv> \<lambda>(ok, dm', m', st'). kept (dm, m) (dm', m') \<and> keeps st st'"

lemma allocate_segment_keeps: "holdsR (placed_ok dm m st) (allocate_segment D i (dm, m, st))"
proof -
  have step: "holdsR (placed_ok dm m st) (bindR (place_symbols lo hi off (dm1, m\<lparr>loaded_segments := x\<rparr>)) (\<lambda>(dm, m). Inr (True, dm, m, st1)))"
    if "loaded_module dm1 = loaded_module dm \<and> fd dm1 = fd dm" "keeps st st1" for dm1 x lo hi off st1
  proof (rule holdsR_bindI[OF place_symbols_kept2])
    show "holdsR (placed_ok dm m st) (case s of (dm, m) \<Rightarrow> Inr (True, dm, m, st1))"
      if "kept (dm1, m\<lparr>loaded_segments := x\<rparr>) s" for s
      using that \<open>loaded_module dm1 = loaded_module dm \<and> fd dm1 = fd dm\<close> \<open>keeps st st1\<close>
      by (cases s) (simp add: kept_def same_ref_def)
  qed
  show ?thesis
    unfolding allocate_segment_def Let_def
    by (auto intro!: holdsR_splits holdsR_bind_any[of "DLIF_allocate _ _ _"] holdsR_bindI[OF place_phdr_kept] step)
qed

lemma allocate_segments_keeps: "holdsR (placed_ok dm m st) (allocate_segments D is (dm, m, st))"
proof (induction "is" arbitrary: dm m st)
  case (Cons i "is")
  have rest: "holdsR (placed_ok dm m st) (allocate_segments D is (dm1, m1, st1))"
    if "kept (dm, m) (dm1, m1)" "keeps st st1" for dm1 m1 st1
    using that by (intro holdsR_mono[OF Cons.IH]) (auto intro: kept_trans keeps_trans)
  show ?case by (auto intro!: holdsR_bindI[OF allocate_segment_keeps] rest)
qed simp

definition same_placed :: "placed \<Rightarrow> placed \<Rightarrow> bool" where
  "same_placed s s' \<longleftrightarrow> (case s of (dm, m, ms) \<Rightarrow> case s' of (dm', m', ms') \<Rightarrow> kept (dm, m) (dm', m'))"

lemma update_dyntag_kept:
  "holdsR (\<lambda>(ok, dm'). loaded_module dm' = loaded_module dm \<and> fd dm' = fd dm) (DLIMP_update_dyntag_section_address segs i dm)"
  by (auto simp: DLIMP_update_dyntag_section_address_def intro!: holdsR_splits split: option.splits)

lemma relocate_tag_kept: "holdsR (both (same_placed s)) (relocate_tag t i d s)"
proof -
  have c60: "holdsR (\<lambda>(ok, dm', ms). loaded_module dm' = loaded_module dm \<and> fd dm' = fd dm)
      (DLDYN_c60_relocate_dynamic_tag_info segs dm i)" for segs dm
    by (auto simp: DLDYN_c60_relocate_dynamic_tag_info_def intro!: holdsR_splits holdsR_bindI[OF update_dyntag_kept])
  show ?thesis
    by (cases s) (auto simp: relocate_tag_def same_placed_def kept_def same_ref_def
        intro!: holdsR_splits holdsR_bindI[OF update_dyntag_kept] holdsR_bindI[OF c60])
qed

text \<open>A loop over the dynamic table whose rounds keep a reflexive and transitive relation keeps it.\<close>

lemma for_tags_both:
  assumes "\<And>i d s. holdsR (both (r s)) (body i d s)" and "\<And>s. r s s" and "\<And>a b c. r a b \<Longrightarrow> r b c \<Longrightarrow> r a c"
  shows "holdsR (both (r s)) (for_tags body i ds s)"
proof (induction ds arbitrary: i s)
  case (Cons d ds)
  have "holdsR (both (r s)) (case x of Inl a \<Rightarrow> Inr (Inl a) | Inr s1 \<Rightarrow> for_tags body (Suc i) ds s1)"
    if x: "both (r s) x" for x
  proof (cases x)
    case (Inr s1)
    with x have "both (r s) y" if "both (r s1) y" for y
      using that assms(3) by (cases y) (auto intro: assms(3))
    with Inr show ?thesis using holdsR_mono[OF Cons.IH] by simp
  qed (use x in simp)
  then have "holdsR (both (r s)) (bindR (body i d s)
      (\<lambda>x. case x of Inl a \<Rightarrow> Inr (Inl a) | Inr s1 \<Rightarrow> for_tags body (Suc i) ds s1))"
    by (rule holdsR_bindI[OF assms(1)])
  then show ?case using assms(2) by simp
qed simp

lemma relocate_info_keeps: "holdsR (placed_ok dm m st) (relocate_dynamic_tag_info st dm m)"
proof -
  have f: "holdsR (both (same_placed s)) (for_tags (relocate_tag t) i ds s)" for t i ds and s :: placed
    by (rule for_tags_both[OF relocate_tag_kept]) (auto simp: same_placed_def intro: kept_trans)
  have "holdsR (placed_ok dm m st)
     (case r of Inl (dm, m, ms) \<Rightarrow> Inr (False, dm, m, report ms st) | Inr (dm, m, ms) \<Rightarrow> Inr (True, dm, m, report ms st))"
    if "both (same_placed (dm, m, [])) r" for r
    using that by (cases r) (auto simp: same_placed_def)
  then show ?thesis
    unfolding relocate_dynamic_tag_info_def by (intro holdsR_deref holdsR_bindI[OF f])
qed

lemma allocate_keeps:
  "holdsR (placed_ok dm m st) (allocate_dynamic_segments_and_relocate_symbols D (dm, m, st))"
proof -
  have r: "holdsR (placed_ok dm m st) (relocate_dynamic_tag_info st1 dm1 m1)"
    if "kept (dm, m) (dm1, m1)" "keeps st st1" for dm1 m1 and st1 :: "'a loader"
    using that by (intro holdsR_mono[OF relocate_info_keeps]) (auto intro: kept_trans keeps_trans)
  show ?thesis
    unfolding allocate_dynamic_segments_and_relocate_symbols_def
    by (auto intro!: holdsR_bindI[OF allocate_segments_keeps] holdsR_bindI[OF r])
qed

lemma adjust_keeps: "holdsR (kept (dm, m)) (adjust_module_init_fini dm m)"
  by (auto simp: adjust_module_init_fini_def kept_def same_ref_def intro!: holdsR_bind_any)

lemma record_addresses_keeps: "holdsR (kept (dm, m)) (record_addresses dm m)"
  by (auto simp: record_addresses_def kept_def same_ref_def intro!: holdsR_bind_any)

lemma map_segments_keeps:
  assumes "\<And>seg st. holdsR (\<lambda>(st', seg'). keeps st st') (f seg st)"
  shows "holdsR (\<lambda>(st', segs'). keeps st st') (map_segments f segs st)"
proof (induction segs arbitrary: st)
  case (Cons seg segs)
  have "holdsR (\<lambda>(st', segs'). keeps st st') (map_segments f segs st1)" if "keeps st st1" for st1
    using that by (intro holdsR_mono[OF Cons.IH]) (auto intro: keeps_trans)
  then have "holdsR (\<lambda>(st', segs'). keeps st st') (bindR (map_segments f segs st1) (\<lambda>(st, segs). Inr (st, seg1 # segs)))"
    if "keeps st st1" for st1 seg1
    using that by (auto intro!: holdsR_bindI)
  then show ?case by (auto intro!: holdsR_bindI[OF assms])
qed simp

lemma copy_segments_keeps: "holdsR (\<lambda>(st', m'). keeps st st' \<and> kept (dm, m) (dm, m')) (copy_segments D dm st m)"
  unfolding copy_segments_def
  by (rule holdsR_bindI[OF map_segments_keeps]) (auto intro!: holdsR_bind_any)

lemma write_segments_keeps: "holdsR (keeps st) (write_segments D st m)"
  unfolding write_segments_def by (rule foldR_keeps) (auto intro!: holdsR_bind_any)

lemma relocate_keeps: "holdsR (\<lambda>(st', dm', m'). keeps st st' \<and> kept (dm, m) (dm', m')) (DLREL_relocate D h fp dm st m)"
proof -
  have "keeps st st' \<and> kept (dm, m) (dm', m')" if r: "DLREL_c60_relocate D h fp dm st m = Inr (st', dm', m')" for st' dm' m'
  proof -
    obtain ms segs where 1: "st' = report ms st" "m' = m\<lparr>loaded_segments := segs\<rparr>"
      and 2: "dm' = dm\<lparr>dsbt_index := dsbt_index dm'\<rparr>"
      using relocate_frame_lemma[OF r] by blast
    have "loaded_module dm' = loaded_module dm" "fd dm' = fd dm" by (subst 2, simp)+
    with 1 show ?thesis by (simp add: kept_def same_ref_def)
  qed
  then have "holdsR (\<lambda>(st', dm', m'). keeps st st' \<and> kept (dm, m) (dm', m')) (DLREL_c60_relocate D h fp dm st m)"
    by (simp add: holdsR_def)
  then show ?thesis unfolding DLREL_relocate_def by (intro holdsR_deref)
qed

lemma relocations_keep:
  "holdsR (\<lambda>(st', dm', m'). keeps st st' \<and> kept (dm, m) (dm', m')) (process_dynamic_module_relocations D h dm st m)"
proof -
  have r: "holdsR (\<lambda>(st', dm', m'). keeps st st' \<and> kept (dm, m) (dm', m')) (DLREL_relocate D h fp dm st1 m1)"
    if "keeps st st1" "kept (dm, m) (dm, m1)" for st1 m1 fp
    using that by (intro holdsR_mono[OF relocate_keeps]) (auto intro: keeps_trans kept_trans)
  have w: "holdsR (keeps st) (write_segments D st1 m1)" if "keeps st st1" for st1 m1
    using that by (intro holdsR_mono[OF write_segments_keeps]) (rule keeps_trans)
  show ?thesis
    unfolding process_dynamic_module_relocations_def
    by (auto intro!: holdsR_bindI[OF copy_segments_keeps] holdsR_bindI[OF r] holdsR_bindI[OF w])
qed

lemma load_static_segment_keeps: "holdsR (\<lambda>(ok, segs', st'). keeps st st') (load_static_segment D dm segs st)"
proof (induction segs arbitrary: st)
  case (Cons seg segs)
  have "holdsR (\<lambda>(ok, segs', st'). keeps st st') (bindR (load_static_segment D dm segs st1) (\<lambda>(ok, segs, st). Inr (ok, seg1 # segs, st)))"
    if "keeps st st1" for st1 seg1
    using that by (auto intro!: holdsR_bindI[OF Cons.IH] intro: keeps_trans)
  then show ?case
    by (auto simp: Let_def bindR_eq_Inr intro!: holdsR_bind_any[of "DLIF_allocate _ _ _"] holdsR_bind_any[of "bindR _ _"])
qed simp

subsection \<open>Creation and destruction of modules\<close>

lemma delete_loaded_keeps:
  "holdsR (keeps (st\<lparr>lmods := (lmods st)(p := None)\<rparr>)) (delete_DLIMP_Loaded_Module D st p)"
proof -
  have "holdsR (keeps (st\<lparr>lmods := (lmods st)(p := None)\<rparr>)) (bindR (free_name n) (\<lambda>_. Inr (st1\<lparr>lmods := (lmods st1)(p := None)\<rparr>)))"
    if "keeps st st1" for st1 n
    using that by (auto simp: keeps_def intro!: holdsR_bind_any)
  then show ?thesis
    unfolding delete_DLIMP_Loaded_Module_def Let_def
    by (auto intro!: holdsR_deref holdsR_bindI[OF release_segments_keeps])
qed

lemma delete_detached:
  "dmods st a = Some dm \<Longrightarrow> loaded_module dm = None \<Longrightarrow>
   delete_DLIMP_Dynamic_Module D st a = Inr (st\<lparr>dmods := (dmods st)(a := None)\<rparr>)"
  by (simp add: delete_DLIMP_Dynamic_Module_def)

lemma read_module_keeps: "holdsR (\<lambda>(r, st'). (\<exists>dm. r = Some dm) \<longrightarrow> keeps st st') (read_module D h f a st)"
proof -
  have v: "holdsR (\<lambda>(r, st'). (\<exists>dm. r = Some dm) \<longrightarrow> keeps st st')
      (bindR (is_valid_elf_object_file st1 dm) (\<lambda>(ok, st).
         if \<not> ok then bindR (discard D a dm (report ms st)) (\<lambda>st. Inr (None, st)) else Inr (Some dm, st)))"
    if "reads_only st st1" for st1 dm ms
    using that by (auto intro!: holdsR_bindI[OF is_valid_reads] holdsR_bind_any[of "discard _ _ _ _"]
        intro: keeps_trans[OF reads_keeps reads_keeps])
  have d: "reads2 st (dload_dynamic_segment h st1 dm)" if "reads_only st st1" for st1 dm
    using that by (intro holdsR_mono[OF dload_dynamic_segment_reads]) (auto intro: reads_only_trans)
  show ?thesis
    unfolding read_module_def
    by (auto intro!: holdsR_bindI[OF dload_headers_reads] holdsR_bindI[OF d] v holdsR_bind_any[of "discard _ _ _ _"])
qed

lemma copy_globals_ref: "holdsR (same_ref m) (DLSYM_copy_globals dm m)"
  by (auto simp: DLSYM_copy_globals_def Let_def same_ref_def intro!: holdsR_deref)

lemma initialize_post:
  "holdsR (\<lambda>(p, m, st'). p = next_obj st \<and> lm_file_handle m = file_handle st \<and> use_count m = 1 \<and> dependencies m = [] \<and>
     keeps (st\<lparr>next_obj := Suc (next_obj st), file_handle := file_handle st + 1\<rparr>) st') (initialize_loaded_module st dm)"
proof -
  have c: "holdsR (\<lambda>m'. same_ref m m') (if symtab dm \<noteq> None then DLSYM_copy_globals dm m else Inr m)" for m
    by (simp add: copy_globals_ref)
  show ?thesis
    unfolding initialize_loaded_module_def Let_def
    by (intro holdsR_bindI[OF c] holdsR_bind_any[of "load_segments _"]) (auto simp: same_ref_def keeps_def)
qed

lemma keeps_next: "keeps st st' \<Longrightarrow> next_obj st' = next_obj st"
  by (simp add: keeps_def)

lemma set_next [simp]: "next_obj (set_dm a dm st) = next_obj st" "next_obj (set_lm p m st) = next_obj st"
  by (simp_all add: set_dm_def set_lm_def)

lemma delete_loaded_next: "holdsR (\<lambda>st'. next_obj st' = next_obj st) (delete_DLIMP_Loaded_Module D st p)"
  by (rule holdsR_mono[OF delete_loaded_keeps]) (simp add: keeps_def)

lemma delete_dynamic_next: "holdsR (\<lambda>st'. next_obj st' = next_obj st) (delete_DLIMP_Dynamic_Module D st a)"
proof -
  have "holdsR (\<lambda>st'. next_obj st' = next_obj st) (case x of None \<Rightarrow> Inr st | Some p \<Rightarrow> delete_DLIMP_Loaded_Module D st p)" for x
    by (auto simp: delete_loaded_next split: option.splits)
  then show ?thesis
    unfolding delete_DLIMP_Dynamic_Module_def by (intro holdsR_deref) (rule holdsR_bindI, auto)
qed

lemma discard_next: "holdsR (\<lambda>st'. next_obj st' = next_obj st) (discard D a dm st)"
  unfolding discard_def by (rule holdsR_mono[OF delete_dynamic_next]) simp

text \<open>A placed module is on both lists, with its references as they were.\<close>

definition pushed :: "nat \<Rightarrow> nat \<Rightarrow> DLIMP_Dynamic_Module \<Rightarrow> DLIMP_Loaded_Module \<Rightarrow> 'c loader \<Rightarrow> 'c loader" where
  "pushed a p dm m st = (set_dm a dm (set_lm p m st))\<lparr>DLIMP_module_dependency_list := DLIMP_module_dependency_list st @ [a],
     DLIMP_dependency_stack := a # DLIMP_dependency_stack st\<rparr>"

lemma keeps_pushed: "keeps st st1 \<Longrightarrow> keeps (pushed a p dm m st) (pushed a p dm m st1)"
  by (simp add: keeps_def pushed_def set_dm_def set_lm_def)

lemma place_module_post:
  "holdsR (\<lambda>(ok, st'). next_obj st' = next_obj st \<and>
       (ok \<longrightarrow> (\<exists>dm' m'. kept (dm, m) (dm', m') \<and> keeps (pushed a p dm' m' st) st')))
     (place_module D a p dm m st)"
proof -
  let ?P = "\<lambda>(ok, st'). next_obj st' = next_obj st \<and>
       (ok \<longrightarrow> (\<exists>dm' m'. kept (dm, m) (dm', m') \<and> keeps (pushed a p dm' m' st) st'))"
  have reg: "holdsR (\<lambda>(ok, st'). keeps st1 st') (if b then register_dsbt D dm1 m1 st1 else Inr (True, st1))"
    for b dm1 m1 and st1 :: "'a loader"
    by (simp add: register_dsbt_keeps)
  have pre: "holdsR (keeps st) (if b then store_preinit_data dm1 st1 else Inr st1)" if "keeps st st1" for b dm1 st1
    using that by (auto intro: holdsR_mono[OF store_data_keeps(1)] keeps_trans)
  have last: "holdsR ?P (bindR (if b then register_dsbt D dm1 m1 (pushed a p dm1 m1 st1) else Inr (True, pushed a p dm1 m1 st1))
      (\<lambda>(ok, st). if \<not> ok then bindR (delete_DLIMP_Dynamic_Module D st a) (\<lambda>st. Inr (False, st)) else Inr (True, st)))"
    if k: "kept (dm, m) (dm1, m1)" "keeps st st1" for b dm1 m1 st1
  proof (rule holdsR_bindI[OF reg])
    fix x :: "bool \<times> 'a loader" assume "case x of (ok, st') \<Rightarrow> keeps (pushed a p dm1 m1 st1) st'"
    then obtain ok st2 where x: "x = (ok, st2)" and "keeps (pushed a p dm1 m1 st1) st2" by (cases x) auto
    then have "keeps (pushed a p dm1 m1 st) st2" using keeps_trans[OF keeps_pushed[OF k(2)]] by blast
    then have "next_obj st2 = next_obj st" and
      "ok \<Longrightarrow> \<exists>dm' m'. kept (dm, m) (dm', m') \<and> keeps (pushed a p dm' m' st) st2"
      using k(1) by (auto simp: keeps_def pushed_def)
    then show "holdsR ?P (case x of (ok, st) \<Rightarrow>
        if \<not> ok then bindR (delete_DLIMP_Dynamic_Module D st a) (\<lambda>st. Inr (False, st)) else Inr (True, st))"
      by (auto simp: x intro!: holdsR_bindI[OF delete_dynamic_next])
  qed
  have adj: "holdsR (kept (dm, m)) (adjust_module_init_fini dm1 m1)" if "kept (dm, m) (dm1, m1)" for dm1 m1
    using that by (intro holdsR_mono[OF adjust_keeps]) (rule kept_trans)
  have rec: "holdsR (kept (dm, m)) (record_addresses dm1 m1)" if "kept (dm, m) (dm1, m1)" for dm1 m1
    using that by (intro holdsR_mono[OF record_addresses_keeps]) (rule kept_trans)
  have eq: "(let st = set_dm a dm1 (set_lm p m1 st1);
         st = st\<lparr>DLIMP_module_dependency_list := DLIMP_module_dependency_list st @ [a],
                 DLIMP_dependency_stack := a # DLIMP_dependency_stack st\<rparr> in f st) = f (pushed a p dm1 m1 st1)"
    for dm1 m1 st1 and f :: "'a loader \<Rightarrow> (bool \<times> 'a loader) result"
    by (simp add: pushed_def set_dm_def set_lm_def)
  define tail where "tail = (\<lambda>dm m st. bindR (if e_type (fhdr dm) = ET_EXEC then store_preinit_data dm st else Inr st) (\<lambda>st.
     bindR (if is_dsbt_module dm then register_dsbt D dm m (pushed a p dm m st) else Inr (True, pushed a p dm m st)) (\<lambda>(ok, st).
     if \<not> ok then bindR (delete_DLIMP_Dynamic_Module D st a) (\<lambda>st. Inr (False, st)) else Inr (True, st))))"
  have "holdsR ?P (tail dm1 m1 st1)" if "kept (dm, m) (dm1, m1)" "keeps st st1" for dm1 m1 st1
    unfolding tail_def by (rule holdsR_bindI[OF pre[OF that(2)]]) (rule last[OF that(1)])
  moreover have "place_module D a p dm m st = bindR (allocate_dynamic_segments_and_relocate_symbols D (dm, m, st)) (\<lambda>(ok, dm, m, st).
     if \<not> ok then bindR (discard D a dm (set_lm p m st)) (\<lambda>st. Inr (False, st))
     else bindR (record_addresses dm m) (\<lambda>(dm, m). bindR (adjust_module_init_fini dm m) (\<lambda>(dm, m). tail dm m st)))"
    unfolding place_module_def eq tail_def by (rule refl)
  ultimately show ?thesis
    by (auto intro!: holdsR_bindI[OF allocate_keeps] holdsR_bindI[OF discard_next] holdsR_bindI[OF rec]
        holdsR_bindI[OF adj] simp: keeps_next)
qed

end
