(* ===== verification/DLoad_Refcount.thy ===== *)
theory DLoad_Refcount
  imports DLoad_Frame "HOL-Library.Multiset"
begin

text \<open>
  Reference counting of loaded modules: the use count of a module is the number of references to it,
  from the dependency lists of the loaded modules and from the client. Loading and unloading keep
  this invariant, a module in use is never removed, and unloading always comes to an end.
\<close>

subsection \<open>Counts and references\<close>

text \<open>
  \<open>Q\<close> is the list of loaded objects, \<open>H\<close>, \<open>C\<close> and \<open>Ds\<close> give handle, use count and dependencies of a
  module, \<open>K\<close> is the set of modules in the middle of being unloaded, and \<open>E\<close> the references held from
  outside the remaining modules.
\<close>

definition owed :: "nat set \<Rightarrow> i32 multiset \<Rightarrow> nat list \<Rightarrow> (nat \<Rightarrow> i32 list) \<Rightarrow> i32 multiset" where
  "owed K E Q Ds = E + (\<Sum>p \<in> set Q - K. mset (Ds p))"

definition counted ::
    "nat set \<Rightarrow> i32 multiset \<Rightarrow> nat list \<Rightarrow> (nat \<Rightarrow> i32) \<Rightarrow> (nat \<Rightarrow> int) \<Rightarrow> (nat \<Rightarrow> i32 list) \<Rightarrow> bool" where
  "counted K E Q H C Ds \<longleftrightarrow> distinct Q \<and> inj_on H (set Q) \<and>
     set_mset (owed K E Q Ds) = H ` (set Q - K) \<and>
     (\<forall>p \<in> set Q - K. C p = int (count (owed K E Q Ds) (H p)))"

lemma counted_inj: "counted K E Q H C Ds \<Longrightarrow> p \<in> set Q \<Longrightarrow> q \<in> set Q \<Longrightarrow> H p = H q \<Longrightarrow> p = q"
  by (auto simp: counted_def dest: inj_onD)

lemma counted_pos: "counted K E Q H C Ds \<Longrightarrow> p \<in> set Q - K \<Longrightarrow> 0 < C p"
  by (force simp: counted_def)

lemma owed_add [simp]: "owed K (add_mset h E) Q Ds = add_mset h (owed K E Q Ds)"
  by (simp add: owed_def)

lemma owed_update:
  assumes "p \<in> set Q - K"
  shows "owed K E Q (Ds(p := ds)) + mset (Ds p) = owed K E Q Ds + mset ds"
proof -
  have "(\<Sum>q \<in> set Q - K. mset ((Ds(p := ds)) q)) = mset ds + (\<Sum>q \<in> set Q - K - {p}. mset (Ds q))"
    using assms by (subst sum.remove[of _ p]) (auto intro!: arg_cong2[of _ _ _ _ "(+)"] sum.cong)
  moreover have "(\<Sum>q \<in> set Q - K. mset (Ds q)) = mset (Ds p) + (\<Sum>q \<in> set Q - K - {p}. mset (Ds q))"
    using assms by (subst sum.remove[of _ p]) auto
  ultimately show ?thesis by (simp add: owed_def add_ac)
qed

lemma owed_append: "p \<in> set Q - K \<Longrightarrow> owed K E Q (Ds(p := Ds p @ [d])) = add_mset d (owed K E Q Ds)"
  using owed_update[of p Q K E Ds "Ds p @ [d]"] by simp

lemma owed_cong: "(\<And>q. q \<in> set Q - K \<Longrightarrow> Ds q = Ds' q) \<Longrightarrow> owed K E Q Ds = owed K E Q Ds'"
  by (auto simp: owed_def intro!: sum.cong)

text \<open>A new module, referenced from outside once.\<close>

lemma counted_new:
  assumes "counted K E Q H C Ds" and "p \<notin> set Q" and "p \<notin> K" and "H p \<notin> H ` set Q"
    and "C p = 1" and "Ds p = []"
  shows "counted K (add_mset (H p) E) (Q @ [p]) H C Ds"
proof -
  have s: "set (Q @ [p]) - K = insert p (set Q - K)" using assms(3) by auto
  then have o: "owed K (add_mset (H p) E) (Q @ [p]) Ds = add_mset (H p) (owed K E Q Ds)"
    using assms(2,6) by (simp add: owed_def)
  have none: "count (owed K E Q Ds) (H p) = 0"
    using assms(1,4) by (auto simp: counted_def count_eq_zero_iff)
  have "C q = int (count (add_mset (H p) (owed K E Q Ds)) (H q))" if "q \<in> insert p (set Q - K)" for q
  proof (cases "q = p")
    case True
    then show ?thesis using none assms(5) by simp
  next
    case False
    then have "q \<in> set Q - K" using that by simp
    then have "H q \<noteq> H p" using assms(4) by (metis DiffD1 image_eqI)
    with \<open>q \<in> set Q - K\<close> assms(1) show ?thesis by (simp add: counted_def)
  qed
  moreover have "set_mset (owed K E Q Ds) = H ` (set Q - K)" "distinct Q" "inj_on H (set Q)"
    using assms(1) by (simp_all add: counted_def)
  ultimately show ?thesis
    unfolding counted_def o s using assms(2,4) by simp
qed

text \<open>A reference from outside becomes a dependency of a module.\<close>

lemma counted_append:
  assumes "counted K (add_mset d E) Q H C Ds" and "p \<in> set Q - K"
  shows "counted K E Q H C (Ds(p := Ds p @ [d]))"
  using assms(1) unfolding counted_def owed_append[OF assms(2)] owed_add .

text \<open>One more reference to a module from outside.\<close>

lemma counted_bump:
  assumes "counted K E Q H C Ds" and "q \<in> set Q - K"
  shows "counted K (add_mset (H q) E) Q H (C(q := C q + 1)) Ds"
proof -
  have "(C(q := C q + 1)) r = int (count (add_mset (H q) (owed K E Q Ds)) (H r))" if "r \<in> set Q - K" for r
    using assms that counted_inj[OF assms(1), of r q] by (cases "r = q") (auto simp: counted_def)
  moreover have "H q \<in># owed K E Q Ds" using assms by (simp add: counted_def)
  ultimately show ?thesis using assms(1) unfolding counted_def owed_add by (simp add: insert_absorb)
qed

text \<open>One reference less, to a module that stays in use.\<close>

lemma counted_drop:
  assumes "counted K (add_mset (H q) E) Q H C Ds" and "q \<in> set Q - K" and "C q \<noteq> 1"
  shows "counted K E Q H (C(q := C q - 1)) Ds"
proof -
  have c: "C r = int (count (add_mset (H q) (owed K E Q Ds)) (H r))" if "r \<in> set Q - K" for r
    using assms(1) that by (simp add: counted_def)
  have "(C(q := C q - 1)) r = int (count (owed K E Q Ds) (H r))" if "r \<in> set Q - K" for r
    using assms(2) that counted_inj[OF assms(1), of r q] c[OF that] by (cases "r = q") auto
  moreover have "H q \<in># owed K E Q Ds"
    using c[OF assms(2)] assms(3) by (simp add: count_greater_zero_iff[symmetric] del: count_greater_zero_iff)
  ultimately show ?thesis using assms(1) unfolding counted_def owed_add by (simp add: insert_absorb)
qed

text \<open>The last reference to a module goes: its own references count as held from outside.\<close>

lemma counted_kill:
  assumes "counted K (add_mset (H q) E) Q H C Ds" and "q \<in> set Q - K" and "C q = 1"
  shows "counted (insert q K) (E + mset (Ds q)) Q H C Ds"
proof -
  let ?A = "set Q - insert q K"
  have s: "set Q - K = insert q ?A" "q \<notin> ?A" using assms(2) by auto
  have "(\<Sum>p \<in> set Q - K. mset (Ds p)) = mset (Ds q) + (\<Sum>p \<in> ?A. mset (Ds p))"
    unfolding s(1) using s(2) by (rule sum.insert[rotated]) simp
  then have o: "owed (insert q K) (E + mset (Ds q)) Q Ds = owed K E Q Ds"
    unfolding owed_def by (simp add: add_ac)
  have c: "C r = int (count (add_mset (H q) (owed K E Q Ds)) (H r))" if "r \<in> set Q - K" for r
    using assms(1) that by (simp add: counted_def)
  have z: "H q \<notin># owed K E Q Ds" using c[OF assms(2)] assms(3) unfolding not_in_iff by simp
  have ne: "H q \<noteq> H r" if "r \<in> ?A" for r
    using counted_inj[OF assms(1), of q r] assms(2) that by auto
  have "H ` (set Q - K) = insert (H q) (H ` ?A)" unfolding s(1) by simp
  then have "insert (H q) (set_mset (owed K E Q Ds)) = insert (H q) (H ` ?A)"
    using assms(1) unfolding counted_def owed_add by simp
  moreover have "H q \<notin> H ` ?A" using ne by (metis imageE)
  ultimately have "set_mset (owed K E Q Ds) = H ` ?A" using insert_ident[OF z] by simp
  moreover have "C r = int (count (owed K E Q Ds) (H r))" if "r \<in> ?A" for r
    using c[of r] ne[OF that] that by simp
  ultimately show ?thesis using assms(1) unfolding counted_def o by simp
qed

text \<open>A module being unloaded is taken off the list.\<close>

lemma counted_remove:
  assumes "counted (insert q K) E Q H C Ds" and "q \<notin> K"
  shows "counted K E (remove1 q Q) H C Ds"
proof -
  have d: "distinct Q" using assms(1) by (simp add: counted_def)
  have s: "set (remove1 q Q) - K = set Q - insert q K" using d assms(2) by auto
  then have o: "owed K E (remove1 q Q) Ds = owed (insert q K) E Q Ds" by (simp only: owed_def)
  have "inj_on H (set (remove1 q Q))"
    using assms(1) by (auto simp: counted_def intro: inj_on_subset set_remove1_subset)
  with assms(1) d show ?thesis unfolding counted_def o s by (simp add: distinct_remove1)
qed

lemma counted_cong:
  assumes "\<And>q. q \<in> set Q \<Longrightarrow> H q = H' q" and "\<And>q. q \<in> set Q - K \<Longrightarrow> C q = C' q \<and> Ds q = Ds' q"
  shows "counted K E Q H C Ds = counted K E Q H' C' Ds'"
proof -
  have o: "owed K E Q Ds = owed K E Q Ds'" using assms(2) by (intro owed_cong) simp
  have "inj_on H (set Q) = inj_on H' (set Q)" using assms(1) by (rule inj_on_cong)
  moreover have "H ` (set Q - K) = H' ` (set Q - K)" using assms(1) by (intro image_cong) auto
  ultimately show ?thesis unfolding counted_def o using assms by auto
qed

subsection \<open>The invariant of the loader\<close>

definition handle_of :: "'c loader \<Rightarrow> nat \<Rightarrow> i32" where
  "handle_of st p = lm_file_handle (the (lmods st p))"

definition count_of :: "'c loader \<Rightarrow> nat \<Rightarrow> int" where
  "count_of st p = sint (use_count (the (lmods st p)))"

definition deps_of :: "'c loader \<Rightarrow> nat \<Rightarrow> i32 list" where
  "deps_of st p = dependencies (the (lmods st p))"

text \<open>
  The counts are right, no loaded object dangles, every handle is one that was handed out before, and
  the counter of handles has not gone beyond the number of objects created.
\<close>

definition refcounts :: "nat set \<Rightarrow> i32 multiset \<Rightarrow> 'c loader \<Rightarrow> bool" where
  "refcounts K E st \<longleftrightarrow> counted K E (DLIMP_loaded_objects st) (handle_of st) (count_of st) (deps_of st) \<and>
     set (DLIMP_loaded_objects st) \<subseteq> dom (lmods st) \<and> dom (lmods st) \<subseteq> {..<next_obj st} \<and>
     (\<forall>p \<in> set (DLIMP_loaded_objects st). handle_of st p < file_handle st) \<and> unat (file_handle st) \<le> next_obj st"

lemma refcounts_keeps: "keeps st st' \<Longrightarrow> refcounts K E st' = refcounts K E st"
  by (simp add: keeps_def refcounts_def handle_of_def[abs_def] count_of_def[abs_def] deps_of_def[abs_def])

lemma refcounts_simps [simp]:
  "refcounts K E (st\<lparr>dmods := x\<rparr>) = refcounts K E st" "refcounts K E (set_dm a dm st) = refcounts K E st"
  "refcounts K E (st\<lparr>DLIMP_dependency_stack := xs\<rparr>) = refcounts K E st"
  "refcounts K E (st\<lparr>DLIMP_module_dependency_list := xs\<rparr>) = refcounts K E st"
  "refcounts K E (st\<lparr>cur_target := t\<rparr>) = refcounts K E st"
  "refcounts K E (st\<lparr>files := fs\<rparr>) = refcounts K E st"
  "refcounts K E (st\<lparr>client := c\<rparr>) = refcounts K E st"
  by (simp_all add: refcounts_def handle_of_def[abs_def] count_of_def[abs_def] deps_of_def[abs_def] set_dm_def)

lemma refcounts_set_lm:
  assumes "lmods st p = Some m" and "lm_file_handle m' = lm_file_handle m"
  shows "refcounts K E (set_lm p m' st) \<longleftrightarrow> counted K E (DLIMP_loaded_objects st) (handle_of st)
       ((count_of st)(p := sint (use_count m'))) ((deps_of st)(p := dependencies m')) \<and>
     set (DLIMP_loaded_objects st) \<subseteq> dom (lmods st) \<and> dom (lmods st) \<subseteq> {..<next_obj st} \<and>
     (\<forall>p \<in> set (DLIMP_loaded_objects st). handle_of st p < file_handle st) \<and> unat (file_handle st) \<le> next_obj st"
proof -
  have "handle_of (set_lm p m' st) = handle_of st" "count_of (set_lm p m' st) = (count_of st)(p := sint (use_count m'))"
    "deps_of (set_lm p m' st) = (deps_of st)(p := dependencies m')"
    using assms by (auto simp: handle_of_def count_of_def deps_of_def set_lm_def)
  moreover have "dom (lmods (set_lm p m' st)) = dom (lmods st)" using assms by (auto simp: set_lm_def)
  ultimately show ?thesis by (simp add: refcounts_def) (simp add: set_lm_def)
qed

lemma refcounts_same_ref:
  assumes "lmods st p = Some m" and "same_ref m m'"
  shows "refcounts K E (set_lm p m' st) = refcounts K E st"
proof -
  have "(count_of st)(p := sint (use_count m')) = count_of st" "(deps_of st)(p := dependencies m') = deps_of st"
    using assms by (auto simp: count_of_def deps_of_def same_ref_def)
  then show ?thesis using refcounts_set_lm[of st p m m' K E] assms by (simp add: refcounts_def same_ref_def)
qed

subsection \<open>Counters\<close>

lemma sint_of_range:
  assumes "- (2 ^ 31) \<le> k" and "k < 2 ^ 31"
  shows "sint (word_of_int k :: i32) = k"
  using assms by (simp add: signed_of_int signed_take_bit_int_eq_self)

lemma sint_bounds: "- (2 ^ 31) \<le> sint (n :: i32)" "sint n < 2 ^ 31"
  using sint_ge[of n] sint_lt[of n] by simp_all

lemma count_down_sint: "0 < sint n \<Longrightarrow> count_down n = Inr (n - 1) \<and> sint (n - 1) = sint n - 1"
proof -
  assume a: "0 < sint n"
  have "n - 1 = word_of_int (sint n - 1)" by simp
  then have "sint (n - 1) = sint n - 1"
    using sint_of_range[of "sint n - 1"] sint_bounds[of n] a by simp
  moreover have "n \<noteq> INT_MAX + 1" using a by (auto simp: INT_MAX_def)
  ultimately show ?thesis by (simp add: count_down_def)
qed

lemma count_up_sint: "count_up n = Inr k \<Longrightarrow> sint k = sint n + 1"
proof -
  assume a: "count_up n = Inr k"
  then have k: "k = n + 1" "n \<noteq> INT_MAX" by (auto simp: count_up_def split: if_splits)
  have "sint n \<noteq> 2 ^ 31 - 1"
  proof
    assume "sint n = 2 ^ 31 - 1"
    then have "word_of_int (sint n) = (0x7FFFFFFF :: i32)" by simp
    with k(2) show False by (simp add: INT_MAX_def)
  qed
  moreover have "n + 1 = word_of_int (sint n + 1)" by simp
  ultimately show ?thesis using sint_of_range[of "sint n + 1"] sint_bounds[of n] k(1) by simp
qed
subsection \<open>Unloading\<close>

text \<open>What an unload leaves of the modules that are being unloaded already, and of the others.\<close>

definition unload_frame :: "nat set \<Rightarrow> 'c loader \<Rightarrow> 'c loader \<Rightarrow> bool" where
  "unload_frame K st st' \<longleftrightarrow> set (DLIMP_loaded_objects st') \<subseteq> set (DLIMP_loaded_objects st) \<and>
     (\<forall>q \<in> set (DLIMP_loaded_objects st'). handle_of st' q = handle_of st q) \<and>
     (\<forall>p \<in> K. p \<in> set (DLIMP_loaded_objects st) \<longrightarrow> p \<in> set (DLIMP_loaded_objects st') \<and> lmods st' p = lmods st p)"

lemma unload_frame_refl: "unload_frame K st st"
  by (simp add: unload_frame_def)

lemma unload_frame_trans: "unload_frame K a b \<Longrightarrow> unload_frame K b c \<Longrightarrow> unload_frame K a c"
  unfolding unload_frame_def by (metis subsetD subset_trans)

lemma unload_frame_keeps: "keeps st st' \<Longrightarrow> unload_frame K st st'"
  by (simp add: unload_frame_def keeps_def handle_of_def)

text \<open>The contract of an unload: it gives back one reference.\<close>

definition unload_post :: "nat set \<Rightarrow> i32 multiset \<Rightarrow> i32 \<Rightarrow> 'c loader \<Rightarrow> bool \<times> 'c loader \<Rightarrow> bool" where
  "unload_post K E fh st = (\<lambda>(b, st'). refcounts K E st' \<and> unload_frame K st st' \<and>
     (b \<longleftrightarrow> fh \<notin> handle_of st' ` set (DLIMP_loaded_objects st')))"

definition unload_ok :: "'c unload_fun \<Rightarrow> bool" where
  "unload_ok u \<longleftrightarrow> (\<forall>K E fh st. refcounts K (add_mset fh E) st \<longrightarrow> holdsR (unload_post K E fh st) (u fh st))"

lemma scan_skip:
  assumes "\<And>q. q \<in> set ps \<Longrightarrow> \<exists>m. lmods st q = Some m \<and> lm_file_handle m \<noteq> fh"
  shows "unload_scan D h u fh ps st = Inr (False, st)"
  using assms by (induction ps) fastforce+

lemma scan_at:
  assumes "\<And>q. q \<in> set xs \<union> set ys \<Longrightarrow> q \<noteq> p \<and> (\<exists>m. lmods st q = Some m \<and> lm_file_handle m \<noteq> fh)"
    and "lmods st p = Some m" and "lm_file_handle m = fh" and "count_down (use_count m) = Inr n"
  shows "unload_scan D h u fh (xs @ p # ys) st = (let st1 = set_lm p (m\<lparr>use_count := n\<rparr>) st
     in if n = 0 then bindR (unload_module D h u p st1) (\<lambda>st. Inr (True, st)) else Inr (False, st1))"
  using assms(1)
proof (induction xs)
  case Nil
  then have "unload_scan D h u fh ys (set_lm p (m\<lparr>use_count := n\<rparr>) st) = Inr (False, set_lm p (m\<lparr>use_count := n\<rparr>) st)"
    by (intro scan_skip) (auto simp: set_lm_def)
  then show ?case using assms(2-) by (simp add: Let_def)
next
  case (Cons x xs)
  then obtain mx where "lmods st x = Some mx" "lm_file_handle mx \<noteq> fh" by fastforce
  with Cons show ?case by simp
qed

lemma unload_dependents_ok:
  assumes "unload_ok u" and "refcounts K (E + mset ds) st" and "p \<in> K" and "p \<in> set (DLIMP_loaded_objects st)"
  shows "holdsR (\<lambda>st'. refcounts K E st' \<and> unload_frame K st st') (unload_dependents u p ds st)"
  using assms(2,4)
proof (induction ds arbitrary: st)
  case Nil
  then show ?case by (simp add: unload_frame_refl)
next
  case (Cons d ds)
  have "holdsR (unload_post K (E + mset ds) d st) (u d st)"
    using assms(1) Cons.prems(1) by (simp add: unload_ok_def)
  then have "holdsR (\<lambda>st'. refcounts K (E + mset ds) st' \<and> unload_frame K st st') (DLIF_unload_dependent u d st)"
    unfolding DLIF_unload_dependent_def by (rule holdsR_bindI) (auto simp: unload_post_def)
  moreover have "holdsR (\<lambda>st'. refcounts K E st' \<and> unload_frame K st st') (bindR (deref (lmods st1 p)) (\<lambda>_. unload_dependents u p ds st1))"
    if 1: "refcounts K (E + mset ds) st1 \<and> unload_frame K st st1" for st1
  proof (rule holdsR_deref)
    have "p \<in> set (DLIMP_loaded_objects st1)" using 1 assms(3) Cons.prems(2) by (simp add: unload_frame_def)
    with Cons.IH[of st1] 1 show "holdsR (\<lambda>st'. refcounts K E st' \<and> unload_frame K st st') (unload_dependents u p ds st1)"
      by (auto intro: holdsR_mono unload_frame_trans)
  qed
  ultimately show ?case by (auto intro: holdsR_bindI)
qed

lemma remove_ok:
  assumes "refcounts (insert p K) E st" and "p \<notin> K"
  shows "holdsR (\<lambda>st'. refcounts K E st' \<and> unload_frame K st st' \<and> p \<notin> set (DLIMP_loaded_objects st')) (remove_loaded_module D p st)"
proof -
  let ?Q = "remove1 p (DLIMP_loaded_objects st)"
  let ?st = "st\<lparr>DLIMP_loaded_objects := ?Q, lmods := (lmods st)(p := None)\<rparr>"
  have c: "counted (insert p K) E (DLIMP_loaded_objects st) (handle_of st) (count_of st) (deps_of st)"
    using assms(1) by (simp add: refcounts_def)
  then have d: "set ?Q = set (DLIMP_loaded_objects st) - {p}" by (simp add: counted_def)
  have same: "handle_of ?st q = handle_of st q" "count_of ?st q = count_of st q" "deps_of ?st q = deps_of st q" if "q \<noteq> p" for q
    using that by (simp_all add: handle_of_def count_of_def deps_of_def)
  have "counted K E ?Q (handle_of ?st) (count_of ?st) (deps_of ?st)"
    using counted_remove[OF c assms(2)] counted_cong[of ?Q "handle_of ?st" "handle_of st" K "count_of ?st" "count_of st"
        "deps_of ?st" "deps_of st" E] same d by simp
  then have 1: "refcounts K E ?st" using assms(1) d same unfolding refcounts_def by auto
  have 2: "unload_frame K st ?st" using d same assms(2) by (auto simp: unload_frame_def)
  have 3: "p \<notin> set (DLIMP_loaded_objects ?st)" using d by simp
  have "holdsR (\<lambda>st'. refcounts K E st' \<and> unload_frame K st st' \<and> p \<notin> set (DLIMP_loaded_objects st'))
      (delete_DLIMP_Loaded_Module D (st\<lparr>DLIMP_loaded_objects := ?Q\<rparr>) p)"
  proof (rule holdsR_mono[OF delete_loaded_keeps])
    fix st' assume "keeps (st\<lparr>DLIMP_loaded_objects := ?Q, lmods := (lmods (st\<lparr>DLIMP_loaded_objects := ?Q\<rparr>))(p := None)\<rparr>) st'"
    then have k: "keeps ?st st'" by simp
    then show "refcounts K E st' \<and> unload_frame K st st' \<and> p \<notin> set (DLIMP_loaded_objects st')"
      using 1 2 3 refcounts_keeps[OF k] unload_frame_trans[OF 2 unload_frame_keeps[OF k]] by (simp add: keeps_def)
  qed
  then show ?thesis by (auto simp: remove_loaded_module_def unlink_loaded_module_def)
qed

lemma unload_module_ok:
  assumes "unload_ok u" and "refcounts (insert p K) (E + mset (deps_of st p)) st" and "p \<notin> K"
    and "p \<in> set (DLIMP_loaded_objects st)"
  shows "holdsR (\<lambda>st'. refcounts K E st' \<and> unload_frame K st st' \<and> p \<notin> set (DLIMP_loaded_objects st')) (unload_module D h u p st)"
proof -
  let ?P = "\<lambda>st'. refcounts K E st' \<and> unload_frame K st st' \<and> p \<notin> set (DLIMP_loaded_objects st')"
  have sub: "unload_frame (insert p K) a b \<Longrightarrow> unload_frame K a b" for a b :: "'a loader"
    by (simp add: unload_frame_def)
  obtain m where m: "lmods st p = Some m" using assms(2,4) by (auto simp: refcounts_def)
  have rm: "holdsR ?P (bindR (remove_loaded_module D p st2) (\<lambda>st. Inr (st\<lparr>cur_target := None\<rparr>)))"
    if "refcounts (insert p K) E st2 \<and> unload_frame (insert p K) st st2" for st2
  proof (rule holdsR_bindI[OF remove_ok[of p K E st2 D]])
    show "holdsR ?P (Inr (x\<lparr>cur_target := None\<rparr>))"
      if x: "refcounts K E x \<and> unload_frame K st2 x \<and> p \<notin> set (DLIMP_loaded_objects x)" for x
      using x that \<open>refcounts (insert p K) E st2 \<and> unload_frame (insert p K) st st2\<close>
        unload_frame_trans[OF unload_frame_trans[OF sub], of st st2 x "x\<lparr>cur_target := None\<rparr>"] unload_frame_keeps[of x "x\<lparr>cur_target := None\<rparr>"]
      by simp
  qed (use that assms(3) in auto)
  have dep: "holdsR ?P (bindR (unload_dependents u p (dependencies m) st1) (\<lambda>st. bindR (remove_loaded_module D p st) (\<lambda>st. Inr (st\<lparr>cur_target := None\<rparr>))))"
    if k: "keeps st st1" for st1
  proof (rule holdsR_bindI[OF unload_dependents_ok[OF assms(1)]])
    show "refcounts (insert p K) (E + mset (dependencies m)) st1"
      using assms(2) refcounts_keeps[OF k] m by (simp add: deps_of_def)
    show "p \<in> set (DLIMP_loaded_objects st1)" using assms(4) k by (simp add: keeps_def)
    show "holdsR ?P (bindR (remove_loaded_module D p st2) (\<lambda>st. Inr (st\<lparr>cur_target := None\<rparr>)))"
      if "refcounts (insert p K) E st2 \<and> unload_frame (insert p K) st1 st2" for st2
      using that by (intro rm) (auto intro: unload_frame_trans[OF unload_frame_keeps[OF k]])
  qed simp
  show ?thesis
    unfolding unload_module_def using m by (auto intro!: holdsR_bindI[OF termination_keeps] dep)
qed

lemma referenced:
  assumes "refcounts K (add_mset fh E) st"
  obtains p m where "p \<in> set (DLIMP_loaded_objects st) - K" and "lmods st p = Some m" and "lm_file_handle m = fh"
    and "0 < sint (use_count m)"
proof -
  let ?Q = "DLIMP_loaded_objects st"
  have c: "counted K (add_mset fh E) ?Q (handle_of st) (count_of st) (deps_of st)"
    and dm: "set ?Q \<subseteq> dom (lmods st)" using assms by (simp_all add: refcounts_def)
  then have "fh \<in> handle_of st ` (set ?Q - K)" by (auto simp: counted_def)
  then obtain p where p: "p \<in> set ?Q - K" "fh = handle_of st p" by (rule imageE)
  then obtain m where m: "lmods st p = Some m" using dm by (metis DiffD1 domD subsetD)
  with p counted_pos[OF c p(1)] show ?thesis by (intro that[of p m]) (simp_all add: handle_of_def count_of_def)
qed

lemma refcounts_drop:
  assumes "refcounts K (add_mset (lm_file_handle m) E) st" and "lmods st p = Some m"
    and "p \<in> set (DLIMP_loaded_objects st) - K" and "sint n = sint (use_count m) - 1" and "n \<noteq> 0"
  shows "refcounts K E (set_lm p (m\<lparr>use_count := n\<rparr>) st)"
proof -
  have h: "handle_of st p = lm_file_handle m" "count_of st p = sint n + 1" "deps_of st p = dependencies m"
    using assms(2,4) by (simp_all add: handle_of_def count_of_def deps_of_def)
  have "count_of st p \<noteq> 1" using h(2) assms(5) by (simp add: signed_eq_0_iff)
  then have "counted K E (DLIMP_loaded_objects st) (handle_of st) ((count_of st)(p := count_of st p - 1)) (deps_of st)"
    using counted_drop[of K "handle_of st" p E "DLIMP_loaded_objects st" "count_of st" "deps_of st"] assms(1,3) h(1)
    by (simp add: refcounts_def)
  with assms(1) h refcounts_set_lm[of st p m "m\<lparr>use_count := n\<rparr>" K E] assms(2) show ?thesis
    by (simp add: refcounts_def fun_upd_idem)
qed

lemma refcounts_kill:
  assumes "refcounts K (add_mset (lm_file_handle m) E) st" and "lmods st p = Some m"
    and "p \<in> set (DLIMP_loaded_objects st) - K" and "sint (use_count m) = 1"
  shows "refcounts (insert p K) (E + mset (dependencies m)) (set_lm p (m\<lparr>use_count := n\<rparr>) st)"
proof -
  let ?Q = "DLIMP_loaded_objects st" and ?m = "m\<lparr>use_count := n\<rparr>"
  have h: "handle_of st p = lm_file_handle m" "count_of st p = 1" "deps_of st p = dependencies m"
    using assms(2,4) by (simp_all add: handle_of_def count_of_def deps_of_def)
  have "counted (insert p K) (E + mset (dependencies m)) ?Q (handle_of st) (count_of st) (deps_of st)"
    using counted_kill[of K "handle_of st" p E ?Q "count_of st" "deps_of st"] assms(1,3) h by (simp add: refcounts_def)
  moreover have "counted (insert p K) (E + mset (dependencies m)) ?Q (handle_of st) (count_of st) (deps_of st) =
      counted (insert p K) (E + mset (dependencies m)) ?Q (handle_of st) ((count_of st)(p := sint n)) (deps_of st)"
    by (rule counted_cong) simp_all
  moreover have "(deps_of st)(p := dependencies m) = deps_of st" using h(3) by (simp add: fun_upd_idem)
  ultimately show ?thesis
    using assms(1) refcounts_set_lm[of st p m ?m "insert p K" "E + mset (dependencies m)"] assms(2)
    by (simp add: refcounts_def)
qed

text \<open>The search finds the one module with the handle.\<close>

lemma scan_unique:
  assumes "refcounts K E st" and "p \<in> set (DLIMP_loaded_objects st)" and "lmods st p = Some m"
    and "count_down (use_count m) = Inr n"
  shows "unload_scan D h u (lm_file_handle m) (DLIMP_loaded_objects st) st =
     (let st1 = set_lm p (m\<lparr>use_count := n\<rparr>) st
      in if n = 0 then bindR (unload_module D h u p st1) (\<lambda>st. Inr (True, st)) else Inr (False, st1))"
proof -
  have c: "counted K E (DLIMP_loaded_objects st) (handle_of st) (count_of st) (deps_of st)"
    and dm: "set (DLIMP_loaded_objects st) \<subseteq> dom (lmods st)" using assms(1) by (simp_all add: refcounts_def)
  obtain xs ys where Q: "DLIMP_loaded_objects st = xs @ p # ys" using assms(2) by (auto simp: in_set_conv_decomp)
  have "distinct (DLIMP_loaded_objects st)" using c by (simp add: counted_def)
  then have "q \<noteq> p \<and> (\<exists>m'. lmods st q = Some m' \<and> lm_file_handle m' \<noteq> lm_file_handle m)" if "q \<in> set xs \<union> set ys" for q
  proof -
    have q: "q \<in> set (DLIMP_loaded_objects st)" "q \<noteq> p"
      using that \<open>distinct (DLIMP_loaded_objects st)\<close> by (auto simp: Q)
    then obtain m' where "lmods st q = Some m'" using dm by (metis domD subsetD)
    with q counted_inj[OF c q(1) assms(2)] assms(3) show ?thesis by (auto simp: handle_of_def)
  qed
  then show ?thesis unfolding Q using assms(3,4) by (intro scan_at) auto
qed

lemma unload_step_ok:
  assumes "unload_ok u" and "refcounts K (add_mset fh E) st"
  shows "holdsR (unload_post K E fh st) (unload_scan D h u fh (DLIMP_loaded_objects st) st)"
proof -
  let ?Q = "DLIMP_loaded_objects st"
  obtain p m where p: "p \<in> set ?Q - K" and m: "lmods st p = Some m" "lm_file_handle m = fh" "0 < sint (use_count m)"
    using referenced[OF assms(2)] .
  define n where "n = use_count m - 1"
  have n: "count_down (use_count m) = Inr n" "sint n = sint (use_count m) - 1"
    using count_down_sint[OF m(3)] by (simp_all add: n_def)
  let ?st = "set_lm p (m\<lparr>use_count := n\<rparr>) st"
  have scan: "unload_scan D h u fh ?Q st = (if n = 0
      then bindR (unload_module D h u p ?st) (\<lambda>st. Inr (True, st)) else Inr (False, ?st))"
    using scan_unique[OF assms(2) _ m(1) n(1), of D h u] p m(2) by (simp add: Let_def)
  have hs: "handle_of ?st = handle_of st" "DLIMP_loaded_objects ?st = ?Q" "deps_of ?st p = dependencies m"
    using m by (auto simp: handle_of_def set_lm_def deps_of_def)
  have hp: "handle_of st p = fh" using m by (simp add: handle_of_def)
  have fr: "unload_frame K st ?st" using p hs by (auto simp: unload_frame_def set_lm_def)
  show ?thesis
  proof (cases "n = 0")
    case False
    have "refcounts K E ?st" using refcounts_drop[OF _ m(1) p n(2) False] assms(2) m(2) by simp
    moreover have "fh \<in> handle_of ?st ` set (DLIMP_loaded_objects ?st)" using p hp hs by auto
    ultimately show ?thesis using False fr by (simp add: scan unload_post_def)
  next
    case True
    then have "refcounts (insert p K) (E + mset (deps_of ?st p)) ?st"
      using refcounts_kill[OF _ m(1) p] assms(2) m(2) n(2) hs(3) by simp
    then have "holdsR (\<lambda>st'. refcounts K E st' \<and> unload_frame K ?st st' \<and> p \<notin> set (DLIMP_loaded_objects st')) (unload_module D h u p ?st)"
      using unload_module_ok[OF assms(1), of p K E ?st D h] p hs(2) by simp
    then have "holdsR (unload_post K E fh st) (bindR (unload_module D h u p ?st) (\<lambda>st. Inr (True, st)))"
    proof (rule holdsR_bindI)
      fix st' assume st': "refcounts K E st' \<and> unload_frame K ?st st' \<and> p \<notin> set (DLIMP_loaded_objects st')"
      have "handle_of st' q \<noteq> fh" if "q \<in> set (DLIMP_loaded_objects st')" for q
      proof -
        have "q \<in> set ?Q" "handle_of st' q = handle_of st q" "q \<noteq> p"
          using st' that hs by (auto simp: unload_frame_def)
        with p hp assms(2) show ?thesis
          using counted_inj[of K "add_mset fh E" ?Q "handle_of st" "count_of st" "deps_of st" q p] by (auto simp: refcounts_def)
      qed
      then have "fh \<notin> handle_of st' ` set (DLIMP_loaded_objects st')" by (metis imageE)
      with st' fr show "holdsR (unload_post K E fh st) (Inr (True, st'))"
        by (auto simp: unload_post_def intro: unload_frame_trans)
    qed
    with True show ?thesis by (simp add: scan)
  qed
qed

lemma DLOAD_unload_ok: "unload_ok (DLOAD_unload D h fuel)"
proof (induction fuel)
  case 0
  then show ?case by (simp add: unload_ok_def)
next
  case (Suc fuel)
  then show ?case unfolding unload_ok_def using unload_step_ok[OF Suc] by (simp add: unload_ok_def)
qed

end
