(* ===== verification/DLoad_LoadRefs.thy ===== *)
theory DLoad_LoadRefs
  imports DLoad_Refcount
begin

text \<open>
  Loading keeps the reference counts right: a successful load gives the client one reference to the
  loaded module, and every dependency of a loaded module is a counted reference to a loaded module.
\<close>

subsection \<open>Objects are never created at old addresses\<close>

abbreviation grows1 where "grows1 st \<equiv> holdsR (\<lambda>st'. next_obj st \<le> next_obj st')"
abbreviation grows2 where "grows2 st \<equiv> holdsR (\<lambda>(x, st'). next_obj st \<le> next_obj st')"

lemma read_module_next: "holdsR (\<lambda>(r, st'). next_obj st' = next_obj st) (read_module D h f a st)"
proof -
  have d: "holdsR (\<lambda>(r, st'). next_obj st' = next_obj st) (bindR (discard D a dm st1) (\<lambda>st. Inr (None, st)))"
    if "next_obj st1 = next_obj st" for st1 dm
    by (rule holdsR_bindI[OF discard_next]) (simp add: that)
  have n: "reads_only a b \<Longrightarrow> next_obj b = next_obj a" for a b :: "'a loader"
    by (simp add: reads_only_def)
  show ?thesis
    unfolding read_module_def
    by (auto intro!: holdsR_bindI[OF dload_headers_reads] holdsR_bindI[OF dload_dynamic_segment_reads]
        holdsR_bindI[OF is_valid_reads] d simp: n)
qed

lemma add_loaded_next: "holdsR (\<lambda>(p, dm', m, st'). next_obj st' = Suc (next_obj st)) (add_loaded_module a dm st)"
  unfolding add_loaded_module_def by (rule holdsR_bindI[OF initialize_post]) (auto simp: Let_def keeps_def)

lemma static_next: "holdsR (\<lambda>(r, st'). next_obj st' = next_obj st) (dload_static_executable D st a)"
proof -
  have d: "holdsR (\<lambda>(r, st'). next_obj st' = next_obj st) (bindR (delete_DLIMP_Dynamic_Module D st1 a) (\<lambda>st. Inr (x, st)))"
    if "next_obj st1 = next_obj st" for st1 x
    by (rule holdsR_bindI[OF delete_dynamic_next]) (simp add: that)
  show ?thesis
    unfolding dload_static_executable_def Let_def
    by (auto intro!: holdsR_splits holdsR_bindI[OF load_static_segment_keeps] d simp: keeps_next split: prod.splits)
qed

lemma relocate_module_next: "holdsR (\<lambda>st'. next_obj st' = next_obj st) (relocate_module D h f a st)"
proof -
  have d: "holdsR (\<lambda>st'. next_obj st' = next_obj st) (delete_DLIMP_Dynamic_Module D (set_dm a dm (set_lm p m st1)) a)"
    if "keeps st st1" for st1 dm p m
    by (rule holdsR_mono[OF delete_dynamic_next]) (simp add: keeps_next[OF that])
  have c: "holdsR (\<lambda>st'. keeps st st') (if b then DLIF_fclose x st1 else Inr st1)" if "keeps st st1" for st1 x b
    using that by (auto intro: holdsR_mono[OF fclose_keeps] keeps_trans)
  have s: "holdsR (\<lambda>st'. keeps st st') (store_init_data dm st1)" if "keeps st st1" for st1 dm
    using that by (auto intro: holdsR_mono[OF store_data_keeps(2)] keeps_trans)
  show ?thesis
    unfolding relocate_module_def Let_def
    by (auto intro!: holdsR_splits holdsR_bindI[OF relocations_keep] holdsR_bind_any[of "local_symbol _ _"]
        holdsR_bindI[OF s] holdsR_bindI[OF c] d)
qed

lemma relocate_stack_next: "holdsR (\<lambda>st'. next_obj st' = next_obj st) (relocate_stack D h f as st)"
proof (induction as arbitrary: st)
  case (Cons a as)
  show ?case
    by (auto intro!: holdsR_bindI[OF relocate_module_next] holdsR_mono[OF Cons.IH])
qed simp

text \<open>The DSBT calls in front of the relocations.\<close>

definition update_dsbts :: "'c DLIF \<Rightarrow> bool \<Rightarrow> 'c loader \<Rightarrow> 'c loader result" where
  "update_dsbts D b st = (if b then bindR (DLIF_assign_dsbt_indices D (client st)) (\<lambda>c.
     bindR (DLIF_update_all_dsbts D c) (\<lambda>c. Inr (st\<lparr>client := c\<rparr>))) else Inr st)"

lemma update_dsbts_keeps: "holdsR (keeps st) (update_dsbts D b st)"
  by (auto simp: update_dsbts_def intro!: holdsR_bind_any)

lemma relocate_graph_unfold:
  "relocate_dependency_graph_modules D h f a st =
     bindR (deref (dmods st a)) (\<lambda>dm. bindR (deref (loaded_module dm)) (\<lambda>p. bindR (deref (lmods st p)) (\<lambda>m.
     if DLIMP_dependency_stack st \<noteq> [] \<and> last (DLIMP_dependency_stack st) \<noteq> a
     then Inr (lm_file_handle m, st)
     else bindR (update_dsbts D (is_dsbt_module dm) st) (\<lambda>st.
          bindR (relocate_stack D h f (DLIMP_dependency_stack st) st) (\<lambda>st. Inr (lm_file_handle m, st))))))"
  unfolding relocate_dependency_graph_modules_def update_dsbts_def by (rule refl)

lemma relocate_graph_next: "holdsR (\<lambda>(r, st'). next_obj st' = next_obj st) (relocate_dependency_graph_modules D h f a st)"
proof -
  have s: "holdsR (\<lambda>(r, st'). next_obj st' = next_obj st) (bindR (relocate_stack D h f as st1) (\<lambda>st. Inr (x, st)))"
    if "keeps st st1" for st1 as x
    by (rule holdsR_bindI[OF relocate_stack_next]) (simp add: keeps_next[OF that])
  show ?thesis
    unfolding relocate_graph_unfold by (auto intro!: holdsR_splits holdsR_bindI[OF update_dsbts_keeps] s)
qed

definition load_grows :: "'c load_fun \<Rightarrow> bool" where
  "load_grows load \<longleftrightarrow> (\<forall>f st. grows2 st (load f st))"

lemma append_dependency_next: "holdsR (\<lambda>st'. next_obj st' = next_obj st) (append_dependency p x st)"
  by (auto simp: append_dependency_def intro!: holdsR_splits)

lemma load_dependent_grows:
  assumes "load_grows load"
  shows "grows2 st (DLIF_load_dependent fs load name st)"
proof -
  have l: "grows2 st (load f st)" for f st using assms by (simp add: load_grows_def)
  have c: "grows2 st (bindR (DLIF_fclose fp st1) (\<lambda>st. Inr (x, st)))" if "next_obj st \<le> next_obj st1" for st1 fp x
    using that by (auto intro!: holdsR_bindI[OF fclose_keeps] simp: keeps_next)
  show ?thesis
    by (auto simp: DLIF_load_dependent_def fopen_def Let_def intro!: holdsR_bindI[OF l] c split: option.splits)
qed

lemma load_needed_grows:
  assumes "load_grows load"
  shows "holdsR (both (\<lambda>st'. next_obj st \<le> next_obj st')) (load_needed fs load dm p i d st)"
proof -
  have a: "holdsR (both (\<lambda>st'. next_obj st \<le> next_obj st')) (bindR (append_dependency p x st1) (\<lambda>st. Inr (if b then Inl st else Inr st)))"
    if "next_obj st \<le> next_obj st1" for st1 :: "'a loader" and x b
    using that by (auto intro!: holdsR_bindI[OF append_dependency_next])
  have a': "holdsR (both (\<lambda>st'. next_obj st \<le> next_obj st')) (bindR (append_dependency p x (set_lm q m st)) (\<lambda>st. Inr (Inr st)))" for q m x
    by (auto intro!: holdsR_bindI[OF append_dependency_next])
  show ?thesis
    unfolding load_needed_def
    by (auto intro!: holdsR_splits holdsR_bind_any[of "find_loaded_name _ _"] holdsR_bind_any[of "count_up _"] a a'
        holdsR_bind_any[of "cstring_at _ _"] holdsR_bindI[OF load_dependent_grows[OF assms]] split: option.splits)
qed

lemma dependencies_grow:
  assumes "load_grows load"
  shows "grows2 st (dload_and_allocate_dependencies fs load a st)"
proof -
  have f: "holdsR (both (\<lambda>st'. next_obj st \<le> next_obj st')) (for_tags (load_needed fs load dm p) 0 tab st)" for dm p tab
    using for_tags_both[where r = "\<lambda>st st'. next_obj st \<le> next_obj st'", OF load_needed_grows[OF assms]] by auto
  show ?thesis
    unfolding dload_and_allocate_dependencies_def
    by (auto intro!: holdsR_splits holdsR_bindI[OF f] split: sum.splits)
qed

lemma load_dynamic_grows:
  assumes "load_grows load"
  shows "grows2 st (load_dynamic_module fs D h load f a p dm m st)"
proof -
  have del: "grows2 st (bindR (delete_DLIMP_Dynamic_Module D st1 a) (\<lambda>st. Inr (0, st)))" if "next_obj st \<le> next_obj st1" for st1
    using that by (auto intro!: holdsR_bindI[OF delete_dynamic_next])
  have ini: "grows2 st (bindR (execute_module_initialization D h st1) (\<lambda>st. Inr (x, st)))" if "next_obj st \<le> next_obj st1" for st1 x
    using that by (auto intro!: holdsR_bindI[OF initialization_keeps] simp: keeps_next)
  show ?thesis
    unfolding load_dynamic_module_def
    by (auto intro!: holdsR_bindI[OF place_module_post] holdsR_bindI[OF dependencies_grow[OF assms]]
        holdsR_bindI[OF relocate_graph_next] del ini)
qed

lemma load_file_grows:
  assumes "load_grows load"
  shows "load_grows (load_file fs D h load)"
proof -
  have s: "holdsR (\<lambda>(x, st'). n \<le> next_obj st') (dload_static_executable D st1 a)" if "n \<le> next_obj st1" for st1 n a
    using that by (intro holdsR_mono[OF static_next]) auto
  have d: "holdsR (\<lambda>(x, st'). n \<le> next_obj st') (load_dynamic_module fs D h load f a p dm m st1)" if "n \<le> next_obj st1" for st1 n f a p dm m
    using that by (intro holdsR_mono[OF load_dynamic_grows[OF assms]]) auto
  show ?thesis
    unfolding load_grows_def load_file_def Let_def
    by (auto intro!: holdsR_bindI[OF read_module_next] holdsR_bindI[OF add_loaded_next] s d split: option.splits)
qed

lemma DLOAD_load_grows: "load_grows (DLOAD_load fs D h fuel)"
proof (induction fuel)
  case 0
  then show ?case by (simp add: load_grows_def)
next
  case (Suc fuel)
  then show ?case using load_file_grows[OF Suc, of fs D h] by (simp add: load_grows_def)
qed

subsection \<open>What a load adds\<close>

definition stack_ok :: "'c loader \<Rightarrow> bool" where
  "stack_ok st \<longleftrightarrow> (\<forall>a \<in> set (DLIMP_dependency_stack st). a < next_obj st)"

text \<open>
  Loaded modules stay, with their handles. While an outer load is under way, its module stays at the
  bottom of the dependency stack and the dynamic modules below \<open>n\<close> stay as they are.
\<close>

definition extends :: "nat \<Rightarrow> 'c loader \<Rightarrow> 'c loader \<Rightarrow> bool" where
  "extends n st st' \<longleftrightarrow> set (DLIMP_loaded_objects st) \<subseteq> set (DLIMP_loaded_objects st') \<and>
     (\<forall>p \<in> set (DLIMP_loaded_objects st). handle_of st' p = handle_of st p) \<and> stack_ok st' \<and>
     (DLIMP_dependency_stack st \<noteq> [] \<longrightarrow> DLIMP_dependency_stack st' \<noteq> [] \<and>
        last (DLIMP_dependency_stack st') = last (DLIMP_dependency_stack st) \<and> (\<forall>a < n. dmods st' a = dmods st a))"

lemma extends_refl: "stack_ok st \<Longrightarrow> extends n st st"
  by (simp add: extends_def)

lemma extends_trans: "extends n a b \<Longrightarrow> extends n' b c \<Longrightarrow> n \<le> n' \<Longrightarrow> extends n a c"
  unfolding extends_def by (fastforce simp: subset_iff)

lemma stack_ok_keeps: "keeps st st' \<Longrightarrow> stack_ok st' = stack_ok st"
  by (simp add: keeps_def stack_ok_def)

lemma extends_keeps: "keeps st st' \<Longrightarrow> stack_ok st \<Longrightarrow> extends n st st'"
  by (simp add: extends_def keeps_def handle_of_def stack_ok_def)

definition load_post :: "i32 multiset \<Rightarrow> 'c loader \<Rightarrow> i32 \<times> 'c loader \<Rightarrow> bool" where
  "load_post E st = (\<lambda>(r, st'). r \<noteq> 0 \<longrightarrow> next_obj st' < 2 ^ 32 \<longrightarrow>
     refcounts {} (add_mset r E) st' \<and> extends (next_obj st) st st')"

definition load_ok :: "'c load_fun \<Rightarrow> bool" where
  "load_ok load \<longleftrightarrow> load_grows load \<and>
     (\<forall>f E st. refcounts {} E st \<longrightarrow> stack_ok st \<longrightarrow> holdsR (load_post E st) (load f st))"

subsection \<open>Dependents\<close>

lemma refcounts_next: "refcounts K E st \<Longrightarrow> next_obj st \<le> n \<Longrightarrow> refcounts K E (st\<lparr>next_obj := n\<rparr>)"
  by (auto simp: refcounts_def handle_of_def[abs_def] count_of_def[abs_def] deps_of_def[abs_def])

lemma refcounts_append:
  assumes "refcounts K (add_mset d E) st" and "p \<in> set (DLIMP_loaded_objects st) - K" and "lmods st p = Some m"
  shows "refcounts K E (set_lm p (m\<lparr>dependencies := dependencies m @ [d]\<rparr>) st)"
proof -
  have h: "deps_of st p = dependencies m" "count_of st p = sint (use_count m)"
    using assms(3) by (simp_all add: deps_of_def count_of_def)
  have "counted K E (DLIMP_loaded_objects st) (handle_of st) (count_of st) ((deps_of st)(p := deps_of st p @ [d]))"
    using counted_append[of K d E "DLIMP_loaded_objects st" "handle_of st" "count_of st" "deps_of st" p] assms(1,2)
    by (simp add: refcounts_def)
  then show ?thesis
    using refcounts_set_lm[of st p m "m\<lparr>dependencies := dependencies m @ [d]\<rparr>" K E] assms(1,3) h
    by (simp add: refcounts_def fun_upd_idem)
qed

lemma refcounts_bump:
  assumes "refcounts K E st" and "q \<in> set (DLIMP_loaded_objects st) - K" and "lmods st q = Some m"
    and "count_up (use_count m) = Inr n"
  shows "refcounts K (add_mset (lm_file_handle m) E) (set_lm q (m\<lparr>use_count := n\<rparr>) st)"
proof -
  have h: "handle_of st q = lm_file_handle m" "count_of st q + 1 = sint n" "deps_of st q = dependencies m"
    using assms(3) count_up_sint[OF assms(4)] by (simp_all add: handle_of_def count_of_def deps_of_def)
  have "counted K (add_mset (lm_file_handle m) E) (DLIMP_loaded_objects st) (handle_of st) ((count_of st)(q := sint n)) (deps_of st)"
    using counted_bump[of K E "DLIMP_loaded_objects st" "handle_of st" "count_of st" "deps_of st" q] assms(1,2) h(1,2)
    by (simp add: refcounts_def)
  then show ?thesis
    using refcounts_set_lm[of st q m "m\<lparr>use_count := n\<rparr>" K "add_mset (lm_file_handle m) E"] assms(1,3) h(3)
    by (simp add: refcounts_def fun_upd_idem)
qed

lemma set_lm_extends:
  assumes "lmods st p = Some m" and "lm_file_handle m' = lm_file_handle m" and "stack_ok st"
  shows "extends n st (set_lm p m' st)"
  using assms by (auto simp: extends_def handle_of_def set_lm_def stack_ok_def)

lemma append_dependency_ok:
  assumes "refcounts {} (add_mset d E) st" and "stack_ok st" and "p \<in> set (DLIMP_loaded_objects st)"
  shows "holdsR (\<lambda>st'. refcounts {} E st' \<and> extends n st st') (append_dependency p d st)"
  unfolding append_dependency_def
  using refcounts_append[OF assms(1), of p] set_lm_extends[OF _ _ assms(2)] assms(3) by (auto intro!: holdsR_deref)

lemma find_loaded_post:
  "holdsR (\<lambda>r. \<forall>q. r = Some q \<longrightarrow> q \<in> set (DLIMP_loaded_objects st)) (find_loaded_name st s)"
proof -
  let ?f = "\<lambda>q. bindR (deref (lmods st q)) (\<lambda>m.
     bindR (strcmp_eq (str_of (lm_name m)) s) (\<lambda>eq. Inr (if eq then Some q else None)))"
  have "holdsR (\<lambda>r. \<forall>q. r = Some q \<longrightarrow> q \<in> set qs) (first_match ?f qs)" for qs
  proof (induction qs)
    case (Cons q qs)
    have "holdsR (\<lambda>r. \<forall>q'. r = Some q' \<longrightarrow> q' \<in> set (q # qs)) (first_match ?f qs)"
      by (rule holdsR_mono[OF Cons.IH]) auto
    then show ?case
      by (auto intro!: holdsR_bind_any split: option.splits if_splits simp: bindR_eq_Inr)
  qed simp
  then show ?thesis unfolding find_loaded_name_def .
qed

definition dep_post :: "i32 multiset \<Rightarrow> 'c loader \<Rightarrow> 'a + 'c loader \<Rightarrow> bool" where
  "dep_post E st x \<longleftrightarrow> (\<forall>st'. x = Inr st' \<longrightarrow> next_obj st' < 2 ^ 32 \<longrightarrow>
     refcounts {} E st' \<and> extends (next_obj st) st st')"

lemma load_dependent_ok:
  assumes "load_ok load" and "refcounts {} E st" and "stack_ok st"
  shows "holdsR (load_post E st) (DLIF_load_dependent fs load name st)"
proof (cases "fs name")
  case None
  then show ?thesis by (simp add: DLIF_load_dependent_def load_post_def)
next
  case (Some bs)
  let ?st = "snd (fopen bs st)" and ?fp = "fst (fopen bs st)"
  have 1: "refcounts {} E ?st" "stack_ok ?st" "next_obj ?st = Suc (next_obj st)"
    using refcounts_next[OF assms(2), of "Suc (next_obj st)"] assms(3)
    by (auto simp: fopen_def stack_ok_def)
  have ex: "extends (next_obj st) st ?st" using 1(2) by (simp add: extends_def fopen_def handle_of_def)
  have "holdsR (load_post E ?st) (load (Some ?fp) ?st)" using assms(1) 1 by (simp add: load_ok_def)
  moreover have "holdsR (load_post E st) (bindR (DLIF_fclose ?fp (if r = 0 then report ms st1 else st1)) (\<lambda>st. Inr (r, st)))"
    if "load_post E ?st (r, st1)" for r st1 ms
  proof (rule holdsR_bindI[OF fclose_keeps])
    fix st2 assume "keeps (if r = 0 then report ms st1 else st1) st2"
    then have k: "r \<noteq> 0 \<Longrightarrow> keeps st1 st2" by simp
    show "holdsR (load_post E st) (Inr (r, st2))"
      using that k refcounts_keeps[OF k] keeps_next[OF k] extends_trans[OF ex, of "Suc (next_obj st)" st1]
        extends_trans[of "next_obj st" st st1 "next_obj st" st2] extends_keeps[OF k]
      by (auto simp: load_post_def 1(3)) (simp add: extends_def)
  qed
  moreover have "DLIF_load_dependent fs load name st = bindR (load (Some ?fp) ?st) (\<lambda>x.
      bindR (DLIF_fclose ?fp (if fst x = 0 then report [DLIF_error DLET_MISC ''Failed load of dependent file '%s'.''] (snd x)
        else snd x)) (\<lambda>st. Inr (fst x, st)))"
    unfolding DLIF_load_dependent_def Some
    by (cases "load (Some ?fp) ?st") (auto simp: Let_def case_prod_beta)
  ultimately show ?thesis
    by (simp only:) (rule holdsR_bindI, assumption, simp only: prod.collapse)
qed

lemma load_needed_ok:
  assumes "load_ok load" and "refcounts {} E st" and "stack_ok st" and "p \<in> set (DLIMP_loaded_objects st)"
  shows "holdsR (dep_post E st) (load_needed fs load dm p i d st)"
proof -
  have found: "holdsR (dep_post E st) (bindR (append_dependency p (lm_file_handle m) (set_lm q (m\<lparr>use_count := n\<rparr>) st)) (\<lambda>st. Inr (Inr st)))"
    if q: "q \<in> set (DLIMP_loaded_objects st)" "lmods st q = Some m" "count_up (use_count m) = Inr n" for q m n
  proof -
    let ?st = "set_lm q (m\<lparr>use_count := n\<rparr>) st"
    have s: "stack_ok ?st" "DLIMP_loaded_objects ?st = DLIMP_loaded_objects st"
      using assms(3) by (simp_all add: stack_ok_def set_lm_def)
    have e: "extends (next_obj st) st ?st" using set_lm_extends[OF q(2) _ assms(3)] by simp
    show ?thesis
      by (rule holdsR_bindI[OF append_dependency_ok[of "lm_file_handle m" E ?st p "next_obj st"]])
        (use refcounts_bump[OF assms(2) _ q(2,3)] q(1) s assms(4) extends_trans[OF e] in \<open>auto simp: dep_post_def\<close>)
  qed
  have fresh: "holdsR (dep_post E st) (bindR (append_dependency p r st1) (\<lambda>st. Inr (if r = 0 then Inl st else Inr st)))"
    if "load_post E st (r, st1)" "next_obj st \<le> next_obj st1" for r st1
  proof (cases "r \<noteq> 0 \<and> next_obj st1 < 2 ^ 32")
    case True
    then have 1: "refcounts {} (add_mset r E) st1" "extends (next_obj st) st st1" using that(1) by (auto simp: load_post_def)
    then have "stack_ok st1" "p \<in> set (DLIMP_loaded_objects st1)" using assms(4) by (auto simp: extends_def)
    with True 1 show ?thesis
      by (auto simp: dep_post_def intro!: holdsR_bindI[OF append_dependency_ok[of r E st1 p "next_obj st"]]
          intro: extends_trans)
  next
    case False
    then show ?thesis
      by (auto simp: dep_post_def intro!: holdsR_bindI[OF append_dependency_next])
  qed
  have ld: "holdsR (\<lambda>x. load_post E st x \<and> next_obj st \<le> next_obj (snd x)) (DLIF_load_dependent fs load name st)" for name
    using load_dependent_ok[OF assms(1-3), of fs name] load_dependent_grows[of load st fs name] assms(1)
    by (auto simp: holdsR_def load_ok_def)
  show ?thesis
    unfolding load_needed_def
    by (auto intro!: holdsR_splits holdsR_bindI[OF find_loaded_post] holdsR_bind_any[of "count_up _"] found fresh
        holdsR_bind_any[of "cstring_at _ _"] holdsR_bindI[OF ld] split: option.splits
        simp: dep_post_def[of E st "Inr st"] assms extends_refl)
qed

lemma needed_loop_ok:
  assumes "load_ok load" and "refcounts {} E st" and "stack_ok st" and "p \<in> set (DLIMP_loaded_objects st)"
  shows "holdsR (dep_post E st) (for_tags (load_needed fs load dm p) i ds st)"
  using assms(2-)
proof (induction ds arbitrary: i st)
  case (Cons d ds)
  have g: "load_grows load" using assms(1) by (simp add: load_ok_def)
  have "holdsR (dep_post E st) (case x of Inl a \<Rightarrow> Inr (Inl a) | Inr st1 \<Rightarrow> for_tags (load_needed fs load dm p) (Suc i) ds st1)"
    if x: "dep_post E st x \<and> both (\<lambda>st'. next_obj st \<le> next_obj st') x" for x
  proof (cases x)
    case (Inr st1)
    have grow: "holdsR (both (\<lambda>st'. next_obj st1 \<le> next_obj st')) (for_tags (load_needed fs load dm p) (Suc i) ds st1)"
      using for_tags_both[where r = "\<lambda>st st'. next_obj st \<le> next_obj st'", OF load_needed_grows[OF g]] by auto
    show ?thesis
    proof (cases "next_obj st1 < 2 ^ 32")
      case True
      then have 1: "refcounts {} E st1" "extends (next_obj st) st st1" "next_obj st \<le> next_obj st1" using x Inr by (auto simp: dep_post_def)
      then have "stack_ok st1" "p \<in> set (DLIMP_loaded_objects st1)" using Cons.prems(3) by (auto simp: extends_def)
      then have "holdsR (dep_post E st1) (for_tags (load_needed fs load dm p) (Suc i) ds st1)" using Cons.IH 1(1) by blast
      moreover have "extends (next_obj st) st st2" if "extends (next_obj st1) st1 st2" for st2
        using extends_trans[OF 1(2) that 1(3)] .
      ultimately show ?thesis using Inr by (auto simp: dep_post_def elim!: holdsR_mono)
    next
      case False
      then have "dep_post E st y" if "both (\<lambda>st'. next_obj st1 \<le> next_obj st') y" for y
        using that by (cases y) (auto simp: dep_post_def)
      with Inr show ?thesis using holdsR_mono[OF grow] by simp
    qed
  qed (simp add: dep_post_def)
  moreover have "holdsR (\<lambda>x. dep_post E st x \<and> both (\<lambda>st'. next_obj st \<le> next_obj st') x) (load_needed fs load dm p i d st)"
    using load_needed_ok[OF assms(1) Cons.prems, of fs dm i d] load_needed_grows[OF g, of st fs dm p i d] by (simp add: holdsR_def)
  ultimately have "holdsR (dep_post E st) (bindR (load_needed fs load dm p i d st) (\<lambda>x. case x of Inl a \<Rightarrow> Inr (Inl a)
      | Inr st1 \<Rightarrow> for_tags (load_needed fs load dm p) (Suc i) ds st1))"
    by (rule holdsR_bindI[rotated])
  moreover have "dep_post E st (Inr st :: 'a loader + 'a loader)" using Cons.prems by (simp add: dep_post_def extends_refl)
  ultimately show ?case by simp
qed simp

subsection \<open>Relocation and static executables\<close>

definition same_refs :: "'c loader \<Rightarrow> 'c loader \<Rightarrow> bool" where
  "same_refs st st' \<longleftrightarrow> (\<forall>K E. refcounts K E st' = refcounts K E st) \<and>
     DLIMP_loaded_objects st' = DLIMP_loaded_objects st \<and> handle_of st' = handle_of st \<and>
     next_obj st' = next_obj st"

lemma same_refs_refl: "same_refs st st"
  by (simp add: same_refs_def)

lemma same_refs_trans: "same_refs a b \<Longrightarrow> same_refs b c \<Longrightarrow> same_refs a c"
  by (simp add: same_refs_def)

lemma same_refs_keeps: "keeps st st' \<Longrightarrow> same_refs st st'"
  using refcounts_keeps[of st st'] by (auto simp: same_refs_def keeps_def handle_of_def)

lemma same_refs_set:
  assumes "lmods st p = Some m" and "same_ref m m'"
  shows "same_refs st ((set_lm p m' st)\<lparr>dmods := x, DLIMP_dependency_stack := s, DLIMP_module_dependency_list := l\<rparr>)"
  using assms refcounts_same_ref[OF assms] by (auto simp: same_refs_def handle_of_def set_lm_def same_ref_def)

lemma detached [simp]: "loaded_module (detach_loaded_module dm) = None"
  by (simp add: detach_loaded_module_def)

lemma relocate_module_refs:
  "holdsR (\<lambda>st'. same_refs st st' \<and> DLIMP_dependency_stack st' = DLIMP_dependency_stack st) (relocate_module D h f a st)"
proof -
  let ?P = "\<lambda>st'. same_refs st st' \<and> DLIMP_dependency_stack st' = DLIMP_dependency_stack st"
  have d: "holdsR ?P (delete_DLIMP_Dynamic_Module D (set_dm a (detach_loaded_module dm) (set_lm p m1 st1)) a)"
    if "keeps st st1" "lmods st p = Some m" "same_ref m m1" for st1 dm p m m1
  proof -
    let ?st = "set_dm a (detach_loaded_module dm) (set_lm p m1 st1)"
    have l: "lmods st1 p = Some m" using that by (simp add: keeps_def)
    have "delete_DLIMP_Dynamic_Module D ?st a = Inr (?st\<lparr>dmods := (dmods ?st)(a := None)\<rparr>)"
      by (rule delete_detached[of _ _ "detach_loaded_module dm"]) (simp_all add: set_dm_def)
    moreover have "same_refs st1 (?st\<lparr>dmods := (dmods ?st)(a := None)\<rparr>)"
      using same_refs_set[OF l that(3), where x = "(dmods ?st)(a := None)" and
          s = "DLIMP_dependency_stack st1" and l = "DLIMP_module_dependency_list st1"]
      by (simp add: set_dm_def set_lm_def)
    ultimately show ?thesis
      using same_refs_trans[OF same_refs_keeps[OF that(1)]] that(1) by (simp add: keeps_def set_dm_def set_lm_def)
  qed
  have c: "holdsR (\<lambda>st'. keeps st st') (if b then DLIF_fclose x st1 else Inr st1)" if "keeps st st1" for st1 x b
    using that by (auto intro: holdsR_mono[OF fclose_keeps] keeps_trans)
  have s: "holdsR (\<lambda>st'. keeps st st') (store_init_data dm st1)" if "keeps st st1" for st1 dm
    using that by (auto intro: holdsR_mono[OF store_data_keeps(2)] keeps_trans)
  have m: "same_ref m (m1\<lparr>lm_c_args := x, entry_point := y\<rparr>)" if "kept (dm, m) (dm1, m1)" for dm m dm1 m1 x y
    using that by (simp add: kept_def same_ref_def)
  show ?thesis
    unfolding relocate_module_def Let_def
    by (auto intro!: holdsR_splits holdsR_bindI[OF relocations_keep] holdsR_bind_any[of "local_symbol _ _"]
        holdsR_bindI[OF s] holdsR_bindI[OF c] d m)
qed

lemma relocate_stack_refs:
  "holdsR (\<lambda>st'. same_refs st st' \<and> DLIMP_dependency_stack st' = (if as = [] then DLIMP_dependency_stack st else []))
     (relocate_stack D h f as st)"
proof (induction as arbitrary: st)
  case Nil
  then show ?case by (simp add: same_refs_refl)
next
  case (Cons a as)
  have s: "same_refs st (st\<lparr>DLIMP_dependency_stack := as\<rparr>)" by (simp add: same_refs_def handle_of_def[abs_def])
  have "holdsR (\<lambda>st'. same_refs st st' \<and> DLIMP_dependency_stack st' = []) (relocate_stack D h f as st1)"
    if "same_refs (st\<lparr>DLIMP_dependency_stack := as\<rparr>) st1" "DLIMP_dependency_stack st1 = as" for st1
  proof (cases as)
    case Nil
    with that same_refs_trans[OF s] show ?thesis by simp
  next
    case (Cons b bs)
    with Cons.IH[of st1] show ?thesis
      using same_refs_trans[OF same_refs_trans[OF s that(1)]] by (auto elim!: holdsR_mono)
  qed
  then show ?case by (auto intro!: holdsR_bindI[OF relocate_module_refs])
qed

lemma relocate_graph_refs:
  "holdsR (\<lambda>(r, st'). same_refs st st' \<and>
     (\<forall>dm p. dmods st a = Some dm \<longrightarrow> loaded_module dm = Some p \<longrightarrow> r = handle_of st p) \<and>
     (if DLIMP_dependency_stack st \<noteq> [] \<and> last (DLIMP_dependency_stack st) \<noteq> a then st' = st
      else DLIMP_dependency_stack st' = [])) (relocate_dependency_graph_modules D h f a st)"
proof -
  have s: "holdsR (\<lambda>st'. same_refs st st' \<and> DLIMP_dependency_stack st' = []) (relocate_stack D h f (DLIMP_dependency_stack st1) st1)"
    if "keeps st st1" for st1
    by (rule holdsR_mono[OF relocate_stack_refs]) (auto intro: same_refs_trans[OF same_refs_keeps[OF that]])
  show ?thesis
    unfolding relocate_graph_unfold
    by (auto intro!: holdsR_splits holdsR_bindI[OF update_dsbts_keeps] holdsR_bindI[OF s] simp: same_refs_refl handle_of_def)
qed

lemma static_refs:
  assumes "dmods st a = Some dm" and "loaded_module dm = Some p" and "lmods st p = Some m"
  shows "holdsR (\<lambda>(r, st'). r \<noteq> 0 \<longrightarrow> r = lm_file_handle m \<and> same_refs st st' \<and>
     DLIMP_dependency_stack st' = DLIMP_dependency_stack st \<and> (\<forall>b. b \<noteq> a \<longrightarrow> dmods st' b = dmods st b))
     (dload_static_executable D st a)"
proof -
  let ?P = "\<lambda>(r, st'). r \<noteq> 0 \<longrightarrow> r = lm_file_handle m \<and> same_refs st st' \<and>
     DLIMP_dependency_stack st' = DLIMP_dependency_stack st \<and> (\<forall>b. b \<noteq> a \<longrightarrow> dmods st' b = dmods st b)"
  have "holdsR ?P (bindR (delete_DLIMP_Dynamic_Module D (set_dm a (detach_loaded_module dm) (set_lm p m1 st1)) a)
      (\<lambda>st. Inr (lm_file_handle m, st)))"
    if "keeps st st1" "same_ref m m1" for st1 m1
  proof -
    let ?st = "set_dm a (detach_loaded_module dm) (set_lm p m1 st1)"
    have l: "lmods st1 p = Some m" using that assms(3) by (simp add: keeps_def)
    have "delete_DLIMP_Dynamic_Module D ?st a = Inr (?st\<lparr>dmods := (dmods ?st)(a := None)\<rparr>)"
      by (rule delete_detached[of _ _ "detach_loaded_module dm"]) (simp_all add: set_dm_def)
    moreover have "same_refs st1 (?st\<lparr>dmods := (dmods ?st)(a := None)\<rparr>)"
      using same_refs_set[OF l that(2), where x = "(dmods ?st)(a := None)" and
          s = "DLIMP_dependency_stack st1" and l = "DLIMP_module_dependency_list st1"]
      by (simp add: set_dm_def set_lm_def)
    ultimately show ?thesis
      using same_refs_trans[OF same_refs_keeps[OF that(1)]] that(1) by (simp add: keeps_def set_dm_def set_lm_def)
  qed
  moreover have "holdsR ?P (bindR x (\<lambda>st. Inr (0, st)))" for x :: "'a loader result"
    by (auto intro!: holdsR_bind_any)
  moreover have "same_ref m (m\<lparr>entry_point := x, loaded_segments := y\<rparr>)" for x y by (simp add: same_ref_def)
  ultimately show ?thesis
    unfolding dload_static_executable_def Let_def
    by (auto simp: assms intro!: holdsR_bindI[OF load_static_segment_keeps] split: prod.splits)
qed

subsection \<open>Loading\<close>

text \<open>
  A load that has created the module \<open>p\<close> with the dynamic module \<open>a\<close>: everything older than \<open>a\<close> belongs
  to the outer loads.
\<close>

definition loading :: "i32 multiset \<Rightarrow> nat \<Rightarrow> nat \<Rightarrow> DLIMP_Dynamic_Module \<Rightarrow> DLIMP_Loaded_Module \<Rightarrow> 'c loader \<Rightarrow> bool" where
  "loading E a p dm m st \<longleftrightarrow> refcounts {} (add_mset (handle_of st p) E) st \<and> stack_ok st \<and>
     p \<in> set (DLIMP_loaded_objects st) \<and> lmods st p = Some m \<and> dmods st a = Some dm \<and> loaded_module dm = Some p \<and>
     a < next_obj st \<and> (\<forall>b \<in> set (DLIMP_dependency_stack st). b < a)"

lemma pushed_ok:
  assumes "loading E a p dm m st" and "kept (dm, m) (dm1, m1)" and "keeps (pushed a p dm1 m1 st) st1"
  shows "refcounts {} (add_mset (handle_of st p) E) st1" and "stack_ok st1" and "extends a st st1"
    and "DLIMP_dependency_stack st1 = a # DLIMP_dependency_stack st" and "handle_of st1 = handle_of st"
    and "DLIMP_loaded_objects st1 = DLIMP_loaded_objects st"
    and "\<exists>dm2. dmods st1 a = Some dm2 \<and> loaded_module dm2 = Some p" and "next_obj st1 = next_obj st"
proof -
  have l: "lmods st p = Some m" "same_ref m m1" "loaded_module dm1 = Some p"
    using assms(1,2) by (simp_all add: loading_def kept_def)
  have p: "pushed a p dm1 m1 st = (set_lm p m1 st)\<lparr>dmods := (dmods st)(a \<mapsto> dm1),
      DLIMP_dependency_stack := a # DLIMP_dependency_stack st,
      DLIMP_module_dependency_list := DLIMP_module_dependency_list st @ [a]\<rparr>"
    by (simp add: pushed_def set_dm_def set_lm_def)
  have sr: "same_refs st st1"
    using same_refs_set[OF l(1,2)] same_refs_keeps[OF assms(3)] unfolding p by (rule same_refs_trans)
  then show rc: "refcounts {} (add_mset (handle_of st p) E) st1" and q: "DLIMP_loaded_objects st1 = DLIMP_loaded_objects st"
    and hd: "handle_of st1 = handle_of st" and nx: "next_obj st1 = next_obj st"
    using assms(1) by (simp_all add: same_refs_def loading_def)
  show stk: "DLIMP_dependency_stack st1 = a # DLIMP_dependency_stack st"
    using assms(3) by (simp add: keeps_def pushed_def)
  then show so: "stack_ok st1" using assms(1) nx by (auto simp: stack_ok_def loading_def)
  have dm: "dmods st1 = (dmods st)(a \<mapsto> dm1)" using assms(3) by (simp add: keeps_def pushed_def set_dm_def set_lm_def)
  then show "\<exists>dm2. dmods st1 a = Some dm2 \<and> loaded_module dm2 = Some p" using l(3) by simp
  show "extends a st st1" using so stk dm q hd by (simp add: extends_def)
qed

text \<open>The post state of a load, relative to the state in which its module was created.\<close>

definition loaded_post :: "i32 multiset \<Rightarrow> nat \<Rightarrow> nat \<Rightarrow> 'c loader \<Rightarrow> i32 \<times> 'c loader \<Rightarrow> bool" where
  "loaded_post E a p st = (\<lambda>(r, st'). r \<noteq> 0 \<longrightarrow> next_obj st' < 2 ^ 32 \<longrightarrow>
     r = handle_of st p \<and> refcounts {} (add_mset r E) st' \<and> extends a st st')"

lemma loaded_post_zero [simp]: "loaded_post E a p st (0, st')"
  by (simp add: loaded_post_def)

lemma relocated_ok:
  assumes "loading E a p dm m st" and "refcounts {} (add_mset (handle_of st p) E) st2" and "extends a st st2"
    and "handle_of st2 p = handle_of st p" and "\<exists>dm2. dmods st2 a = Some dm2 \<and> loaded_module dm2 = Some p"
    and "DLIMP_dependency_stack st2 \<noteq> []" and "last (DLIMP_dependency_stack st2) = last (a # DLIMP_dependency_stack st)"
  shows "holdsR (loaded_post E a p st) (bindR (relocate_dependency_graph_modules D h f a (st2\<lparr>DLIMP_module_dependency_list := l\<rparr>))
     (\<lambda>(fl, st). bindR (execute_module_initialization D h st) (\<lambda>st. Inr (fl, st))))"
proof -
  let ?st = "st2\<lparr>DLIMP_module_dependency_list := l\<rparr>"
  have so: "stack_ok st2" using assms(3) by (simp add: extends_def)
  have ext: "extends a st st4"
    if "same_refs ?st st3" "keeps st3 st4"
      "if DLIMP_dependency_stack st2 \<noteq> [] \<and> last (DLIMP_dependency_stack st2) \<noteq> a then st3 = ?st else DLIMP_dependency_stack st3 = []" for st3 st4
  proof (cases "last (DLIMP_dependency_stack st2) = a")
    case True
    then have e: "DLIMP_dependency_stack st = []"
      using assms(1,7) by (cases "DLIMP_dependency_stack st = []") (auto simp: loading_def dest: last_in_set)
    have "DLIMP_dependency_stack st4 = []" using that True by (simp add: keeps_def)
    moreover have "handle_of st4 = handle_of st2" "DLIMP_loaded_objects st4 = DLIMP_loaded_objects st2"
      using that by (auto simp: same_refs_def keeps_def handle_of_def[abs_def])
    ultimately show ?thesis using e assms(3) by (simp add: extends_def stack_ok_def)
  next
    case False
    then have "st3 = ?st" using that(3) assms(6) by simp
    then have "DLIMP_dependency_stack st4 = DLIMP_dependency_stack st2" "dmods st4 = dmods st2" "next_obj st4 = next_obj st2"
      "handle_of st4 = handle_of st2" "DLIMP_loaded_objects st4 = DLIMP_loaded_objects st2"
      using that(2) by (simp_all add: keeps_def handle_of_def[abs_def])
    then show ?thesis using assms(3) so by (simp add: extends_def stack_ok_def)
  qed
  have rc: "refcounts {} (add_mset (handle_of st p) E) st4" if "same_refs ?st st3" "keeps st3 st4" for st3 st4
    using that refcounts_keeps[OF that(2)] assms(2) by (simp add: same_refs_def)
  have hp: "handle_of ?st p = handle_of st p" using assms(4) by (simp add: handle_of_def)
  obtain dm2 where "dmods st2 a = Some dm2" "loaded_module dm2 = Some p" using assms(5) by blast
  then show ?thesis
    by (auto intro!: holdsR_bindI[OF relocate_graph_refs] holdsR_bindI[OF initialization_keeps] intro: rc ext
        simp: hp loaded_post_def split del: if_split)
qed

lemma dependencies_ok:
  assumes "load_ok load" and "refcounts {} E st" and "stack_ok st" and "p \<in> set (DLIMP_loaded_objects st)"
    and "\<exists>dm. dmods st a = Some dm \<and> loaded_module dm = Some p"
  shows "holdsR (\<lambda>(ok, st'). ok \<longrightarrow> next_obj st' < 2 ^ 32 \<longrightarrow> refcounts {} E st' \<and> extends (next_obj st) st st')
     (dload_and_allocate_dependencies fs load a st)"
proof -
  obtain dm where dm: "dmods st a = Some dm" "loaded_module dm = Some p" using assms(5) by blast
  show ?thesis
    unfolding dload_and_allocate_dependencies_def
    by (auto simp: dm dep_post_def intro!: holdsR_splits holdsR_bindI[OF needed_loop_ok[OF assms(1-4)]] split: sum.splits)
qed

lemma load_dynamic_ok:
  assumes "load_ok load" and "loading E a p dm m st"
  shows "holdsR (loaded_post E a p st) (load_dynamic_module fs D h load f a p dm m st)"
proof -
  let ?P = "loaded_post E a p st"
  have g: "load_grows load" using assms(1) by (simp add: load_ok_def)
  let ?tail = "\<lambda>st2. bindR (relocate_dependency_graph_modules D h f a
        (st2\<lparr>DLIMP_module_dependency_list := butlast (DLIMP_module_dependency_list st2)\<rparr>)) (\<lambda>(fl, st).
        bindR (execute_module_initialization D h st) (\<lambda>st. Inr (fl, st)))"
  have big: "holdsR ?P (?tail st2)" if "\<not> next_obj st2 < 2 ^ 32" for st2
    using that by (auto intro!: holdsR_bindI[OF relocate_graph_next] holdsR_bindI[OF initialization_keeps]
        simp: keeps_next loaded_post_def)
  have rest: "holdsR ?P (bindR (dload_and_allocate_dependencies fs load a st1) (\<lambda>(ok, st).
     if \<not> ok then bindR (delete_DLIMP_Dynamic_Module D st a) (\<lambda>st. Inr (0, st)) else ?tail st))"
    if k: "kept (dm, m) (dm1, m1)" "keeps (pushed a p dm1 m1 st) st1" for dm1 m1 st1
  proof -
    note po = pushed_ok[OF assms(2) k]
    have p: "p \<in> set (DLIMP_loaded_objects st1)" "a < next_obj st1" using assms(2) po by (simp_all add: loading_def)
    have "holdsR ?P (?tail st2)" if "refcounts {} (add_mset (handle_of st p) E) st2" "extends (next_obj st1) st1 st2" for st2
    proof (rule relocated_ok[OF assms(2) that(1)])
      show "extends a st st2" using extends_trans[OF po(3) that(2)] p by simp
      show "handle_of st2 p = handle_of st p" using that(2) p po by (simp add: extends_def)
      show "\<exists>dm2. dmods st2 a = Some dm2 \<and> loaded_module dm2 = Some p" using that(2) po(4,7) p by (simp add: extends_def)
      show "DLIMP_dependency_stack st2 \<noteq> []" "last (DLIMP_dependency_stack st2) = last (a # DLIMP_dependency_stack st)"
        using that(2) po(4) by (simp_all add: extends_def)
    qed
    with big have "holdsR ?P (?tail st2)" if "next_obj st2 < 2 ^ 32 \<longrightarrow> refcounts {} (add_mset (handle_of st p) E) st2 \<and> extends (next_obj st1) st1 st2" for st2
      using that by blast
    moreover have "holdsR ?P (bindR x (\<lambda>st. Inr (0, st)))" for x :: "'a loader result"
      by (auto simp: loaded_post_def intro!: holdsR_bind_any)
    ultimately show ?thesis
      using dependencies_ok[OF assms(1) po(1,2) p(1) po(7), of fs]
      by (elim holdsR_bindI) (auto split: prod.splits)
  qed
  show ?thesis
    unfolding load_dynamic_module_def
    by (rule holdsR_bindI[OF place_module_post]) (auto intro!: rest)
qed

text \<open>Creating the module: it has one reference, that of the caller.\<close>

lemma counted_extend:
  assumes "counted {} E Q H C Ds" and "p \<notin> set Q" and "h \<notin> H ` set Q"
  shows "counted {} (add_mset h E) (Q @ [p]) (H(p := h)) (C(p := 1)) (Ds(p := []))"
proof -
  have "counted {} E Q (H(p := h)) (C(p := 1)) (Ds(p := [])) = counted {} E Q H C Ds"
    using assms(2) by (intro counted_cong) auto
  moreover have "(H(p := h)) p \<notin> (H(p := h)) ` set Q" using assms(2,3) by auto
  ultimately show ?thesis
    using counted_new[of "{}" E Q "H(p := h)" "C(p := 1)" "Ds(p := [])" p] assms(1,2) by simp
qed

definition with_module :: "DLIMP_Loaded_Module \<Rightarrow> 'c loader \<Rightarrow> 'c loader" where
  "with_module m st = set_lm (next_obj st) m (st\<lparr>next_obj := Suc (next_obj st), file_handle := file_handle st + 1,
     DLIMP_loaded_objects := DLIMP_loaded_objects st @ [next_obj st]\<rparr>)"

lemma with_module_simps:
  "lmods (with_module m st) = (lmods st)(next_obj st \<mapsto> m)" "dmods (with_module m st) = dmods st"
  "next_obj (with_module m st) = Suc (next_obj st)" "file_handle (with_module m st) = file_handle st + 1"
  "DLIMP_loaded_objects (with_module m st) = DLIMP_loaded_objects st @ [next_obj st]"
  "DLIMP_dependency_stack (with_module m st) = DLIMP_dependency_stack st"
  "handle_of (with_module m st) = (handle_of st)(next_obj st := lm_file_handle m)"
  "count_of (with_module m st) = (count_of st)(next_obj st := sint (use_count m))"
  "deps_of (with_module m st) = (deps_of st)(next_obj st := dependencies m)"
  by (auto simp: with_module_def set_lm_def handle_of_def count_of_def deps_of_def)

lemma refcounts_new:
  assumes "refcounts {} E st" and "lm_file_handle m = file_handle st" and "use_count m = 1" and "dependencies m = []"
    and "unat (file_handle st) + 1 < 2 ^ 32"
  shows "refcounts {} (add_mset (file_handle st) E) (with_module m st)"
proof -
  let ?p = "next_obj st" and ?Q = "DLIMP_loaded_objects st"
  have r: "counted {} E ?Q (handle_of st) (count_of st) (deps_of st)" "set ?Q \<subseteq> dom (lmods st)"
    "dom (lmods st) \<subseteq> {..<?p}" "\<And>q. q \<in> set ?Q \<Longrightarrow> handle_of st q < file_handle st" "unat (file_handle st) \<le> ?p"
    using assms(1) by (simp_all add: refcounts_def)
  have fresh: "?p \<notin> set ?Q" using r(2,3) by auto
  have "file_handle st \<notin> handle_of st ` set ?Q" using r(4) by (metis imageE order_less_irrefl)
  then have c: "counted {} (add_mset (file_handle st) E) (?Q @ [?p]) ((handle_of st)(?p := file_handle st))
      ((count_of st)(?p := 1)) ((deps_of st)(?p := []))" by (rule counted_extend[OF r(1) fresh])
  have inc: "unat (file_handle st + 1) = unat (file_handle st) + 1" using assms(5) by (simp add: unat_word_ariths)
  have "file_handle st < file_handle st + 1" unfolding word_less_nat_alt inc by simp
  then have "((handle_of st)(?p := file_handle st)) q < file_handle st + 1" if "q \<in> set (?Q @ [?p])" for q
    using that r(4)[of q] by (cases "q = ?p") auto
  moreover have "set (?Q @ [?p]) \<subseteq> dom ((lmods st)(?p \<mapsto> m))" "dom ((lmods st)(?p \<mapsto> m)) \<subseteq> {..<Suc ?p}"
    using r(2,3) by (auto simp: less_Suc_eq)
  moreover have "unat (file_handle st + 1) \<le> Suc ?p" using r(5) inc by simp
  ultimately show ?thesis
    unfolding refcounts_def with_module_simps assms(2-4) using c by (simp del: set_append)
qed

lemma add_loaded_post:
  "holdsR (\<lambda>(p, dm', m, st'). p = next_obj st \<and> lm_file_handle m = file_handle st \<and> use_count m = 1 \<and>
     dependencies m = [] \<and> loaded_module dm' = Some p \<and> keeps (set_dm a dm' (with_module m st)) st')
     (add_loaded_module a dm st)"
  unfolding add_loaded_module_def
  by (rule holdsR_bindI[OF initialize_post]) (auto simp: Let_def keeps_def with_module_def set_dm_def set_lm_def)

lemma loaded_bound: "refcounts K E st \<Longrightarrow> q \<in> set (DLIMP_loaded_objects st) \<Longrightarrow> q < next_obj st"
  unfolding refcounts_def by blast

text \<open>The new module is being loaded; the outer loads and the older modules are as they were.\<close>

lemma loading_new:
  assumes "refcounts {} E st" and "stack_ok st" and "unat (file_handle st) + 1 < 2 ^ 32"
    and "lm_file_handle m = file_handle st" and "use_count m = 1" and "dependencies m = []"
    and "a = next_obj st" and "loaded_module dm = Some (Suc a)"
    and "keeps (set_dm a dm (with_module m (st\<lparr>next_obj := Suc a\<rparr>))) st1"
  shows "loading E a (Suc a) dm m st1" and "extends a st st1"
proof -
  let ?s = "st\<lparr>next_obj := Suc a\<rparr>"
  have n: "refcounts {} E ?s" using refcounts_next[OF assms(1)] assms(7) by simp
  have r: "refcounts {} (add_mset (file_handle st) E) st1"
    using refcounts_new[OF n, of m] assms(3-6) refcounts_keeps[OF assms(9)] by simp
  have k: "lmods st1 = (lmods st)(Suc a \<mapsto> m)" "dmods st1 = (dmods st)(a \<mapsto> dm)" "next_obj st1 = Suc (Suc a)"
    "DLIMP_loaded_objects st1 = DLIMP_loaded_objects st @ [Suc a]" "DLIMP_dependency_stack st1 = DLIMP_dependency_stack st"
    using assms(9) by (simp_all add: keeps_def with_module_simps set_dm_def)
  have so: "\<forall>b \<in> set (DLIMP_dependency_stack st). b < a" using assms(2,7) by (simp add: stack_ok_def)
  then have "stack_ok st1" using k by (auto simp: stack_ok_def)
  moreover have "handle_of st1 (Suc a) = file_handle st" using k(1) assms(4) by (simp add: handle_of_def)
  ultimately show "loading E a (Suc a) dm m st1" using r k so assms(8) by (simp add: loading_def)
  have "Suc a \<notin> set (DLIMP_loaded_objects st)" using loaded_bound[OF assms(1), of "Suc a"] assms(7) by auto
  then have "handle_of st1 q = handle_of st q" if "q \<in> set (DLIMP_loaded_objects st)" for q
    using that k(1) by (auto simp: handle_of_def)
  with \<open>stack_ok st1\<close> k show "extends a st st1" by (auto simp: extends_def)
qed

lemma keeps_with_module: "keeps s t \<Longrightarrow> keeps (set_dm a dm (with_module m s)) (set_dm a dm (with_module m t))"
  by (simp add: keeps_def with_module_simps set_dm_def) (simp add: with_module_def set_lm_def)

lemma load_post_vacuous: "2 ^ 32 \<le> next_obj st' \<Longrightarrow> load_post E st (r, st')"
  by (simp add: load_post_def)

lemma load_new_ok:
  assumes "load_ok load" and "refcounts {} E st" and "stack_ok st" and "lm_file_handle m = file_handle st"
    and "use_count m = 1" and "dependencies m = []" and "loaded_module dm = Some (Suc (next_obj st))"
    and "keeps (set_dm (next_obj st) dm (with_module m (st\<lparr>next_obj := Suc (next_obj st)\<rparr>))) st1"
  shows "holdsR (load_post E st) (dload_static_executable D st1 (next_obj st)) \<and>
     holdsR (load_post E st) (load_dynamic_module fs D h load f (next_obj st) (Suc (next_obj st)) dm m st1)"
proof (cases "unat (file_handle st) + 1 < 2 ^ 32")
  case False
  moreover have "unat (file_handle st) \<le> next_obj st" using assms(2) by (simp add: refcounts_def)
  ultimately have big: "2 ^ 32 \<le> next_obj st1" using keeps_next[OF assms(8)] by (simp add: with_module_simps)
  have g: "load_grows load" using assms(1) by (simp add: load_ok_def)
  have "holdsR (load_post E st) (dload_static_executable D st1 (next_obj st))"
    using big by (intro holdsR_mono[OF static_next]) (auto intro!: load_post_vacuous)
  moreover have "holdsR (load_post E st) (load_dynamic_module fs D h load f (next_obj st) (Suc (next_obj st)) dm m st1)"
    using big by (intro holdsR_mono[OF load_dynamic_grows[OF g]]) (auto intro!: load_post_vacuous)
  ultimately show ?thesis by simp
next
  case True
  let ?a = "next_obj st"
  note new = loading_new[OF assms(2,3) True assms(4-6) refl assms(7,8)]
  have fin: "load_post E st (x, st')" if "loaded_post E ?a (Suc ?a) st1 (x, st')" for x st'
    using that extends_trans[OF new(2), of ?a st'] by (auto simp: load_post_def loaded_post_def)
  have l: "dmods st1 ?a = Some dm" "lmods st1 (Suc ?a) = Some m" "handle_of st1 (Suc ?a) = lm_file_handle m"
    "refcounts {} (add_mset (handle_of st1 (Suc ?a)) E) st1" "stack_ok st1" using new(1) by (auto simp: loading_def handle_of_def)
  have "holdsR (load_post E st) (dload_static_executable D st1 ?a)"
  proof (rule holdsR_mono[OF static_refs[OF l(1) assms(7) l(2)]])
    fix x assume x: "case x of (r, st') \<Rightarrow> r \<noteq> 0 \<longrightarrow> r = lm_file_handle m \<and> same_refs st1 st' \<and>
       DLIMP_dependency_stack st' = DLIMP_dependency_stack st1 \<and> (\<forall>b. b \<noteq> ?a \<longrightarrow> dmods st' b = dmods st1 b)"
    obtain r st' where "x = (r, st')" by (cases x)
    with x l show "load_post E st x"
      by (auto intro!: fin simp: loaded_post_def same_refs_def extends_def stack_ok_def)
  qed
  moreover have "holdsR (load_post E st) (load_dynamic_module fs D h load f ?a (Suc ?a) dm m st1)"
    using fin by (intro holdsR_mono[OF load_dynamic_ok[OF assms(1) new(1)]]) auto
  ultimately show ?thesis by simp
qed

lemma load_file_ok:
  assumes "load_ok load"
  shows "load_ok (load_file fs D h load)"
proof -
  have "holdsR (load_post E st) (load_file fs D h load fo st)"
    if r: "refcounts {} E st" and so: "stack_ok st" for fo E and st :: "'a loader"
  proof (cases fo)
    case (Some f)
    let ?a = "next_obj st" and ?s = "st\<lparr>next_obj := Suc (next_obj st)\<rparr>"
    have "holdsR (load_post E st) (bindR (add_loaded_module ?a dm st1) (\<lambda>(p, dm, m, st).
        if \<not> relocatable dm then dload_static_executable D st ?a else load_dynamic_module fs D h load f ?a p dm m st))"
      if k: "keeps ?s st1" for dm st1
    proof -
      have f: "file_handle st1 = file_handle st" "next_obj st1 = Suc ?a" using k by (simp_all add: keeps_def)
      have k2: "keeps (set_dm ?a dm' (with_module m ?s)) st2" if "keeps (set_dm ?a dm' (with_module m st1)) st2" for dm' m st2
        using keeps_trans[OF keeps_with_module[OF k] that] .
      note new = load_new_ok[OF assms r so _ _ _ _ k2]
      show ?thesis
        using f by (auto intro!: holdsR_bindI[OF add_loaded_post] simp: new[THEN conjunct1] new[THEN conjunct2])
    qed
    with Some show ?thesis
      unfolding load_file_def by (auto simp: Let_def load_post_def intro!: holdsR_bindI[OF read_module_keeps] split: option.splits)
  qed (simp add: load_file_def load_post_def)
  then show ?thesis using load_file_grows assms unfolding load_ok_def by blast
qed

lemma DLOAD_load_ok: "load_ok (DLOAD_load fs D h fuel)"
proof (induction fuel)
  case 0
  then show ?case by (simp add: load_ok_def load_grows_def)
next
  case (Suc fuel)
  have "DLOAD_load fs D h (Suc fuel) = load_file fs D h (DLOAD_load fs D h fuel)" by (intro ext) simp
  with load_file_ok[OF Suc, of fs D h] show ?case by (simp only:)
qed

subsection \<open>Properties\<close>

text \<open>C2: a load that succeeds gives the caller one reference to the module with
  the handle it returns: the use count of every loaded module is again the number of references that
  the clients and the loaded modules hold to it, the modules loaded before are still loaded under
  their handles, and a load nested in another leaves the modules being loaded further out alone.\<close>

theorem load_counts_reference:
  assumes "refcounts {} E st" and "stack_ok st" and "DLOAD_load fs D h fuel f st = Inr (r, st')" and "r \<noteq> 0"
    and "next_obj st' < 2 ^ 32"
  shows "refcounts {} (add_mset r E) st' \<and> r \<in> handle_of st' ` set (DLIMP_loaded_objects st') \<and> extends (next_obj st) st st'"
proof -
  have "holdsR (load_post E st) (DLOAD_load fs D h fuel f st)"
    using DLOAD_load_ok[of fs D h fuel] assms(1,2) unfolding load_ok_def by blast
  with assms(3-5) have "refcounts {} (add_mset r E) st' \<and> extends (next_obj st) st st'" by (simp add: load_post_def)
  moreover from this have "r \<in># owed {} (add_mset r E) (DLIMP_loaded_objects st') (deps_of st')" by (simp add: owed_def)
  ultimately show ?thesis by (auto simp: refcounts_def counted_def)
qed

text \<open>A static executable with one segment of 4 bytes in the file and 8 in memory, and a loader that has
  loaded nothing.\<close>

definition example_elf :: "u8 list" where
  "example_elf = [0x7F, 0x45, 0x4C, 0x46, 1, 1, 1, 0, 0, 0, 0, 0, 0, 0, 0, 0,
     2, 0, 140, 0, 1, 0, 0, 0, 0, 0, 0, 0, 52, 0, 0, 0, 0, 0, 0, 0, 0, 0, 0, 0, 52, 0, 32, 0, 1, 0, 0, 0, 0, 0, 0, 0,
     1, 0, 0, 0, 84, 0, 0, 0, 0, 0, 0, 0, 0, 0, 0, 0, 4, 0, 0, 0, 8, 0, 0, 0, 5, 0, 0, 0, 4, 0, 0, 0,
     0xDE, 0xAD, 0xBE, 0xEF, 0]"

definition fresh_loader :: "'c \<Rightarrow> 'c loader" where
  "fresh_loader c = DLOAD_create c \<lparr>lmods = Map.empty, dmods = Map.empty, next_obj = 1, files = Map.empty,
     DLIMP_module_dependency_list = [], DLIMP_loaded_objects = [], DLIMP_dependency_stack = [], file_handle = 1,
     client = c, TI_init_table = [], DLIMP_application_handle = 0, cur_target = None, log = []\<rparr>"

lemma fresh_loader_counts: "refcounts {} {#} (snd (fopen bs (fresh_loader c)))" "stack_ok (snd (fopen bs (fresh_loader c)))"
  by (simp_all add: refcounts_def counted_def owed_def fresh_loader_def DLOAD_create_def fopen_def stack_ok_def)

lemma example_load:
  "case DLOAD_load (\<lambda>_. None) example_client LSB 1 (Some 1) (snd (fopen example_elf (fresh_loader ()))) of
     Inl _ \<Rightarrow> False | Inr (r, st) \<Rightarrow> r = 1 \<and> next_obj st = 4"
  by code_simp

theorem load_counts_reference_witness:
  "\<exists>st'. DLOAD_load (\<lambda>_. None) example_client LSB 1 (Some 1) (snd (fopen example_elf (fresh_loader ()))) = Inr (1, st') \<and>
     refcounts {} {#1#} st'"
proof -
  obtain st' where "DLOAD_load (\<lambda>_. None) example_client LSB 1 (Some 1) (snd (fopen example_elf (fresh_loader ()))) = Inr (1, st')"
    "next_obj st' = 4" using example_load by (auto split: sum.splits)
  with load_counts_reference[OF fresh_loader_counts this(1)] show ?thesis by simp
qed

end
