(* ===== verification/DLoad_Unload.thy ===== *)
theory DLoad_Unload
  imports DLoad_Refcount
begin

text \<open>
  Unloading comes to an end: with as much fuel as there are loaded modules it never diverges, and for
  a client whose calls return it returns. Loading and unloading change nothing of a module that
  stays but its use count.
\<close>

subsection \<open>Ways to fail\<close>

text \<open>A call that does not return fails in one of the ways \<open>S\<close>.\<close>

definition fails_only :: "abort set \<Rightarrow> 'a result \<Rightarrow> bool" where
  "fails_only S m \<longleftrightarrow> (\<forall>e. m = Inl e \<longrightarrow> e \<in> S)"

lemma fails_only_simps [simp]: "fails_only S (Inr x)" "fails_only S (Inl e) \<longleftrightarrow> e \<in> S" "fails_only S (deref (Some x))"
  by (auto simp: fails_only_def)

lemma fails_only_bind: "fails_only S m \<Longrightarrow> (\<And>x. m = Inr x \<Longrightarrow> fails_only S (f x)) \<Longrightarrow> fails_only S (bindR m f)"
  by (cases m) (auto simp: fails_only_def)

lemma fails_only_foldR: "(\<And>x s. fails_only S (f x s)) \<Longrightarrow> fails_only S (foldR f xs s)"
  by (induction xs arbitrary: s) (auto intro: fails_only_bind)

text \<open>What an unload of the module \<open>m\<close> does itself fails in one of the ways \<open>S\<close> only.\<close>

definition quiet :: "abort set \<Rightarrow> 'c DLIF \<Rightarrow> endian \<Rightarrow> DLIMP_Loaded_Module \<Rightarrow> bool" where
  "quiet S D h m \<longleftrightarrow> (\<forall>st. fails_only S (execute_module_termination D h m st)) \<and>
     (\<forall>st. fails_only S (release_segments D (loaded_segments m) st)) \<and> fails_only S (free_name (lm_name m))"

lemma quiet_count [simp]: "quiet S D h (m\<lparr>use_count := n\<rparr>) = quiet S D h m"
  by (simp add: quiet_def execute_module_termination_def)

subsection \<open>Modules only lose references\<close>

definition fewer :: "'c loader \<Rightarrow> 'c loader \<Rightarrow> bool" where
  "fewer st st' \<longleftrightarrow> (\<forall>q m'. lmods st' q = Some m' \<longrightarrow> (\<exists>m. lmods st q = Some m \<and> m' = m\<lparr>use_count := use_count m'\<rparr>))"

lemma fewer_refl: "lmods st' = lmods st \<Longrightarrow> fewer st st'"
  by (auto simp: fewer_def intro: exI)

lemma fewer_trans:
  assumes "fewer a b" and "fewer b c"
  shows "fewer a c"
  unfolding fewer_def
proof (intro allI impI)
  fix q m' assume "lmods c q = Some m'"
  then obtain m where m: "lmods b q = Some m" "m' = m\<lparr>use_count := use_count m'\<rparr>" using assms(2) by (auto simp: fewer_def)
  then obtain m0 where "lmods a q = Some m0" "m = m0\<lparr>use_count := use_count m\<rparr>" using assms(1) by (auto simp: fewer_def)
  then show "\<exists>m. lmods a q = Some m \<and> m' = m\<lparr>use_count := use_count m'\<rparr>"
    using m(2) by (metis DLIMP_Loaded_Module.update_convs(3) DLIMP_Loaded_Module.surjective)
qed

lemma fewer_set: "lmods st p = Some m \<Longrightarrow> fewer st (set_lm p (m\<lparr>use_count := n\<rparr>) st)"
  by (auto simp: fewer_def set_lm_def)

lemma fewer_quiet:
  assumes "fewer st st'" and "\<forall>m \<in> ran (lmods st). quiet S D h m"
  shows "\<forall>m \<in> ran (lmods st'). quiet S D h m"
proof
  fix m' assume "m' \<in> ran (lmods st')"
  then obtain q where "lmods st' q = Some m'" by (auto simp: ran_def)
  then obtain m where "lmods st q = Some m" and m': "m' = m\<lparr>use_count := use_count m'\<rparr>"
    using assms(1) unfolding fewer_def by blast
  with assms(2) have "quiet S D h m" by (auto simp: ran_def)
  then have "quiet S D h (m\<lparr>use_count := use_count m'\<rparr>)" by simp
  with m' show "quiet S D h m'" by metis
qed

abbreviation fewer1 where "fewer1 st \<equiv> holdsR (fewer st)"

lemma keeps_fewer: "keeps st st' \<Longrightarrow> fewer st st'"
  by (simp add: keeps_def fewer_refl)

lemma remove_fewer: "fewer1 st (remove_loaded_module D p st)"
proof -
  have "fewer1 st (delete_DLIMP_Loaded_Module D (st\<lparr>DLIMP_loaded_objects := Q\<rparr>) p)" for Q
    by (rule holdsR_mono[OF delete_loaded_keeps]) (auto simp: keeps_def fewer_def intro: exI split: if_splits)
  then show ?thesis by (auto simp: remove_loaded_module_def unlink_loaded_module_def)
qed

definition unload_fewer :: "'c unload_fun \<Rightarrow> bool" where
  "unload_fewer u \<longleftrightarrow> (\<forall>fh st. holdsR (\<lambda>(b, st'). fewer st st') (u fh st))"

lemma unload_dependents_fewer: "unload_fewer u \<Longrightarrow> fewer1 st (unload_dependents u p ds st)"
proof (induction ds arbitrary: st)
  case (Cons d ds)
  have "fewer1 st (unload_dependents u p ds st1)" if "fewer st st1" for st1
    using Cons.IH[OF Cons.prems] by (rule holdsR_mono) (rule fewer_trans[OF that])
  moreover have "fewer1 st (DLIF_unload_dependent u d st)"
    using Cons.prems unfolding DLIF_unload_dependent_def unload_fewer_def
    by (intro holdsR_bindI[of "\<lambda>(b, st'). fewer st st'" "u d st"]) auto
  ultimately show ?case by (auto intro!: holdsR_bindI[of "fewer st" "DLIF_unload_dependent u d st"] holdsR_deref)
qed (simp add: fewer_refl)

lemma unload_module_fewer:
  assumes "unload_fewer u"
  shows "fewer1 st (unload_module D h u p st)"
proof -
  have d: "fewer1 st (unload_dependents u p ds st1)" if "fewer st st1" for st1 ds
    using unload_dependents_fewer[OF assms] by (rule holdsR_mono) (rule fewer_trans[OF that])
  have r: "fewer1 st (remove_loaded_module D p st1)" if "fewer st st1" for st1
    using remove_fewer by (rule holdsR_mono) (rule fewer_trans[OF that])
  have c: "fewer st x \<Longrightarrow> fewer st (x\<lparr>cur_target := None\<rparr>)" for x by (simp add: fewer_def)
  show ?thesis
    unfolding unload_module_def
    by (intro holdsR_deref holdsR_bindI[OF termination_keeps] holdsR_bindI[OF d] holdsR_bindI[OF r]) (auto simp: keeps_fewer c)
qed

lemma unload_scan_fewer: "unload_fewer u \<Longrightarrow> holdsR (\<lambda>(b, st'). fewer st st') (unload_scan D h u fh ps st)"
proof (induction ps arbitrary: st)
  case (Cons p ps)
  have "holdsR (\<lambda>(b, st'). fewer st st') (unload_scan D h u fh ps st1)" if "fewer st st1" for st1
    using Cons.IH[OF Cons.prems] by (rule holdsR_mono) (use fewer_trans[OF that] in auto)
  moreover have "fewer1 st (unload_module D h u p st1)" if "fewer st st1" for st1
    using unload_module_fewer[OF Cons.prems] by (rule holdsR_mono) (rule fewer_trans[OF that])
  ultimately show ?case
    by (auto simp: Let_def fewer_set fewer_refl intro!: holdsR_deref holdsR_bind_any[of "count_down _"]
        holdsR_bindI[of "fewer st" "unload_module D h u p _"])
qed (simp add: fewer_refl)

lemma DLOAD_unload_fewer: "unload_fewer (DLOAD_unload D h fuel)"
proof (induction fuel)
  case (Suc fuel)
  then show ?case using unload_scan_fewer[OF Suc] by (simp add: unload_fewer_def)
qed (simp add: unload_fewer_def)

subsection \<open>Enough fuel\<close>

text \<open>\<open>n\<close> bounds the number of modules that are not yet being unloaded.\<close>

definition unload_ends :: "abort set \<Rightarrow> 'c DLIF \<Rightarrow> endian \<Rightarrow> nat \<Rightarrow> 'c unload_fun \<Rightarrow> bool" where
  "unload_ends S D h n u \<longleftrightarrow> (\<forall>K E fh st. refcounts K (add_mset fh E) st \<longrightarrow> (\<forall>m \<in> ran (lmods st). quiet S D h m) \<longrightarrow>
     card (set (DLIMP_loaded_objects st) - K) \<le> n \<longrightarrow> fails_only S (u fh st))"

lemma unload_dependents_end:
  assumes "unload_ok u" and "unload_fewer u" and "unload_ends S D h n u" and "refcounts K (E + mset ds) st" and "p \<in> K"
    and "p \<in> set (DLIMP_loaded_objects st)" and "card (set (DLIMP_loaded_objects st) - K) \<le> n"
    and "\<forall>m \<in> ran (lmods st). quiet S D h m"
  shows "fails_only S (unload_dependents u p ds st)"
  using assms(4,6-8)
proof (induction ds arbitrary: st)
  case (Cons d ds)
  have r: "refcounts K (add_mset d (E + mset ds)) st" using Cons.prems(1) by simp
  have "fails_only S (bindR (deref (lmods st1 p)) (\<lambda>_. unload_dependents u p ds st1))" if ret: "u d st = Inr (b, st1)" for b st1
  proof -
    have post: "unload_post K (E + mset ds) d st (b, st1)"
      using assms(1) r holdsRD[OF _ ret] unfolding unload_ok_def by blast
    then have p: "p \<in> set (DLIMP_loaded_objects st1)" "refcounts K (E + mset ds) st1"
      using assms(5) Cons.prems(2) by (simp_all add: unload_post_def unload_frame_def)
    then obtain m where m: "lmods st1 p = Some m" by (auto simp: refcounts_def)
    have "set (DLIMP_loaded_objects st1) - K \<subseteq> set (DLIMP_loaded_objects st) - K"
      using post by (auto simp: unload_post_def unload_frame_def)
    then have c: "card (set (DLIMP_loaded_objects st1) - K) \<le> n"
      using Cons.prems(3) card_mono[of "set (DLIMP_loaded_objects st) - K"] by (meson finite_Diff finite_set le_trans)
    have "fewer st st1" using assms(2) holdsRD[OF _ ret] unfolding unload_fewer_def by blast
    then have "\<forall>m \<in> ran (lmods st1). quiet S D h m" using Cons.prems(4) by (rule fewer_quiet)
    then show ?thesis using Cons.IH[OF p(2,1) c] m by simp
  qed
  moreover have "fails_only S (u d st)" using assms(3) r Cons.prems(3,4) by (simp add: unload_ends_def)
  ultimately have "fails_only S (bindR (u d st) (\<lambda>(b, st1). bindR (deref (lmods st1 p)) (\<lambda>_. unload_dependents u p ds st1)))"
    by (auto intro: fails_only_bind)
  then show ?case by (simp add: DLIF_unload_dependent_def bindR_assoc split_def)
qed simp

lemma remove_ends:
  assumes "lmods st p = Some m" and "quiet S D h m" and "p \<in> set (DLIMP_loaded_objects st)"
  shows "fails_only S (remove_loaded_module D p st)"
  using assms by (auto simp: remove_loaded_module_def unlink_loaded_module_def delete_DLIMP_Loaded_Module_def Let_def
      quiet_def intro!: fails_only_bind)

lemma unload_module_end:
  assumes "unload_ok u" and "unload_fewer u" and "unload_ends S D h n u"
    and "refcounts (insert p K) (E + mset (dependencies m)) st" and "p \<in> set (DLIMP_loaded_objects st)"
    and "lmods st p = Some m" and "card (set (DLIMP_loaded_objects st) - insert p K) \<le> n"
    and "\<forall>m \<in> ran (lmods st). quiet S D h m"
  shows "fails_only S (unload_module D h u p st)"
proof -
  have q: "quiet S D h m" using assms(6,8) by (auto simp: ran_def)
  have "fails_only S (bindR (unload_dependents u p (dependencies m) st1) (\<lambda>st.
      bindR (remove_loaded_module D p st) (\<lambda>st. Inr (st\<lparr>cur_target := None\<rparr>))))" if k: "keeps st st1" for st1
  proof (rule fails_only_bind)
    have s: "refcounts (insert p K) (E + mset (dependencies m)) st1" "p \<in> set (DLIMP_loaded_objects st1)" "lmods st1 p = Some m"
      using assms(4-6) refcounts_keeps[OF k] k by (simp_all add: keeps_def)
    show "fails_only S (unload_dependents u p (dependencies m) st1)"
      using unload_dependents_end[OF assms(1-3) s(1) _ s(2)] assms(7,8) k by (simp add: keeps_def)
    fix st2 assume st2: "unload_dependents u p (dependencies m) st1 = Inr st2"
    then have "unload_frame (insert p K) st1 st2"
      using holdsRD[OF unload_dependents_ok[OF assms(1) s(1) _ s(2)] st2] by simp
    then have "p \<in> set (DLIMP_loaded_objects st2)" "lmods st2 p = Some m" using s by (auto simp: unload_frame_def)
    then show "fails_only S (bindR (remove_loaded_module D p st2) (\<lambda>st. Inr (st\<lparr>cur_target := None\<rparr>)))"
      using remove_ends[OF _ q] by (auto intro: fails_only_bind)
  qed
  then show ?thesis
    unfolding unload_module_def using assms(6) q
    by (auto simp: quiet_def intro!: fails_only_bind[of S "execute_module_termination D h m st"] dest: holdsRD[OF termination_keeps])
qed

lemma DLOAD_unload_ends: "unload_ends S D h fuel (DLOAD_unload D h fuel)"
proof (induction fuel)
  case 0
  then show ?case by (auto simp: unload_ends_def elim: referenced)
next
  case (Suc n)
  show ?case unfolding unload_ends_def
  proof (intro allI impI)
    fix K E fh and st :: "'a loader"
    let ?Q = "DLIMP_loaded_objects st" and ?u = "DLOAD_unload D h n"
    assume r: "refcounts K (add_mset fh E) st" and q: "\<forall>m \<in> ran (lmods st). quiet S D h m"
      and card: "card (set ?Q - K) \<le> Suc n"
    obtain p m where p: "p \<in> set ?Q - K" and m: "lmods st p = Some m" "lm_file_handle m = fh" "0 < sint (use_count m)"
      using referenced[OF r] .
    define k where "k = use_count m - 1"
    have k: "count_down (use_count m) = Inr k" "sint k = sint (use_count m) - 1"
      using count_down_sint[OF m(3)] by (simp_all add: k_def)
    let ?m = "m\<lparr>use_count := k\<rparr>"
    let ?st = "set_lm p ?m st"
    have "set ?Q - insert p K = (set ?Q - K) - {p}" by auto
    then have card': "card (set (DLIMP_loaded_objects ?st) - insert p K) \<le> n"
      using card p by (simp add: card_Diff_singleton set_lm_def)
    have "fails_only S (unload_module D h ?u p ?st)" if "k = 0"
    proof (rule unload_module_end[OF DLOAD_unload_ok DLOAD_unload_fewer Suc _ _ _ card'])
      show "refcounts (insert p K) (E + mset (dependencies ?m)) ?st"
        using refcounts_kill[OF _ m(1) p, of E k] r m(2) k(2) that by simp
      show "\<forall>m \<in> ran (lmods ?st). quiet S D h m" using fewer_quiet[OF fewer_set[OF m(1)] q] .
    qed (use p in \<open>simp_all add: set_lm_def\<close>)
    moreover have "DLOAD_unload D h (Suc n) fh st = (if k = 0
        then bindR (unload_module D h ?u p ?st) (\<lambda>st. Inr (True, st)) else Inr (False, ?st))"
      using scan_unique[OF r _ m(1) k(1), of D h ?u] p m(2) by (simp add: Let_def)
    ultimately show "fails_only S (DLOAD_unload D h (Suc n) fh st)" by (auto intro: fails_only_bind)
  qed
qed

subsection \<open>Properties\<close>

text \<open>C11: an unload by a holder of a reference gives back exactly that reference: the
  counts stay right, no module is added, nothing of a remaining module but its use count changes,
  and the answer is \<open>TRUE\<close> exactly when the module is gone.\<close>

theorem unload_gives_back:
  assumes "refcounts {} (add_mset fh E) st" and "DLOAD_unload D h fuel fh st = Inr (gone, st')"
  shows "refcounts {} E st' \<and> set (DLIMP_loaded_objects st') \<subseteq> set (DLIMP_loaded_objects st) \<and>
     (gone \<longleftrightarrow> fh \<notin> handle_of st' ` set (DLIMP_loaded_objects st')) \<and>
     (\<forall>q m'. lmods st' q = Some m' \<longrightarrow> (\<exists>m. lmods st q = Some m \<and> m' = m\<lparr>use_count := use_count m'\<rparr>))"
proof -
  have "holdsR (unload_post {} E fh st) (DLOAD_unload D h fuel fh st)"
    using DLOAD_unload_ok assms(1) unfolding unload_ok_def by blast
  moreover have "holdsR (\<lambda>(b, st'). fewer st st') (DLOAD_unload D h fuel fh st)"
    using DLOAD_unload_fewer unfolding unload_fewer_def by blast
  ultimately show ?thesis
    using assms(2) by (simp add: unload_post_def unload_frame_def fewer_def)
qed

text \<open>The calls an unload makes to the client come back.\<close>

definition client_finishes :: "'c DLIF \<Rightarrow> bool" where
  "client_finishes D \<longleftrightarrow> (\<forall>c desc. DLIF_release D c desc \<noteq> Inl Diverge) \<and>
     (\<forall>c a. DLIF_execute D c a \<noteq> Inl Diverge) \<and> (\<forall>c n a. DLIF_read D c n a \<noteq> Inl Diverge)"

lemma client_finishes_quiet:
  assumes "client_finishes D"
  shows "quiet (- {Diverge}) D h m"
proof -
  have f: "fails_only (- {Diverge}) x \<longleftrightarrow> x \<noteq> Inl Diverge" for x :: "'x result" by (auto simp: fails_only_def)
  have cl: "fails_only (- {Diverge}) (DLIF_execute D c a)" "fails_only (- {Diverge}) (DLIF_read D c n a)"
    "fails_only (- {Diverge}) (DLIF_release D c desc)" for c a n desc
    using assms by (simp_all add: client_finishes_def f)
  have e: "fails_only (- {Diverge}) (execute_at D a st)" and r: "fails_only (- {Diverge}) (read_functions D h sz b st)" for a sz b st
    unfolding execute_at_def read_functions_def words_of_def by (auto intro!: fails_only_bind cl)
  have "fails_only (- {Diverge}) (execute_module_termination D h m st)" for st
    unfolding execute_module_termination_def by (auto intro!: fails_only_bind fails_only_foldR e r)
  moreover have "fails_only (- {Diverge}) (release_segments D segs st)" for segs st
    by (induction segs arbitrary: st) (auto simp: Let_def intro!: fails_only_bind cl)
  ultimately show ?thesis by (auto simp: quiet_def free_name_def split: cstr.splits)
qed

lemma loaded_card: "card (set (DLIMP_loaded_objects st) - {}) \<le> length (DLIMP_loaded_objects st)"
  by (simp add: card_length)

text \<open>C15: the recursion of an unload through the dependencies comes to an end: as deep
  as there are loaded modules is enough, whatever the dependencies between them are.\<close>

theorem unload_terminates:
  assumes "client_finishes D" and "refcounts {} (add_mset fh E) st" and "length (DLIMP_loaded_objects st) \<le> fuel"
  shows "DLOAD_unload D h fuel fh st \<noteq> Inl Diverge"
proof -
  have "fails_only (- {Diverge}) (DLOAD_unload D h fuel fh st)"
    using DLOAD_unload_ends[of "- {Diverge}" D h fuel] assms client_finishes_quiet[OF assms(1)] loaded_card[of st]
    unfolding unload_ends_def by (meson le_trans)
  then show ?thesis by (auto simp: fails_only_def)
qed

text \<open>A module without termination functions whose name can be freed.\<close>

definition plainly_unloadable :: "DLIMP_Loaded_Module \<Rightarrow> bool" where
  "plainly_unloadable m \<longleftrightarrow> fini_arraysz m = 0 \<and> fini m = 0 \<and> (\<exists>s. lm_name m = HeapStr s)"


subsection \<open>Examples\<close>

text \<open>A client without target: every call succeeds and does nothing.\<close>

definition null_client :: "unit DLIF" where
  "null_client = \<lparr>DLIF_allocate = (\<lambda>c r. Inr (True, segment r, c)), DLIF_release = (\<lambda>c s. Inr (True, c)),
     DLIF_copy = (\<lambda>c f r. Inr (None, c)), DLIF_write = (\<lambda>c r. Inr c), DLIF_read = (\<lambda>c n a. Inr (replicate n 0, c)),
     DLIF_memcpy = (\<lambda>c a bs. Inr c), DLIF_execute = (\<lambda>c a. Inr c),
     DLIF_register_dsbt_index_request = (\<lambda>c n f i. Inr (True, c)), DLIF_assign_dsbt_indices = Inr,
     DLIF_update_all_dsbts = Inr, DLIF_get_dsbt_index = (\<lambda>c f. Inr 0)\<rparr>"

text \<open>The module with handle 2 depends on that with handle 1; the client holds a reference to the former.\<close>

lemma example_refcounts: "refcounts {} {#2#} example_loader"
proof -
  have "set [0::nat, 1] = {0, 1}" "{0::nat, 1} - {} = {0, 1}" by auto
  then show ?thesis
    by (auto simp: refcounts_def counted_def owed_def example_loader_def example_module_def handle_of_def count_of_def
        deps_of_def inj_on_def)
qed

lemma count_down_1: "count_down 1 = Inr 0"
  by (simp add: count_down_def INT_MAX_def)

lemma example_unload: "\<exists>st'. DLOAD_unload null_client LSB 2 2 example_loader = Inr (True, st')"
proof -
  have "\<exists>st'. DLOAD_unload null_client LSB (Suc (Suc 0)) 2 example_loader = Inr (True, st')"
    by (simp add: example_loader_def example_module_def null_client_def count_down_1 Let_def
      unload_module_def execute_module_termination_def DLIF_unload_dependent_def remove_loaded_module_def
      unlink_loaded_module_def delete_DLIMP_Loaded_Module_def free_name_def set_lm_def)
  then show ?thesis by (simp only: numeral_2_eq_2)
qed

lemma example_plain: "\<forall>m \<in> ran (lmods example_loader). plainly_unloadable m"
  by (auto simp: ran_def example_loader_def plainly_unloadable_def example_module_def split: if_splits)

theorem unload_gives_back_witness:
  "\<exists>gone st'. DLOAD_unload null_client LSB 2 2 example_loader = Inr (gone, st') \<and> refcounts {} {#} st'"
proof -
  obtain st' where "DLOAD_unload null_client LSB 2 2 example_loader = Inr (True, st')" using example_unload by blast
  with unload_gives_back[of 2 "{#}" example_loader null_client LSB 2 True st'] example_refcounts show ?thesis by auto
qed

theorem unload_terminates_witness: "DLOAD_unload null_client LSB 2 2 example_loader \<noteq> Inl Diverge"
  using unload_terminates[of null_client 2 "{#}" example_loader 2 LSB] example_refcounts
  by (simp add: client_finishes_def null_client_def example_loader_def)


end
