(* ===== verification/DLoad_Query.thy ===== *)
theory DLoad_Query
  imports DLoad_Unload
begin

text \<open>
  The queries on loaded modules (\<open>DLOAD/dload.c\<close>): entry points, symbols, the static base and the
  DSBT of a module, and passing arguments to it. A query names a module by its file handle and walks
  the list of loaded objects, or the dependency stack, to find it. Fields that were never assigned
  are read as \<open>Undefined\<close>.
\<close>

subsection \<open>Definitions\<close>

text \<open>The loops over the loaded objects that return from the first module with the handle.\<close>

definition module_with_handle :: "'c loader \<Rightarrow> i32 \<Rightarrow> DLIMP_Loaded_Module option result" where
  "module_with_handle st fh = first_match (\<lambda>p. bindR (deref (lmods st p)) (\<lambda>m.
     Inr (if lm_file_handle m = fh then Some m else None))) (DLIMP_loaded_objects st)"

text \<open>
  The names of a module's global symbols: the array has a slot for each of them, \<open>None\<close> being a slot
  that was not written, and every round of the loop stores to \<open>**entry_pt_names\<close>.
\<close>

definition DLOAD_get_entry_names :: "'c loader \<Rightarrow> i32 \<Rightarrow> (i32 \<times> string option list) option result" where
  "DLOAD_get_entry_names st fh = bindR (module_with_handle st fh) (\<lambda>r. case r of
     None \<Rightarrow> Inr None
   | Some m \<Rightarrow> bindR (foldR (\<lambda>i names. bindR (index (gsyms m) i) (\<lambda>s.
         bindR (cstring_at (gstrs m) (unat (st_name s))) (\<lambda>sym_name. Inr (names[0 := Some sym_name]))))
       [0..<unat (gsymnum m)] (replicate (unat (gsymnum m)) None)) (\<lambda>names. Inr (Some (gsymnum m, names))))"

text \<open>
  The out parameter \<open>sym_val\<close> and the globals \<open>global_argc\<close>, \<open>global_argv\<close> are \<open>None\<close> when they are
  not written.
\<close>

definition DLOAD_prepare_for_execution ::
    "'c DLIF \<Rightarrow> endian \<Rightarrow> ('c \<Rightarrow> u32 \<Rightarrow> u32 result) \<Rightarrow> i32 \<Rightarrow> int \<Rightarrow> string list \<Rightarrow> 'c loader \<Rightarrow>
       (bool \<times> u32 option \<times> (i32 \<times> u32) option \<times> 'c loader) result" where
  "DLOAD_prepare_for_execution D h peek fh argc argv st = bindR (module_with_handle st fh) (\<lambda>r. case r of
     None \<Rightarrow> Inr (False, None, None, st)
   | Some m \<Rightarrow> bindR (deref (entry_point m)) (\<lambda>sym_val.
       bindR (write_arguments_to_args_section D h argc argv m st) (\<lambda>(ok, st).
       if \<not> ok then Inr (False, Some sym_val, None, report [DLIF_error DLET_MISC ''Couldn't write to .args section''] st)
       else bindR (read_args_from_section peek m st) (\<lambda>globals. Inr (True, Some sym_val, Some globals, st)))))"

text \<open>This loop does not return when it has written the arguments.\<close>

fun load_arguments_scan ::
    "'c DLIF \<Rightarrow> endian \<Rightarrow> i32 \<Rightarrow> int \<Rightarrow> string list \<Rightarrow> nat list \<Rightarrow> 'c loader \<Rightarrow> (bool \<times> 'c loader) result" where
  "load_arguments_scan D h fh argc argv [] st = Inr (False, st)"
| "load_arguments_scan D h fh argc argv (p # ps) st = bindR (deref (lmods st p)) (\<lambda>m.
     if lm_file_handle m = fh
     then bindR (write_arguments_to_args_section D h argc argv m st) (\<lambda>(ok, st).
          if \<not> ok then Inr (False, report [DLIF_error DLET_MISC ''Couldn't write to .args section''] st)
          else load_arguments_scan D h fh argc argv ps st)
     else load_arguments_scan D h fh argc argv ps st)"

definition DLOAD_load_arguments ::
    "'c DLIF \<Rightarrow> endian \<Rightarrow> i32 \<Rightarrow> int \<Rightarrow> string list \<Rightarrow> 'c loader \<Rightarrow> (bool \<times> 'c loader) result" where
  "DLOAD_load_arguments D h fh argc argv st = load_arguments_scan D h fh argc argv (DLIMP_loaded_objects st) st"

definition DLOAD_get_entry_point :: "'c loader \<Rightarrow> i32 \<Rightarrow> u32 option result" where
  "DLOAD_get_entry_point st fh = bindR (module_with_handle st fh) (\<lambda>r. case r of
     None \<Rightarrow> Inr None | Some m \<Rightarrow> bindR (deref (entry_point m)) (\<lambda>e. Inr (Some e)))"

text \<open>\<open>Some v\<close> is \<open>TRUE\<close> with \<open>v\<close> in the out parameter.\<close>

definition DLOAD_query_symbol :: "'c loader \<Rightarrow> i32 \<Rightarrow> string \<Rightarrow> u32 option result" where
  "DLOAD_query_symbol st fh sym_name = first_match (\<lambda>p. bindR (deref (lmods st p)) (\<lambda>m.
     if lm_file_handle m = fh
     then first_match (\<lambda>i. bindR (index (gsyms m) i) (\<lambda>s.
            bindR (strcmp_eq sym_name (drop (unat (st_name s)) (gstrs m))) (\<lambda>eq.
              Inr (if eq then Some (st_value s) else None)))) [0..<unat (gsymnum m)]
     else Inr None)) (DLIMP_loaded_objects st)"

definition DLOAD_get_static_base :: "'c loader \<Rightarrow> i32 \<Rightarrow> u32 option result" where
  "DLOAD_get_static_base st fh = bindR (module_with_handle st fh) (\<lambda>r. case r of
     None \<Rightarrow> Inr None | Some m \<Rightarrow> bindR (deref (lm_static_base m)) (\<lambda>b. Inr (Some b)))"

text \<open>The first module on the dependency stack with the handle.\<close>

definition stacked_with_handle :: "'c loader \<Rightarrow> i32 \<Rightarrow> DLIMP_Dynamic_Module option result" where
  "stacked_with_handle st fh = first_match (\<lambda>a. bindR (deref (dmods st a)) (\<lambda>dmp.
     bindR (deref (loaded_module dmp)) (\<lambda>p. bindR (deref (lmods st p)) (\<lambda>m.
       Inr (if lm_file_handle m = fh then Some dmp else None))))) (DLIMP_dependency_stack st)"

definition DLOAD_get_dsbt_size :: "'c loader \<Rightarrow> i32 \<Rightarrow> u32 result" where
  "DLOAD_get_dsbt_size st fh = bindR (stacked_with_handle st fh) (\<lambda>r.
     Inr (case r of None \<Rightarrow> 0 | Some dmp \<Rightarrow> dsbt_size dmp))"

definition DLOAD_get_dsbt_base :: "'c loader \<Rightarrow> i32 \<Rightarrow> u32 option result" where
  "DLOAD_get_dsbt_base st fh = bindR (stacked_with_handle st fh) (\<lambda>r. case r of
     None \<Rightarrow> Inr None
   | Some dmp \<Rightarrow> bindR (deref (dyntab dmp)) (\<lambda>tab.
       if dsbt_base_tagidx dmp < 0 then Inl Undefined
       else bindR (index tab (nat (dsbt_base_tagidx dmp))) (\<lambda>d. Inr (Some (d_un d)))))"

subsection \<open>Finding a module\<close>

definition has_module :: "'c loader \<Rightarrow> i32 \<Rightarrow> DLIMP_Loaded_Module \<Rightarrow> bool" where
  "has_module st fh m \<longleftrightarrow> (\<exists>p \<in> set (DLIMP_loaded_objects st). lmods st p = Some m \<and> lm_file_handle m = fh)"

text \<open>Handles are unique, so a search by handle is a search for the module.\<close>

lemma search_by_handle:
  assumes "refcounts K E st" and "has_module st fh m"
    and "\<And>p m'. p \<in> set (DLIMP_loaded_objects st) \<Longrightarrow> lmods st p = Some m' \<Longrightarrow> lm_file_handle m' \<noteq> fh \<Longrightarrow> f p = Inr None"
    and "\<And>p. p \<in> set (DLIMP_loaded_objects st) \<Longrightarrow> lmods st p = Some m \<Longrightarrow> f p = Inr r"
  shows "first_match f (DLIMP_loaded_objects st) = Inr r"
proof -
  let ?Q = "DLIMP_loaded_objects st"
  have c: "counted K E ?Q (handle_of st) (count_of st) (deps_of st)" and dm: "set ?Q \<subseteq> dom (lmods st)"
    using assms(1) by (simp_all add: refcounts_def)
  obtain p where p: "p \<in> set ?Q" "lmods st p = Some m" "lm_file_handle m = fh" using assms(2) by (auto simp: has_module_def)
  have "f q = Inr (if q = p then r else None)" if q: "q \<in> set ?Q" for q
  proof (cases "q = p")
    case False
    then have "handle_of st q \<noteq> fh" using counted_inj[OF c q p(1)] p(2,3) by (auto simp: handle_of_def)
    moreover obtain m' where "lmods st q = Some m'" using dm q by (metis domD subsetD)
    ultimately show ?thesis using False assms(3)[OF q] by (simp add: handle_of_def)
  qed (use assms(4) p in simp)
  moreover have "first_match f qs = Inr (if p \<in> set qs then r else None)"
    if "\<And>q. q \<in> set qs \<Longrightarrow> f q = Inr (if q = p then r else None)" for qs
    using that by (induction qs) (auto split: option.splits)
  ultimately show ?thesis using p(1) by simp
qed

lemma module_with_handle_found:
  "refcounts K E st \<Longrightarrow> has_module st fh m \<Longrightarrow> module_with_handle st fh = Inr (Some m)"
  unfolding module_with_handle_def by (rule search_by_handle) (auto simp: has_module_def)

lemma module_with_handle_none:
  assumes "refcounts K E st" and "fh \<notin> handle_of st ` set (DLIMP_loaded_objects st)"
  shows "module_with_handle st fh = Inr None"
proof -
  have none: "first_match f qs = Inr None" if "\<And>q. q \<in> set qs \<Longrightarrow> f q = Inr None"
    for f :: "nat \<Rightarrow> DLIMP_Loaded_Module option result" and qs
    using that by (induction qs) simp_all
  have "bindR (deref (lmods st q)) (\<lambda>m. Inr (if lm_file_handle m = fh then Some m else None)) = Inr None"
    if q: "q \<in> set (DLIMP_loaded_objects st)" for q
  proof -
    obtain m where "lmods st q = Some m" using assms(1) q by (auto simp: refcounts_def)
    moreover have "handle_of st q \<noteq> fh" using assms(2) q by auto
    ultimately show ?thesis by (simp add: handle_of_def)
  qed
  then show ?thesis unfolding module_with_handle_def by (rule none)
qed

subsection \<open>Properties\<close>

definition query_value :: "string \<Rightarrow> DLIMP_Loaded_Module \<Rightarrow> u32 option" where
  "query_value sym_name m = map_option st_value (find (\<lambda>s. sym_string (gstrs m) s = sym_name) (gsyms m))"

lemma query_in_module:
  assumes "lm_wf m" and "NUL \<notin> set sym_name"
  shows "first_match (\<lambda>i. bindR (index (gsyms m) i) (\<lambda>s.
            bindR (strcmp_eq sym_name (drop (unat (st_name s)) (gstrs m))) (\<lambda>eq.
              Inr (if eq then Some (st_value s) else None)))) [0..<unat (gsymnum m)] = Inr (query_value sym_name m)"
    (is "first_match ?body _ = _")
proof -
  have num: "unat (gsymnum m) = length (gsyms m)" using assms(1) by (simp add: lm_wf_def)
  have "first_match ?body [0..<length (gsyms m)] = Inr (map_option (\<lambda>i. st_value (gsyms m ! i))
      (find (\<lambda>i. sym_string (gstrs m) (gsyms m ! i) = sym_name) [0..<length (gsyms m)]))"
  proof (rule first_match_find)
    fix i assume "i \<in> set [0..<length (gsyms m)]"
    then have i: "i < length (gsyms m)" by simp
    then have "NUL \<in> set (drop (unat (st_name (gsyms m ! i))) (gstrs m))"
      using assms(1) by (simp add: lm_wf_def names_terminated_def)
    with i assms(2) show "?body i = Inr (if sym_string (gstrs m) (gsyms m ! i) = sym_name
        then Some (st_value (gsyms m ! i)) else None)"
      by (simp add: strcmp_eq_cstring sym_string_def)
  qed
  then show ?thesis
    using find_upt_nth[of st_value "gsyms m" "\<lambda>s. sym_string (gstrs m) s = sym_name"] num by (simp add: query_value_def)
qed

text \<open>Under the invariant of the reference counts, a query of a module for a
  symbol answers with the value of the first global symbol of that name of that module (whether it
  is defined there or only referenced), and with \<open>FALSE\<close> exactly when the module has no such symbol.\<close>

lemma query_symbol_finds:
  assumes "refcounts K E st" and "has_module st fh m" and "lm_wf m" and "NUL \<notin> set sym_name"
  shows "DLOAD_query_symbol st fh sym_name = Inr (query_value sym_name m)"
  unfolding DLOAD_query_symbol_def
  by (rule search_by_handle[OF assms(1,2)]) (use assms(2) in \<open>auto simp: query_in_module[OF assms(3,4)] has_module_def\<close>)

text \<open>\<open>DLOAD_load_arguments\<close> never reports success: when it returns, it
  returns \<open>FALSE\<close>, even after it has written the arguments.\<close>

lemma load_arguments_never_true: "DLOAD_load_arguments D h fh argc argv st \<noteq> Inr (True, st')"
proof -
  have "holdsR (\<lambda>(b, _). \<not> b) (load_arguments_scan D h fh argc argv ps st)" for ps
    by (induction ps arbitrary: st) (auto intro!: holdsR_splits holdsR_bind_any)
  then show ?thesis by (auto simp: DLOAD_load_arguments_def holdsR_def)
qed

lemma slot_zero_loop:
  assumes "\<And>i. i \<in> set is \<Longrightarrow> f i = Inr (g i)"
  shows "foldR (\<lambda>i xs. bindR (f i) (\<lambda>x. Inr (xs[0 := Some x]))) is xs =
     Inr (if is = [] then xs else xs[0 := Some (g (last is))])"
  using assms by (induction "is" arbitrary: xs) auto

text \<open>Of the array of names that \<open>DLOAD_get_entry_names\<close> returns, only the first
  slot is ever written, and it holds the name of the last global symbol.\<close>

lemma entry_names_one_slot:
  assumes "refcounts K E st" and "has_module st fh m" and "lm_wf m" and "gsyms m \<noteq> []"
  shows "DLOAD_get_entry_names st fh = Inr (Some (gsymnum m,
     Some (sym_string (gstrs m) (last (gsyms m))) # replicate (length (gsyms m) - 1) None))"
proof -
  have num: "unat (gsymnum m) = length (gsyms m)" using assms(3) by (simp add: lm_wf_def)
  let ?f = "\<lambda>i. bindR (index (gsyms m) i) (\<lambda>s. cstring_at (gstrs m) (unat (st_name s)))"
  have f: "?f i = Inr (sym_string (gstrs m) (gsyms m ! i))" if "i \<in> set [0..<length (gsyms m)]" for i
    using that assms(3) by (auto simp: lm_wf_def names_terminated_def cstring_at_def sym_string_def Let_def)
  have "length (gsyms m) \<noteq> 0" using assms(4) by simp
  then obtain k where k: "length (gsyms m) = Suc k" by (metis not0_implies_Suc)
  then have "(replicate (length (gsyms m)) None)[0 := Some x] = Some x # replicate (length (gsyms m) - 1) None" for x :: string
    by simp
  moreover have "gsyms m ! last [0..<length (gsyms m)] = last (gsyms m)" using k assms(4) by (simp add: last_conv_nth)
  ultimately show ?thesis
    using slot_zero_loop[of "[0..<length (gsyms m)]" ?f "\<lambda>i. sym_string (gstrs m) (gsyms m ! i)"
        "replicate (length (gsyms m)) None", OF f] k
    by (simp add: DLOAD_get_entry_names_def module_with_handle_found[OF assms(1,2)] num bindR_assoc)
qed

subsection \<open>Examples\<close>

lemma example_has_module: "has_module example_loader 1 (example_module 1 [])"
  by (auto simp: has_module_def example_loader_def example_module_def intro: bexI[of _ 0])

lemma example_module_wf: "lm_wf (example_module 1 [])"
  by (simp add: lm_wf_def gsyms_def gstrs_def example_module_def example_simps)

end
