(* ===== verification/Heap_Manager.thy ===== *)
theory Heap_Manager
  imports DLoad_Prelude
begin

text \<open>
  The heap manager of the host runtime (\<open>core/dsp/heap_manager.h\<close>, with the scope
  \<open>MultiProcess\<close> of \<open>heap_manager_policy_process.h\<close>): an out of line allocator for target memory.
  The dynamic loader's client allocates the segments of a program from it. Addresses and lengths are
  64 bit. Every operation holds the mutex of the heap from its first to its last access, so the
  operations are atomic and their interleavings are sequences of them.
\<close>

type_synonym u64 = "64 word"

subsection \<open>Ordered maps\<close>

text \<open>\<open>std::map\<close>: the list of its entries in the order of the keys.\<close>

definition map_put :: "u64 \<Rightarrow> 'v \<Rightarrow> (u64 \<times> 'v) list \<Rightarrow> (u64 \<times> 'v) list" where
  "map_put k v xs = filter (\<lambda>x. fst x < k) xs @ (k, v) # filter (\<lambda>x. k < fst x) xs"

definition map_erase :: "u64 \<Rightarrow> (u64 \<times> 'v) list \<Rightarrow> (u64 \<times> 'v) list" where
  "map_erase k xs = filter (\<lambda>x. fst x \<noteq> k) xs"

subsection \<open>The heap\<close>

text \<open>An allocated block has a length and the process that allocated it.\<close>

record heap =
  free_list :: "(u64 \<times> u64) list"
  alloc_list :: "(u64 \<times> u64 \<times> u32) list"
  start_addr :: u64
  heap_length :: u64
  min_block :: u64
  available :: u64
  addrs_need_pow2_size_alignment :: bool
  max_pow2_size_alignment :: u64

definition HeapManager :: heap where
  "HeapManager = \<lparr>free_list = [], alloc_list = [], start_addr = 0, heap_length = 0, min_block = 0,
     available = 0, addrs_need_pow2_size_alignment = False, max_pow2_size_alignment = 0\<rparr>"

definition roundup :: "u64 \<Rightarrow> u64 \<Rightarrow> u64" where
  "roundup val pow2 = (val + pow2 - 1) AND NOT (pow2 - 1)"

definition min_block_size :: "heap \<Rightarrow> u64 \<Rightarrow> u64" where
  "min_block_size h sz = roundup sz (min_block h)"

text \<open>The loop of \<open>next_power_of_two\<close>: \<open>i\<close> takes the values 1, 2, 4, 8, 16, 32.\<close>

function smear :: "nat \<Rightarrow> u64 \<Rightarrow> u64" where
  "smear i k = (if 0 < i \<and> i < 64 then smear (2 * i) (k OR drop_bit i k) else k)"
  by auto
termination by (relation "measure (\<lambda>(i, k). 64 - i)") auto

declare smear.simps [simp del]

definition next_power_of_two :: "u64 \<Rightarrow> u64" where
  "next_power_of_two k = (if k = 0 then 1 else smear 1 (k - 1) + 1)"

text \<open>The alignment of a block of \<open>size\<close> bytes.\<close>

definition alignment :: "heap \<Rightarrow> u64 \<Rightarrow> u64" where
  "alignment h sz = (if addrs_need_pow2_size_alignment h
     then if sz \<ge> max_pow2_size_alignment h then max_pow2_size_alignment h else next_power_of_two sz
     else min_block h)"

text \<open>
  The search for a free block: the key of the block, the gap in front of the aligned address, that
  address, and the size behind it.
\<close>

fun malloc_scan :: "u64 \<Rightarrow> u64 \<Rightarrow> (u64 \<times> u64) list \<Rightarrow> (u64 \<times> u64 \<times> u64 \<times> u64) option" where
  "malloc_scan align sz [] = None"
| "malloc_scan align sz ((key, avail_size) # fl) =
     (let align_addr = roundup key align; align_gap = align_addr - key;
          avail_size = (if align_gap < avail_size then avail_size - align_gap else 0)
      in if avail_size < sz then malloc_scan align sz fl else Some (key, align_gap, align_addr, avail_size))"

definition malloc :: "u32 \<Rightarrow> u64 \<Rightarrow> bool \<Rightarrow> heap \<Rightarrow> (u64 \<times> heap) result" where
  "malloc pid sz allow_fail h =
     (let sz = min_block_size h sz; align = alignment h sz
      in case malloc_scan align sz (free_list h) of
           None \<Rightarrow> if allow_fail then Inr (0, h) else Inl (Exit 1)
         | Some (key, align_gap, avail_addr, avail_size) \<Rightarrow>
             let fl = (if align_gap \<noteq> 0 then map_put key align_gap (free_list h) else map_erase key (free_list h));
                 fl = (if avail_size > sz then map_put (avail_addr + sz) (avail_size - sz) fl else fl)
             in Inr (avail_addr, h\<lparr>free_list := fl, alloc_list := map_put avail_addr (sz, pid) (alloc_list h),
                  available := available h - sz\<rparr>))"

text \<open>
  Giving a block back to the free list. \<open>after_block\<close> is the first free block that is not below the
  address, \<open>prior_block\<close> the one before it, or the first one. The code reads \<open>after_block\<close> without
  asking whether there is one.
\<close>

definition give_back :: "u64 \<Rightarrow> u64 \<Rightarrow> u64 \<times> u64 \<Rightarrow> u64 \<times> u64 \<Rightarrow> (u64 \<times> u64) list \<Rightarrow> (u64 \<times> u64) list" where
  "give_back addr sz prior_block after_block fl =
     (let can_merge_prior = (fst prior_block + snd prior_block = addr);
          can_merge_after = (addr + sz = fst after_block);
          sz = (if can_merge_after then sz + snd after_block else sz);
          fl = (if can_merge_prior then map_put (fst prior_block) (snd prior_block + sz) fl else map_put addr sz fl)
      in if can_merge_after then map_erase (fst after_block) fl else fl)"

definition heap_free :: "u64 \<Rightarrow> heap \<Rightarrow> (int \<times> heap) result" where
  "heap_free addr h =
     (case map_of (alloc_list h) addr of
        None \<Rightarrow> Inr (-1, h)
      | Some (sz, pid) \<Rightarrow>
          (case filter (\<lambda>x. \<not> fst x < addr) (free_list h) of
             [] \<Rightarrow> Inl Undefined
           | after_block # _ \<Rightarrow>
               let lower = filter (\<lambda>x. fst x < addr) (free_list h);
                   prior_block = (if lower = [] then after_block else last lower)
               in Inr (0, h\<lparr>free_list := give_back addr sz prior_block after_block (free_list h),
                    alloc_list := map_erase addr (alloc_list h), available := available h + sz\<rparr>)))"

definition heap_contains :: "u64 \<Rightarrow> heap \<Rightarrow> bool" where
  "heap_contains addr h \<longleftrightarrow> addr \<ge> start_addr h \<and> addr < start_addr h + heap_length h"

text \<open>Address and size of the largest free block, the last one of them.\<close>

definition max_block_size :: "heap \<Rightarrow> u64 \<times> u64" where
  "max_block_size h = (if heap_length h < min_block h then (0, 0)
     else fold (\<lambda>(a, s) (ma, ms). if s \<ge> ms then (a, s) else (ma, ms)) (free_list h) (0, 0))"

definition configure :: "u64 \<Rightarrow> u64 \<Rightarrow> u64 \<Rightarrow> heap \<Rightarrow> heap" where
  "configure addr len mb h = (if heap_length h = 0 \<and> len > 0
     then h\<lparr>heap_length := len, available := len, start_addr := addr, min_block := mb,
            free_list := map_put addr len (free_list h)\<rparr>
     else h)"

definition set_additional_alignment_requirements :: "u64 \<Rightarrow> heap \<Rightarrow> heap" where
  "set_additional_alignment_requirements m h =
     (if addrs_need_pow2_size_alignment h = False \<and> alloc_list h = []
      then h\<lparr>addrs_need_pow2_size_alignment := True, max_pow2_size_alignment := m\<rparr> else h)"

text \<open>Freeing the blocks of some processes; \<open>order\<close> is the order in which \<open>std::unordered_set\<close> yields them.\<close>

definition free_each :: "u64 list \<Rightarrow> heap \<Rightarrow> heap result" where
  "free_each = foldR (\<lambda>a h. bindR (heap_free a h) (\<lambda>(_, h). Inr h))"

definition garbage_collect :: "(u64 list \<Rightarrow> u64 list) \<Rightarrow> (u32 \<Rightarrow> bool) \<Rightarrow> heap \<Rightarrow> heap result" where
  "garbage_collect order process_exists h =
     free_each (order (map fst (filter (\<lambda>(a, s, p). \<not> process_exists p) (alloc_list h)))) h"

definition free_all_pid :: "(u64 list \<Rightarrow> u64 list) \<Rightarrow> u32 \<Rightarrow> heap \<Rightarrow> heap result" where
  "free_all_pid order pid h = free_each (order (map fst (filter (\<lambda>(a, s, p). pid = p) (alloc_list h)))) h"

subsection \<open>Rounding\<close>

lemma and_not_mask: "x AND NOT (mask k) = x - take_bit k x" for x :: u64
proof -
  have "(x AND NOT (mask k)) + (x AND mask k) = (x AND NOT (mask k)) OR (x AND mask k)"
    by (rule disjunctive_add) (simp add: bit_simps)
  also have "\<dots> = x" by (rule bit_eqI) (auto simp: bit_simps)
  finally show ?thesis by (simp add: take_bit_eq_mask algebra_simps)
qed

lemma roundup_mask: "roundup v (2 ^ k) = v + mask k - take_bit k (v + mask k)"
  by (simp add: roundup_def mask_eq_exp_minus_1 and_not_mask[symmetric] algebra_simps)

lemma unat_pow2: "k < 64 \<Longrightarrow> unat (2 ^ k :: u64) = 2 ^ k"
proof -
  assume "k < 64"
  then have "(2 :: nat) ^ k < 2 ^ 64" by (rule power_strict_increasing) simp
  then have "unat (of_nat (2 ^ k) :: u64) = 2 ^ k" by (simp only: unat_of_nat) (simp add: take_bit_nat_eq_self)
  then show ?thesis by simp
qed

lemma unat_mask: "k < 64 \<Longrightarrow> unat (mask k :: u64) = 2 ^ k - 1"
proof -
  assume "k < 64"
  then have u: "unat (2 ^ k :: u64) = 2 ^ k" by (rule unat_pow2)
  then have "(1 :: u64) \<le> 2 ^ k" by (simp add: word_le_nat_alt)
  with u show ?thesis by (simp add: mask_eq_exp_minus_1 unat_sub)
qed

text \<open>The gap in front of the aligned address is smaller than the alignment.\<close>

lemma roundup_gap:
  assumes "k < 64"
  shows "unat (roundup v (2 ^ k) - v) < 2 ^ k" and "2 ^ k dvd unat (roundup v (2 ^ k))"
proof -
  have le: "take_bit k (v + mask k) \<le> (mask k :: u64)" by (simp add: take_bit_eq_mask word_and_le1)
  have "roundup v (2 ^ k) - v = mask k - take_bit k (v + mask k)" by (simp add: roundup_mask)
  then have "unat (roundup v (2 ^ k) - v) \<le> unat (mask k :: u64)" using unat_sub[OF le] by simp
  also have "\<dots> < 2 ^ k" using assms by (simp add: unat_mask)
  finally show "unat (roundup v (2 ^ k) - v) < 2 ^ k" .
  have "(2 ^ k - 1 :: u64) = mask k" by (simp add: mask_eq_exp_minus_1)
  then have "roundup v (2 ^ k) AND mask k = 0" by (simp add: roundup_def) (rule bit_eqI, simp add: bit_simps)
  then show "2 ^ k dvd unat (roundup v (2 ^ k))" by (simp add: and_mask_dvd_nat)
qed

text \<open>Where nothing wraps, rounding up gives the next multiple.\<close>

lemma roundup_up:
  assumes "k < 64" and "unat v + (2 ^ k - 1) < 2 ^ 64"
  shows "v \<le> roundup v (2 ^ k)" and "unat (roundup v (2 ^ k)) < unat v + 2 ^ k"
proof -
  have le: "take_bit k (v + mask k) \<le> (mask k :: u64)" by (simp add: take_bit_eq_mask word_and_le1)
  let ?g = "mask k - take_bit k (v + mask k) :: u64"
  have g: "unat ?g \<le> 2 ^ k - 1" using unat_sub[OF le] unat_mask[OF assms(1)] by simp
  have r: "roundup v (2 ^ k) = v + ?g" by (simp add: roundup_mask)
  have "unat v + unat ?g < 2 ^ 64" using g assms(2) by linarith
  then have u: "unat (v + ?g) = unat v + unat ?g" by (simp add: unat_word_ariths)
  show "v \<le> roundup v (2 ^ k)" unfolding r word_le_nat_alt u by simp
  show "unat (roundup v (2 ^ k)) < unat v + 2 ^ k" unfolding r u using g by (meson add_less_cancel_left le_less_trans diff_less zero_less_one zero_less_numeral zero_less_power)
qed

subsection \<open>Powers of two\<close>

text \<open>After the step with \<open>i\<close>, a bit says whether one of the \<open>2 i\<close> bits from it on was set.\<close>

definition window :: "nat \<Rightarrow> u64 \<Rightarrow> nat \<Rightarrow> bool" where
  "window w k n \<longleftrightarrow> (\<exists>m. n \<le> m \<and> m < n + w \<and> bit k m)"

lemma window_double: "window (2 * i) k n \<longleftrightarrow> window i k n \<or> window i k (i + n)"
proof
  assume "window (2 * i) k n"
  then obtain m where "n \<le> m" "m < n + 2 * i" "bit k m" by (auto simp: window_def)
  then show "window i k n \<or> window i k (i + n)" unfolding window_def by (cases "m < n + i") (auto intro: exI[of _ m])
next
  assume "window i k n \<or> window i k (i + n)"
  then show "window (2 * i) k n"
  proof
    assume "window i k (i + n)"
    then obtain m where "i + n \<le> m" "m < i + n + i" "bit k m" by (auto simp: window_def)
    then have "n \<le> m" "m < n + 2 * i" "bit k m" by simp_all
    then show ?thesis unfolding window_def by blast
  qed (force simp: window_def)
qed

lemma window_step: "\<forall>n. bit k' n = window i k n \<Longrightarrow> \<forall>n. bit (k' OR drop_bit i k') n = window (2 * i) k n"
  by (simp add: bit_simps window_double)

lemma smear_window: "\<forall>n. bit k' n = window (2 ^ j) k n \<Longrightarrow> j \<le> 6 \<Longrightarrow> bit (smear (2 ^ j) k') n = window 64 k n"
proof (induction "6 - j" arbitrary: j k')
  case 0
  then have "j = 6" by simp
  with 0 show ?case by (simp add: smear.simps)
next
  case (Suc d)
  then have "j < 6" "d = 6 - Suc j" by simp_all
  moreover have "(2 :: nat) ^ j < 2 ^ 6" using \<open>j < 6\<close> by (rule power_strict_increasing) simp
  then have "smear (2 ^ j) k' = smear (2 ^ Suc j) (k' OR drop_bit (2 ^ j) k')" by (simp add: smear.simps[of "2 ^ j"])
  ultimately show ?case using Suc.hyps(1)[of "Suc j"] window_step[OF Suc.prems(1)] by simp
qed

lemma bit_smear: "bit (smear (Suc 0) k) n = (\<exists>m \<ge> n. bit k m)"
proof -
  have "\<forall>n. bit k n = window (2 ^ 0) k n" by (auto simp: window_def less_Suc_eq_le dest: le_antisym)
  from smear_window[OF this, of n] have "bit (smear (Suc 0) k) n = window 64 k n" by simp
  moreover have "m < n + 64" if "bit k m" for m using bit_imp_le_length[OF that] by simp
  ultimately show ?thesis by (auto simp: window_def)
qed

lemma top_bit:
  fixes x :: u64
  assumes "x \<noteq> 0"
  obtains t where "t < 64" and "bit x t" and "\<And>m. t < m \<Longrightarrow> \<not> bit x m" and "2 ^ t \<le> unat x" and "unat x < 2 ^ Suc t"
proof -
  have fin: "finite {m. bit x m}" by (rule finite_subset[of _ "{..<64}"]) (auto dest: bit_imp_le_length)
  have "{m. bit x m} \<noteq> {}" using assms by (auto simp: bit_eq_iff)
  define t where "t = Max {m. bit x m}"
  have t: "bit x t" "\<not> bit x m" if "t < m" for m
    using Max_in[OF fin] Max_ge[OF fin] \<open>{m. bit x m} \<noteq> {}\<close> that unfolding t_def by (auto simp: not_less[symmetric])
  have b: "bit x t" using Max_in[OF fin] \<open>{m. bit x m} \<noteq> {}\<close> unfolding t_def by blast
  have "take_bit (Suc t) x = x" using t(2) by (intro bit_eqI) (auto simp: bit_simps less_Suc_eq_le, meson not_le)
  then have "take_bit (Suc t) (unat x) = unat x" by (metis unsigned_take_bit_eq)
  then have u: "unat x < 2 ^ Suc t" by (metis take_bit_nat_less_exp)
  have "bit (unat x) t" using b by (simp add: bit_unsigned_iff)
  then have "odd (unat x div 2 ^ t)" by (simp add: bit_iff_odd)
  then have l: "2 ^ t \<le> unat x" by (metis div_less even_zero not_le)
  show thesis by (rule that[OF _ b t(2) l u]) (use b in \<open>auto dest: bit_imp_le_length\<close>)
qed

text \<open>The least power of two that is not less than the argument.\<close>

lemma next_power_of_two_least:
  assumes "k \<noteq> 0" and "unat k \<le> 2 ^ 63"
  shows "\<exists>j < 64. next_power_of_two k = 2 ^ j \<and> unat k \<le> 2 ^ j \<and> 2 ^ j < 2 * unat k"
proof -
  have k1: "unat (k - 1) = unat k - 1" using assms(1) by (simp add: unat_minus_one)
  have pos: "0 < unat k" using assms(1) by (simp add: unat_gt_0)
  show ?thesis
  proof (cases "k - 1 = 0")
    case True
    have "smear (Suc 0) 0 = (0 :: u64)" by (rule bit_eqI) (simp add: bit_smear)
    with True assms(1) have "next_power_of_two k = 2 ^ 0" by (simp add: next_power_of_two_def)
    moreover have "unat k = 1" using True k1 pos by simp
    ultimately show ?thesis by (intro exI[of _ 0]) simp
  next
    case False
    then obtain t where t: "t < 64" "bit (k - 1) t" "\<And>m. t < m \<Longrightarrow> \<not> bit (k - 1) m" "2 ^ t \<le> unat (k - 1)" "unat (k - 1) < 2 ^ Suc t"
      by (rule top_bit) blast
    have "(\<exists>m \<ge> n. bit (k - 1) m) = (n \<le> t)" for n using t(2,3) by (meson le_trans not_le)
    then have "smear (Suc 0) (k - 1) = mask (Suc t)"
      using t(1) by (intro bit_eqI) (auto simp: bit_smear bit_simps)
    then have n: "next_power_of_two k = 2 ^ Suc t"
      using assms(1) by (simp add: next_power_of_two_def mask_eq_exp_minus_1)
    have "(2 :: nat) ^ t < 2 ^ 63" using t(4) k1 assms(2) pos by linarith
    then have "t < 63" by (rule power_less_imp_less_exp[rotated]) simp
    then show ?thesis using n t(4,5) k1 pos by (intro exI[of _ "Suc t"]) auto
  qed
qed

subsection \<open>Blocks\<close>

text \<open>
  The abstract heap: the blocks that tile the managed memory, in the order of their addresses, each
  free (\<open>None\<close>) or owned by a process. The two maps of the heap manager are views of this list.
\<close>

type_synonym block = "u64 \<times> u64 \<times> u32 option"

fun chain :: "nat \<Rightarrow> block list \<Rightarrow> nat \<Rightarrow> bool" where
  "chain a [] e \<longleftrightarrow> a = e"
| "chain a ((b, s, p) # bs) e \<longleftrightarrow> unat b = a \<and> 0 < unat s \<and> chain (a + unat s) bs e"

fun free_of :: "block list \<Rightarrow> (u64 \<times> u64) list" where
  "free_of [] = []"
| "free_of ((b, s, None) # bs) = (b, s) # free_of bs"
| "free_of ((b, s, Some p) # bs) = free_of bs"

fun used_of :: "block list \<Rightarrow> (u64 \<times> u64 \<times> u32) list" where
  "used_of [] = []"
| "used_of ((b, s, None) # bs) = used_of bs"
| "used_of ((b, s, Some p) # bs) = (b, s, p) # used_of bs"

text \<open>No two free blocks lie side by side.\<close>

definition coalesced :: "block list \<Rightarrow> bool" where
  "coalesced = successively (\<lambda>x y. snd (snd x) \<noteq> None \<or> snd (snd y) \<noteq> None)"

definition is_pow2 :: "u64 \<Rightarrow> bool" where
  "is_pow2 x \<longleftrightarrow> (\<exists>k < 64. x = 2 ^ k)"

definition heap_blocks :: "heap \<Rightarrow> block list \<Rightarrow> bool" where
  "heap_blocks h bs \<longleftrightarrow> chain (unat (start_addr h)) bs (unat (start_addr h) + unat (heap_length h)) \<and>
     unat (start_addr h) + unat (heap_length h) < 2 ^ 64 \<and> coalesced bs \<and>
     free_list h = free_of bs \<and> alloc_list h = used_of bs \<and>
     available h = sum_list (map snd (free_of bs))"

lemma chain_append: "chain a (xs @ ys) e \<longleftrightarrow> (\<exists>m. chain a xs m \<and> chain m ys e)"
  by (induction a xs e rule: chain.induct) auto

lemma free_of_append [simp]: "free_of (xs @ ys) = free_of xs @ free_of ys"
  by (induction xs rule: free_of.induct) auto

lemma used_of_append [simp]: "used_of (xs @ ys) = used_of xs @ used_of ys"
  by (induction xs rule: used_of.induct) auto

lemma chain_le: "chain a bs e \<Longrightarrow> a \<le> e"
  by (induction a bs e rule: chain.induct) auto

lemma chain_bounds: "chain a bs e \<Longrightarrow> (b, s, p) \<in> set bs \<Longrightarrow> a \<le> unat b \<and> unat b + unat s \<le> e \<and> 0 < unat s"
proof (induction a bs e rule: chain.induct)
  case (2 a b' s' p' bs e)
  then show ?case using chain_le[of "a + unat s'" bs e] by auto
qed simp

lemma in_free_of: "(b, s) \<in> set (free_of bs) \<longleftrightarrow> (b, s, None) \<in> set bs"
  by (induction bs rule: free_of.induct) auto

lemma in_used_of: "(b, s, p) \<in> set (used_of bs) \<longleftrightarrow> (b, s, Some p) \<in> set bs"
  by (induction bs rule: used_of.induct) auto

lemma coalesced_simps [simp]:
  "coalesced []" "coalesced [x]"
  "coalesced (x # y # bs) \<longleftrightarrow> (snd (snd x) \<noteq> None \<or> snd (snd y) \<noteq> None) \<and> coalesced (y # bs)"
  by (simp_all add: coalesced_def)

lemma coalesced_append:
  "coalesced (xs @ ys) \<longleftrightarrow> coalesced xs \<and> coalesced ys \<and>
     (xs = [] \<or> ys = [] \<or> snd (snd (last xs)) \<noteq> None \<or> snd (snd (hd ys)) \<noteq> None)"
  by (simp add: coalesced_def successively_append_iff)

text \<open>The entries of the maps below and above a block.\<close>

lemma keys_below:
  assumes "chain a bs e" and "e \<le> unat k"
  shows "\<forall>x \<in> set (free_of bs). fst x < k" and "\<forall>x \<in> set (used_of bs). fst x < k"
  using chain_bounds[OF assms(1)] assms(2) in_free_of in_used_of by (fastforce simp: word_less_nat_alt)+

lemma keys_above:
  assumes "chain a bs e" and "unat k < a"
  shows "\<forall>x \<in> set (free_of bs). k < fst x" and "\<forall>x \<in> set (used_of bs). k < fst x"
  using chain_bounds[OF assms(1)] assms(2) in_free_of in_used_of by (fastforce simp: word_less_nat_alt)+

text \<open>Putting and erasing an entry at its place.\<close>

lemma map_put_at:
  assumes "\<forall>x \<in> set xs. fst x < k" and "\<forall>x \<in> set ys. k < fst x"
  shows "map_put k v (xs @ ys) = xs @ (k, v) # ys" and "map_put k v (xs @ (k, w) # ys) = xs @ (k, v) # ys"
proof -
  have "filter (\<lambda>x. fst x < k) xs = xs" "filter (\<lambda>x. k < fst x) ys = ys" using assms by (auto intro: filter_True)
  moreover have "filter (\<lambda>x. k < fst x) xs = []" "filter (\<lambda>x. fst x < k) ys = []"
    using assms by (auto intro!: filter_False dest: order_less_asym)
  ultimately show "map_put k v (xs @ ys) = xs @ (k, v) # ys" "map_put k v (xs @ (k, w) # ys) = xs @ (k, v) # ys"
    by (simp_all add: map_put_def)
qed

lemma map_erase_at:
  assumes "\<forall>x \<in> set xs. fst x < k" and "\<forall>x \<in> set ys. k < fst x"
  shows "map_erase k (xs @ (k, w) # ys) = xs @ ys"
proof -
  have "filter (\<lambda>x. fst x \<noteq> k) xs = xs" "filter (\<lambda>x. fst x \<noteq> k) ys = ys" using assms by (auto intro!: filter_True)
  then show ?thesis by (simp add: map_erase_def)
qed

lemma split_free:
  assumes "free_of bs = xs @ (k, s) # ys"
  shows "\<exists>us vs. bs = us @ (k, s, None) # vs \<and> free_of us = xs \<and> free_of vs = ys"
  using assms
proof (induction bs arbitrary: xs rule: free_of.induct)
  case (2 b t bs)
  show ?case
  proof (cases xs)
    case Nil
    with 2 show ?thesis by (intro exI[of _ "[]"] exI[of _ bs]) simp
  next
    case (Cons x xs')
    with 2 obtain us vs where "bs = us @ (k, s, None) # vs" "free_of us = xs'" "free_of vs = ys" by auto
    with Cons 2 show ?thesis by (intro exI[of _ "(b, t, None) # us"] exI[of _ vs]) simp
  qed
next
  case (3 b t p bs)
  then obtain us vs where "bs = us @ (k, s, None) # vs" "free_of us = xs" "free_of vs = ys" by auto
  then show ?case by (intro exI[of _ "(b, t, Some p) # us"] exI[of _ vs]) simp
qed simp

subsection \<open>Allocation\<close>

text \<open>The gap in front of the aligned address of a block, and the room behind it.\<close>

definition gap_of :: "u64 \<Rightarrow> u64 \<Rightarrow> u64" where
  "gap_of align k = roundup k align - k"

definition room_of :: "u64 \<Rightarrow> u64 \<times> u64 \<Rightarrow> u64" where
  "room_of align x = (if gap_of align (fst x) < snd x then snd x - gap_of align (fst x) else 0)"

lemma malloc_scan_find:
  "malloc_scan align sz fl = map_option (\<lambda>x. (fst x, gap_of align (fst x), roundup (fst x) align, room_of align x))
     (find (\<lambda>x. sz \<le> room_of align x) fl)"
  by (induction align sz fl rule: malloc_scan.induct) (auto simp: Let_def room_of_def gap_of_def not_less)

text \<open>What becomes of the free block with the key \<open>k\<close> and the size \<open>s\<close>.\<close>

definition carve :: "u32 \<Rightarrow> u64 \<Rightarrow> u64 \<Rightarrow> u64 \<Rightarrow> u64 \<Rightarrow> block list" where
  "carve pid align sz k s = (let g = gap_of align k; a = roundup k align; r = room_of align (k, s)
     in (if g \<noteq> 0 then [(k, g, None)] else []) @ (a, sz, Some pid) # (if r > sz then [(a + sz, r - sz, None)] else []))"

lemma carve_chain:
  assumes "0 < sz" and "sz \<le> room_of align (k, s)" and "unat k + unat s < 2 ^ 64"
  shows "chain (unat k) (carve pid align sz k s) (unat k + unat s)"
    and "unat (roundup k align) = unat k + unat (gap_of align k)"
    and "unat (roundup k align) + unat sz \<le> unat k + unat s"
proof -
  let ?g = "gap_of align k" and ?r = "room_of align (k, s)"
  have gs: "?g < s" "?r = s - ?g" using assms(1,2) by (auto simp: room_of_def split: if_splits)
  have ur: "unat ?r = unat s - unat ?g" using gs by (simp add: unat_sub)
  have ug: "unat ?g < unat s" using gs(1) by (simp add: word_less_nat_alt)
  have a: "roundup k align = k + ?g" by (simp add: gap_of_def)
  show ua: "unat (roundup k align) = unat k + unat ?g" unfolding a using assms(3) ug by (simp add: unat_word_ariths)
  have us: "unat sz \<le> unat s - unat ?g" using assms(2) ur by (simp add: word_le_nat_alt)
  then show le: "unat (roundup k align) + unat sz \<le> unat k + unat s" using ua ug by linarith
  have sz: "0 < unat sz" using assms(1) by (simp add: word_less_nat_alt)
  have g0: "unat ?g = 0 \<or> 0 < ?g" by (cases "?g = 0") (simp_all add: word_neq_0_conv[symmetric])
  show "chain (unat k) (carve pid align sz k s) (unat k + unat s)"
  proof (cases "sz < ?r")
    case True
    have "unat (roundup k align + sz) = unat (roundup k align) + unat sz" using le assms(3) by (simp add: unat_word_ariths)
    moreover have "unat (?r - sz) = unat s - unat ?g - unat sz" using True ur by (simp add: unat_sub)
    moreover have "unat sz < unat s - unat ?g" using True ur by (simp add: word_less_nat_alt)
    ultimately show ?thesis using ua sz ug g0 True by (auto simp: carve_def Let_def unat_gt_0 word_neq_0_conv)
  next
    case False
    then have "unat sz = unat s - unat ?g" using assms(2) ur by (metis order_le_less)
    then show ?thesis using ua sz ug g0 False by (auto simp: carve_def Let_def unat_gt_0 word_neq_0_conv)
  qed
qed

lemma carve_views:
  "used_of (carve pid align sz k s) = [(roundup k align, sz, pid)]"
  "free_of (carve pid align sz k s) = (if gap_of align k \<noteq> 0 then [(k, gap_of align k)] else []) @
     (if room_of align (k, s) > sz then [(roundup k align + sz, room_of align (k, s) - sz)] else [])"
  by (simp_all add: carve_def Let_def)

lemma carve_coalesced:
  assumes "coalesced (us @ (k, s, None) # vs)"
  shows "coalesced (us @ carve pid align sz k s @ vs)"
proof -
  have c: "coalesced us" "us = [] \<or> snd (snd (last us)) \<noteq> None" "coalesced vs" "vs = [] \<or> snd (snd (hd vs)) \<noteq> None"
    using assms by (auto simp: coalesced_append) (cases vs; simp)+
  have "coalesced (carve pid align sz k s)" by (simp add: carve_def Let_def)
  with c show ?thesis by (auto simp: coalesced_append)
qed

text \<open>The whole of the second half of \<open>malloc\<close>, on the blocks.\<close>

lemma malloc_at:
  assumes "heap_blocks h (us @ (k, s, None) # vs)" and "0 < sz" and "sz \<le> room_of align (k, s)"
    and "fl1 = (if gap_of align k \<noteq> 0 then map_put k (gap_of align k) (free_list h) else map_erase k (free_list h))"
    and "fl2 = (if room_of align (k, s) > sz then map_put (roundup k align + sz) (room_of align (k, s) - sz) fl1 else fl1)"
    and "h' = h\<lparr>free_list := fl2, alloc_list := map_put (roundup k align) (sz, pid) (alloc_list h), available := available h - sz\<rparr>"
  shows "heap_blocks h' (us @ carve pid align sz k s @ vs)"
proof -
  let ?S = "unat (start_addr h)" and ?a = "roundup k align" and ?g = "gap_of align k" and ?r = "room_of align (k, s)"
  let ?E = "?S + unat (heap_length h)"
  have hb: "chain ?S (us @ (k, s, None) # vs) ?E" "?E < 2 ^ 64" "coalesced (us @ (k, s, None) # vs)"
    "free_list h = free_of us @ (k, s) # free_of vs" "alloc_list h = used_of us @ used_of vs"
    "available h = sum_list (map snd (free_of us)) + s + sum_list (map snd (free_of vs))"
    using assms(1) by (simp_all add: heap_blocks_def add_ac)
  then have us: "chain ?S us (unat k)" and vs: "chain (unat k + unat s) vs ?E" and s: "0 < unat s"
    by (auto simp: chain_append)
  have top: "unat k + unat s < 2 ^ 64" using chain_le[OF vs] hb(2) by linarith
  note cc = carve_chain[OF assms(2,3) top]
  have sz: "0 < unat sz" using assms(2) by (simp add: word_less_nat_alt)
  have gs: "?g < s" "?r = s - ?g" using assms(2,3) by (auto simp: room_of_def split: if_splits)
  have "chain ?S (us @ carve pid align sz k s @ vs) ?E" using us cc(1) vs by (auto simp: chain_append)
  moreover have "map_put ?a (sz, pid) (used_of us @ used_of vs) = used_of us @ (?a, sz, pid) # used_of vs"
    using keys_below(2)[OF us, of ?a] keys_above(2)[OF vs, of ?a] cc(2,3) sz s by (intro map_put_at) auto
  moreover have "fl1 = free_of us @ (if ?g \<noteq> 0 then [(k, ?g)] else []) @ free_of vs"
    using map_put_at(2)[of "free_of us" k "free_of vs"] map_erase_at[of "free_of us" k "free_of vs"]
      keys_below(1)[OF us, of k] keys_above(1)[OF vs, of k] s assms(4) hb(4) by simp
  moreover have "fl2 = free_of us @ free_of (carve pid align sz k s) @ free_of vs"
  proof (cases "sz < ?r")
    case True
    have ua: "unat (?a + sz) = unat k + unat ?g + unat sz" using cc(2,3) top by (simp add: unat_word_ariths)
    have "unat sz < unat s - unat ?g" using True gs by (simp add: word_less_nat_alt unat_sub)
    then have "unat (?a + sz) < unat k + unat s" "unat k < unat (?a + sz)" using ua gs sz by (simp_all add: word_less_nat_alt)
    then have "map_put (?a + sz) (?r - sz) ((free_of us @ (if ?g \<noteq> 0 then [(k, ?g)] else [])) @ free_of vs) =
        (free_of us @ (if ?g \<noteq> 0 then [(k, ?g)] else [])) @ (?a + sz, ?r - sz) # free_of vs"
      using keys_below(1)[OF us, of "?a + sz"] keys_above(1)[OF vs, of "?a + sz"]
      by (intro map_put_at(1)) (auto simp: word_less_nat_alt)
    with True show ?thesis using calculation(3) assms(5) by (simp add: carve_views)
  next
    case False
    with calculation(3) assms(5) show ?thesis by (simp add: carve_views)
  qed
  moreover have "sum_list (map snd (free_of (carve pid align sz k s))) = s - sz"
  proof (cases "sz < ?r")
    case False
    then have "sz = ?r" using assms(3) by simp
    with gs False show ?thesis by (auto simp: carve_views)
  qed (use gs in \<open>auto simp: carve_views\<close>)
  ultimately show ?thesis
    using carve_coalesced[OF hb(3), of pid align sz] hb(2,5,6) assms(6) unfolding heap_blocks_def by (simp add: carve_views(1))
qed

text \<open>The configuration of a heap, which allocation and freeing leave alone.\<close>

definition same_config :: "heap \<Rightarrow> heap \<Rightarrow> bool" where
  "same_config h h' \<longleftrightarrow> start_addr h' = start_addr h \<and> heap_length h' = heap_length h \<and> min_block h' = min_block h \<and>
     addrs_need_pow2_size_alignment h' = addrs_need_pow2_size_alignment h \<and>
     max_pow2_size_alignment h' = max_pow2_size_alignment h"

lemma malloc_config: "malloc pid sz allow_fail h = Inr (a, h') \<Longrightarrow> same_config h h'"
  by (auto simp: malloc_def Let_def same_config_def split: option.splits if_splits)

lemma same_blocks_same_heap:
  assumes "heap_blocks h bs" and "heap_blocks h' bs" and "same_config h h'"
  shows "h' = h"
  using assms by (cases h; cases h') (simp add: heap_blocks_def same_config_def)

lemma malloc_blocks:
  assumes "heap_blocks h bs" and "0 < min_block_size h sz" and "sz' = min_block_size h sz" and "align = alignment h sz'"
    and "find (\<lambda>x. sz' \<le> room_of align x) (free_of bs) = Some (k, s)"
  shows "\<exists>us vs h'. bs = us @ (k, s, None) # vs \<and> malloc pid sz allow_fail h = Inr (roundup k align, h') \<and>
     heap_blocks h' (us @ carve pid align sz' k s @ vs) \<and> same_config h h'"
proof -
  let ?fl1 = "if gap_of align k \<noteq> 0 then map_put k (gap_of align k) (free_list h) else map_erase k (free_list h)"
  let ?fl2 = "if room_of align (k, s) > sz' then map_put (roundup k align + sz') (room_of align (k, s) - sz') ?fl1 else ?fl1"
  let ?h = "h\<lparr>free_list := ?fl2, alloc_list := map_put (roundup k align) (sz', pid) (alloc_list h), available := available h - sz'\<rparr>"
  have fit: "(k, s) \<in> set (free_of bs)" "sz' \<le> room_of align (k, s)"
    using assms(5) by (auto simp: find_Some_iff in_set_conv_nth)
  then obtain xs ys where "free_of bs = xs @ (k, s) # ys" by (meson split_list)
  then obtain us vs where bs: "bs = us @ (k, s, None) # vs" using split_free by blast
  have "malloc pid sz allow_fail h = Inr (roundup k align, ?h)"
    using assms(1,3-5) by (simp add: malloc_def Let_def malloc_scan_find heap_blocks_def)
  moreover have "heap_blocks ?h (us @ carve pid align sz' k s @ vs)"
    using assms(1,2,3) fit(2) bs by (intro malloc_at) simp_all
  moreover have "same_config h ?h" by (simp add: same_config_def)
  ultimately show ?thesis using bs by blast
qed

lemma malloc_full:
  assumes "heap_blocks h bs" and "find (\<lambda>x. min_block_size h sz \<le> room_of (alignment h (min_block_size h sz)) x) (free_of bs) = None"
  shows "malloc pid sz allow_fail h = (if allow_fail then Inr (0, h) else Inl (Exit 1))"
  using assms by (simp add: malloc_def Let_def malloc_scan_find heap_blocks_def)

subsection \<open>Freeing\<close>

lemma hd_free:
  assumes "chain m ys e" and "free_of ys = (b, t) # r"
  shows "unat b = m \<longleftrightarrow> (\<exists>ys'. ys = (b, t, None) # ys')" and "m \<le> unat b" and "unat b + unat t \<le> e" and "0 < unat t"
proof -
  have in_ys: "(b, t, None) \<in> set ys" using in_free_of[of b t ys] assms(2) by simp
  show "m \<le> unat b" "unat b + unat t \<le> e" "0 < unat t" using chain_bounds[OF assms(1) in_ys] by simp_all
  obtain c u p ys' where ys: "ys = (c, u, p) # ys'" using in_ys by (cases ys) auto
  show "unat b = m \<longleftrightarrow> (\<exists>ys'. ys = (b, t, None) # ys')"
  proof (cases p)
    case None
    with ys assms show ?thesis by auto
  next
    case (Some q)
    then have "(b, t, None) \<in> set ys'" using in_ys ys by simp
    then have "m + unat u \<le> unat b" "0 < unat u" using chain_bounds[of "m + unat u" ys' e b t None] assms(1) ys by auto
    with ys Some show ?thesis by auto
  qed
qed

lemma last_free:
  assumes "chain a xs m" and "free_of xs \<noteq> []" and "last (free_of xs) = (p, q)"
  shows "unat p + unat q = m \<longleftrightarrow> (\<exists>xs'. xs = xs' @ [(p, q, None)])" and "unat p + unat q \<le> m"
proof -
  have in_xs: "(p, q, None) \<in> set xs" using in_free_of[of p q xs] assms(2,3) by (metis last_in_set)
  show "unat p + unat q \<le> m" using chain_bounds[OF assms(1) in_xs] by simp
  obtain xs' c u r where xs: "xs = xs' @ [(c, u, r)]" using in_xs by (metis append_butlast_last_id empty_iff list.set(1) prod_cases3)
  then have ch: "chain a xs' (unat c)" "unat c + unat u = m" "0 < unat u" using assms(1) by (auto simp: chain_append)
  show "unat p + unat q = m \<longleftrightarrow> (\<exists>xs'. xs = xs' @ [(p, q, None)])"
  proof (cases r)
    case None
    then have "c = p" "u = q" using xs assms(3) by simp_all
    with xs None ch(2) show ?thesis by simp
  next
    case (Some q')
    then have "(p, q, None) \<in> set xs'" using in_xs xs by simp
    then have "unat p + unat q \<le> unat c" using chain_bounds[OF ch(1)] by blast
    with xs Some ch show ?thesis by auto
  qed
qed

text \<open>Giving back the block \<open>(a, sz)\<close> between \<open>xs\<close> and \<open>ys\<close>, merged with its free neighbours.\<close>

definition merge_after :: "u64 \<Rightarrow> block list \<Rightarrow> u64 \<times> block list" where
  "merge_after sz ys = (case ys of (b, t, None) # ys' \<Rightarrow> (sz + t, ys') | _ \<Rightarrow> (sz, ys))"

definition merge_block :: "block list \<Rightarrow> u64 \<Rightarrow> u64 \<Rightarrow> block list \<Rightarrow> block list" where
  "merge_block xs a sz ys = (let (sz', ys') = merge_after sz ys
     in if xs \<noteq> [] \<and> snd (snd (last xs)) = None
        then butlast xs @ (fst (last xs), fst (snd (last xs)) + sz', None) # ys'
        else xs @ (a, sz', None) # ys')"

text \<open>The comparisons of the code decide whether the neighbours are free.\<close>

lemma merge_tests:
  assumes "chain S (xs @ (a, sz, Some pid) # ys) E" and "E < 2 ^ 64" and "free_of ys = (b, t) # r"
  shows "a + sz = b \<longleftrightarrow> (\<exists>ys'. ys = (b, t, None) # ys')"
    and "free_of xs = [] \<Longrightarrow> b + t \<noteq> a"
    and "free_of xs \<noteq> [] \<Longrightarrow> last (free_of xs) = (p, q) \<Longrightarrow> p + q = a \<longleftrightarrow> (\<exists>xs'. xs = xs' @ [(p, q, None)])"
proof -
  have xs: "chain S xs (unat a)" and ys: "chain (unat a + unat sz) ys E" and sz: "0 < unat sz"
    using assms(1) by (auto simp: chain_append)
  have as: "unat (a + sz) = unat a + unat sz" using chain_le[OF ys] assms(2) by (simp add: unat_word_ariths)
  show "a + sz = b \<longleftrightarrow> (\<exists>ys'. ys = (b, t, None) # ys')"
    unfolding hd_free(1)[OF ys assms(3), symmetric] using as by (metis word_unat_eq_iff)
  have "unat (b + t) = unat b + unat t" using hd_free(3)[OF ys assms(3)] assms(2) by (simp add: unat_word_ariths)
  then show "b + t \<noteq> a" using hd_free(2)[OF ys assms(3)] sz by auto
  show "p + q = a \<longleftrightarrow> (\<exists>xs'. xs = xs' @ [(p, q, None)])" if "free_of xs \<noteq> []" "last (free_of xs) = (p, q)"
  proof -
    have "unat p + unat q \<le> unat a" by (rule last_free(2)[OF xs that])
    moreover have "unat a < 2 ^ LENGTH(64)" by (rule unsigned_less)
    ultimately have "unat (p + q) = unat p + unat q" by (simp add: unat_word_ariths)
    then show ?thesis unfolding last_free(1)[OF xs that, symmetric] by (metis word_unat_eq_iff)
  qed
qed

lemma merge_block_chain:
  assumes "chain S (xs @ (a, sz, Some pid) # ys) E" and "E < 2 ^ 64"
  shows "chain S (merge_block xs a sz ys) E"
proof -
  have xs: "chain S xs (unat a)" and ys: "chain (unat a + unat sz) ys E" and sz: "0 < unat sz"
    using assms(1) by (auto simp: chain_append)
  obtain sz' ys' where m: "merge_after sz ys = (sz', ys')" by fastforce
  have a: "unat sz \<le> unat sz' \<and> chain (unat a + unat sz') ys' E"
  proof (cases "\<exists>b t zs. ys = (b, t, None) # zs")
    case True
    then obtain b t zs where y: "ys = (b, t, None) # zs" by blast
    then have "unat a + unat sz + unat t \<le> E" using ys chain_le by auto
    then have "unat (sz + t) = unat sz + unat t" using assms(2) by (simp add: unat_word_ariths)
    with y ys m show ?thesis by (auto simp: merge_after_def add_ac)
  next
    case False
    then have "sz' = sz" "ys' = ys" using m by (auto simp: merge_after_def split: list.splits option.splits)
    with ys show ?thesis by simp
  qed
  show ?thesis
  proof (cases "xs \<noteq> [] \<and> snd (snd (last xs)) = None")
    case True
    then obtain xs' p q where x: "xs = xs' @ [(p, q, None)]" by (metis append_butlast_last_id prod.collapse)
    then have "chain S xs' (unat p)" "unat p + unat q = unat a" "0 < unat q" using xs by (auto simp: chain_append)
    moreover have "unat a + unat sz' \<le> E" using a chain_le by blast
    then have "unat (q + sz') = unat q + unat sz'" using calculation assms(2) by (simp add: unat_word_ariths)
    ultimately show ?thesis using a x m by (auto simp: merge_block_def chain_append add.assoc[symmetric])
  next
    case False
    with xs a sz m show ?thesis by (auto simp: merge_block_def chain_append)
  qed
qed

lemma merge_block_views:
  assumes "coalesced (xs @ (a, sz, Some pid) # ys)"
  shows "used_of (merge_block xs a sz ys) = used_of xs @ used_of ys" and "coalesced (merge_block xs a sz ys)"
    and "sum_list (map snd (free_of (merge_block xs a sz ys))) =
      sum_list (map snd (free_of xs)) + sz + sum_list (map snd (free_of ys))"
proof -
  obtain sz' ys' where m: "merge_after sz ys = (sz', ys')" by fastforce
  have c: "coalesced xs" "coalesced ys" using assms by (auto simp: coalesced_append) (cases ys; simp)
  have y: "used_of ys' = used_of ys \<and> coalesced ys' \<and> (ys' = [] \<or> snd (snd (hd ys')) \<noteq> None) \<and>
      sz' + sum_list (map snd (free_of ys')) = sz + sum_list (map snd (free_of ys))"
  proof (cases "\<exists>b t zs. ys = (b, t, None) # zs")
    case True
    then obtain b t zs where z: "ys = (b, t, None) # zs" by blast
    with c(2) have "coalesced zs" "zs = [] \<or> snd (snd (hd zs)) \<noteq> None" by (cases zs; simp)+
    with z m show ?thesis by (auto simp: merge_after_def add_ac)
  next
    case False
    then have "sz' = sz" "ys' = ys" "ys = [] \<or> snd (snd (hd ys)) \<noteq> None"
      using m by (auto simp: merge_after_def split: list.splits option.splits)
    with c(2) show ?thesis by simp
  qed
  have cons: "coalesced ((u, v, None) # ys')" for u v using y by (cases ys') auto
  show "used_of (merge_block xs a sz ys) = used_of xs @ used_of ys" "coalesced (merge_block xs a sz ys)"
    "sum_list (map snd (free_of (merge_block xs a sz ys))) = sum_list (map snd (free_of xs)) + sz + sum_list (map snd (free_of ys))"
  proof (atomize (full), cases "xs \<noteq> [] \<and> snd (snd (last xs)) = None")
    case True
    then obtain xs' p q where x: "xs = xs' @ [(p, q, None)]" by (metis append_butlast_last_id prod.collapse)
    with c(1) have "coalesced xs'" "xs' = [] \<or> snd (snd (last xs')) \<noteq> None" by (auto simp: coalesced_append)
    with x y m cons show "used_of (merge_block xs a sz ys) = used_of xs @ used_of ys \<and> coalesced (merge_block xs a sz ys) \<and>
        sum_list (map snd (free_of (merge_block xs a sz ys))) = sum_list (map snd (free_of xs)) + sz + sum_list (map snd (free_of ys))"
      by (auto simp: merge_block_def coalesced_append add.assoc)
  next
    case False
    with c(1) y m cons show "used_of (merge_block xs a sz ys) = used_of xs @ used_of ys \<and> coalesced (merge_block xs a sz ys) \<and>
        sum_list (map snd (free_of (merge_block xs a sz ys))) = sum_list (map snd (free_of xs)) + sz + sum_list (map snd (free_of ys))"
      by (auto simp: merge_block_def coalesced_append add.assoc)
  qed
qed

lemma map_of_used:
  assumes "chain S (xs @ (a, sz, Some pid) # ys) E"
  shows "map_of (used_of (xs @ (a, sz, Some pid) # ys)) a = Some (sz, pid)"
proof -
  have "chain S xs (unat a)" using assms by (auto simp: chain_append)
  then have "a \<notin> fst ` set (used_of xs)" using keys_below(2)[of S xs "unat a" a] by auto
  then show ?thesis by (simp add: map_add_def map_of_eq_None_iff[THEN iffD2] split: option.splits)
qed

lemma give_back_blocks:
  assumes "chain S (xs @ (a, sz, Some pid) # ys) E" and "E < 2 ^ 64" and "free_of ys = (b, t) # r"
  shows "give_back a sz (if free_of xs = [] then (b, t) else last (free_of xs)) (b, t) (free_of xs @ free_of ys) =
     free_of (merge_block xs a sz ys)"
proof -
  have xs: "chain S xs (unat a)" and ys: "chain (unat a + unat sz) ys E" and sz: "0 < unat sz"
    using assms(1) by (auto simp: chain_append)
  note tests = merge_tests[OF assms]
  obtain zs where zs: "ys = (b, t, None) # zs \<and> a + sz = b \<or> ys = zs \<and> a + sz \<noteq> b \<and> merge_after sz ys = (sz, ys)"
  proof (cases "a + sz = b")
    case False
    then have "merge_after sz ys = (sz, ys)"
      using tests(1) assms(3) by (auto simp: merge_after_def split: list.splits option.splits)
    with False that show thesis by blast
  qed (use tests(1) that in blast)
  let ?fl = "\<lambda>us v. if a + sz = b then us @ v # free_of zs else us @ v # free_of ys"
  have er: "map_erase b (us @ v # (b, t) # free_of zs) = us @ v # free_of zs"
    if "a + sz = b" "\<forall>x \<in> set us. fst x < b" "fst v < b" for us v
  proof -
    have "chain (unat a + unat sz + unat t) zs E" "0 < unat t" "unat b = unat a + unat sz" using zs that(1) ys by auto
    then have "\<forall>x \<in> set (free_of zs). b < fst x" using keys_above(1)[of _ zs E b] by auto
    with map_erase_at[of "us @ [v]" b "free_of zs" t] that(2,3) show ?thesis by auto
  qed
  have ab: "a < b" using hd_free(2)[OF ys assms(3)] sz by (simp add: word_less_nat_alt)
  have abv: "\<forall>x \<in> set (free_of ys). a < fst x" using keys_above(1)[OF ys, of a] sz by auto
  have blw: "\<forall>x \<in> set (free_of xs). fst x < a" using keys_below(1)[OF xs, of a] by auto
  show ?thesis
  proof (cases "xs \<noteq> [] \<and> snd (snd (last xs)) = None")
    case True
    then obtain xs' p q where x: "xs = xs' @ [(p, q, None)]" by (metis append_butlast_last_id prod.collapse)
    have "chain S xs' (unat p)" "p < a" using xs x by (auto simp: chain_append word_less_nat_alt)
    then have k: "\<forall>y \<in> set (free_of xs'). fst y < p" "\<forall>y \<in> set (free_of ys). p < fst y"
      using keys_below(1)[of S xs' "unat p" p] abv by (auto dest: order_less_trans)
    have "\<forall>y \<in> set (free_of xs'). fst y < b" "p < b" using k(1) \<open>p < a\<close> ab by (auto dest: order_less_trans)
    moreover have "p + q = a" using tests(3) x by simp
    ultimately show ?thesis
      using zs x map_put_at(2)[OF k] er[of "free_of xs'"] by (auto simp: give_back_def Let_def merge_block_def merge_after_def)
  next
    case False
    then have np: "\<not> (\<exists>xs' p q. xs = xs' @ [(p, q, None)])" by auto
    then have "fst (if free_of xs = [] then (b, t) else last (free_of xs)) + snd (if free_of xs = [] then (b, t) else last (free_of xs)) \<noteq> a"
      using tests(2,3) by (cases "last (free_of xs)") auto
    moreover have "\<forall>y \<in> set (free_of xs). fst y < b" using blw ab by (auto dest: order_less_trans)
    ultimately show ?thesis
      using zs False map_put_at(1)[OF blw abv] er[of "free_of xs"] ab by (auto simp: give_back_def Let_def merge_block_def merge_after_def)
  qed
qed

lemma free_at:
  assumes "heap_blocks h (xs @ (a, sz, Some pid) # ys)" and "free_of ys \<noteq> []"
  shows "\<exists>h'. heap_free a h = Inr (0, h') \<and> heap_blocks h' (merge_block xs a sz ys) \<and> same_config h h'"
proof -
  let ?S = "unat (start_addr h)" and ?bs = "xs @ (a, sz, Some pid) # ys"
  let ?E = "?S + unat (heap_length h)"
  have hb: "chain ?S ?bs ?E" "?E < 2 ^ 64" "coalesced ?bs" "free_list h = free_of xs @ free_of ys"
    "alloc_list h = used_of ?bs" "available h = sum_list (map snd (free_of xs)) + sum_list (map snd (free_of ys))"
    using assms(1) by (simp_all add: heap_blocks_def)
  have xs: "chain ?S xs (unat a)" and ys: "chain (unat a + unat sz) ys ?E" and sz: "0 < unat sz"
    using hb(1) by (auto simp: chain_append)
  have below: "\<forall>x \<in> set (free_of xs). fst x < a" "\<forall>x \<in> set (used_of xs). fst x < a" using keys_below[OF xs, of a] by auto
  have above: "\<forall>x \<in> set (free_of ys). a < fst x" "\<forall>x \<in> set (used_of ys). a < fst x" using keys_above[OF ys, of a] sz by auto
  have filt: "filter (\<lambda>x. fst x < a) (free_of xs @ free_of ys) = free_of xs"
    "filter (\<lambda>x. \<not> fst x < a) (free_of xs @ free_of ys) = free_of ys"
    using below(1) above(1) by (auto intro!: filter_True filter_False simp: filter_empty_conv dest: order_less_asym)
  obtain b t r where y: "free_of ys = (b, t) # r" using assms(2) by (cases "free_of ys") auto
  let ?h = "h\<lparr>free_list := free_of (merge_block xs a sz ys), alloc_list := map_erase a (alloc_list h), available := available h + sz\<rparr>"
  have "heap_free a h = Inr (0, ?h)"
    unfolding heap_free_def hb(4) filt unfolding hb(5) map_of_used[OF hb(1)]
    using give_back_blocks[OF hb(1,2) y] y by (simp add: Let_def hb(5))
  moreover have "map_erase a (alloc_list h) = used_of xs @ used_of ys"
    using map_erase_at[OF below(2) above(2)] hb(5) by simp
  ultimately show ?thesis
    using merge_block_views[OF hb(3)] merge_block_chain[OF hb(1,2)] hb(2,6)
    unfolding heap_blocks_def same_config_def by (intro exI[of _ ?h]) (simp add: add_ac)
qed

end
