(* ===== verification/Heap_Properties.thy ===== *)
theory Heap_Properties
  imports Heap_Manager
begin

text \<open>
  What the heap manager guarantees: allocated blocks are disjoint, aligned and inside the managed
  memory, allocation is first fit, freeing undoes allocating, and the blocks of a process can be
  freed together. Two corner cases in which it does not work are stated too.
\<close>

subsection \<open>Properties\<close>

text \<open>A configured heap whose maps are those of a tiling of the managed memory.\<close>

definition heap_ok :: "heap \<Rightarrow> bool" where
  "heap_ok h \<longleftrightarrow> (\<exists>bs. heap_blocks h bs) \<and> is_pow2 (min_block h) \<and>
     (addrs_need_pow2_size_alignment h \<longrightarrow> is_pow2 (max_pow2_size_alignment h))"

lemma heap_ok_config: "same_config h h' \<Longrightarrow> heap_ok h \<Longrightarrow> heap_blocks h' bs \<Longrightarrow> heap_ok h'"
  by (auto simp: heap_ok_def same_config_def)

definition extent :: "u64 \<Rightarrow> u64 \<Rightarrow> nat set" where
  "extent a s = {unat a ..< unat a + unat s}"

lemma chain_disjoint:
  assumes "chain S (xs @ (a, s, p) # ys) E" and "(b, t, q) \<in> set xs \<union> set ys"
  shows "extent a s \<inter> extent b t = {}" and "a \<noteq> b"
proof -
  have c: "chain S xs (unat a)" "chain (unat a + unat s) ys E" "0 < unat s" using assms(1) by (auto simp: chain_append)
  have "unat b + unat t \<le> unat a \<and> 0 < unat t \<or> unat a + unat s \<le> unat b"
    using assms(2) chain_bounds[OF c(1), of b t q] chain_bounds[OF c(2), of b t q] by auto
  then show "extent a s \<inter> extent b t = {}" "a \<noteq> b" using c(3) by (auto simp: extent_def)
qed

lemma alignment_pow2:
  assumes "heap_ok h" and "0 < sz"
  shows "is_pow2 (alignment h sz)"
proof -
  have "\<exists>j < 64. next_power_of_two sz = 2 ^ j" if "sz < 2 ^ k" "k < 64" for k
  proof -
    have "unat sz < 2 ^ k" using that unat_pow2[OF that(2)] by (simp add: word_less_nat_alt)
    also have "(2 :: nat) ^ k \<le> 2 ^ 63" using that(2) by (intro power_increasing) simp_all
    finally show ?thesis using next_power_of_two_least[of sz] assms(2) by (auto simp: word_neq_0_conv)
  qed
  then show ?thesis using assms(1) by (auto simp: alignment_def heap_ok_def is_pow2_def not_le)
qed

lemma malloc_cases:
  assumes "heap_blocks h bs" and "0 < min_block_size h sz" and "malloc pid sz allow_fail h = Inr (a, h')" and "a \<noteq> 0"
  obtains us k s vs where "bs = us @ (k, s, None) # vs" and "a = roundup k (alignment h (min_block_size h sz))"
    and "heap_blocks h' (us @ carve pid (alignment h (min_block_size h sz)) (min_block_size h sz) k s @ vs)" and "same_config h h'"
    and "min_block_size h sz \<le> room_of (alignment h (min_block_size h sz)) (k, s)"
proof -
  let ?f = "find (\<lambda>x. min_block_size h sz \<le> room_of (alignment h (min_block_size h sz)) x) (free_of bs)"
  have "?f \<noteq> None"
  proof
    assume "?f = None"
    from malloc_full[OF assms(1) this, of pid allow_fail] assms(3,4) show False by (simp split: if_splits)
  qed
  then obtain k s where f: "?f = Some (k, s)" by force
  then have "min_block_size h sz \<le> room_of (alignment h (min_block_size h sz)) (k, s)" by (auto simp: find_Some_iff)
  with malloc_blocks[OF assms(1,2) refl refl f, of pid allow_fail] assms(3) that show thesis by auto
qed

lemma malloc_block:
  assumes "heap_ok h" and "malloc pid sz allow_fail h = Inr (a, h')" and "a \<noteq> 0" and "0 < min_block_size h sz"
  shows "heap_ok h' \<and> set (alloc_list h') = insert (a, min_block_size h sz, pid) (set (alloc_list h)) \<and>
     (\<forall>(b, t, q) \<in> set (alloc_list h). extent a (min_block_size h sz) \<inter> extent b t = {}) \<and>
     extent a (min_block_size h sz) \<subseteq> {unat (start_addr h) ..< unat (start_addr h) + unat (heap_length h)} \<and>
     unat (alignment h (min_block_size h sz)) dvd unat a \<and> available h' = available h - min_block_size h sz"
proof -
  let ?sz = "min_block_size h sz" and ?al = "alignment h (min_block_size h sz)"
  obtain bs where bs: "heap_blocks h bs" using assms(1) by (auto simp: heap_ok_def)
  obtain us k s vs where b: "bs = us @ (k, s, None) # vs" and a: "a = roundup k ?al"
    and b': "heap_blocks h' (us @ carve pid ?al ?sz k s @ vs)" and cfg: "same_config h h'"
    using malloc_cases[OF bs assms(4,2,3)] .
  have al: "alloc_list h = used_of us @ used_of vs" "alloc_list h' = used_of us @ (a, ?sz, pid) # used_of vs"
    using bs b' b a by (simp_all add: heap_blocks_def carve_views)
  let ?pre = "if gap_of ?al k \<noteq> 0 then [(k, gap_of ?al k, None)] else []"
  let ?post = "if room_of ?al (k, s) > ?sz then [(a + ?sz, room_of ?al (k, s) - ?sz, None)] else []"
  have cv: "us @ carve pid ?al ?sz k s @ vs = (us @ ?pre) @ (a, ?sz, Some pid) # ?post @ vs"
    by (simp add: carve_def Let_def a)
  have c: "chain (unat (start_addr h)) ((us @ ?pre) @ (a, ?sz, Some pid) # ?post @ vs) (unat (start_addr h) + unat (heap_length h))"
    using b' cfg unfolding heap_blocks_def cv same_config_def by simp
  have "extent a ?sz \<inter> extent c t = {}" if "(c, t, q) \<in> set (alloc_list h)" for c t q
    using chain_disjoint(1)[OF c, of c t "Some q"] that al(1) by (auto simp: in_used_of)
  moreover have "extent a ?sz \<subseteq> {unat (start_addr h) ..< unat (start_addr h) + unat (heap_length h)}"
    using chain_bounds[OF c, of a ?sz "Some pid"] by (auto simp: extent_def)
  moreover obtain j where "?al = 2 ^ j" "j < 64" using alignment_pow2[OF assms(1,4)] by (auto simp: is_pow2_def)
  then have "unat ?al dvd unat a" using roundup_gap(2)[of j k] a by (simp add: unat_pow2)
  moreover have "available h' = available h - ?sz"
    using assms(2,3) by (simp add: malloc_def Let_def split: option.splits if_splits) auto
  ultimately show ?thesis using al heap_ok_config[OF cfg assms(1) b'] by auto
qed

text \<open>C13: a successful allocation yields a block that is aligned, lies inside the managed
  memory and overlaps no block that is allocated already; the other blocks stay, the bytes are
  taken off the count of available ones, and the heap stays well formed.\<close>

theorem malloc_fresh:
  assumes "heap_ok h" and "malloc pid sz allow_fail h = Inr (a, h')" and "a \<noteq> 0" and "0 < min_block_size h sz"
  shows "heap_ok h' \<and> set (alloc_list h') = insert (a, min_block_size h sz, pid) (set (alloc_list h)) \<and>
     (\<forall>(b, t, q) \<in> set (alloc_list h). extent a (min_block_size h sz) \<inter> extent b t = {}) \<and>
     extent a (min_block_size h sz) \<subseteq> {unat (start_addr h) ..< unat (start_addr h) + unat (heap_length h)} \<and>
     unat (alignment h (min_block_size h sz)) dvd unat a \<and> available h' = available h - min_block_size h sz"
  using assms by (rule malloc_block)

lemma malloc_find:
  assumes "heap_ok h" and "0 < min_block_size h sz"
  shows "\<exists>h'. malloc pid sz True h = Inr (case find (\<lambda>x. min_block_size h sz \<le> room_of (alignment h (min_block_size h sz)) x) (free_list h) of
     Some x \<Rightarrow> (roundup (fst x) (alignment h (min_block_size h sz)), h') | None \<Rightarrow> (0, h))"
proof -
  let ?sz = "min_block_size h sz" and ?al = "alignment h (min_block_size h sz)"
  obtain bs where bs: "heap_blocks h bs" using assms(1) by (auto simp: heap_ok_def)
  then have fl: "free_list h = free_of bs" by (simp add: heap_blocks_def)
  show ?thesis
  proof (cases "find (\<lambda>x. ?sz \<le> room_of ?al x) (free_of bs)")
    case None
    then show ?thesis using malloc_full[OF bs None, of pid True] fl by simp
  next
    case (Some x)
    obtain k s where x: "x = (k, s)" by (cases x)
    from malloc_blocks[OF bs assms(2) refl refl, of k s pid True] Some x fl show ?thesis by auto
  qed
qed

text \<open>C26: allocation is first fit: it takes the lowest free block that has room for the
  rounded size behind its aligned address, and fails exactly when no free block has; it changes
  nothing then.\<close>

theorem malloc_first_fit:
  assumes "heap_ok h" and "0 < min_block_size h sz"
  shows "\<exists>h'. malloc pid sz True h = Inr (case find (\<lambda>x. min_block_size h sz \<le> room_of (alignment h (min_block_size h sz)) x) (free_list h) of
     Some x \<Rightarrow> (roundup (fst x) (alignment h (min_block_size h sz)), h') | None \<Rightarrow> (0, h))"
  using assms by (rule malloc_find)

lemma split_used:
  assumes "heap_blocks h bs" and "(a, sz, pid) \<in> set (alloc_list h)"
  obtains xs ys where "bs = xs @ (a, sz, Some pid) # ys"
  using assms in_used_of[of a sz pid bs] by (auto simp: heap_blocks_def dest: split_list)

lemma free_behind:
  assumes "heap_blocks h (xs @ (a, sz, Some pid) # ys)"
  shows "free_of ys \<noteq> [] \<longleftrightarrow> (\<exists>x \<in> set (free_list h). a < fst x)"
proof -
  have c: "chain (unat (start_addr h)) xs (unat a)" and
    d: "chain (unat a + unat sz) ys (unat (start_addr h) + unat (heap_length h))" and "0 < unat sz"
    using assms by (auto simp: heap_blocks_def chain_append)
  then have "\<forall>x \<in> set (free_of xs). fst x < a" "\<forall>x \<in> set (free_of ys). a < fst x"
    using keys_below(1)[OF c, of a] keys_above(1)[OF d, of a] by auto
  moreover have "free_list h = free_of xs @ free_of ys" using assms by (simp add: heap_blocks_def)
  ultimately show ?thesis by (cases "free_of ys") (auto dest: order_less_asym)
qed

lemma used_unique:
  assumes "heap_blocks h (xs @ (a, sz, Some pid) # ys)"
  shows "set (used_of xs @ used_of ys) = set (alloc_list h) - {(a, sz, pid)}"
proof -
  have "chain (unat (start_addr h)) (xs @ (a, sz, Some pid) # ys) (unat (start_addr h) + unat (heap_length h))"
    and al: "alloc_list h = used_of xs @ (a, sz, pid) # used_of ys" using assms by (simp_all add: heap_blocks_def)
  then have "b \<noteq> a" if "(b, t, q) \<in> set (used_of xs @ used_of ys)" for b t q
    using chain_disjoint(2)[of "unat (start_addr h)" xs a sz "Some pid" ys _ b t "Some q"] that by (auto simp: in_used_of)
  then show ?thesis unfolding al by auto
qed

text \<open>Freeing an allocated block, with a free block somewhere behind it, takes
  exactly this block off the allocated ones, adds its size to the available bytes, and keeps the
  heap well formed, so that no two free blocks lie side by side.\<close>

lemma free_returns_block:
  assumes "heap_ok h" and "(a, sz, pid) \<in> set (alloc_list h)" and "\<exists>x \<in> set (free_list h). a < fst x"
  shows "\<exists>h'. heap_free a h = Inr (0, h') \<and> heap_ok h' \<and> set (alloc_list h') = set (alloc_list h) - {(a, sz, pid)} \<and>
     available h' = available h + sz"
proof -
  obtain bs where bs: "heap_blocks h bs" using assms(1) by (auto simp: heap_ok_def)
  obtain xs ys where b: "bs = xs @ (a, sz, Some pid) # ys" using split_used[OF bs assms(2)] .
  note h = bs[unfolded b]
  obtain h' where h': "heap_free a h = Inr (0, h')" "heap_blocks h' (merge_block xs a sz ys)" "same_config h h'"
    using free_at[OF h] free_behind[OF h] assms(3) by blast
  have co: "coalesced (xs @ (a, sz, Some pid) # ys)" using h by (simp add: heap_blocks_def)
  have "alloc_list h' = used_of xs @ used_of ys" "available h' = available h + sz"
    using h'(2) h merge_block_views[OF co] by (simp_all add: heap_blocks_def add_ac)
  with h' used_unique[OF h] heap_ok_config[OF h'(3) assms(1) h'(2)] show ?thesis by auto
qed

lemma merge_carve:
  assumes "coalesced (us @ (k, s, None) # vs)" and "0 < sz" and "sz \<le> room_of align (k, s)"
    and "us @ carve pid align sz k s @ vs = xs @ (roundup k align, sz, Some pid) # ys"
    and "xs = us @ (if gap_of align k \<noteq> 0 then [(k, gap_of align k, None)] else [])"
  shows "merge_block xs (roundup k align) sz ys = us @ (k, s, None) # vs"
proof -
  let ?g = "gap_of align k" and ?r = "room_of align (k, s)"
  have gs: "?g < s" "?r = s - ?g" using assms(2,3) by (auto simp: room_of_def split: if_splits)
  have a: "roundup k align = k + ?g" by (simp add: gap_of_def)
  have ys: "ys = (if ?r > sz then [(roundup k align + sz, ?r - sz, None)] else []) @ vs"
    using assms(4,5) by (auto simp: carve_def Let_def split: if_splits)
  have vs: "vs = [] \<or> snd (snd (hd vs)) \<noteq> None" using assms(1) by (cases vs) (auto simp: coalesced_append)
  have us: "us = [] \<or> snd (snd (last us)) \<noteq> None" using assms(1) by (auto simp: coalesced_append)
  have "merge_after sz ys = (s - ?g, vs)"
  proof (cases "?r > sz")
    case True
    then show ?thesis using ys gs by (simp add: merge_after_def)
  next
    case False
    then have "sz = s - ?g" using assms(3) gs by simp
    with False ys vs show ?thesis by (auto simp: merge_after_def split: list.splits option.splits)
  qed
  then show ?thesis using assms(5) us a by (auto simp: merge_block_def)
qed


text \<open>Freeing an allocated block when no free block lies behind it, for
  instance the last block of an exhausted heap, has no defined behaviour: the code reads the
  entry that \<open>lower_bound\<close> returns although it is the end of the map.\<close>

lemma free_without_block_behind:
  assumes "heap_ok h" and "(a, sz, pid) \<in> set (alloc_list h)" and "\<forall>x \<in> set (free_list h). fst x < a"
  shows "heap_free a h = Inl Undefined"
proof -
  obtain bs where bs: "heap_blocks h bs" using assms(1) by (auto simp: heap_ok_def)
  obtain xs ys where "bs = xs @ (a, sz, Some pid) # ys" using split_used[OF bs assms(2)] .
  then have "map_of (alloc_list h) a = Some (sz, pid)" using bs map_of_used by (auto simp: heap_blocks_def)
  moreover have "filter (\<lambda>x. \<not> fst x < a) (free_list h) = []" using assms(3) by (simp add: filter_empty_conv)
  ultimately show ?thesis by (simp add: heap_free_def)
qed

lemma roundup_0: "is_pow2 x \<Longrightarrow> roundup 0 x = 0"
  by (auto simp: is_pow2_def roundup_def)

text \<open>An allocation of no bytes yields an address that the next allocation yields
  again: the second one replaces the first one in the map of allocated blocks.\<close>

lemma zero_size_aliases:
  assumes "is_pow2 (min_block h)" and "\<not> addrs_need_pow2_size_alignment h" and "roundup k (min_block h) = k"
    and "free_list h = (k, s) # fl" and "\<forall>x \<in> set fl. k < fst x" and "min_block_size h sz \<le> s" and "0 < min_block_size h sz"
  shows "\<exists>h1 h2. malloc pid 0 True h = Inr (k, h1) \<and> malloc pid' sz True h1 = Inr (k, h2) \<and>
     map_of (alloc_list h1) k = Some (0, pid) \<and> map_of (alloc_list h2) k = Some (min_block_size h sz, pid')"
proof -
  have al: "alignment h x = min_block h" for x using assms(2) by (simp add: alignment_def)
  have z: "min_block_size h 0 = 0" using roundup_0[OF assms(1)] by (simp add: min_block_size_def)
  have s0: "0 < s" using assms(6,7) by (rule order_less_le_trans[rotated])
  have put: "map_put k s (map_erase k ((k, s) # fl)) = (k, s) # fl"
    using map_put_at(1)[of "[]" k fl s] map_erase_at[of "[]" k fl s] assms(5) by simp
  let ?h = "h\<lparr>alloc_list := map_put k (0, pid) (alloc_list h)\<rparr>"
  have 1: "malloc pid 0 True h = Inr (k, ?h)"
    using s0 assms(3,4) put by (simp add: malloc_def Let_def z al)
  have "min_block_size ?h sz = min_block_size h sz" "alignment ?h x = min_block h" for x
    using assms(2) by (simp_all add: min_block_size_def alignment_def)
  then have "\<exists>h2. malloc pid' sz True ?h = Inr (k, h2) \<and> alloc_list h2 = map_put k (min_block_size h sz, pid') (alloc_list ?h)"
    using assms(3,4,6) s0 by (auto simp: malloc_def Let_def not_less)
  moreover have "map_of (map_put k v xs) k = Some v" for v :: "u64 \<times> u32" and xs
    by (auto simp: map_put_def map_add_def split: option.splits dest!: map_of_SomeD)
  ultimately show ?thesis using 1 by auto
qed

subsection \<open>Freeing the blocks of a process\<close>

text \<open>The last block is free, so there is a free block behind every allocated one.\<close>

definition tail_free :: "heap \<Rightarrow> bool" where
  "tail_free h \<longleftrightarrow> (\<exists>bs a s. heap_blocks h (bs @ [(a, s, None)]))"

lemma tail_free_behind:
  assumes "heap_blocks h (zs @ [(c, u, None)])" and "(a, sz, pid) \<in> set (alloc_list h)"
  obtains xs ys where "zs @ [(c, u, None)] = xs @ (a, sz, Some pid) # ys @ [(c, u, None)]"
proof -
  obtain xs ys where "zs @ [(c, u, None)] = xs @ (a, sz, Some pid) # ys" using split_used[OF assms] .
  then show thesis using that by (cases ys rule: rev_cases) auto
qed

lemma merge_tail: "\<exists>bs b t. merge_block xs a sz (ys @ [(c, u, None)]) = bs @ [(b, t, None)]"
proof (cases ys)
  case Nil
  then show ?thesis by (auto simp: merge_block_def merge_after_def)
next
  case (Cons y ys')
  obtain b t p where y: "y = (b, t, p)" by (cases y)
  show ?thesis
  proof (cases p)
    case None
    have "\<exists>bs b t. zs @ x # ys' @ [(c, u, None)] = bs @ [(b, t, None)]" for zs x
      by (intro exI[of _ "zs @ x # ys'"] exI[of _ c] exI[of _ u]) simp
    with None Cons y show ?thesis by (auto simp: merge_block_def merge_after_def)
  next
    case (Some q)
    have "\<exists>bs b t. zs @ x # y # ys' @ [(c, u, None)] = bs @ [(b, t, None)]" for zs x
      by (intro exI[of _ "zs @ x # y # ys'"] exI[of _ c] exI[of _ u]) simp
    with Some Cons y show ?thesis by (auto simp: merge_block_def merge_after_def)
  qed
qed

lemma free_tail:
  assumes "heap_ok h" and "tail_free h" and "(a, sz, pid) \<in> set (alloc_list h)"
  shows "\<exists>h'. heap_free a h = Inr (0, h') \<and> heap_ok h' \<and> tail_free h' \<and> set (alloc_list h') = set (alloc_list h) - {(a, sz, pid)}"
proof -
  obtain zs c u where h: "heap_blocks h (zs @ [(c, u, None)])" using assms(2) by (auto simp: tail_free_def)
  obtain xs ys where s: "zs @ [(c, u, None)] = xs @ (a, sz, Some pid) # ys @ [(c, u, None)]" using tail_free_behind[OF h assms(3)] .
  note h2 = h[unfolded s]
  obtain h' where h': "heap_free a h = Inr (0, h')" "heap_blocks h' (merge_block xs a sz (ys @ [(c, u, None)]))" "same_config h h'"
    using free_at[OF h2] by auto
  have co: "coalesced (xs @ (a, sz, Some pid) # ys @ [(c, u, None)])" using h2 by (simp add: heap_blocks_def)
  have "alloc_list h' = used_of xs @ used_of (ys @ [(c, u, None)])"
    using h'(2) merge_block_views(1)[OF co] by (simp add: heap_blocks_def)
  moreover have "tail_free h'" using h'(2) merge_tail[of xs a sz ys c u] unfolding tail_free_def by metis
  ultimately show ?thesis using h' used_unique[OF h2] heap_ok_config[OF h'(3) assms(1) h'(2)] by auto
qed

lemma alloc_keys_distinct:
  assumes "heap_ok h"
  shows "distinct (map fst (alloc_list h))"
proof -
  obtain bs where bs: "heap_blocks h bs" using assms by (auto simp: heap_ok_def)
  have "distinct (map fst (used_of bs))" if "chain S bs E" for S E
    using that
  proof (induction S bs E rule: chain.induct)
    case (2 a b s p bs e)
    then have "\<forall>x \<in> set (used_of bs). b < fst x" using keys_above(2)[of "a + unat s" bs e b] by auto
    with 2 show ?case by (cases p) auto
  qed simp
  with bs show ?thesis by (auto simp: heap_blocks_def)
qed

lemma alloc_keys_inj: "heap_ok h \<Longrightarrow> inj_on fst (set (alloc_list h))"
  using alloc_keys_distinct by (auto simp: distinct_map)

lemma free_each_ok:
  assumes "heap_ok h" and "tail_free h" and "distinct as" and "set as \<subseteq> fst ` set (alloc_list h)"
  shows "\<exists>h'. free_each as h = Inr h' \<and> heap_ok h' \<and> set (alloc_list h') = {x \<in> set (alloc_list h). fst x \<notin> set as}"
  using assms
proof (induction as arbitrary: h)
  case Nil
  then show ?case by (simp add: free_each_def)
next
  case (Cons a as)
  have "a \<in> fst ` set (alloc_list h)" using Cons.prems(4) by simp
  then obtain sz pid where x: "(a, sz, pid) \<in> set (alloc_list h)" by (metis imageE prod.collapse)
  obtain h1 where h1: "heap_free a h = Inr (0, h1)" "heap_ok h1" "tail_free h1" "set (alloc_list h1) = set (alloc_list h) - {(a, sz, pid)}"
    using free_tail[OF Cons.prems(1,2) x] by blast
  have u: "y = (a, sz, pid)" if "y \<in> set (alloc_list h)" "fst y = a" for y
    using inj_onD[OF alloc_keys_inj[OF Cons.prems(1)], of y "(a, sz, pid)"] that x by simp
  have "set as \<subseteq> fst ` set (alloc_list h1)"
  proof
    fix b assume "b \<in> set as"
    then have "b \<noteq> a" "b \<in> fst ` set (alloc_list h)" using Cons.prems(3) subsetD[OF Cons.prems(4), of b] by force+
    then obtain y where y: "y \<in> set (alloc_list h)" "b = fst y" by blast
    then have "y \<noteq> (a, sz, pid)" using \<open>b \<noteq> a\<close> by (metis fst_conv)
    then have "y \<in> set (alloc_list h1)" unfolding h1(4) using y(1) by simp
    then show "b \<in> fst ` set (alloc_list h1)" using \<open>b = fst y\<close> by simp
  qed
  from Cons.IH[OF h1(2,3) _ this] Cons.prems(3) obtain h' where h': "free_each as h1 = Inr h'" "heap_ok h'"
    "set (alloc_list h') = {x \<in> set (alloc_list h1). fst x \<notin> set as}" by auto
  moreover have "y \<in> set (alloc_list h1) \<longleftrightarrow> y \<in> set (alloc_list h) \<and> fst y \<noteq> a" for y
    unfolding h1(4) using u[of y] x by (cases "y = (a, sz, pid)") auto
  then have "{x \<in> set (alloc_list h1). fst x \<notin> set as} = {x \<in> set (alloc_list h). fst x \<notin> set (a # as)}" by auto
  ultimately show ?case using h1(1) by (simp add: free_each_def)
qed

text \<open>When a process ends, freeing all of its blocks succeeds while the last
  block of the heap is free, whatever order the set of addresses is walked in; exactly the blocks
  of the other processes stay allocated.\<close>

lemma process_blocks_freed:
  assumes "heap_ok h" and "tail_free h" and "\<And>xs. set (order xs) = set xs \<and> (distinct xs \<longrightarrow> distinct (order xs))"
  shows "\<exists>h'. free_all_pid order pid h = Inr h' \<and> heap_ok h' \<and>
     set (alloc_list h') = {x \<in> set (alloc_list h). snd (snd x) \<noteq> pid}"
proof -
  let ?as = "map fst (filter (\<lambda>(a, s, p). pid = p) (alloc_list h))"
  have d: "distinct (map fst (alloc_list h))" by (rule alloc_keys_distinct[OF assms(1)])
  then have "distinct ?as" by (rule distinct_map_filter)
  then have "distinct (order ?as)" "set (order ?as) = set ?as" using assms(3) by blast+
  moreover have "set ?as \<subseteq> fst ` set (alloc_list h)" by auto
  ultimately obtain h' where h': "free_each (order ?as) h = Inr h'" "heap_ok h'"
    "set (alloc_list h') = {x \<in> set (alloc_list h). fst x \<notin> set ?as}"
    using free_each_ok[OF assms(1,2), of "order ?as"] by auto
  have "fst x \<in> set ?as \<longleftrightarrow> snd (snd x) = pid" if "x \<in> set (alloc_list h)" for x
  proof
    assume "fst x \<in> set ?as"
    then obtain y where "y \<in> set (alloc_list h)" "fst y = fst x" "snd (snd y) = pid" by auto
    then show "snd (snd x) = pid" using inj_onD[OF alloc_keys_inj[OF assms(1)], of y x] that by simp
  qed (use that in force)
  then have "{x \<in> set (alloc_list h). fst x \<notin> set ?as} = {x \<in> set (alloc_list h). snd (snd x) \<noteq> pid}" by blast
  with h' show ?thesis unfolding free_all_pid_def by simp
qed

subsection \<open>The allocator as its clients see it\<close>

text \<open>Allocating one block after the other.\<close>

fun alloc_all :: "(u64 \<Rightarrow> 'h \<Rightarrow> (u64 \<times> 'h) result) \<Rightarrow> u64 list \<Rightarrow> 'h \<Rightarrow> (u64 list \<times> 'h) result" where
  "alloc_all alloc [] h = Inr ([], h)"
| "alloc_all alloc (sz # szs) h = bindR (alloc sz h) (\<lambda>(a, h). bindR (alloc_all alloc szs h) (\<lambda>(as, h). Inr (a # as, h)))"

text \<open>
  \<open>live h a t\<close>: \<open>t\<close> bytes at \<open>a\<close> are allocated, in the memory \<open>region h\<close>. A block has room for at least what was asked for, and
  an allocation of a size that is \<open>sane\<close> returns: a new block or the address 0.
\<close>

locale block_allocator =
  fixes alloc :: "u64 \<Rightarrow> 'h \<Rightarrow> (u64 \<times> 'h) result" and live :: "'h \<Rightarrow> u64 \<Rightarrow> u64 \<Rightarrow> bool" and inv :: "'h \<Rightarrow> bool"
    and sane :: "'h \<Rightarrow> u64 \<Rightarrow> bool" and region :: "'h \<Rightarrow> nat set"
  assumes alloc_new: "inv h \<Longrightarrow> sane h sz \<Longrightarrow> alloc sz h = Inr (a, h') \<Longrightarrow> a \<noteq> 0 \<Longrightarrow>
      \<exists>t \<ge> sz. live h' = (live h)(a := \<lambda>u. live h a u \<or> u = t) \<and> (\<forall>b u. live h b u \<longrightarrow> extent a t \<inter> extent b u = {}) \<and>
        extent a t \<subseteq> region h"
    and alloc_inv: "inv h \<Longrightarrow> sane h sz \<Longrightarrow> alloc sz h = Inr (a, h') \<Longrightarrow>
      inv h' \<and> (\<forall>sz. sane h' sz = sane h sz) \<and> region h' = region h"
    and alloc_returns: "inv h \<Longrightarrow> sane h sz \<Longrightarrow> \<exists>a h'. alloc sz h = Inr (a, h')"
begin

text \<open>A block inside a live one, of the requested size.\<close>

lemma alloc_disjoint:
  assumes "inv h" and "sane h sz" and "alloc sz h = Inr (a, h')" and "a \<noteq> 0" and "live h b u" and "v \<le> u"
  shows "extent a sz \<inter> extent b v = {}" and "live h' b u"
proof -
  obtain t where "sz \<le> t" "live h' = (live h)(a := \<lambda>u. live h a u \<or> u = t)" "extent a t \<inter> extent b u = {}"
    using alloc_new[OF assms(1-4)] assms(5) by blast
  moreover have "extent a sz \<subseteq> extent a t" "extent b v \<subseteq> extent b u"
    using \<open>sz \<le> t\<close> assms(6) by (auto simp: extent_def word_le_nat_alt)
  ultimately show "extent a sz \<inter> extent b v = {}" "live h' b u" using assms(5) by auto
qed

lemma alloc_all_returns:
  "inv h \<Longrightarrow> \<forall>sz \<in> set szs. sane h sz \<Longrightarrow> \<exists>as h'. alloc_all alloc szs h = Inr (as, h') \<and> length as = length szs"
proof (induction szs arbitrary: h)
  case (Cons sz szs)
  obtain a h1 where "alloc sz h = Inr (a, h1)" using alloc_returns[of h sz] Cons.prems by auto
  moreover from this have "inv h1" "\<forall>sz \<in> set szs. sane h1 sz" using alloc_inv[of h sz a h1] Cons.prems by auto
  ultimately show ?case using Cons.IH[of h1] by auto
qed simp

text \<open>Blocks allocated one after the other do not overlap, nor do they overlap older ones.\<close>

lemma alloc_all_disjoint:
  assumes "inv h" and "\<forall>sz \<in> set szs. sane h sz" and "alloc_all alloc szs h = Inr (as, h')" and "0 \<notin> set as"
  shows "(\<forall>i < length as. \<forall>j < length as. i \<noteq> j \<longrightarrow> extent (as ! i) (szs ! i) \<inter> extent (as ! j) (szs ! j) = {}) \<and>
     (\<forall>b u v. live h b u \<and> v \<le> u \<longrightarrow> (\<forall>i < length as. extent (as ! i) (szs ! i) \<inter> extent b v = {}))"
  using assms
proof (induction szs arbitrary: h as)
  case (Cons sz szs)
  then obtain a h1 as' where s: "alloc sz h = Inr (a, h1)" "alloc_all alloc szs h1 = Inr (as', h')" "as = a # as'"
    by (auto simp: bindR_eq_Inr)
  have i: "inv h1" "\<forall>sz \<in> set szs. sane h1 sz" using alloc_inv[OF _ _ s(1)] Cons.prems(1,2) by auto
  note ih = Cons.IH[OF i s(2)]
  obtain t where "sz \<le> t" "live h1 a t" using alloc_new[OF _ _ s(1)] Cons.prems(1,2,4) s(3) by auto
  then have d: "extent (as' ! i) (szs ! i) \<inter> extent a sz = {}" if "i < length as'" for i using ih Cons.prems(4) s(3) that by auto
  have old: "extent a sz \<inter> extent b v = {}" "live h1 b u" if "live h b u" "v \<le> u" for b u v
    using alloc_disjoint[OF _ _ s(1) _ that] Cons.prems(1,2,4) s(3) by auto
  have pw: "extent (as ! i) ((sz # szs) ! i) \<inter> extent (as ! j) ((sz # szs) ! j) = {}"
    if "i < length as" "j < length as" "i \<noteq> j" for i j
    using ih d[of "i - 1"] d[of "j - 1"] that Cons.prems(4) s(3) by (cases i; cases j) (simp_all add: Int_commute)
  have "extent (as ! i) ((sz # szs) ! i) \<inter> extent b v = {}" if "live h b u" "v \<le> u" "i < length as" for b u v i
  proof (cases i)
    case 0
    then show ?thesis using old(1)[OF that(1,2)] s(3) by simp
  next
    case (Suc n)
    have "0 \<notin> set as'" "n < length as'" using Cons.prems(4) s(3) that(3) Suc by auto
    with ih old(2)[OF that(1,2)] that(2) show ?thesis using Suc s(3) by simp
  qed
  with pw show ?case by blast
qed simp

end

text \<open>The heap manager is such an allocator, for sizes whose rounding does not wrap around.\<close>

definition heap_live :: "heap \<Rightarrow> u64 \<Rightarrow> u64 \<Rightarrow> bool" where
  "heap_live h a t \<longleftrightarrow> (\<exists>q. (a, t, q) \<in> set (alloc_list h))"

definition heap_region :: "heap \<Rightarrow> nat set" where
  "heap_region h = {unat (start_addr h) ..< unat (start_addr h) + unat (heap_length h)}"

definition sane_size :: "heap \<Rightarrow> u64 \<Rightarrow> bool" where
  "sane_size h sz \<longleftrightarrow> 0 < sz \<and> unat sz + unat (min_block h) \<le> 2 ^ 64"

lemma sane_size_rounds:
  assumes "heap_ok h" and "sane_size h sz"
  shows "sz \<le> min_block_size h sz" and "0 < min_block_size h sz"
proof -
  obtain k where k: "min_block h = 2 ^ k" "k < 64" using assms(1) by (auto simp: heap_ok_def is_pow2_def)
  have "unat sz + 2 ^ k \<le> 2 ^ 64" using assms(2) k by (simp add: sane_size_def unat_pow2)
  moreover have "(0 :: nat) < 2 ^ k" by simp
  ultimately have "unat sz + (2 ^ k - 1) < 2 ^ 64" by linarith
  then show "sz \<le> min_block_size h sz" using roundup_up(1)[OF k(2)] k(1) by (simp add: min_block_size_def)
  then show "0 < min_block_size h sz" using assms(2) by (auto simp: sane_size_def intro: order_less_le_trans)
qed

lemma malloc_zero:
  assumes "heap_ok h" and "0 < start_addr h" and "0 < min_block_size h sz" and "malloc pid sz True h = Inr (0, h')"
  shows "h' = h"
proof -
  let ?sz = "min_block_size h sz" and ?al = "alignment h (min_block_size h sz)"
  obtain bs where bs: "heap_blocks h bs" using assms(1) by (auto simp: heap_ok_def)
  show ?thesis
  proof (cases "find (\<lambda>x. ?sz \<le> room_of ?al x) (free_of bs)")
    case None
    then show ?thesis using malloc_full[OF bs None, of pid True] assms(4) by simp
  next
    case (Some x)
    obtain k s where x: "x = (k, s)" by (cases x)
    obtain us vs where b: "bs = us @ (k, s, None) # vs" and r: "roundup k ?al = 0"
      using malloc_blocks[OF bs assms(3) refl refl, of k s pid True] Some x assms(4) by auto
    have "chain (unat (start_addr h)) bs (unat (start_addr h) + unat (heap_length h))"
      "unat (start_addr h) + unat (heap_length h) < 2 ^ 64" using bs by (simp_all add: heap_blocks_def)
    then have "unat (start_addr h) \<le> unat k" "unat k + unat s < 2 ^ 64"
      using chain_bounds[of _ bs _ k s None] b by fastforce+
    moreover have "unat (roundup k ?al) = unat k + unat (gap_of ?al k)"
      using carve_chain(2)[OF assms(3) _ calculation(2)] Some x by (auto simp: find_Some_iff)
    ultimately show ?thesis using r assms(2) by (simp add: word_less_nat_alt)
  qed
qed

interpretation ddr: block_allocator "\<lambda>sz. malloc pid sz True" heap_live "\<lambda>h. heap_ok h \<and> 0 < start_addr h" sane_size heap_region for pid
proof
  fix h h' sz a
  assume h: "heap_ok h \<and> 0 < start_addr h" and sz: "sane_size h sz"
  note r = sane_size_rounds[OF conjunct1[OF h] sz]
  {
    assume m: "malloc pid sz True h = Inr (a, h')" and "a \<noteq> 0"
    note f = malloc_block[OF conjunct1[OF h] m \<open>a \<noteq> 0\<close> r(2)]
    have "heap_live h' = (heap_live h)(a := \<lambda>u. heap_live h a u \<or> u = min_block_size h sz)"
      using f by (intro ext) (auto simp: heap_live_def)
    moreover have "\<forall>b u. heap_live h b u \<longrightarrow> extent a (min_block_size h sz) \<inter> extent b u = {}"
      using f by (auto simp: heap_live_def)
    moreover have "extent a (min_block_size h sz) \<subseteq> heap_region h" using f by (simp add: heap_region_def)
    ultimately show "\<exists>t \<ge> sz. heap_live h' = (heap_live h)(a := \<lambda>u. heap_live h a u \<or> u = t) \<and>
        (\<forall>b u. heap_live h b u \<longrightarrow> extent a t \<inter> extent b u = {}) \<and> extent a t \<subseteq> heap_region h" using r(1) by blast
  }
  show "\<exists>a h'. malloc pid sz True h = Inr (a, h')" using malloc_find[OF conjunct1[OF h] r(2), of pid] by auto
next
  fix h h' sz a
  assume h: "heap_ok h \<and> 0 < start_addr h" and sz: "sane_size h sz" and m: "malloc pid sz True h = Inr (a, h')"
  note r = sane_size_rounds[OF conjunct1[OF h] sz]
  show "(heap_ok h' \<and> 0 < start_addr h') \<and> (\<forall>sz. sane_size h' sz = sane_size h sz) \<and> heap_region h' = heap_region h"
  proof (cases "a = 0")
    case True
    then show ?thesis using malloc_zero[OF _ _ r(2)] h m by auto
  next
    case False
    obtain bs where bs: "heap_blocks h bs" using h by (auto simp: heap_ok_def)
    have "same_config h h'" by (rule malloc_cases[OF bs r(2) m False]) blast
    then show ?thesis using malloc_block[OF conjunct1[OF h] m False r(2)] h by (simp add: same_config_def sane_size_def heap_region_def)
  qed
qed

subsection \<open>Examples\<close>

lemma configure_ok:
  assumes "is_pow2 mb" and "0 < len" and "unat a + unat len < 2 ^ 64"
  shows "heap_ok (configure a len mb HeapManager)"
proof -
  have "heap_blocks (configure a len mb HeapManager) [(a, len, None)]"
    using assms(2,3) by (simp add: heap_blocks_def configure_def HeapManager_def map_put_def unat_gt_0 word_neq_0_conv)
  then show ?thesis using assms(1,2) by (auto simp: heap_ok_def configure_def HeapManager_def)
qed

definition example_heap :: heap where
  "example_heap = configure 0x1000 0x1000 128 HeapManager"

definition example_heap2 :: heap where
  "example_heap2 = example_heap\<lparr>free_list := [(0x1080, 0xF80)], alloc_list := [(0x1000, 0x80, 7)], available := 0xF80\<rparr>"

definition example_full :: heap where
  "example_full = example_heap\<lparr>free_list := [], alloc_list := [(0x1000, 0x1000, 7)], available := 0\<rparr>"

lemma example_heap_ok: "heap_ok example_heap"
  unfolding example_heap_def by (rule configure_ok) (auto simp: is_pow2_def intro: exI[of _ 7])

lemma example_malloc:
  "malloc 7 100 True example_heap = Inr (0x1000, example_heap2)" "malloc 7 0x1000 True example_heap = Inr (0x1000, example_full)"
  by code_simp+

lemma example_rounded: "min_block_size example_heap 100 = 0x80" "min_block_size example_heap 0x1000 = 0x1000"
  by code_simp+

lemmas example_heap_simps = example_heap2_def example_full_def example_heap_def configure_def HeapManager_def

lemma pow2_128: "is_pow2 128"
  by (auto simp: is_pow2_def intro: exI[of _ 7])

lemma example_heap2_blocks: "heap_blocks example_heap2 ([(0x1000, 0x80, Some 7)] @ [(0x1080, 0xF80, None)])"
  by (simp add: heap_blocks_def example_heap_simps)

lemma example_heap2_ok: "heap_ok example_heap2"
  unfolding heap_ok_def using example_heap2_blocks pow2_128 by (auto simp: example_heap_simps)

lemma example_full_ok: "heap_ok example_full"
proof -
  have "heap_blocks example_full [(0x1000, 0x1000, Some 7)]" by (simp add: heap_blocks_def example_heap_simps)
  then show ?thesis unfolding heap_ok_def using pow2_128 by (auto simp: example_heap_simps)
qed

theorem malloc_fresh_witness: "heap_ok example_heap2 \<and> available example_heap2 = available example_heap - 0x80"
  using malloc_fresh[OF example_heap_ok example_malloc(1)] by (simp add: example_rounded)

theorem malloc_first_fit_witness: "\<exists>h'. malloc 7 100 True example_heap = Inr (0x1000, h')"
proof -
  have "find (\<lambda>x. 0x80 \<le> room_of (alignment example_heap 0x80) x) (free_list example_heap) = Some (0x1000, 0x1000)"
    "roundup 0x1000 (alignment example_heap 0x80) = 0x1000" by code_simp+
  with malloc_first_fit[OF example_heap_ok, of 100 7] show ?thesis by (simp add: example_rounded)
qed


end
