(* ===== verification/OCL_Client.thy ===== *)
theory OCL_Client
  imports DLoad_Query DLoad_LoadRefs Heap_Properties
begin

text \<open>
  The client of the dynamic loader: the OpenCL host runtime. \<open>tal/dload.cpp\<close> and \<open>ocl_load.c\<close>
  give the callbacks \<open>DLIF_*\<close>, \<open>tal/shared_memory_provider.cpp\<close> allocates target memory from the
  heaps of \<open>heap_manager.h\<close>, and the class \<open>DLOAD\<close> loads, unloads and queries the program of a
  device. Mapping target memory into the host is taken to succeed; what the callbacks print is not
  modelled.
\<close>

subsection \<open>State\<close>

text \<open>
  The target memory that host and device share, the memory of the host process at 32 bit addresses,
  the two heaps of the shared memory, the local memory of the device, and the load address of the
  program.
\<close>

record ocl_client =
  shared_memory :: "u32 \<Rightarrow> u8"
  process_memory :: "u32 \<Rightarrow> u8"
  ddr_heap1 :: heap
  ddr_heap2 :: heap
  p_addr_local_mem :: u32
  p_size_local_mem :: u32
  process_id :: u32
  programLoadAddress :: u32

subsection \<open>Target memory\<close>

definition addr_is_l2 :: "ocl_client \<Rightarrow> u32 \<Rightarrow> bool" where
  "addr_is_l2 c addr \<longleftrightarrow> addr \<ge> p_addr_local_mem c \<and> addr < p_addr_local_mem c + p_size_local_mem c"

abbreviation "FRACTION_PERSISTENT_FOR_BUFFER \<equiv> 8 :: u64"

definition heap1_malloc :: "u64 \<Rightarrow> ocl_client \<Rightarrow> (u64 \<times> ocl_client) result" where
  "heap1_malloc sz c = bindR (malloc (process_id c) sz True (ddr_heap1 c)) (\<lambda>(a, h). Inr (a, c\<lparr>ddr_heap1 := h\<rparr>))"

definition heap2_malloc :: "u64 \<Rightarrow> ocl_client \<Rightarrow> (u64 \<times> ocl_client) result" where
  "heap2_malloc sz c = bindR (malloc (process_id c) sz True (ddr_heap2 c)) (\<lambda>(a, h). Inr (a, c\<lparr>ddr_heap2 := h\<rparr>))"

text \<open>Dividing by a size of 0 is undefined.\<close>

definition AllocateGlobal :: "u64 \<Rightarrow> bool \<Rightarrow> ocl_client \<Rightarrow> (u64 \<times> ocl_client) result" where
  "AllocateGlobal sz prefer_32bit c =
     (if prefer_32bit then heap1_malloc sz c
      else if sz = 0 then Inl Undefined
      else bindR (if snd (max_block_size (ddr_heap1 c)) div sz > FRACTION_PERSISTENT_FOR_BUFFER
                  then heap1_malloc sz c else Inr (0, c)) (\<lambda>(addr, c).
           bindR (if addr = 0 then heap2_malloc sz c else Inr (addr, c)) (\<lambda>(addr, c).
             if addr = 0 then heap1_malloc sz c else Inr (addr, c))))"

text \<open>\<open>ReportError\<close> with \<open>ErrorType::Fatal\<close> ends the process.\<close>

definition FreeGlobal :: "u64 \<Rightarrow> ocl_client \<Rightarrow> ocl_client result" where
  "FreeGlobal addr c =
     (if heap_contains addr (ddr_heap1 c)
      then bindR (heap_free addr (ddr_heap1 c)) (\<lambda>(_, h). Inr (c\<lparr>ddr_heap1 := h\<rparr>))
      else if heap_contains addr (ddr_heap2 c)
      then bindR (heap_free addr (ddr_heap2 c)) (\<lambda>(_, h). Inr (c\<lparr>ddr_heap2 := h\<rparr>))
      else Inl (Exit 1))"

definition WriteToShmem :: "u32 \<Rightarrow> u8 list \<Rightarrow> ocl_client \<Rightarrow> ocl_client" where
  "WriteToShmem dst src c = c\<lparr>shared_memory := poke (shared_memory c) dst src\<rparr>"

subsection \<open>Callbacks\<close>

definition ocl_allocate ::
    "ocl_client \<Rightarrow> DLOAD_MEMORY_REQUEST \<Rightarrow> (bool \<times> DLOAD_MEMORY_SEGMENT \<times> ocl_client) result" where
  "ocl_allocate c targ_req = (let obj_desc = segment targ_req in
     bindR (deref (target_address obj_desc)) (\<lambda>requested.
     bindR (if addr_is_l2 c requested then Inr (requested, c)
            else bindR (AllocateGlobal (ucast (memsz_in_bytes obj_desc)) True c) (\<lambda>(a, c). Inr (ucast a, c))) (\<lambda>(addr, c).
       Inr (addr \<noteq> 0, obj_desc\<lparr>target_address := Some addr\<rparr>, c))))"

definition ocl_release :: "ocl_client \<Rightarrow> DLOAD_MEMORY_SEGMENT \<Rightarrow> (bool \<times> ocl_client) result" where
  "ocl_release c ptr = bindR (deref (target_address ptr)) (\<lambda>addr.
     if addr_is_l2 c addr then Inr (True, c)
     else bindR (FreeGlobal (ucast addr) c) (\<lambda>c. Inr (True, c)))"

text \<open>The buffer handed to \<open>DLIF_write\<close> has to hold all of the segment.\<close>

definition ocl_write :: "ocl_client \<Rightarrow> DLOAD_MEMORY_REQUEST \<Rightarrow> ocl_client result" where
  "ocl_write c req = (let obj_desc = segment req in
     bindR (deref (target_address obj_desc)) (\<lambda>addr.
     bindR (if addr_is_l2 c addr then Inr c
            else case req_host_address req of
              None \<Rightarrow> Inr c
            | Some bytes \<Rightarrow> if unat (memsz_in_bytes obj_desc) \<le> length bytes
                then Inr (WriteToShmem addr (take (unat (memsz_in_bytes obj_desc)) bytes) c) else Inl Undefined) (\<lambda>c.
       Inr (if flags req AND DLOAD_SF_executable \<noteq> 0 then c\<lparr>programLoadAddress := addr\<rparr> else c))))"

text \<open>
  The buffer is cleared and the file contents are read into it; reading more bytes than it has is
  undefined, reading fewer from the file than asked for trips the \<open>assert\<close>.
\<close>

definition ocl_copy ::
    "ocl_client \<Rightarrow> FILE option \<Rightarrow> DLOAD_MEMORY_REQUEST \<Rightarrow> (u8 list option \<times> ocl_client) result" where
  "ocl_copy c f targ_req =
     (let obj_desc = segment targ_req; memsz = unat (memsz_in_bytes obj_desc); objsz = unat (objsz_in_bytes obj_desc)
      in if objsz \<noteq> 0
         then bindR (deref f) (\<lambda>f. let f = DLIF_fseek_set f (offset targ_req)
                in if fpos f + objsz \<le> length (contents f)
                   then if objsz \<le> memsz
                        then Inr (Some (slice (fpos f) objsz (contents f) @ replicate (memsz - objsz) 0), c)
                        else Inl Undefined
                   else Inl AssertFail)
         else bindR (deref (target_address obj_desc)) (\<lambda>addr.
                Inr (if addr_is_l2 c addr then None else Some (replicate memsz 0), c)))"

text \<open>\<open>DLIF_memcpy\<close> copies to an address of the host process.\<close>

definition ocl_memcpy :: "ocl_client \<Rightarrow> u32 \<Rightarrow> u8 list \<Rightarrow> ocl_client result" where
  "ocl_memcpy c to from = Inr (c\<lparr>process_memory := poke (process_memory c) to from\<rparr>)"

text \<open>The callbacks that the runtime does not support are an \<open>assert(0)\<close>.\<close>

definition ocl_client_DLIF :: "ocl_client DLIF" where
  "ocl_client_DLIF = \<lparr>DLIF_allocate = ocl_allocate, DLIF_release = ocl_release, DLIF_copy = ocl_copy,
     DLIF_write = ocl_write, DLIF_read = (\<lambda>c n a. Inl AssertFail), DLIF_memcpy = ocl_memcpy,
     DLIF_execute = (\<lambda>c a. Inl AssertFail), DLIF_register_dsbt_index_request = (\<lambda>c n f i. Inl AssertFail),
     DLIF_assign_dsbt_indices = (\<lambda>c. Inl AssertFail), DLIF_update_all_dsbts = (\<lambda>c. Inl AssertFail),
     DLIF_get_dsbt_index = (\<lambda>c f. Inl AssertFail)\<rparr>"

subsection \<open>The program of a device\<close>

text \<open>The class \<open>DLOAD\<close>: the loader instance, \<open>None\<close> once it is destroyed, and the program handle.\<close>

record DLOAD =
  dloadHandle :: "ocl_client loader option"
  ph :: i32

definition DLOAD_new :: "ocl_client \<Rightarrow> ocl_client loader \<Rightarrow> DLOAD" where
  "DLOAD_new program st = \<lparr>dloadHandle = Some (DLOAD_create (program\<lparr>programLoadAddress := 0\<rparr>) st), ph = -1\<rparr>"

definition DLOAD_destroy :: "DLOAD \<Rightarrow> DLOAD" where
  "DLOAD_destroy d = d\<lparr>dloadHandle := None\<rparr>"

definition LoadProgram ::
    "(string \<Rightarrow> u8 list option) \<Rightarrow> endian \<Rightarrow> nat \<Rightarrow> string \<Rightarrow> DLOAD \<Rightarrow> (bool \<times> DLOAD) result" where
  "LoadProgram fs h fuel fileName d =
     (case fs fileName of
        None \<Rightarrow> Inl (Exit 1)
      | Some bs \<Rightarrow> bindR (deref (dloadHandle d)) (\<lambda>st.
          let (fp, st) = fopen bs st
          in bindR (DLOAD_load fs ocl_client_DLIF h fuel (Some fp) st) (\<lambda>(r, st).
             bindR (DLIF_fclose fp st) (\<lambda>st. Inr (r \<noteq> 0, d\<lparr>dloadHandle := Some st, ph := r\<rparr>)))))"

definition UnloadProgram :: "endian \<Rightarrow> nat \<Rightarrow> DLOAD \<Rightarrow> (bool \<times> DLOAD) result" where
  "UnloadProgram h fuel d =
     (case dloadHandle d of
        None \<Rightarrow> Inr (False, d)
      | Some st \<Rightarrow> if ph d = 0 then Inl AssertFail
          else bindR (DLOAD_unload ocl_client_DLIF h fuel (ph d) st) (\<lambda>(retval, st).
                 Inr (retval, d\<lparr>dloadHandle := Some st\<rparr>)))"

definition QuerySymbol :: "string \<Rightarrow> DLOAD \<Rightarrow> u32 result" where
  "QuerySymbol symName d =
     (case dloadHandle d of
        None \<Rightarrow> Inr 0
      | Some st \<Rightarrow> if ph d = 0 then Inr 0
          else bindR (DLOAD_query_symbol st (ph d) symName) (\<lambda>r. Inr (case r of Some addr \<Rightarrow> addr | None \<Rightarrow> 0)))"

definition GetDataPagePointer :: "DLOAD \<Rightarrow> u32 result" where
  "GetDataPagePointer d =
     (case dloadHandle d of
        None \<Rightarrow> Inr 0
      | Some st \<Rightarrow> if ph d = 0 then Inr 0
          else bindR (DLOAD_get_static_base st (ph d)) (\<lambda>r. Inr (case r of Some p \<Rightarrow> p | None \<Rightarrow> 0)))"

definition GetProgramLoadAddress :: "DLOAD \<Rightarrow> u32 result" where
  "GetProgramLoadAddress d = bindR (deref (dloadHandle d)) (\<lambda>st. Inr (programLoadAddress (client st)))"

subsection \<open>The contracts the loader relies on\<close>

text \<open>\<open>DLIF_memcpy\<close> gives the loader the memory of the process.\<close>

interpretation args: target_memory ocl_client_DLIF process_memory
  by unfold_locales (simp add: ocl_client_DLIF_def ocl_memcpy_def)

text \<open>
  The heap of the shared memory lies below \<open>2^32\<close>, its blocks are not larger than that, and it does
  not meet the local memory of the device.
\<close>

definition client_ok :: "ocl_client \<Rightarrow> bool" where
  "client_ok c \<longleftrightarrow> heap_ok (ddr_heap1 c) \<and> 0 < start_addr (ddr_heap1 c) \<and> heap_region (ddr_heap1 c) \<subseteq> {..<2 ^ 32} \<and>
     unat (min_block (ddr_heap1 c)) \<le> 2 ^ 32 \<and> (\<forall>a. unat a \<in> heap_region (ddr_heap1 c) \<longrightarrow> \<not> addr_is_l2 c a)"

lemma same_local_mem [simp]: "addr_is_l2 (c\<lparr>ddr_heap1 := h\<rparr>) = addr_is_l2 c"
  "addr_is_l2 (c\<lparr>shared_memory := m\<rparr>) = addr_is_l2 c" "addr_is_l2 (c\<lparr>programLoadAddress := a\<rparr>) = addr_is_l2 c"
  by (simp_all add: addr_is_l2_def[abs_def])

interpretation shm: block_allocator "\<lambda>sz. AllocateGlobal sz True" "\<lambda>c. heap_live (ddr_heap1 c)" client_ok
  "\<lambda>c. sane_size (ddr_heap1 c)" "\<lambda>c. heap_region (ddr_heap1 c)"
proof
  fix c c' sz a
  assume c: "client_ok c" and sz: "sane_size (ddr_heap1 c) sz"
  then have h: "heap_ok (ddr_heap1 c) \<and> 0 < start_addr (ddr_heap1 c)" by (simp add: client_ok_def)
  {
    assume a: "AllocateGlobal sz True c = Inr (a, c')"
    then obtain h' where m: "malloc (process_id c) sz True (ddr_heap1 c) = Inr (a, h')" "c' = c\<lparr>ddr_heap1 := h'\<rparr>"
      by (auto simp: AllocateGlobal_def heap1_malloc_def bindR_eq_Inr)
    have i: "heap_ok h' \<and> 0 < start_addr h'" "heap_region h' = heap_region (ddr_heap1 c)" "\<forall>sz. sane_size h' sz = sane_size (ddr_heap1 c) sz"
      using ddr.alloc_inv[OF h sz m(1)] by auto
    have "min_block h' = min_block (ddr_heap1 c)" using malloc_config[OF m(1)] by (simp add: same_config_def)
    with i m(2) c show "client_ok c' \<and> (\<forall>sz. sane_size (ddr_heap1 c') sz = sane_size (ddr_heap1 c) sz) \<and>
        heap_region (ddr_heap1 c') = heap_region (ddr_heap1 c)" by (simp add: client_ok_def)
    assume "a \<noteq> 0"
    with ddr.alloc_new[OF h sz m(1)] m(2)
    show "\<exists>t \<ge> sz. heap_live (ddr_heap1 c') = (heap_live (ddr_heap1 c))(a := \<lambda>u. heap_live (ddr_heap1 c) a u \<or> u = t) \<and>
        (\<forall>b u. heap_live (ddr_heap1 c) b u \<longrightarrow> extent a t \<inter> extent b u = {}) \<and> extent a t \<subseteq> heap_region (ddr_heap1 c)" by simp
  }
  show "\<exists>a c'. AllocateGlobal sz True c = Inr (a, c')"
    using ddr.alloc_returns[OF h sz, of "process_id c"] by (auto simp: AllocateGlobal_def heap1_malloc_def)
qed

end
