(* ===== verification/OCL_Properties.thy ===== *)
theory OCL_Properties
  imports OCL_Client
begin

text \<open>
  The loader together with its client: what a load leaves in the memory of the target, where
  arguments end up, and what happens when memory runs out.
\<close>

subsection \<open>Target memory\<close>

lemma unat_poke_distance:
  fixes a x :: u32
  assumes "unat a + n \<le> 2 ^ 32"
  shows "unat (x - a) < n \<longleftrightarrow> unat a \<le> unat x \<and> unat x < unat a + n"
proof (cases "unat a \<le> unat x")
  case True
  then have "unat (x - a) = unat x - unat a" by (simp add: unat_sub word_le_nat_alt)
  with True show ?thesis by auto
next
  case False
  then have "unat (x - a) = 2 ^ 32 + unat x - unat a" by (simp add: unat_sub_if' word_le_nat_alt)
  with False assms show ?thesis by auto
qed

lemma poke_outside: "unat a + length bs \<le> 2 ^ 32 \<Longrightarrow> unat x \<notin> {unat a ..< unat a + length bs} \<Longrightarrow> poke m a bs x = m x"
  by (auto simp: poke_def unat_poke_distance)

lemma poke_at: "i < length bs \<Longrightarrow> length bs \<le> 2 ^ 32 \<Longrightarrow> poke m a bs (a + of_nat i) = bs ! i"
  by (simp add: poke_def unat_of_nat take_bit_nat_eq_self)

subsection \<open>Allocation of segments\<close>

definition seg_wf :: "DLIMP_Loaded_Segment \<Rightarrow> bool" where
  "seg_wf seg \<longleftrightarrow> objsz_in_bytes (obj_desc seg) = p_filesz (seg_phdr seg) \<and> memsz_in_bytes (obj_desc seg) = p_memsz (seg_phdr seg) \<and>
     0 < p_memsz (seg_phdr seg) \<and> p_filesz (seg_phdr seg) \<le> p_memsz (seg_phdr seg) \<and> 0 \<le> sint (p_offset (seg_phdr seg))"

text \<open>The bytes a segment occupies in the shared memory.\<close>

definition seg_extent :: "DLIMP_Loaded_Segment \<Rightarrow> nat set" where
  "seg_extent seg = (case target_address (obj_desc seg) of None \<Rightarrow> {}
     | Some a \<Rightarrow> {unat a ..< unat a + unat (memsz_in_bytes (obj_desc seg))})"

definition in_shared :: "ocl_client \<Rightarrow> DLIMP_Loaded_Segment \<Rightarrow> bool" where
  "in_shared c seg \<longleftrightarrow> (\<exists>a. target_address (obj_desc seg) = Some a \<and> \<not> addr_is_l2 c a)"

lemma unat_u64 [simp]: "unat (ucast n :: u64) = unat (n :: u32)"
proof -
  have "unat n < 2 ^ LENGTH(32)" by (rule unsigned_less)
  then show ?thesis by (simp add: unsigned_ucast_eq take_bit_nat_eq_self)
qed

lemma sane_memsz:
  assumes "client_ok c" and "0 < n"
  shows "sane_size (ddr_heap1 c) (ucast (n :: u32))"
proof -
  have "unat n < 2 ^ LENGTH(32)" by (rule unsigned_less)
  with unat_u64 show ?thesis using assms by (simp add: sane_size_def client_ok_def word_less_nat_alt)
qed

text \<open>A successful request: memory inside the local memory is granted as it is, else a block of the heap.\<close>

lemma ocl_allocate_cases:
  assumes "client_ok c" and "ocl_allocate c req = Inr (True, desc, c')" and "target_address (segment req) = Some v"
    and "0 < memsz_in_bytes (segment req)"
  shows "addr_is_l2 c v \<and> desc = segment req \<and> c' = c \<or>
     (\<exists>a. \<not> addr_is_l2 c v \<and> AllocateGlobal (ucast (memsz_in_bytes (segment req))) True c = Inr (a, c') \<and> a \<noteq> 0 \<and>
        desc = (segment req)\<lparr>target_address := Some (ucast a)\<rparr> \<and> unat (ucast a :: u32) = unat a)"
proof (cases "addr_is_l2 c v")
  case True
  moreover have "(segment req)\<lparr>target_address := Some v\<rparr> = segment req" using assms(3) by simp
  ultimately show ?thesis using assms(2,3) by (auto simp: ocl_allocate_def Let_def)
next
  case False
  let ?sz = "ucast (memsz_in_bytes (segment req)) :: u64"
  obtain a where a: "AllocateGlobal ?sz True c = Inr (a, c')" "(ucast a :: u32) \<noteq> 0"
    "desc = (segment req)\<lparr>target_address := Some (ucast a)\<rparr>"
    using assms(2,3) False by (auto simp: ocl_allocate_def Let_def bindR_eq_Inr)
  then have a0: "a \<noteq> 0" by auto
  obtain t where "?sz \<le> t" "extent a t \<subseteq> heap_region (ddr_heap1 c)"
    using shm.alloc_new[OF assms(1) sane_memsz[OF assms(1,4)] a(1) a0] by blast
  moreover have "0 < unat ?sz" using sane_memsz[OF assms(1,4)] by (simp add: sane_size_def word_less_nat_alt)
  ultimately have "unat a \<in> heap_region (ddr_heap1 c)" by (auto simp: extent_def word_le_nat_alt)
  then have "unat a < 2 ^ 32" using assms(1) by (auto simp: client_ok_def)
  then have "unat (ucast a :: u32) = unat a" by (simp add: unsigned_ucast_eq take_bit_nat_eq_self)
  with a a0 False show ?thesis by blast
qed

text \<open>The contents of a segment: the bytes of the file, then zeros.\<close>

definition seg_image :: "FILE \<Rightarrow> Elf32_Phdr \<Rightarrow> u8 list" where
  "seg_image f p = slice (unat (p_offset p)) (unat (p_filesz p)) (contents f) @ replicate (unat (p_memsz p) - unat (p_filesz p)) 0"

definition holds_image :: "ocl_client \<Rightarrow> FILE \<Rightarrow> DLIMP_Loaded_Segment \<Rightarrow> bool" where
  "holds_image c f seg \<longleftrightarrow> (\<exists>a. target_address (obj_desc seg) = Some a \<and>
     (\<forall>i < unat (p_memsz (seg_phdr seg)). shared_memory c (a + of_nat i) = seg_image f (seg_phdr seg) ! i))"

lemma sint_nonneg: "0 \<le> sint w \<Longrightarrow> nat (sint w) = unat w" for w :: i32
proof -
  assume a: "0 \<le> sint w"
  have u: "0 \<le> uint w" "uint w < 2 ^ 32" using uint_lt2p[of w] by simp_all
  have "uint w < 2 ^ 31"
  proof (rule ccontr)
    assume "\<not> uint w < 2 ^ 31"
    then have s: "sint (word_of_int (uint w - 2 ^ 32) :: i32) = uint w - 2 ^ 32" using u by (intro sint_of_range) simp_all
    have "(word_of_int (uint w - 2 ^ 32) :: i32) = word_of_int (uint w)"
      by (simp only: word_of_int_eq_iff) (simp add: take_bit_eq_mod mod_diff_right_eq[symmetric])
    then have "sint w = uint w - 2 ^ 32" using s by (simp only: word_of_int_uint)
    then show False using a u by simp
  qed
  moreover have "- (2 ^ 31) \<le> uint w" using u(1) by (rule order_trans[rotated]) simp
  ultimately have "sint (word_of_int (uint w) :: i32) = uint w" by (intro sint_of_range)
  then have "sint w = uint w" by simp
  then show ?thesis by (simp add: nat_uint_eq)
qed

lemma copy_image:
  assumes "ocl_copy c (Some f) req = Inr (mem, c')" and "offset req = p_offset p" and "0 \<le> sint (p_offset p)"
    and "objsz_in_bytes (segment req) = p_filesz p" and "memsz_in_bytes (segment req) = p_memsz p" and "p_filesz p \<noteq> 0"
  shows "mem = Some (seg_image f p)" and "c' = c" and "length (seg_image f p) = unat (p_memsz p)"
proof -
  have "nat (sint (p_offset p)) = unat (p_offset p)" using assms(3) by (rule sint_nonneg)
  moreover have "0 < unat (p_filesz p)" using assms(6) by (simp add: unat_gt_0)
  ultimately show "mem = Some (seg_image f p)" "c' = c" "length (seg_image f p) = unat (p_memsz p)"
    using assms by (auto simp: ocl_copy_def Let_def DLIF_fseek_set_def seg_image_def slice_def split: if_splits)
qed

subsection \<open>The image of a static executable\<close>

text \<open>What loading keeps: the invariant, the local memory, live blocks and what is stored in them.\<close>

definition client_frame :: "ocl_client \<Rightarrow> ocl_client \<Rightarrow> bool" where
  "client_frame c c' \<longleftrightarrow> client_ok c' \<and> addr_is_l2 c' = addr_is_l2 c \<and>
     (\<forall>a u. heap_live (ddr_heap1 c) a u \<longrightarrow> heap_live (ddr_heap1 c') a u \<and>
        (\<forall>x. unat x \<in> extent a u \<longrightarrow> shared_memory c' x = shared_memory c x))"

lemma client_frame_refl: "client_ok c \<Longrightarrow> client_frame c c"
  by (simp add: client_frame_def)

lemma client_frame_trans: "client_frame a b \<Longrightarrow> client_frame b c \<Longrightarrow> client_frame a c"
  unfolding client_frame_def by (elim conjE, intro conjI) metis+

text \<open>A segment in shared memory has a live block that no older one overlaps.\<close>

definition own_block :: "ocl_client \<Rightarrow> ocl_client \<Rightarrow> DLIMP_Loaded_Segment \<Rightarrow> bool" where
  "own_block c c' seg \<longleftrightarrow> (\<exists>a u. heap_live (ddr_heap1 c') a u \<and> seg_extent seg \<subseteq> extent a u \<and>
     extent a u \<subseteq> {..<2 ^ 32} \<and>
     (\<forall>b v. heap_live (ddr_heap1 c) b v \<longrightarrow> extent a u \<inter> extent b v = {}))"

lemma own_block_mono: "own_block c c1 seg \<Longrightarrow> client_frame c1 c' \<Longrightarrow> own_block c c' seg"
  unfolding own_block_def client_frame_def by blast

lemma own_block_older: "own_block c1 c' seg \<Longrightarrow> client_frame c c1 \<Longrightarrow> own_block c c' seg"
  unfolding own_block_def client_frame_def by blast

lemma own_block_disjoint:
  assumes "own_block c c1 s" and "own_block c1 c' t"
  shows "seg_extent s \<inter> seg_extent t = {}"
proof -
  obtain a u where "heap_live (ddr_heap1 c1) a u" "seg_extent s \<subseteq> extent a u" using assms(1) by (auto simp: own_block_def)
  moreover obtain b v where "seg_extent t \<subseteq> extent b v" "\<forall>a u. heap_live (ddr_heap1 c1) a u \<longrightarrow> extent b v \<inter> extent a u = {}"
    using assms(2) unfolding own_block_def by metis
  ultimately show ?thesis by blast
qed

lemma allocate_frame:
  assumes "client_ok c" and "ocl_allocate c req = Inr (True, desc, c')" and "target_address (segment req) = Some v"
    and "0 < memsz_in_bytes (segment req)"
  shows "client_frame c c'" and "memsz_in_bytes desc = memsz_in_bytes (segment req)" and "objsz_in_bytes desc = objsz_in_bytes (segment req)"
    and "obj_desc seg = desc \<Longrightarrow> in_shared c seg \<Longrightarrow> own_block c c' seg" and "target_address desc \<noteq> None"
    and "shared_memory c' = shared_memory c"
proof -
  let ?sz = "ucast (memsz_in_bytes (segment req)) :: u64"
  have "client_frame c c' \<and> memsz_in_bytes desc = memsz_in_bytes (segment req) \<and> objsz_in_bytes desc = objsz_in_bytes (segment req) \<and>
    (obj_desc seg = desc \<longrightarrow> in_shared c seg \<longrightarrow> own_block c c' seg) \<and> target_address desc \<noteq> None \<and> shared_memory c' = shared_memory c"
    using ocl_allocate_cases[OF assms]
  proof (elim disjE exE conjE)
    assume "addr_is_l2 c v" "desc = segment req" "c' = c"
    with assms(1,3) show ?thesis by (simp add: client_frame_refl in_shared_def)
  next
    fix a
    assume a: "AllocateGlobal ?sz True c = Inr (a, c')" "a \<noteq> 0" "desc = (segment req)\<lparr>target_address := Some (ucast a)\<rparr>"
      "unat (ucast a :: u32) = unat a"
    note sane = sane_memsz[OF assms(1,4)]
    have sm: "shared_memory c' = shared_memory c" "addr_is_l2 c' = addr_is_l2 c"
      using a(1) by (auto simp: AllocateGlobal_def heap1_malloc_def bindR_eq_Inr)
    have "client_ok c'" using shm.alloc_inv[OF assms(1) sane a(1)] by simp
    obtain t where t: "?sz \<le> t" "heap_live (ddr_heap1 c') = (heap_live (ddr_heap1 c))(a := \<lambda>u. heap_live (ddr_heap1 c) a u \<or> u = t)"
      "\<forall>b u. heap_live (ddr_heap1 c) b u \<longrightarrow> extent a t \<inter> extent b u = {}"
      "extent a t \<subseteq> heap_region (ddr_heap1 c)"
      using shm.alloc_new[OF assms(1) sane a(1,2)] by blast
    then have lim: "extent a t \<subseteq> {..<2 ^ 32}" using assms(1) by (auto simp: client_ok_def)
    have fr: "client_frame c c'" using \<open>client_ok c'\<close> sm t(2) by (simp add: client_frame_def)
    have "unat (memsz_in_bytes (segment req)) \<le> unat t"
      using t(1) by (simp add: word_le_nat_alt)
    then have "seg_extent seg \<subseteq> extent a t" if "obj_desc seg = desc"
      using that a(3,4) by (auto simp: seg_extent_def extent_def)
    moreover have "heap_live (ddr_heap1 c') a t" using t(2) by simp
    ultimately have "own_block c c' seg" if "obj_desc seg = desc" using that t(3) lim unfolding own_block_def by blast
    with fr show ?thesis using a(3) sm by simp
  qed
  then show "client_frame c c'" "memsz_in_bytes desc = memsz_in_bytes (segment req)" "objsz_in_bytes desc = objsz_in_bytes (segment req)"
    "obj_desc seg = desc \<Longrightarrow> in_shared c seg \<Longrightarrow> own_block c c' seg" "target_address desc \<noteq> None"
    "shared_memory c' = shared_memory c" by simp_all
qed

text \<open>Writing the image of a segment into its block.\<close>

lemma write_image:
  assumes "client_ok c1" and "ocl_write c1 (req\<lparr>req_host_address := Some bs\<rparr>) = Inr c'" and "segment req = obj_desc seg"
    and "length bs = unat (memsz_in_bytes (obj_desc seg))" and "in_shared c1 seg \<Longrightarrow> own_block c c1 seg" and "client_frame c c1"
  shows "client_frame c c'" and "ddr_heap1 c' = ddr_heap1 c1" and "addr_is_l2 c' = addr_is_l2 c1"
    and "in_shared c1 seg \<Longrightarrow> target_address (obj_desc seg) = Some a \<Longrightarrow> i < length bs \<Longrightarrow> shared_memory c' (a + of_nat i) = bs ! i"
proof -
  obtain v where v: "target_address (obj_desc seg) = Some v" using assms(2,3) by (auto simp: ocl_write_def Let_def bindR_eq_Inr deref_eq_Inr)
  have c': "ddr_heap1 c' = ddr_heap1 c1 \<and> addr_is_l2 c' = addr_is_l2 c1 \<and>
      shared_memory c' = (if addr_is_l2 c1 v then shared_memory c1 else poke (shared_memory c1) v bs)"
    using assms(2-4) v by (auto simp: ocl_write_def Let_def WriteToShmem_def split: if_splits)
  then show "ddr_heap1 c' = ddr_heap1 c1" "addr_is_l2 c' = addr_is_l2 c1" by simp_all
  have ok: "client_ok c'" using c' assms(1) by (simp add: client_ok_def)
  have len: "length bs \<le> 2 ^ 32" using assms(4) unsigned_less[of "memsz_in_bytes (obj_desc seg)", where 'a = nat] by simp
  show "shared_memory c' (a + of_nat i) = bs ! i" if "in_shared c1 seg" "target_address (obj_desc seg) = Some a" "i < length bs"
    using that c' v poke_at[OF that(3) len] by (auto simp: in_shared_def)
  have "shared_memory c' x = shared_memory c1 x" if lv: "heap_live (ddr_heap1 c) b u" "unat x \<in> extent b u" for b u x
  proof (cases "addr_is_l2 c1 v")
    case False
    then have "own_block c c1 seg" using assms(5) v by (simp add: in_shared_def)
    then obtain a t where "seg_extent seg \<subseteq> extent a t" "extent a t \<subseteq> {..<2 ^ 32}" "extent a t \<inter> extent b u = {}"
      using lv(1) unfolding own_block_def by metis
    then have "{unat v ..< unat v + length bs} \<subseteq> {..<2 ^ 32}" "unat x \<notin> {unat v ..< unat v + length bs}"
      using v assms(4) lv(2) by (auto simp: seg_extent_def)
    then have "poke (shared_memory c1) v bs x = shared_memory c1 x" by (cases "bs = []") (auto simp: poke_def[of _ _ "[]"] lessThan_atLeast0 intro!: poke_outside)
    with False c' show ?thesis by simp
  qed (use c' in simp)
  with c' ok assms(6) show "client_frame c c'" unfolding client_frame_def by auto
qed

text \<open>Every segment in shared memory has its own memory, and those with file contents hold their image.\<close>

definition image_loaded :: "FILE \<Rightarrow> ocl_client \<Rightarrow> ocl_client \<Rightarrow> DLIMP_Loaded_Segment list \<Rightarrow> bool" where
  "image_loaded f c c' segs \<longleftrightarrow> client_frame c c' \<and>
     (\<forall>seg \<in> set segs. in_shared c seg \<longrightarrow> own_block c c' seg \<and> (p_filesz (seg_phdr seg) \<noteq> 0 \<longrightarrow> holds_image c' f seg)) \<and>
     sorted_wrt (\<lambda>s t. in_shared c s \<longrightarrow> in_shared c t \<longrightarrow> seg_extent s \<inter> seg_extent t = {}) segs"

lemma holds_image_frame:
  assumes "holds_image c1 f seg" and "own_block c c1 seg" and "client_frame c1 c'" and "memsz_in_bytes (obj_desc seg) = p_memsz (seg_phdr seg)"
  shows "holds_image c' f seg"
proof -
  obtain v where v: "target_address (obj_desc seg) = Some v"
    "\<forall>i < unat (p_memsz (seg_phdr seg)). shared_memory c1 (v + of_nat i) = seg_image f (seg_phdr seg) ! i"
    using assms(1) by (auto simp: holds_image_def)
  obtain a u where a: "heap_live (ddr_heap1 c1) a u" "seg_extent seg \<subseteq> extent a u" "extent a u \<subseteq> {..<2 ^ 32}"
    using assms(2) unfolding own_block_def by metis
  have "shared_memory c' (v + of_nat i) = shared_memory c1 (v + of_nat i)" if "i < unat (p_memsz (seg_phdr seg))" for i
  proof -
    have "unat v + i \<in> seg_extent seg" using v(1) that assms(4) by (simp add: seg_extent_def)
    moreover from this a have "unat v + i < 2 ^ 32" by blast
    then have "unat (v + of_nat i) = unat v + i" by (simp add: unat_word_ariths unat_of_nat take_bit_nat_eq_self)
    ultimately show ?thesis using a(1,2) assms(3) unfolding client_frame_def by (metis subsetD)
  qed
  with v show ?thesis by (auto simp: holds_image_def)
qed

lemma image_loaded_Cons:
  assumes "image_loaded f c1 c' segs" and "client_frame c c1" and "in_shared c seg \<Longrightarrow> own_block c c1 seg"
    and "in_shared c seg \<Longrightarrow> p_filesz (seg_phdr seg) \<noteq> 0 \<Longrightarrow> holds_image c1 f seg"
    and "memsz_in_bytes (obj_desc seg) = p_memsz (seg_phdr seg)"
  shows "image_loaded f c c' (seg # segs)"
proof -
  have l2: "in_shared c1 = in_shared c" using assms(2) by (simp add: in_shared_def[abs_def] client_frame_def)
  have fr: "client_frame c1 c'" using assms(1) by (simp add: image_loaded_def)
  have "own_block c c' t" if "t \<in> set segs" "in_shared c t" for t
    using own_block_older[OF _ assms(2)] assms(1) that l2 by (simp add: image_loaded_def)
  moreover have "seg_extent seg \<inter> seg_extent t = {}" if "t \<in> set segs" "in_shared c t" "in_shared c seg" for t
    using own_block_disjoint[OF assms(3), of c' t] assms(1) that l2 by (simp add: image_loaded_def)
  moreover have "holds_image c' f seg" if "in_shared c seg" "p_filesz (seg_phdr seg) \<noteq> 0"
    using holds_image_frame[OF assms(4)[OF that] assms(3)[OF that(1)] fr assms(5)] .
  ultimately show ?thesis
    using assms(1) client_frame_trans[OF assms(2) fr] own_block_mono[OF assms(3) fr] l2 by (simp add: image_loaded_def)
qed

lemma load_static_image:
  assumes "load_static_segment ocl_client_DLIF dm segs st = Inr (True, segs', st')" and "client_ok (client st)"
    and "module_file st dm = Some f" and "\<forall>seg \<in> set segs. seg_wf seg"
  shows "image_loaded f (client st) (client st') segs' \<and> map seg_phdr segs' = map seg_phdr segs"
  using assms
proof (induction segs arbitrary: st segs')
  case Nil
  then show ?case by (simp add: image_loaded_def client_frame_refl)
next
  case (Cons seg segs)
  let ?req = "\<lparr>segment = (obj_desc seg)\<lparr>target_page := 0, target_address := Some (p_vaddr (seg_phdr seg))\<rparr>, req_host_address = None,
     offset = p_offset (seg_phdr seg), flip_endian = Some (wrong_endian dm),
     flags = segment_flags (seg_phdr seg) 0 AND NOT DLOAD_SF_relocatable, align = p_align (seg_phdr seg)\<rparr>"
  obtain desc c1 st2 segs2 where al: "ocl_allocate (client st) ?req = Inr (True, desc, c1)"
    and st2: "(if p_filesz (seg_phdr seg) \<noteq> 0 then bindR (ocl_copy c1 (Some f) (?req\<lparr>segment := desc\<rparr>)) (\<lambda>(mem, c).
        bindR (ocl_write c (?req\<lparr>segment := desc, req_host_address := mem\<rparr>)) (\<lambda>c. Inr (st\<lparr>client := c\<rparr>)))
        else Inr (st\<lparr>client := c1\<rparr>)) = Inr st2"
    and rest: "load_static_segment ocl_client_DLIF dm segs st2 = Inr (True, segs2, st')" and segs': "segs' = seg\<lparr>obj_desc := desc\<rparr> # segs2"
    using Cons.prems(1,3) by (auto simp: Let_def bindR_eq_Inr ocl_client_DLIF_def split: if_splits)
  let ?seg = "seg\<lparr>obj_desc := desc\<rparr>"
  have wf: "objsz_in_bytes (obj_desc seg) = p_filesz (seg_phdr seg)" "memsz_in_bytes (obj_desc seg) = p_memsz (seg_phdr seg)"
     "0 < p_memsz (seg_phdr seg)" "0 \<le> sint (p_offset (seg_phdr seg))" using Cons.prems(4) by (simp_all add: seg_wf_def)
  note al' = allocate_frame[OF Cons.prems(2) al, of "p_vaddr (seg_phdr seg)", simplified]
  have c1: "client_frame (client st) c1" "client_ok c1" "in_shared c1 = in_shared (client st)"
    and desc: "memsz_in_bytes desc = p_memsz (seg_phdr seg)" "objsz_in_bytes desc = p_filesz (seg_phdr seg)"
    and own: "in_shared (client st) ?seg \<Longrightarrow> own_block (client st) c1 ?seg"
    using al'(1-3) al'(4)[of ?seg] wf by (auto simp: client_frame_def in_shared_def[abs_def])
  have step: "client_frame (client st) (client st2) \<and> files st2 = files st \<and> ddr_heap1 (client st2) = ddr_heap1 c1 \<and>
     (in_shared (client st) ?seg \<longrightarrow> p_filesz (seg_phdr seg) \<noteq> 0 \<longrightarrow> holds_image (client st2) f ?seg)"
  proof (cases "p_filesz (seg_phdr seg) = 0")
    case False
    then obtain mem c2 c3 where cp: "ocl_copy c1 (Some f) (?req\<lparr>segment := desc\<rparr>) = Inr (mem, c2)"
      and wr: "ocl_write c2 (?req\<lparr>segment := desc, req_host_address := mem\<rparr>) = Inr c3" and st2': "st2 = st\<lparr>client := c3\<rparr>"
      using st2 by (auto simp: bindR_eq_Inr)
    have im: "mem = Some (seg_image f (seg_phdr seg))" "c2 = c1" "length (seg_image f (seg_phdr seg)) = unat (p_memsz (seg_phdr seg))"
      using copy_image[OF cp, of "seg_phdr seg"] wf(4) desc False by simp_all
    have "ocl_write c1 ((?req\<lparr>segment := desc\<rparr>)\<lparr>req_host_address := Some (seg_image f (seg_phdr seg))\<rparr>) = Inr c3"
      using wr im by simp
    note wr' = write_image[OF c1(2) this, of ?seg "client st", simplified]
    have "\<exists>v. target_address desc = Some v" using al'(5) wf by simp
    then show ?thesis using wr' c1 desc im(3) own False st2' by (auto simp: holds_image_def)
  qed (use st2 c1 in auto)
  have "image_loaded f (client st2) (client st') segs2 \<and> map seg_phdr segs2 = map seg_phdr segs"
    using Cons.IH[OF rest] step Cons.prems(3,4) by (simp add: client_frame_def)
  moreover have "own_block (client st) (client st2) ?seg" if "in_shared (client st) ?seg"
    using own[OF that] step by (simp add: own_block_def)
  ultimately show ?case using image_loaded_Cons[of f "client st2" "client st'" segs2 "client st" ?seg] step desc segs' by simp
qed

text \<open>Reading a module and adding it to the loaded objects do not touch the client.\<close>

lemma read_module_client: "holdsR (\<lambda>(r, st'). (\<exists>dm. r = Some dm) \<longrightarrow> client st' = client st) (read_module D h f a st)"
proof -
  have v: "holdsR (\<lambda>(r, st'). (\<exists>dm. r = Some dm) \<longrightarrow> client st' = client st)
      (bindR (is_valid_elf_object_file st1 dm) (\<lambda>(ok, st).
         if \<not> ok then bindR (discard D a dm (report ms st)) (\<lambda>st. Inr (None, st)) else Inr (Some dm, st)))"
    if "reads_only st st1" for st1 dm ms
    using that by (auto simp: reads_only_def intro!: holdsR_bindI[OF is_valid_reads] holdsR_bind_any[of "discard _ _ _ _"])
  have d: "reads2 st (dload_dynamic_segment h st1 dm)" if "reads_only st st1" for st1 dm
    using that by (intro holdsR_mono[OF dload_dynamic_segment_reads]) (auto intro: reads_only_trans)
  show ?thesis
    unfolding read_module_def
    by (auto intro!: holdsR_bindI[OF dload_headers_reads] holdsR_bindI[OF d] v holdsR_bind_any[of "discard _ _ _ _"])
qed

lemma add_loaded_segments:
  assumes "add_loaded_module a dm st = Inr (p, dm', m, st')" and "phdr dm = Some tab" and "unat (phnum dm) \<le> length tab"
  shows "loaded_segments m = map make_segment (filter (\<lambda>p. p_type p = PT_LOAD) (take (unat (phnum dm)) tab)) \<and>
     dm' = dm\<lparr>loaded_module := Some p\<rparr> \<and> client st' = client st \<and> files st' = files st \<and>
     dmods st' a = Some dm' \<and> lmods st' p = Some m \<and> DLIMP_loaded_objects st' = DLIMP_loaded_objects st @ [p] \<and>
     lm_file_handle m = file_handle st"
  using assms load_segments_filter[OF assms(2,3)] holdsRD[OF initialize_post[of st dm]]
  by (auto simp: add_loaded_module_def initialize_loaded_module_def Let_def bindR_eq_Inr set_dm_def set_lm_def)

text \<open>A loadable program header as a linker writes it: a place in the file that a \<open>long\<close> can name and a
  size in memory that is at least that in the file.\<close>

definition phdr_sane :: "Elf32_Phdr \<Rightarrow> bool" where
  "phdr_sane p \<longleftrightarrow> p_type p = PT_LOAD \<longrightarrow> 0 < p_memsz p \<and> p_filesz p \<le> p_memsz p \<and> 0 \<le> sint (p_offset p)"

lemma static_executable_image:
  assumes "dload_static_executable ocl_client_DLIF st a = Inr (r, st')" and "r \<noteq> 0" and "dmods st a = Some dm"
    and "loaded_module dm = Some p" and "lmods st p = Some m" and "client_ok (client st)" and "module_file st dm = Some f"
    and "\<forall>seg \<in> set (loaded_segments m). seg_wf seg"
  shows "\<exists>m'. lmods st' p = Some m' \<and> lm_file_handle m' = lm_file_handle m \<and> entry_point m' = Some (e_entry (fhdr dm)) \<and>
     map seg_phdr (loaded_segments m') = map seg_phdr (loaded_segments m) \<and> r = lm_file_handle m \<and>
     DLIMP_loaded_objects st' = DLIMP_loaded_objects st \<and>
     image_loaded f (client st) (client st') (loaded_segments m')"
proof -
  obtain ok segs st1 where l: "load_static_segment ocl_client_DLIF dm (loaded_segments m) st = Inr (ok, segs, st1)"
    and rest: "bindR (delete_DLIMP_Dynamic_Module ocl_client_DLIF (snd (if ok
        then (lm_file_handle m, set_dm a (detach_loaded_module dm) (set_lm p (m\<lparr>entry_point := Some (e_entry (fhdr dm)), loaded_segments := segs\<rparr>) st1))
        else (0, report [DLIF_error DLET_MEMORY ''Failed to allocate target memory for static executable.'']
           (set_lm p (m\<lparr>entry_point := Some (e_entry (fhdr dm)), loaded_segments := segs\<rparr>) st1)))) a)
        (\<lambda>st. Inr (if ok then lm_file_handle m else 0, st)) = Inr (r, st')"
    using assms(1,3-5) by (auto simp: dload_static_executable_def Let_def bindR_eq_Inr load_object_def split: if_splits)
  then have ok: "ok" using assms(2) by (auto simp: bindR_eq_Inr split: if_splits)
  let ?st = "set_dm a (detach_loaded_module dm) (set_lm p (m\<lparr>entry_point := Some (e_entry (fhdr dm)), loaded_segments := segs\<rparr>) st1)"
  have "delete_DLIMP_Dynamic_Module ocl_client_DLIF ?st a = Inr (?st\<lparr>dmods := (dmods ?st)(a := None)\<rparr>)"
    by (rule delete_detached[of _ _ "detach_loaded_module dm"]) (simp_all add: set_dm_def)
  then have st': "st' = ?st\<lparr>dmods := (dmods ?st)(a := None)\<rparr>" "r = lm_file_handle m" using rest ok by auto
  have "keeps st st1" using holdsRD[OF load_static_segment_keeps l] by simp
  moreover have "image_loaded f (client st) (client st1) segs \<and> map seg_phdr segs = map seg_phdr (loaded_segments m)"
    using load_static_image[of dm _ st segs st1] l ok assms(6-8) by simp
  ultimately show ?thesis using st' by (simp add: set_dm_def set_lm_def keeps_def)
qed

subsection \<open>Properties of a load\<close>


definition example_ocl :: ocl_client where
  "example_ocl = \<lparr>shared_memory = (\<lambda>_. 0), process_memory = (\<lambda>_. 0), ddr_heap1 = example_heap, ddr_heap2 = HeapManager,
     p_addr_local_mem = 0x800000, p_size_local_mem = 0x1000, process_id = 7, programLoadAddress = 0\<rparr>"

lemma example_ocl_ok: "client_ok example_ocl"
  using example_heap_ok by (auto simp: client_ok_def example_ocl_def example_heap_simps heap_region_def addr_is_l2_def
      word_le_nat_alt word_less_nat_alt)

definition example_start :: "ocl_client loader" where
  "example_start = snd (fopen example_elf (fresh_loader example_ocl))"

definition example_fs :: "string \<Rightarrow> u8 list option" where
  "example_fs = [''prog'' \<mapsto> example_elf]"

lemmas example_start_simps = example_start_def fopen_def fresh_loader_def DLOAD_create_def

lemma example_read:
  "case read_module ocl_client_DLIF LSB 1 2 (example_start\<lparr>next_obj := 3\<rparr>) of Inl _ \<Rightarrow> False
   | Inr (None, _) \<Rightarrow> False
   | Inr (Some dm, st1) \<Rightarrow> \<not> relocatable dm \<and> (case phdr dm of None \<Rightarrow> False | Some tab \<Rightarrow> unat (phnum dm) \<le> length tab \<and>
       list_all phdr_sane tab) \<and> module_file st1 dm \<noteq> None"
  by code_simp

lemma example_run:
  "case DLOAD_load example_fs ocl_client_DLIF LSB 1 (Some 1) example_start of Inl _ \<Rightarrow> False
   | Inr (r, st) \<Rightarrow> r = 1 \<and> map (shared_memory (client st)) [0x1000, 0x1001, 0x1002, 0x1003, 0x1004] = [0xDE, 0xAD, 0xBE, 0xEF, 0] \<and>
       next_obj st = 4 \<and> length (DLIMP_loaded_objects st) = 1 \<and> files st 1 \<noteq> None"
  by code_simp


subsection \<open>Arguments\<close>

lemma ocl_memcpy_simp [simp]:
  "DLIF_memcpy ocl_client_DLIF c to from = Inr (c\<lparr>process_memory := poke (process_memory c) to from\<rparr>)"
  by (simp add: ocl_client_DLIF_def ocl_memcpy_def)

lemma memcpy_all_shared:
  "memcpy_all ocl_client_DLIF cs st = Inr st' \<Longrightarrow> shared_memory (client st') = shared_memory (client st)"
  by (induction cs arbitrary: st) fastforce+

text \<open>Passing arguments to a loaded program builds the argument image (the
  count, the pointers and the strings) at the program's target address, but in the memory of the host
  process: the memory that the device reads stays as it was.\<close>

lemma arguments_miss_target:
  assumes "argv \<noteq> []" and "lm_c_args m = Some a" and "a \<noteq> 0" and "a \<noteq> 0xFFFFFFFF" and "a AND 3 = 0"
    and "length (args_image h a argv) \<le> 2 ^ 31"
    and "seg_has_space_for_write m (of_nat (length (args_image h a argv))) = Inr True"
  shows "\<exists>c. write_arguments_to_args_section ocl_client_DLIF h (int (length argv)) argv m st = Inr (True, st\<lparr>client := c\<rparr>) \<and>
     process_memory c = poke (process_memory (client st)) a (args_image h a argv) \<and> shared_memory c = shared_memory (client st)"
proof -
  obtain c where c: "write_arguments_to_args_section ocl_client_DLIF h (int (length argv)) argv m st = Inr (True, st\<lparr>client := c\<rparr>)"
    "process_memory c = poke (process_memory (client st)) a (args_image h a argv)"
    using args.arguments_written[OF assms] by blast
  have "shared_memory (client (st\<lparr>client := c\<rparr>)) = shared_memory (client st)"
    using c(1) assms(1) by (auto simp: write_arguments_to_args_section_def Let_def bindR_eq_Inr dest!: memcpy_all_shared split: if_splits)
  with c show ?thesis by auto
qed

subsection \<open>Running out of memory\<close>

text \<open>C40: when there is no memory for the first segment of a static
  executable, the load does not fail: the loader releases the segment whose memory it never got, and
  releasing the null address ends the process.\<close>

theorem failed_allocation_ends_process:
  assumes "dmods st a = Some dm" and "loaded_module dm = Some p" and "lmods st p = Some m" and "loaded_segments m = seg # segs"
    and "\<not> addr_is_l2 (client st) (p_vaddr (seg_phdr seg))" and "\<not> addr_is_l2 (client st) 0"
    and "malloc (process_id (client st)) (ucast (memsz_in_bytes (obj_desc seg))) True (ddr_heap1 (client st)) = Inr (0, hp)"
    and "\<not> heap_contains 0 hp" and "\<not> heap_contains 0 (ddr_heap2 (client st))"
  shows "dload_static_executable ocl_client_DLIF st a = Inl (Exit 1)"
proof -
  let ?c = "client st\<lparr>ddr_heap1 := hp\<rparr>"
  have l: "load_static_segment ocl_client_DLIF dm (seg # segs) st = Inr (False,
      seg\<lparr>obj_desc := (obj_desc seg)\<lparr>target_page := 0, target_address := Some 0\<rparr>\<rparr> # segs, st\<lparr>client := ?c\<rparr>)"
    using assms(5,7) by (simp add: Let_def ocl_client_DLIF_def ocl_allocate_def AllocateGlobal_def heap1_malloc_def)
  have "ocl_release ?c ((obj_desc seg)\<lparr>target_page := 0, target_address := Some 0\<rparr>) = Inl (Exit 1)"
    using assms(6,8,9) by (simp add: ocl_release_def FreeGlobal_def)
  then show ?thesis
    using l assms(1-4) by (simp add: dload_static_executable_def Let_def delete_DLIMP_Dynamic_Module_def delete_DLIMP_Loaded_Module_def
        set_lm_def ocl_client_DLIF_def)
qed

subsection \<open>Unloading\<close>

text \<open>A module whose name is a string literal cannot be removed.\<close>

lemma literal_not_removed:
  assumes "lmods st p = Some m" and "lm_name m = LiteralStr s"
  shows "remove_loaded_module D p st \<noteq> Inr st'"
  using assms by (auto simp: remove_loaded_module_def unlink_loaded_module_def bindR_eq_Inr delete_DLIMP_Loaded_Module_def Let_def
      free_name_def deref_eq_Inr split: if_splits)

lemma fewer_name: "fewer st st' \<Longrightarrow> lmods st' p = Some m' \<Longrightarrow> lmods st p = Some m \<Longrightarrow> lm_name m' = lm_name m"
  unfolding fewer_def by (metis DLIMP_Loaded_Module.select_convs(1) DLIMP_Loaded_Module.surjective DLIMP_Loaded_Module.update_convs(3) option.inject)

lemma literal_not_unloaded:
  assumes "unload_fewer u" and "lmods st p = Some m" and "lm_name m = LiteralStr s"
  shows "unload_module D h u p st \<noteq> Inr st'"
proof
  assume "unload_module D h u p st = Inr st'"
  then obtain st1 st2 st3 where 1: "execute_module_termination D h m st = Inr st1" and 2: "unload_dependents u p (dependencies m) st1 = Inr st2"
    and 3: "remove_loaded_module D p st2 = Inr st3"
    using assms(2) by (auto simp: unload_module_def bindR_eq_Inr)
  have m1: "lmods st1 p = Some m" using holdsRD[OF termination_keeps 1] assms(2) by (simp add: keeps_def)
  obtain m2 where m2: "lmods st2 p = Some m2"
    using 3 by (auto simp: remove_loaded_module_def unlink_loaded_module_def bindR_eq_Inr delete_DLIMP_Loaded_Module_def deref_eq_Inr
        split: if_splits)
  have "fewer st1 st2" using holdsRD[OF unload_dependents_fewer[OF assms(1)] 2] .
  from fewer_name[OF this m2 m1] literal_not_removed[OF m2] assms(3) 3 show False by simp
qed

text \<open>A module whose name was not read from its file, such as a static
  executable, is never unloaded: the unload that drops its last reference frees a string literal
  and has no defined result.\<close>

lemma static_never_unloaded:
  assumes "refcounts {} (add_mset fh E) st" and "has_module st fh m" and "lm_name m = LiteralStr s"
  shows "DLOAD_unload D h fuel fh st \<noteq> Inr (True, st')"
proof (cases fuel)
  case (Suc n)
  obtain p where p: "p \<in> set (DLIMP_loaded_objects st)" "lmods st p = Some m" "lm_file_handle m = fh"
    using assms(2) by (auto simp: has_module_def)
  obtain q m' where q: "q \<in> set (DLIMP_loaded_objects st) - {}" "lmods st q = Some m'" "lm_file_handle m' = fh" "0 < sint (use_count m')"
    using referenced[OF assms(1)] .
  have "q = p" using counted_inj[of "{}" "add_mset fh E" "DLIMP_loaded_objects st" "handle_of st" "count_of st" "deps_of st" q p]
      assms(1) p q by (simp add: refcounts_def handle_of_def)
  with q p(2) have "0 < sint (use_count m)" by simp
  then obtain k where k: "count_down (use_count m) = Inr k" using count_down_sint by blast
  let ?st = "set_lm p (m\<lparr>use_count := k\<rparr>) st"
  have "unload_module D h (DLOAD_unload D h n) p ?st \<noteq> Inr st'" for st'
    using literal_not_unloaded[OF DLOAD_unload_fewer[of D h n], where p = p and st = ?st and m = "m\<lparr>use_count := k\<rparr>"] assms(3)
    by (simp add: set_lm_def)
  with scan_unique[OF assms(1) p(1,2) k, of D h "DLOAD_unload D h n"] p(3) Suc show ?thesis
    by (auto simp: Let_def bindR_eq_Inr)
qed simp

lemma heap_free_finishes: "heap_free addr hp \<noteq> Inl Diverge"
  by (auto simp: heap_free_def Let_def split: option.splits list.splits)

lemma ocl_client_finishes: "client_finishes ocl_client_DLIF"
  using heap_free_finishes
  by (auto simp: client_finishes_def ocl_client_DLIF_def ocl_release_def FreeGlobal_def bindR_eq_Inl deref_def split: option.splits if_splits)

lemma fopen_counts:
  assumes "fopen bs st = (fp, st')" and "refcounts {} E st" and "stack_ok st"
  shows "refcounts {} E st'" and "stack_ok st'"
proof -
  have k: "keeps (st\<lparr>next_obj := Suc (next_obj st)\<rparr>) st'" using assms(1) by (auto simp: fopen_def)
  show "refcounts {} E st'" using refcounts_keeps[OF k] refcounts_next[OF assms(2)] by simp
  show "stack_ok st'" using stack_ok_keeps[OF k] assms(3) by (auto simp: stack_ok_def less_Suc_eq)
qed


subsection \<open>Dependents\<close>

lemma copy_from_closed_file:
  assumes "seg \<in> set segs" and "objsz_in_bytes (obj_desc seg) \<noteq> 0" and "files st (fd dm) = None"
  shows "map_segments (\<lambda>seg st. bindR (DLIF_copy ocl_client_DLIF (client st) (module_file st dm) (relocation_request seg None)) (\<lambda>(mem, c).
     Inr (st\<lparr>client := c\<rparr>, seg\<lparr>host_address := mem\<rparr>))) segs st = Inl Undefined"
  using assms
proof (induction segs arbitrary: st)
  case (Cons s segs)
  show ?case
  proof (cases "objsz_in_bytes (obj_desc s) = 0")
    case True
    with Cons.prems have "seg \<in> set segs" by auto
    from Cons.IH[OF this Cons.prems(2), of "st\<lparr>client := client st\<rparr>"] True Cons.prems(3) show ?thesis
      by (cases "target_address (obj_desc s)") (auto simp: ocl_client_DLIF_def ocl_copy_def relocation_request_def)
  next
    case False
    with Cons.prems(3) show ?thesis by (simp add: ocl_client_DLIF_def ocl_copy_def relocation_request_def Let_def unat_gt_0)
  qed
qed simp

text \<open>C39: the client closes the file of a dependent when its load returns, but the
  dependent is relocated later, by the load of the program: a dependent with bytes in its file that
  was loaded for the program cannot be relocated, reading its file has no defined result.\<close>

theorem dependent_file_closed:
  assumes "DLIF_load_dependent fs load so_name st = Inr (r, st')" and "fs so_name = Some bs"
    and "dmods st' a = Some dm" and "fd dm = next_obj st" and "loaded_module dm = Some p" and "lmods st' p = Some m"
    and "seg \<in> set (loaded_segments m)" and "objsz_in_bytes (obj_desc seg) \<noteq> 0"
  shows "relocate_module ocl_client_DLIF h f a st' = Inl Undefined"
proof -
  have "files st' (next_obj st) = None"
    using assms(1,2) by (auto simp: DLIF_load_dependent_def fopen_def Let_def bindR_eq_Inr DLIF_fclose_def)
  then show ?thesis
    using copy_from_closed_file[OF assms(7,8), of st' dm] assms(3-6)
    by (simp add: relocate_module_def process_dynamic_module_relocations_def copy_segments_def)
qed

subsection \<open>Examples\<close>

theorem failed_allocation_ends_process_witness: "dload_static_executable ocl_client_DLIF
   (example_start\<lparr>client := example_ocl\<lparr>ddr_heap1 := example_full\<rparr>, dmods := [2 \<mapsto> (new_DLIMP_Dynamic_Module 1)\<lparr>loaded_module := Some 3\<rparr>],
     lmods := [3 \<mapsto> example_module 1 []\<lparr>loaded_segments := [make_segment (make_phdr PT_LOAD 0x40)]\<rparr>]\<rparr>) 2 = Inl (Exit 1)"
proof -
  have m: "malloc 7 (ucast (memsz_in_bytes (obj_desc (make_segment (make_phdr PT_LOAD 0x40))))) True example_full = Inr (0, example_full)"
    by code_simp
  then show ?thesis
    by (intro failed_allocation_ends_process[where dm = "(new_DLIMP_Dynamic_Module 1)\<lparr>loaded_module := Some 3\<rparr>" and p = 3 and
        m = "example_module 1 []\<lparr>loaded_segments := [make_segment (make_phdr PT_LOAD 0x40)]\<rparr>" and segs = "[]" and
        seg = "make_segment (make_phdr PT_LOAD 0x40)" and hp = example_full])
     (simp_all add: example_ocl_def addr_is_l2_def make_segment_def make_phdr_def heap_contains_def example_heap_simps)
qed


theorem dependent_file_closed_witness:
  "\<exists>r st'. DLIF_load_dependent [''lib'' \<mapsto> example_elf] (\<lambda>fo st. Inr (1, set_dm 5 ((new_DLIMP_Dynamic_Module 2)\<lparr>loaded_module := Some 6\<rparr>)
        (set_lm 6 (example_module 1 []\<lparr>loaded_segments := [example_segment 0x100 [1, 2, 3, 4]]\<rparr>) st))) ''lib'' example_start = Inr (r, st') \<and>
     relocate_module ocl_client_DLIF LSB 1 5 st' = Inl Undefined"
proof -
  let ?load = "\<lambda>fo st. Inr (1, set_dm 5 ((new_DLIMP_Dynamic_Module 2)\<lparr>loaded_module := Some 6\<rparr>)
      (set_lm 6 (example_module 1 []\<lparr>loaded_segments := [example_segment 0x100 [1, 2, 3, 4]]\<rparr>) st))"
  obtain st' where l: "DLIF_load_dependent [''lib'' \<mapsto> example_elf] ?load ''lib'' example_start = Inr (1, st')"
    "dmods st' 5 = Some ((new_DLIMP_Dynamic_Module 2)\<lparr>loaded_module := Some 6\<rparr>)"
    "lmods st' 6 = Some (example_module 1 []\<lparr>loaded_segments := [example_segment 0x100 [1, 2, 3, 4]]\<rparr>)"
    by (simp add: DLIF_load_dependent_def fopen_def DLIF_fclose_def set_dm_def set_lm_def)
  have "relocate_module ocl_client_DLIF LSB 1 5 st' = Inl Undefined"
    by (rule dependent_file_closed[OF l(1) _ l(2) _ _ l(3), where seg = "example_segment 0x100 [1, 2, 3, 4]"])
      (simp_all add: new_DLIMP_Dynamic_Module_def example_start_simps example_segment_def)
  with l(1) show ?thesis by blast
qed

end
