(* ===== verification/Monitor.thy ===== *)
theory Monitor
  imports DLoad_Prelude "HOL-Library.Signed_Division"
begin

text \<open>
  The monitor, the firmware that runs on every DSP core (\<open>src/monitor/src/monitor.c\<close>), in its K2G build
  for Linux with OpenMP. It takes messages of the host (\<open>src/host/src/core/dsp/message.h\<close>) from a
  queue, runs kernels on its share of the work-groups, and answers. The code it calls that is not
  part of the monitor (the kernels, DMA, OpenMP) is a record of functions over a device state. Trace
  and log output, printing and the hardware counters of the profiler are not modelled; starting and
  stopping the profiler are counted.
\<close>

subsection \<open>Messages\<close>

datatype command_codes = EXIT | TASK | NDRKERNEL | CACHEINV | FREQUENCY | PRINT | CONFIGURE_MONITOR | SETUP_DEBUG

text \<open>The arrays of a configuration have three elements.\<close>

record kernel_config =
  num_dims :: u32
  global_size :: "u32 list"
  local_size :: "u32 list"
  global_offset :: "u32 list"
  WG_gid_start :: "u32 list"
  WG_id :: u32
  WG_alloca_start :: u32
  WG_alloca_size :: u32
  L2_scratch_start :: u32
  L2_scratch_size :: u32

record profiling_t =
  stall_cycle_threshold :: u32
  event_type :: u8
  event_number1 :: u8
  event_number2 :: u8

record kernel_msg =
  Kernel_id :: u32
  entry_point :: u32
  data_page_ptr :: u32
  args_in_reg_size :: u32
  args_in_reg :: "u32 list"
  args_on_stack_addr :: u32
  args_on_stack_size :: u32
  timeout_ms :: u32
  profiling :: profiling_t
  from_sub_device :: u8
  num_cores :: u8
  msg_master_core :: u8

text \<open>The members of the message's union that the monitor reads, and the queue for the answer.\<close>

record Msg =
  command :: command_codes
  config :: kernel_config
  kernel :: kernel_msg
  cfg_n_cores :: u8
  cfg_master_core :: u8
  reply_queue :: u32

text \<open>What \<open>respond_to_host\<close> writes: \<open>trans_id\<close>, the return code, and whether the profiler's values are copied.\<close>

record reply =
  reply_to :: u32
  trans_id :: u32
  retcode :: int
  with_profile :: bool

abbreviation (input) "CL_SUCCESS \<equiv> 0 :: int"
definition CL_ERROR_KERNEL_ABORT_TI :: int where "CL_ERROR_KERNEL_ABORT_TI = -7101"
definition CL_ERROR_KERNEL_EXIT_TI :: int where "CL_ERROR_KERNEL_EXIT_TI = -7102"
definition CL_ERROR_KERNEL_TIMEOUT_TI :: int where "CL_ERROR_KERNEL_TIMEOUT_TI = -7103"

definition DEBUG_MODE_WG_GID_START :: u32 where "DEBUG_MODE_WG_GID_START = 1"
definition IN_ORDER_TASK_SIZE :: u32 where "IN_ORDER_TASK_SIZE = 1"

subsection \<open>Code outside the monitor\<close>

text \<open>
  A call of a kernel returns, leaves through \<open>exit\<close> or \<open>abort\<close>, or runs on until it is stopped.
\<close>

datatype rpc_end = Returned | Kernel_exit | Kernel_abort | Runs_on

record 's env =
  rpc :: "kernel_msg \<Rightarrow> kernel_config \<Rightarrow> 's \<Rightarrow> rpc_end \<times> 's"
  edma_reset :: "'s \<Rightarrow> 's"
  edma_wait_and_free :: "'s \<Rightarrow> 's"
  edma_initialize :: "'s \<Rightarrow> bool \<times> 's"
  omp_init :: "u8 \<Rightarrow> u8 \<Rightarrow> 's \<Rightarrow> bool \<times> 's"
  omp_exit :: "'s \<Rightarrow> 's"
  omp_dispatch_finish :: "'s \<Rightarrow> 's"
  omp_dispatch_once :: "'s \<Rightarrow> rpc_end \<times> 's"
  omp_dispatch_is_finished :: "'s \<Rightarrow> bool"
  dsp_frequency :: u32

subsection \<open>State of a core\<close>

text \<open>
  The globals of the monitor. \<open>calls\<close> are the configurations of the kernel calls made so far,
  \<open>replies\<close> the messages put to the host, \<open>freed\<close> the number of messages given back, \<open>flushes\<close> that
  of the write-backs of the cache, \<open>counting\<close> whether the profiler has been started and not stopped.
\<close>

record 's core =
  DNUM :: u32
  enable_printf :: "u32 option"
  edmamgr_initialized :: bool
  config_reference_count :: u32
  config_n_cores :: u8
  config_master_core :: u8
  master_core :: u8
  command_retcode :: int
  kernel_config_l2 :: kernel_config
  device :: 's
  calls :: "kernel_config list"
  replies :: "reply list"
  freed :: nat
  flushes :: nat
  counting :: bool

definition MASTER_CORE :: "'s core \<Rightarrow> bool" where
  "MASTER_CORE c \<longleftrightarrow> DNUM c = ucast (master_core c)"

subsection \<open>Work-groups\<close>

text \<open>\<open>Inr (overflow, vec)\<close>; the loop leaves off at the first dimension that does not overflow.\<close>

fun incVec_loop :: "nat list \<Rightarrow> bool \<Rightarrow> u32 list \<Rightarrow> u32 list \<Rightarrow> u32 list \<Rightarrow> (bool \<times> u32 list) result" where
  "incVec_loop [] overflow vec inc maxs = Inr (overflow, vec)"
| "incVec_loop (i # is) overflow vec inc maxs =
     bindR (index vec i) (\<lambda>v. bindR (index inc i) (\<lambda>d. bindR (index maxs i) (\<lambda>m.
       if v + d < m then Inr (False, vec[i := v + d]) else incVec_loop is True (vec[i := 0]) inc maxs)))"

definition incVec :: "u32 \<Rightarrow> u32 list \<Rightarrow> u32 list \<Rightarrow> u32 list \<Rightarrow> (bool \<times> u32 list) result" where
  "incVec dims vec inc maxs = incVec_loop [0..<unat dims] False vec inc maxs"

text \<open>Signed arithmetic that leaves the range of \<open>int\<close>, and division by 0, are undefined.\<close>

definition in_int :: "int \<Rightarrow> int result" where
  "in_int x = (if - (2 ^ 31) \<le> x \<and> x < 2 ^ 31 then Inr x else Inl Undefined)"

definition udiv :: "u32 \<Rightarrow> u32 \<Rightarrow> u32 result" where
  "udiv a b = (if b = 0 then Inl Undefined else Inr (a div b))"

text \<open>The loop over the dimensions, from the outermost; \<open>dims\<close> is one more than the dimension it looks at.\<close>

fun split_dim ::
    "'s core \<Rightarrow> nat \<Rightarrow> u32 list \<Rightarrow> u32 list \<Rightarrow> u32 list \<Rightarrow> u32 list \<Rightarrow> u32 \<Rightarrow> (bool \<times> u32 list \<times> u32 list) result" where
  "split_dim c 0 limits offsets gsz lsz n_cores = Inr (MASTER_CORE c, limits, offsets)"
| "split_dim c (Suc dim) limits offsets gsz lsz n_cores =
     bindR (index gsz dim) (\<lambda>g. bindR (index lsz dim) (\<lambda>l. bindR (udiv g l) (\<lambda>q.
     let num_chunks = sint n_cores; num_wgs = sint q
     in if num_wgs > 1
        then if num_chunks = 0 then Inl Undefined
             else let wgs_core = num_wgs sdiv num_chunks; leftover = num_wgs smod num_chunks;
                      ldnum = sint (DNUM c - ucast (master_core c))
                  in bindR (in_int (ldnum * wgs_core)) (\<lambda>before_me.
                     bindR (in_int (before_me + (if ldnum < leftover then ldnum else leftover))) (\<lambda>first.
                     bindR (index offsets dim) (\<lambda>o_d.
                       Inr (ldnum < num_wgs,
                            limits[dim := of_int (wgs_core + (if ldnum < leftover then 1 else 0)) * l],
                            offsets[dim := o_d + of_int first * l]))))
        else split_dim c dim limits offsets gsz lsz n_cores)))"

text \<open>\<open>dims\<close> is an \<open>int\<close>; a negative one is as good as 0.\<close>

definition setup_ndr_chunks ::
    "'s core \<Rightarrow> u32 \<Rightarrow> u32 list \<Rightarrow> u32 list \<Rightarrow> u32 list \<Rightarrow> u32 list \<Rightarrow> u32 \<Rightarrow> (bool \<times> u32 list \<times> u32 list) result" where
  "setup_ndr_chunks c dims limits offsets gsz lsz n_cores =
     (if n_cores = 1 then Inr (True, limits, offsets)
      else split_dim c (nat (sint dims)) limits offsets gsz lsz n_cores)"

subsection \<open>Answers\<close>

definition respond_to_host :: "Msg \<Rightarrow> u32 \<Rightarrow> 's core \<Rightarrow> 's core" where
  "respond_to_host m msgId c = (let e = sint (event_type (profiling (kernel m)))
     in c\<lparr>replies := replies c @ [\<lparr>reply_to = reply_queue m, trans_id = msgId, retcode = command_retcode c,
          with_profile = (e \<ge> 1 \<and> e \<le> 2)\<rparr>]\<rparr>)"

definition MessageQ_free :: "'s core \<Rightarrow> 's core" where
  "MessageQ_free c = c\<lparr>freed := freed c + 1\<rparr>"

definition flush_buffers :: "'s core \<Rightarrow> 's core" where
  "flush_buffers c = c\<lparr>flushes := flushes c + 1\<rparr>"

definition start_counting :: "Msg \<Rightarrow> 's core \<Rightarrow> 's core" where
  "start_counting m c = (if event_type (profiling (kernel m)) \<in> {1, 2} then c\<lparr>counting := True\<rparr> else c)"

definition stop_counting :: "Msg \<Rightarrow> 's core \<Rightarrow> 's core" where
  "stop_counting m c = (if event_type (profiling (kernel m)) \<in> {1, 2} then c\<lparr>counting := False\<rparr> else c)"

definition free_channels :: "'s env \<Rightarrow> 's core \<Rightarrow> 's core" where
  "free_channels E c = c\<lparr>device := edma_wait_and_free E (device c)\<rparr>"

subsection \<open>Kernel calls\<close>

definition kernel_exit :: "'s env \<Rightarrow> 's core \<Rightarrow> 's core" where
  "kernel_exit E c = free_channels E (c\<lparr>command_retcode := CL_ERROR_KERNEL_EXIT_TI\<rparr>)"

definition kernel_abort :: "'s env \<Rightarrow> 's core \<Rightarrow> 's core" where
  "kernel_abort E c = free_channels E (c\<lparr>command_retcode := CL_ERROR_KERNEL_ABORT_TI\<rparr>)"

text \<open>
  A call under \<open>setjmp\<close>. \<open>exit\<close> and \<open>abort\<close> of a kernel jump back; a call that runs on is stopped by the
  clock if a timeout is set, and never ends otherwise.
\<close>

definition after_call :: "'s env \<Rightarrow> Msg \<Rightarrow> rpc_end \<Rightarrow> 's core \<Rightarrow> (rpc_end \<times> 's core) result" where
  "after_call E m r c = (case r of
     Returned \<Rightarrow> Inr (r, c)
   | Kernel_exit \<Rightarrow> Inr (r, kernel_exit E c)
   | Kernel_abort \<Rightarrow> Inr (r, kernel_abort E c)
   | Runs_on \<Rightarrow> if timeout_ms (kernel m) = 0 then Inl Diverge else Inr (r, c))"

definition dsp_rpc :: "'s env \<Rightarrow> Msg \<Rightarrow> 's core \<Rightarrow> (rpc_end \<times> 's core) result" where
  "dsp_rpc E m c = (let (r, s) = rpc E (kernel m) (kernel_config_l2 c) (device c)
     in after_call E m r (c\<lparr>device := s, calls := calls c @ [kernel_config_l2 c]\<rparr>))"

definition service_workgroup :: "'s env \<Rightarrow> Msg \<Rightarrow> 's core \<Rightarrow> (rpc_end \<times> 's core) result" where
  "service_workgroup E m c = dsp_rpc E m (c\<lparr>kernel_config_l2 := config m\<rparr>)"

text \<open>
  The task that the clock wakes up: it answers for the message, ends the task that runs the kernel
  and starts a new one. On a core that helps with an OpenMP task the message is given back instead.
\<close>

definition ocl_timeout :: "'s env \<Rightarrow> Msg \<Rightarrow> bool \<Rightarrow> 's core \<Rightarrow> 's core" where
  "ocl_timeout E m omp_running c =
     (let c = (if omp_running \<and> \<not> MASTER_CORE c then MessageQ_free c
               else respond_to_host m (Kernel_id (kernel m)) (c\<lparr>command_retcode := CL_ERROR_KERNEL_TIMEOUT_TI\<rparr>))
      in flush_buffers (free_channels E (c\<lparr>enable_printf := None\<rparr>)))"

subsection \<open>NDRange kernels\<close>

text \<open>
  The loop over the work-groups of this core; \<open>WGid\<close> and \<open>workgroup\<close> are its locals. The first component
  of the result says that the task was ended by the clock. Fuel bounds the number of rounds.
\<close>

fun workgroup_loop ::
    "'s env \<Rightarrow> nat \<Rightarrow> u32 list \<Rightarrow> u32 list \<Rightarrow> u32 list \<Rightarrow> u32 \<Rightarrow> Msg \<Rightarrow> 's core \<Rightarrow> (bool \<times> 's core) result" where
  "workgroup_loop E 0 limits offsets WGid workgroup m c = Inl Diverge"
| "workgroup_loop E (Suc fuel) limits offsets WGid workgroup m c =
     (let cfg = (config m)\<lparr>WG_gid_start := map2 (+) offsets WGid, WG_id := workgroup\<rparr>;
          m = m\<lparr>config := cfg\<rparr>
      in bindR (service_workgroup E m c) (\<lambda>(r, c). case r of
           Runs_on \<Rightarrow> Inr (True, c)
         | Returned \<Rightarrow> bindR (incVec (num_dims cfg) WGid (local_size cfg) limits) (\<lambda>(done, WGid).
             if done then Inr (False, c) else workgroup_loop E fuel limits offsets WGid (workgroup + 1) m c)
         | _ \<Rightarrow> Inr (False, c)))"

definition first_workgroup :: "kernel_config \<Rightarrow> u32 list \<Rightarrow> u32 result" where
  "first_workgroup cfg offsets =
     bindR (foldR (\<lambda>i (ws, ns). bindR (index offsets i) (\<lambda>oi. bindR (index (global_offset cfg) i) (\<lambda>go.
        bindR (index (local_size cfg) i) (\<lambda>l. bindR (index (global_size cfg) i) (\<lambda>g.
        bindR (udiv (oi - go) l) (\<lambda>w. bindR (udiv g l) (\<lambda>n. Inr (ws @ [w], ns @ [n]))))))))
       [0, 1, 2] ([], [])) (\<lambda>(wg_start, num_wgs).
       Inr (wg_start ! 2 * num_wgs ! 1 * num_wgs ! 0 + wg_start ! 1 * num_wgs ! 0 + wg_start ! 0))"

definition process_kernel_command :: "'s env \<Rightarrow> nat \<Rightarrow> Msg \<Rightarrow> 's core \<Rightarrow> (bool \<times> 's core) result" where
  "process_kernel_command E fuel m c =
     (let cfg = config m;
          c = c\<lparr>master_core := msg_master_core (kernel m), device := edma_reset E (device c)\<rparr>
      in bindR (index (WG_gid_start cfg) 0) (\<lambda>g0.
         bindR (if g0 = DEBUG_MODE_WG_GID_START then Inr (MASTER_CORE c, global_size cfg, global_offset cfg)
                else setup_ndr_chunks c (num_dims cfg) (global_size cfg) (global_offset cfg) (global_size cfg)
                       (local_size cfg) (ucast (num_cores (kernel m)))) (\<lambda>(any_work, limits, offsets).
         if \<not> any_work then Inr (False, c)
         else bindR (first_workgroup cfg offsets) (\<lambda>workgroup.
              bindR (workgroup_loop E fuel limits offsets [0, 0, 0] workgroup m (start_counting m c)) (\<lambda>(killed, c).
                Inr (killed, if killed then c else stop_counting m c))))))"

subsection \<open>Tasks\<close>

definition task_config :: "kernel_config \<Rightarrow> kernel_config \<Rightarrow> kernel_config" where
  "task_config kcfg l2 = l2\<lparr>num_dims := 1, global_size := [1, 1, 1], local_size := [1, 1, 1], global_offset := [0, 0, 0],
     WG_gid_start := [0, 0, 0], WG_id := 0, WG_alloca_start := WG_alloca_start kcfg, WG_alloca_size := WG_alloca_size kcfg,
     L2_scratch_start := L2_scratch_start kcfg, L2_scratch_size := L2_scratch_size kcfg\<rparr>"

text \<open>A core that is not the master of an OpenMP task works until the master has finished.\<close>

fun dispatch_loop :: "'s env \<Rightarrow> nat \<Rightarrow> Msg \<Rightarrow> 's core \<Rightarrow> (bool \<times> 's core) result" where
  "dispatch_loop E 0 m c = Inl Diverge"
| "dispatch_loop E (Suc fuel) m c =
     (let (r, s) = omp_dispatch_once E (device c)
      in bindR (after_call E m r (c\<lparr>device := s\<rparr>)) (\<lambda>(r, c).
         if r = Runs_on then Inr (True, c)
         else if omp_dispatch_is_finished E (device c) then Inr (False, c) else dispatch_loop E fuel m c))"

text \<open>
  The OpenMP task, which runs while \<open>process_task_command\<close> waits for it. After the error message for a
  wrong configuration it goes on with \<open>omp_msgq_pkt\<close> set to null: \<open>pkt\<close> is that pointer.
\<close>

definition ocl_service_omp :: "'s env \<Rightarrow> nat \<Rightarrow> Msg \<Rightarrow> 's core \<Rightarrow> 's core result" where
  "ocl_service_omp E fuel m c =
     (let mismatch = (config_master_core c \<noteq> master_core c \<or> config_n_cores c \<noteq> num_cores (kernel m));
          c = (if mismatch then flush_buffers c else c);
          pkt = (if mismatch then None else Some m)
      in if MASTER_CORE c
         then bindR (dsp_rpc E m c) (\<lambda>(r, c).
              if r = Runs_on then Inr (ocl_timeout E m (pkt \<noteq> None) c)
              else let c = stop_counting m (c\<lparr>device := omp_dispatch_finish E (device c)\<rparr>)
                   in bindR (deref pkt) (\<lambda>pkt. Inr (flush_buffers (respond_to_host pkt (Kernel_id (kernel m)) c))))
         else bindR (dispatch_loop E fuel m c) (\<lambda>(killed, c).
              if killed then Inr (ocl_timeout E m (pkt \<noteq> None) c)
              else bindR (deref pkt) (\<lambda>_. Inr (flush_buffers (MessageQ_free c)))))"

text \<open>
  The clock ends the OpenMP task for every task in order, also for one of a sub device, which runs in
  the task of the monitor and goes on forever.
\<close>

definition process_task_command :: "'s env \<Rightarrow> nat \<Rightarrow> Msg \<Rightarrow> 's core \<Rightarrow> 's core result" where
  "process_task_command E fuel m c =
     bindR (index (global_size (config m)) 0) (\<lambda>g0.
     let is_inorder = (g0 = IN_ORDER_TASK_SIZE);
         c = start_counting m (c\<lparr>master_core := msg_master_core (kernel m), device := edma_reset E (device c),
               kernel_config_l2 := task_config (config m) (kernel_config_l2 c)\<rparr>)
     in if is_inorder \<and> from_sub_device (kernel m) = 0 then ocl_service_omp E fuel m c
        else bindR (dsp_rpc E m c) (\<lambda>(r, c).
             if r = Runs_on then if is_inorder then Inl Diverge else Inr (ocl_timeout E m False c)
             else Inr (flush_buffers (respond_to_host m (Kernel_id (kernel m)) (stop_counting m c)))))"

subsection \<open>Other commands\<close>

definition process_cache_command :: "u32 \<Rightarrow> Msg \<Rightarrow> 's core \<Rightarrow> 's core" where
  "process_cache_command pkt_id m c = flush_buffers (respond_to_host m pkt_id c)"

definition process_exit_command :: "'s env \<Rightarrow> 's core \<Rightarrow> 's core" where
  "process_exit_command E c =
     (let c = c\<lparr>enable_printf := None\<rparr>;
          c = (if config_reference_count c > 0
               then let c = c\<lparr>config_reference_count := config_reference_count c - 1\<rparr>
                    in if config_reference_count c = 0 then c\<lparr>device := omp_exit E (device c)\<rparr> else c
               else c)
      in flush_buffers (MessageQ_free c))"

definition process_setup_debug_command :: "'s core \<Rightarrow> 's core" where
  "process_setup_debug_command c = MessageQ_free c"

text \<open>\<open>System_abort\<close> ends the monitor.\<close>

definition process_configuration_message :: "'s env \<Rightarrow> Msg \<Rightarrow> 's core \<Rightarrow> 's core result" where
  "process_configuration_message E m c =
     (let c = MessageQ_free c
      in bindR (if config_reference_count c = 0
            then let c = c\<lparr>config_master_core := cfg_master_core m, config_n_cores := cfg_n_cores m, config_reference_count := 1\<rparr>;
                     (ok, s) = omp_init E (config_master_core c) (config_n_cores c) (device c)
                 in if ok then Inr (c\<lparr>device := s\<rparr>) else Inl (Exit 1)
            else if cfg_master_core m = config_master_core c \<and> cfg_n_cores m = config_n_cores c
            then Inr (c\<lparr>config_reference_count := config_reference_count c + 1\<rparr>)
            else Inl (Exit 1)) (\<lambda>c.
         if edmamgr_initialized c then Inr c
         else let (ok, s) = edma_initialize E (device c)
              in if ok then Inr (c\<lparr>device := s, edmamgr_initialized := True\<rparr>) else Inl (Exit 1)))"

subsection \<open>The loop\<close>

text \<open>One message. A task ended by the clock starts anew, without the rest of the round.\<close>

definition monitor_step :: "'s env \<Rightarrow> nat \<Rightarrow> Msg \<Rightarrow> 's core \<Rightarrow> 's core result" where
  "monitor_step E fuel m c =
     (let c = c\<lparr>enable_printf := Some (reply_queue m), command_retcode := CL_SUCCESS\<rparr>
      in bindR (case command m of
           TASK \<Rightarrow> process_task_command E fuel m c
         | NDRKERNEL \<Rightarrow> bindR (process_kernel_command E fuel m c) (\<lambda>(killed, c).
             if killed then Inr (ocl_timeout E m False c)
             else Inr (process_cache_command (Kernel_id (kernel m)) m c))
         | CACHEINV \<Rightarrow> Inr (process_cache_command (-1) m c)
         | EXIT \<Rightarrow> Inr (process_exit_command E c)
         | SETUP_DEBUG \<Rightarrow> Inr (process_setup_debug_command c)
         | FREQUENCY \<Rightarrow> Inr (respond_to_host m (dsp_frequency E) c)
         | CONFIGURE_MONITOR \<Rightarrow> process_configuration_message E m c
         | PRINT \<Rightarrow> Inr c) (\<lambda>c. Inr (c\<lparr>enable_printf := None\<rparr>)))"

fun ocl_monitor :: "'s env \<Rightarrow> nat \<Rightarrow> Msg list \<Rightarrow> 's core \<Rightarrow> 's core result" where
  "ocl_monitor E fuel [] c = Inr c"
| "ocl_monitor E fuel (m # ms) c = bindR (monitor_step E fuel m c) (ocl_monitor E fuel ms)"

end
