(* ===== verification/Kernel_Args.thy ===== *)
theory Kernel_Args
  imports Monitor
begin

text \<open>
  Arguments of a kernel: the class \<open>Kernel::Arg\<close> with \<open>Kernel::setArg\<close> (\<open>src/host/src/core/kernel.cpp\<close>) and the
  placing of the arguments in registers, on the stack and behind references by
  \<open>DSPKernelEvent::callArgs\<close> (\<open>src/host/src/core/dsp/kernel.cpp\<close>), on a 32 bit little endian host. Sizes and
  offsets are integers: the total size of the arguments is at most 1024, so no sum overflows.
\<close>

subsection \<open>Arguments\<close>

datatype arg_kind = Invalid | Int8 | Int16 | Int32 | Int64 | Float | Double | Buffer | Image2D | Image3D | Sampler

datatype arg_file = Private | Global | Constant | Local

type_synonym u64 = "64 word"

text \<open>
  A memory object: its flags, whether its host pointer came from \<open>__malloc_ddr\<close> or \<open>__malloc_msmc\<close>, its size, and
  the address of its device buffer.
\<close>

record MemObject =
  flags :: u64
  host_ptr_clMalloced :: bool
  buffer_size :: u32
  device_data :: u64

definition CL_MEM_WRITE_ONLY :: u64 where "CL_MEM_WRITE_ONLY = 2"
definition CL_MEM_USE_HOST_PTR :: u64 where "CL_MEM_USE_HOST_PTR = 8"

definition DEVICE_WRITE_ONLY :: "MemObject \<Rightarrow> bool" where
  "DEVICE_WRITE_ONLY b \<longleftrightarrow> flags b AND CL_MEM_WRITE_ONLY \<noteq> 0"

text \<open>The memory behind \<open>p_data\<close>: bytes, or a pointer to a memory object.\<close>

datatype arg_data = Bytes "u8 list" | Mem "MemObject option"

record Arg =
  p_vec_dim :: nat
  p_file :: arg_file
  p_kind :: arg_kind
  p_data :: "arg_data option"
  p_defined :: bool
  p_runtime_alloc :: u32
  p_is_subword_int_uns :: bool

definition valueSize :: "Arg \<Rightarrow> nat" where
  "valueSize a = (case p_kind a of Invalid \<Rightarrow> 0 | Int8 \<Rightarrow> 1 | Int16 \<Rightarrow> 2 | Int32 \<Rightarrow> 4 | Sampler \<Rightarrow> 4 | Int64 \<Rightarrow> 8 | Float \<Rightarrow> 4 |
     Double \<Rightarrow> 8 | Buffer \<Rightarrow> 4 | Image2D \<Rightarrow> 4 | Image3D \<Rightarrow> 4)"

definition vecValueSize :: "Arg \<Rightarrow> nat" where
  "vecValueSize a = valueSize a * (if p_vec_dim a = 3 then 4 else p_vec_dim a)"

subsection \<open>Setting an argument\<close>

text \<open>
  What a caller of \<open>clSetKernelArg\<close> passes: no pointer, a pointer to bytes, to a memory handle, or to the
  handle of a sampler with the given bit field.
\<close>

datatype arg_value = No_value | Raw "u8 list" | Mem_handle "MemObject option" | Sampler_handle u32

definition CL_INVALID_ARG_INDEX :: int where "CL_INVALID_ARG_INDEX = -49"
definition CL_INVALID_ARG_VALUE :: int where "CL_INVALID_ARG_VALUE = -50"
definition CL_INVALID_ARG_SIZE :: int where "CL_INVALID_ARG_SIZE = -51"
definition CL_INVALID_KERNEL_ARGS :: int where "CL_INVALID_KERNEL_ARGS = -52"

text \<open>
  \<open>alloc\<close> takes memory once, whose content \<open>junk\<close> is undefined, and \<open>loadData\<close> copies the values into it: a
  vector of three is copied as three values, and the room for the fourth stays as it is.
\<close>

definition alloc :: "u8 list \<Rightarrow> Arg \<Rightarrow> u8 list" where
  "alloc junk a = (case p_data a of Some (Bytes old) \<Rightarrow> old | _ \<Rightarrow> junk)"

definition loadData :: "u8 list \<Rightarrow> Arg \<Rightarrow> u8 list \<Rightarrow> Arg result" where
  "loadData junk a bs = (let n = p_vec_dim a * valueSize a; mem = alloc junk a
     in if length bs < n \<or> length mem < n \<or> length mem \<noteq> vecValueSize a then Inl Undefined
        else Inr (a\<lparr>p_data := Some (Bytes (take n bs @ drop n mem)), p_defined := True\<rparr>))"

definition setArg :: "u8 list \<Rightarrow> Arg list \<Rightarrow> nat \<Rightarrow> nat \<Rightarrow> arg_value \<Rightarrow> (int \<times> Arg list) result" where
  "setArg junk p_args i sz value =
     (if i > length p_args then Inr (CL_INVALID_ARG_INDEX, p_args)
      else bindR (index p_args i) (\<lambda>arg.
        if p_file arg = Local
        then if sz = 0 then Inr (CL_INVALID_ARG_SIZE, p_args)
             else if value \<noteq> No_value then Inr (CL_INVALID_ARG_VALUE, p_args)
             else Inr (CL_SUCCESS, p_args[i := arg\<lparr>p_runtime_alloc := of_nat sz, p_defined := True\<rparr>])
        else let arg_size = vecValueSize arg
        in case (value, sz = 4 \<and> arg_size = 4) of
             (Sampler_handle bitfield, True) \<Rightarrow>
               bindR (loadData junk (arg\<lparr>p_kind := Sampler\<rparr>) (bytes32 LSB bitfield)) (\<lambda>a. Inr (CL_SUCCESS, p_args[i := a]))
           | _ \<Rightarrow>
               if sz \<noteq> arg_size then Inr (CL_INVALID_ARG_SIZE, p_args)
               else if p_kind arg \<in> {Buffer, Image2D, Image3D}
               then (case value of
                   No_value \<Rightarrow> Inr (CL_SUCCESS, p_args[i := arg\<lparr>p_data := Some (Mem None), p_defined := True\<rparr>])
                 | Mem_handle mem \<Rightarrow> Inr (CL_SUCCESS, p_args[i := arg\<lparr>p_data := Some (Mem mem), p_defined := True\<rparr>])
                 | _ \<Rightarrow> Inl Undefined)
               else (case value of
                   No_value \<Rightarrow> Inr (CL_INVALID_ARG_VALUE, p_args)
                 | Raw bs \<Rightarrow> bindR (loadData junk arg bs) (\<lambda>a. Inr (CL_SUCCESS, p_args[i := a]))
                 | _ \<Rightarrow> Inl Undefined)))"

definition argsSpecified :: "Arg list \<Rightarrow> bool" where
  "argsSpecified p_args \<longleftrightarrow> list_all p_defined p_args"

subsection \<open>Registers\<close>

text \<open>
  Arguments go to the pairs and quads of registers from A4 and B4 on. An index counts the words of
  \<open>args_in_reg\<close>, that is A4, A5, B4, B5, A6, A7, B6, B7 and so on.
\<close>

definition TOTAL_REGS :: int where "TOTAL_REGS = 20"
definition REG_START :: int where "REG_START = 4"

record reg_alloc =
  first_apair :: int
  first_bpair :: int
  first_aquad :: int
  first_bquad :: int

definition getarg_inreg_index :: "int \<Rightarrow> reg_alloc \<Rightarrow> int \<times> reg_alloc" where
  "getarg_inreg_index sz r =
     (if sz \<le> 8
      then if first_apair r \<le> first_bpair r
        then let i = (first_apair r - REG_START) * 2
             in if i + 1 \<ge> TOTAL_REGS then (-1, r)
                else let r = r\<lparr>first_apair := first_apair r + 2\<rparr>
                     in (i, if first_apair r mod 4 \<noteq> 0 then r\<lparr>first_aquad := first_aquad r + 4\<rparr>
                            else if first_apair r < first_aquad r then r\<lparr>first_apair := first_aquad r\<rparr> else r)
        else let i = (first_bpair r - REG_START) * 2 + 2
             in if i + 1 \<ge> TOTAL_REGS then (-1, r)
                else let r = r\<lparr>first_bpair := first_bpair r + 2\<rparr>
                     in (i, if first_bpair r mod 4 \<noteq> 0 then r\<lparr>first_bquad := first_bquad r + 4\<rparr>
                            else if first_bpair r < first_bquad r then r\<lparr>first_bpair := first_bquad r\<rparr> else r)
      else if sz \<le> 16
      then if first_aquad r \<le> first_bquad r
        then let i = (first_aquad r - REG_START) * 2
             in if i + 5 \<ge> TOTAL_REGS then (-1, r)
                else let r = (if first_apair r = first_aquad r then r\<lparr>first_apair := first_apair r + 4\<rparr> else r)
                     in (i, r\<lparr>first_aquad := first_aquad r + 4\<rparr>)
        else let i = (first_bquad r - REG_START) * 2 + 2
             in if i + 5 \<ge> TOTAL_REGS then (-1, r)
                else let r = (if first_bpair r = first_bquad r then r\<lparr>first_bpair := first_bpair r + 4\<rparr> else r)
                     in (i, r\<lparr>first_bquad := first_bquad r + 4\<rparr>)
      else (-1, r))"

text \<open>\<open>memcpy\<close> of \<open>sz\<close> bytes; the image of \<open>args_in_reg\<close> has four bytes for each word.\<close>

definition memcpy_at :: "u8 list \<Rightarrow> nat \<Rightarrow> u8 list \<Rightarrow> nat \<Rightarrow> u8 list result" where
  "memcpy_at img off bs sz = (if length bs < sz then Inl Undefined else store_bytes img off (take sz bs))"

definition setarg_inreg :: "int \<Rightarrow> nat \<Rightarrow> u8 list \<Rightarrow> u8 list \<Rightarrow> u8 list result" where
  "setarg_inreg i sz img pval =
     (if sz \<le> 8 then memcpy_at img (4 * nat i) pval sz
      else if sz = 16
      then bindR (memcpy_at img (4 * nat i) pval 8) (\<lambda>img. memcpy_at img (4 * nat (i + 4)) (drop 8 pval) 8)
      else Inr img)"

subsection \<open>Placing the arguments\<close>

definition ROUNDUP :: "int \<Rightarrow> int \<Rightarrow> int" where
  "ROUNDUP val pow2 = (val + pow2 - 1) AND NOT (pow2 - 1)"

text \<open>Pointers into the message and into the image of the stack.\<close>

datatype place = In_reg int | On_stack int

type_synonym mem_range = "(u64 \<times> place) \<times> u32"

record call_state =
  args_total_size :: int
  regs :: reg_alloc
  reg_image :: "u8 list"
  args_on_stack :: "u8 list"
  more_arg_offset :: int
  p_local_bufs :: "(place \<times> u32) list"
  p_hostptr_tmpbufs :: "(MemObject \<times> u64 \<times> place) list"
  p_hostptr_clMalloced_bufs :: "MemObject list"
  p_64bit_bufs :: "mem_range list"
  p_flush_bufs :: "mem_range list"
  args_of_argref :: "u8 list"
  argref_offset :: int
  p_argrefs :: "(place \<times> u32) list"

definition SETMOREARG :: "nat \<Rightarrow> u8 list \<Rightarrow> call_state \<Rightarrow> call_state result" where
  "SETMOREARG sz pval s = (let off = ROUNDUP (more_arg_offset s) (int sz)
     in bindR (memcpy_at (args_on_stack s) (nat off) pval sz) (\<lambda>img.
        Inr (s\<lparr>args_on_stack := img, more_arg_offset := off + int sz\<rparr>)))"

text \<open>A word in the next register pair, or else on the stack.\<close>

definition place_word :: "u32 \<Rightarrow> int \<Rightarrow> call_state \<Rightarrow> call_state result" where
  "place_word w i s =
     (if i \<ge> 0 then bindR (setarg_inreg i 4 (reg_image s) (bytes32 LSB w)) (\<lambda>img. Inr (s\<lparr>reg_image := img\<rparr>))
      else SETMOREARG 4 (bytes32 LSB w) s)"

definition next_place :: "int \<Rightarrow> call_state \<Rightarrow> place" where
  "next_place i s = (if i \<ge> 0 then In_reg i else On_stack (ROUNDUP (more_arg_offset s) 4))"

definition place_buffer :: "Arg \<Rightarrow> call_state \<Rightarrow> call_state result" where
  "place_buffer arg s =
     bindR (case p_data arg of None \<Rightarrow> Inr None | Some (Mem b) \<Rightarrow> Inr b | Some (Bytes _) \<Rightarrow> Inl Undefined) (\<lambda>buffer.
     let (i, r) = getarg_inreg_index 4 (regs s); s = s\<lparr>regs := r\<rparr>; p = next_place i s
     in case (p_file arg = Local, buffer) of
          (True, _) \<Rightarrow> place_word 0 i (s\<lparr>p_local_bufs := p_local_bufs s @ [(p, p_runtime_alloc arg)]\<rparr>)
        | (False, None) \<Rightarrow> place_word 0 i s
        | (False, Some b) \<Rightarrow>
            if flags b AND CL_MEM_USE_HOST_PTR \<noteq> 0 \<and> \<not> host_ptr_clMalloced b
            then place_word 0 i (s\<lparr>p_hostptr_tmpbufs := p_hostptr_tmpbufs s @ [(b, 0, p)]\<rparr>)
            else let addr64 = device_data b;
                     s = (if addr64 < 0xFFFFFFFF then s else s\<lparr>p_64bit_bufs := p_64bit_bufs s @ [((addr64, p), buffer_size b)]\<rparr>);
                     s = (if host_ptr_clMalloced b then s\<lparr>p_hostptr_clMalloced_bufs := p_hostptr_clMalloced_bufs s @ [b]\<rparr> else s);
                     s = (if DEVICE_WRITE_ONLY b then s else s\<lparr>p_flush_bufs := p_flush_bufs s @ [((addr64, p), buffer_size b)]\<rparr>)
                 in place_word (if addr64 < 0xFFFFFFFF then ucast addr64 else 0) i s)"

text \<open>A subword is extended to a word; one with value 0 is copied as it is, into memory that is 0.\<close>

definition extended :: "Arg \<Rightarrow> u8 list \<Rightarrow> u32 result" where
  "extended arg bs = (case vecValueSize arg of
       Suc 0 \<Rightarrow> if bs = [] then Inl Undefined
         else Inr (if p_is_subword_int_uns arg then ucast (hd bs) else scast (hd bs))
     | Suc (Suc 0) \<Rightarrow> if length bs < 2 then Inl Undefined
         else Inr (if p_is_subword_int_uns arg then ucast (word16 LSB (take 2 bs)) else scast (word16 LSB (take 2 bs)))
     | _ \<Rightarrow> Inr 0)"

definition place_value :: "Arg \<Rightarrow> call_state \<Rightarrow> call_state result" where
  "place_value arg s =
     bindR (deref (p_data arg)) (\<lambda>d. bindR (case d of Bytes bs \<Rightarrow> Inr bs | Mem _ \<Rightarrow> Inl Undefined) (\<lambda>bs.
     let sz = vecValueSize arg; (i, r) = getarg_inreg_index (int sz) (regs s); s = s\<lparr>regs := r\<rparr>
     in if i \<ge> 0
        then bindR (extended arg bs) (\<lambda>dummy.
             bindR (if dummy = 0 then setarg_inreg i sz (reg_image s) bs else setarg_inreg i 4 (reg_image s) (bytes32 LSB dummy)) (\<lambda>img.
             Inr (s\<lparr>reg_image := img\<rparr>)))
        else if sz \<le> 16 then SETMOREARG sz bs s
        else let (i, r) = getarg_inreg_index 4 (regs s); s = s\<lparr>regs := r\<rparr>; p = next_place i s
             in bindR (place_word 0 i s) (\<lambda>s.
                bindR (memcpy_at (args_of_argref s) (nat (argref_offset s)) bs sz) (\<lambda>img.
                Inr (s\<lparr>p_argrefs := p_argrefs s @ [(p, of_int (argref_offset s))], args_of_argref := img,
                       argref_offset := ROUNDUP (argref_offset s + int sz) 8\<rparr>)))))"

fun place_args :: "int \<Rightarrow> Arg list \<Rightarrow> call_state \<Rightarrow> (int \<times> call_state) result" where
  "place_args max_args_size [] s = Inr (CL_SUCCESS, s)"
| "place_args max_args_size (arg # args) s =
     (if vecValueSize arg = 0 then Inr (CL_INVALID_ARG_SIZE, s)
      else let s = s\<lparr>args_total_size := args_total_size s + int (vecValueSize arg)\<rparr>
           in if args_total_size s > max_args_size then Inr (CL_INVALID_KERNEL_ARGS, s)
              else if p_kind arg = Buffer then bindR (place_buffer arg s) (place_args max_args_size args)
              else if p_kind arg = Image2D \<or> p_kind arg = Image3D then Inr (CL_INVALID_KERNEL_ARGS, s)
              else bindR (place_value arg s) (place_args max_args_size args))"

definition MAX_ARGS_TOTAL_SIZE :: int where "MAX_ARGS_TOTAL_SIZE = 1024"

text \<open>The state at the start: the arrays of the object, of which only \<open>args_in_reg\<close> is cleared.\<close>

definition call_start :: "u8 list \<Rightarrow> u8 list \<Rightarrow> call_state" where
  "call_start stack argref =
     \<lparr>args_total_size = 0,
      regs = \<lparr>first_apair = REG_START, first_bpair = REG_START, first_aquad = REG_START, first_bquad = REG_START\<rparr>,
      reg_image = replicate 80 0, args_on_stack = stack, more_arg_offset = 4, p_local_bufs = [], p_hostptr_tmpbufs = [],
      p_hostptr_clMalloced_bufs = [], p_64bit_bufs = [], p_flush_bufs = [], args_of_argref = argref, argref_offset = 0,
      p_argrefs = []\<rparr>"

definition num_regs :: "reg_alloc \<Rightarrow> int" where
  "num_regs r =
     (let last_reg = first_apair r - 2;
          last_reg = (if last_reg < first_aquad r - 2 then first_aquad r - 2 else last_reg);
          last_reg = (if last_reg < first_bpair r - 2 then first_bpair r - 2 else last_reg);
          last_reg = (if last_reg < first_bquad r - 2 then first_bquad r - 2 else last_reg);
          n = (if last_reg \<ge> REG_START then (last_reg - REG_START) * 2 + 4 else 0)
      in if n > TOTAL_REGS then TOTAL_REGS else n)"

definition args_on_stack_bytes :: "call_state \<Rightarrow> int" where
  "args_on_stack_bytes s = (if more_arg_offset s > 4 then ROUNDUP (more_arg_offset s) 8 else 0)"

text \<open>
  The words of \<open>args_in_reg\<close> and the two sizes go to the message \<open>k\<close>; the sizes are written only when all
  arguments have been placed.
\<close>

definition callArgs :: "int \<Rightarrow> Arg list \<Rightarrow> u8 list \<Rightarrow> u8 list \<Rightarrow> kernel_msg \<Rightarrow> (int \<times> call_state \<times> kernel_msg) result" where
  "callArgs max_args_size args stack argref k =
     bindR (place_args max_args_size args (call_start stack argref)) (\<lambda>(ret, s).
     let k = k\<lparr>args_on_stack_addr := 0, args_in_reg := map (\<lambda>i. word32 LSB (take 4 (drop (4 * i) (reg_image s)))) [0..<20]\<rparr>
     in if ret = CL_SUCCESS
        then Inr (ret, s, k\<lparr>args_in_reg_size := of_int (num_regs (regs s)), args_on_stack_size := of_int (args_on_stack_bytes s)\<rparr>)
        else Inr (ret, s, k))"

end
