(* ===== verification/Kernel_Layout.thy ===== *)
theory Kernel_Layout
  imports Kernel_Args
begin

text \<open>
  The layout of the arguments of a kernel as a function of their sizes, that it never puts two arguments
  into the same place, and that \<open>callArgs\<close> puts every argument into its place.
\<close>

subsection \<open>Rounding\<close>

lemma int_and_not_mask: "x AND NOT (mask k) = x - x mod 2 ^ k" for x :: int
proof -
  have "take_bit k x + (x AND NOT (mask k)) = x"
    by (rule bit_eqI) (auto simp: disjunctive_add bit_simps)
  then show ?thesis by (simp add: take_bit_eq_mod)
qed

lemma ROUNDUP_pow2: "ROUNDUP v (2 ^ k) = v + (2 ^ k - 1) - (v + (2 ^ k - 1)) mod 2 ^ k"
  using int_and_not_mask[of "v + (2 ^ k - 1)" k] by (simp add: ROUNDUP_def mask_eq_exp_minus_1 add_diff_eq)

lemma ROUNDUP_bounds: "v \<le> ROUNDUP v (2 ^ k)" "ROUNDUP v (2 ^ k) < v + 2 ^ k" "2 ^ k dvd ROUNDUP v (2 ^ k)"
proof -
  have "0 \<le> (v + (2 ^ k - 1)) mod 2 ^ k" "(v + (2 ^ k - 1)) mod 2 ^ k < 2 ^ k" by simp_all
  then show "v \<le> ROUNDUP v (2 ^ k)" "ROUNDUP v (2 ^ k) < v + 2 ^ k" unfolding ROUNDUP_pow2 by linarith+
  show "2 ^ k dvd ROUNDUP v (2 ^ k)" unfolding ROUNDUP_pow2 by (rule dvd_minus_mod)
qed

lemma ROUNDUP_multiple: "2 ^ k dvd v \<Longrightarrow> ROUNDUP v (2 ^ k) = v"
proof -
  assume "2 ^ k dvd v"
  moreover have "2 ^ k dvd ROUNDUP v (2 ^ k)" by (rule ROUNDUP_bounds)
  ultimately have "2 ^ k dvd ROUNDUP v (2 ^ k) - v" by simp
  moreover have "0 \<le> ROUNDUP v (2 ^ k) - v" "ROUNDUP v (2 ^ k) - v < 2 ^ k" using ROUNDUP_bounds(1,2)[of v k] by simp_all
  ultimately show ?thesis using zdvd_imp_le by fastforce
qed

subsection \<open>Registers\<close>

text \<open>
  The words of \<open>args_in_reg\<close> that an argument takes, and those that are still free. Word \<open>w\<close> is for register
  number \<open>reg_of w\<close>, on the A side if \<open>w mod 4\<close> is below 2. On each side the pair and all
  registers from the quad on are free.
\<close>

definition reg_words :: "int \<Rightarrow> int \<Rightarrow> int set" where
  "reg_words i sz = (if sz \<le> 8 then {i, i + 1} else {i, i + 1, i + 4, i + 5})"

definition reg_of :: "int \<Rightarrow> int" where
  "reg_of w = 4 + 2 * (w div 4) + w mod 2"

definition side_free :: "int \<Rightarrow> int \<Rightarrow> int \<Rightarrow> bool" where
  "side_free p q n \<longleftrightarrow> n = p \<or> n = p + 1 \<or> q \<le> n"

definition free_word :: "reg_alloc \<Rightarrow> int \<Rightarrow> bool" where
  "free_word r w \<longleftrightarrow> (if w mod 4 < 2 then side_free (first_apair r) (first_aquad r) (reg_of w)
     else side_free (first_bpair r) (first_bquad r) (reg_of w))"

definition side_ok :: "int \<Rightarrow> int \<Rightarrow> bool" where
  "side_ok p q \<longleftrightarrow> 4 \<le> p \<and> q mod 4 = 0 \<and> (p = q \<or> p mod 4 = 2 \<and> p < q)"

definition alloc_ok :: "reg_alloc \<Rightarrow> bool" where
  "alloc_ok r \<longleftrightarrow> side_ok (first_apair r) (first_aquad r) \<and> side_ok (first_bpair r) (first_bquad r)"

lemma side_ok_cases:
  assumes "side_ok p q"
  obtains (quad) m where "1 \<le> m" "p = 4 * m" "q = 4 * m" | (pair) m m' where "1 \<le> m" "m < m'" "p = 4 * m + 2" "q = 4 * m'"
proof -
  obtain m' where q: "q = 4 * m'" using assms by (auto simp: side_ok_def mod_eq_0_iff_dvd elim: dvdE)
  show ?thesis
  proof (cases "p = q")
    case True
    then show ?thesis using assms q quad[of m'] by (simp add: side_ok_def)
  next
    case False
    then have "p mod 4 = 2" "p < q" "4 \<le> p" using assms by (auto simp: side_ok_def)
    then have "p = 4 * (p div 4) + 2" by (metis mult_div_mod_eq)
    with \<open>p < q\<close> \<open>4 \<le> p\<close> q show ?thesis using pair[of "p div 4" m'] by linarith
  qed
qed

lemma side_ok_intros: "1 \<le> m \<Longrightarrow> side_ok (4 * m) (4 * m)" "1 \<le> m \<Longrightarrow> m < m' \<Longrightarrow> side_ok (4 * m + 2) (4 * m')"
  by (simp_all add: side_ok_def)

text \<open>Taking the pair, and taking the quad.\<close>

definition take_pair :: "int \<times> int \<Rightarrow> int \<times> int" where
  "take_pair = (\<lambda>(p, q). if (p + 2) mod 4 \<noteq> 0 then (p + 2, q + 4) else if p + 2 < q then (q, q) else (p + 2, q))"

definition take_quad :: "int \<times> int \<Rightarrow> int \<times> int" where
  "take_quad = (\<lambda>(p, q). (if p = q then p + 4 else p, q + 4))"

lemma take_pair_ok:
  assumes "side_ok p q" and "take_pair (p, q) = (p', q')"
  shows "side_ok p' q'" "side_free p' q' n \<longleftrightarrow> side_free p q n \<and> n \<noteq> p \<and> n \<noteq> p + 1" "q' \<le> q + 4"
  using assms(1)
proof (atomize (full), cases rule: side_ok_cases)
  case (quad m)
  then have "p' = 4 * m + 2" "q' = 4 * (m + 1)" using assms(2) by (simp_all add: take_pair_def split: if_splits)
  with quad side_ok_intros(2)[of m "m + 1"] show "side_ok p' q' \<and> (side_free p' q' n \<longleftrightarrow> side_free p q n \<and> n \<noteq> p \<and> n \<noteq> p + 1) \<and> q' \<le> q + 4"
    by (auto simp: side_free_def)
next
  case (pair m m')
  then have "(p', q') = (4 * m', 4 * m')" using assms(2) by (auto simp: take_pair_def split: if_splits)
  moreover have "p + 2 \<le> q" using pair by linarith
  ultimately show "side_ok p' q' \<and> (side_free p' q' n \<longleftrightarrow> side_free p q n \<and> n \<noteq> p \<and> n \<noteq> p + 1) \<and> q' \<le> q + 4"
    using pair(1,2,4) side_ok_intros(1)[of m'] by (auto simp: side_free_def)
qed

lemma take_quad_ok:
  assumes "side_ok p q" and "take_quad (p, q) = (p', q')"
  shows "side_ok p' q'" "side_free p' q' n \<longleftrightarrow> side_free p q n \<and> \<not> (q \<le> n \<and> n < q + 4)" "q' \<le> q + 4"
  using assms(1)
proof (atomize (full), cases rule: side_ok_cases)
  case (quad m)
  then have "p' = 4 * (m + 1)" "q' = 4 * (m + 1)" using assms(2) by (simp_all add: take_quad_def)
  with quad side_ok_intros(1)[of "m + 1"] show "side_ok p' q' \<and> (side_free p' q' n \<longleftrightarrow> side_free p q n \<and> \<not> (q \<le> n \<and> n < q + 4)) \<and> q' \<le> q + 4"
    by (auto simp: side_free_def)
next
  case (pair m m')
  then have "p' = 4 * m + 2" "q' = 4 * (m' + 1)" using assms(2) by (auto simp: take_quad_def split: if_splits)
  with pair side_ok_intros(2)[of m "m' + 1"] show "side_ok p' q' \<and> (side_free p' q' n \<longleftrightarrow> side_free p q n \<and> \<not> (q \<le> n \<and> n < q + 4)) \<and> q' \<le> q + 4"
    by (auto simp: side_free_def)
qed

lemma word_cases:
  fixes w :: int
  obtains c where "w = 4 * c" | c where "w = 4 * c + 1" | c where "w = 4 * c + 2" | c where "w = 4 * c + 3"
proof -
  have "w = 4 * (w div 4) + w mod 4" by simp
  moreover have "w mod 4 \<in> {0, 1, 2, 3}" using pos_mod_sign[of 4 w] pos_mod_bound[of 4 w] by auto
  ultimately show ?thesis using that by (metis add.right_neutral insertE empty_iff)
qed

lemma reg_of_word [simp]: "reg_of (4 * c) = 2 * c + 4" "reg_of (4 * c + 1) = 2 * c + 5" "reg_of (4 * c + 2) = 2 * c + 4" "reg_of (4 * c + 3) = 2 * c + 5"
  by (simp_all add: reg_of_def) presburger+

lemma pair_words:
  assumes "p mod 2 = 0"
  shows "w \<in> {(p - 4) * 2, (p - 4) * 2 + 1} \<longleftrightarrow> w mod 4 < 2 \<and> (reg_of w = p \<or> reg_of w = p + 1)"
    "w \<in> {(p - 4) * 2 + 2, (p - 4) * 2 + 2 + 1} \<longleftrightarrow> \<not> w mod 4 < 2 \<and> (reg_of w = p \<or> reg_of w = p + 1)"
proof -
  obtain a where "p = 2 * a" using assms by (auto elim: evenE simp: even_iff_mod_2_eq_zero[symmetric])
  then show "w \<in> {(p - 4) * 2, (p - 4) * 2 + 1} \<longleftrightarrow> w mod 4 < 2 \<and> (reg_of w = p \<or> reg_of w = p + 1)"
    "w \<in> {(p - 4) * 2 + 2, (p - 4) * 2 + 2 + 1} \<longleftrightarrow> \<not> w mod 4 < 2 \<and> (reg_of w = p \<or> reg_of w = p + 1)"
    by (cases w rule: word_cases; auto; presburger)+
qed

lemma quad_words:
  assumes "q mod 4 = 0"
  shows "w \<in> {(q - 4) * 2, (q - 4) * 2 + 1, (q - 4) * 2 + 4, (q - 4) * 2 + 5} \<longleftrightarrow> w mod 4 < 2 \<and> q \<le> reg_of w \<and> reg_of w < q + 4"
    "w \<in> {(q - 4) * 2 + 2, (q - 4) * 2 + 2 + 1, (q - 4) * 2 + 2 + 4, (q - 4) * 2 + 2 + 5} \<longleftrightarrow> \<not> w mod 4 < 2 \<and> q \<le> reg_of w \<and> reg_of w < q + 4"
proof -
  obtain b where "q = 4 * b" using assms by (auto simp: mod_eq_0_iff_dvd elim: dvdE)
  then show "w \<in> {(q - 4) * 2, (q - 4) * 2 + 1, (q - 4) * 2 + 4, (q - 4) * 2 + 5} \<longleftrightarrow> w mod 4 < 2 \<and> q \<le> reg_of w \<and> reg_of w < q + 4"
    "w \<in> {(q - 4) * 2 + 2, (q - 4) * 2 + 2 + 1, (q - 4) * 2 + 2 + 4, (q - 4) * 2 + 2 + 5} \<longleftrightarrow> \<not> w mod 4 < 2 \<and> q \<le> reg_of w \<and> reg_of w < q + 4"
    by (cases w rule: word_cases; auto; presburger)+
qed

text \<open>The allocation in terms of the two sides.\<close>

lemma getarg_pair:
  "sz \<le> 8 \<Longrightarrow> getarg_inreg_index sz r =
     (if first_apair r \<le> first_bpair r
      then if (first_apair r - 4) * 2 + 1 \<ge> 20 then (-1, r)
           else ((first_apair r - 4) * 2, r\<lparr>first_apair := fst (take_pair (first_apair r, first_aquad r)),
                  first_aquad := snd (take_pair (first_apair r, first_aquad r))\<rparr>)
      else if (first_bpair r - 4) * 2 + 3 \<ge> 20 then (-1, r)
           else ((first_bpair r - 4) * 2 + 2, r\<lparr>first_bpair := fst (take_pair (first_bpair r, first_bquad r)),
                  first_bquad := snd (take_pair (first_bpair r, first_bquad r))\<rparr>))"
  by (cases r) (simp add: getarg_inreg_index_def take_pair_def Let_def TOTAL_REGS_def REG_START_def)

lemma getarg_quad:
  "8 < sz \<Longrightarrow> sz \<le> 16 \<Longrightarrow> getarg_inreg_index sz r =
     (if first_aquad r \<le> first_bquad r
      then if (first_aquad r - 4) * 2 + 5 \<ge> 20 then (-1, r)
           else ((first_aquad r - 4) * 2, r\<lparr>first_apair := fst (take_quad (first_apair r, first_aquad r)),
                  first_aquad := snd (take_quad (first_apair r, first_aquad r))\<rparr>)
      else if (first_bquad r - 4) * 2 + 7 \<ge> 20 then (-1, r)
           else ((first_bquad r - 4) * 2 + 2, r\<lparr>first_bpair := fst (take_quad (first_bpair r, first_bquad r)),
                  first_bquad := snd (take_quad (first_bpair r, first_bquad r))\<rparr>))"
  by (cases r) (simp add: getarg_inreg_index_def take_quad_def Let_def TOTAL_REGS_def REG_START_def)

lemma side_even: "side_ok p q \<Longrightarrow> p mod 2 = 0 \<and> q mod 4 = 0 \<and> 4 \<le> p \<and> p \<le> q"
  by (erule side_ok_cases) auto

definition took :: "int \<Rightarrow> int \<Rightarrow> reg_alloc \<Rightarrow> reg_alloc \<Rightarrow> bool" where
  "took i sz r r' \<longleftrightarrow> alloc_ok r' \<and> 0 \<le> i \<and> i + (if sz \<le> 8 then 1 else 5) < 20 \<and>
     (\<forall>w \<in> reg_words i sz. free_word r w) \<and> (\<forall>w. free_word r' w \<longleftrightarrow> free_word r w \<and> w \<notin> reg_words i sz) \<and>
     first_aquad r' + first_bquad r' \<le> first_aquad r + first_bquad r + 4"

lemma took_a:
  assumes "alloc_ok r" and "reg_words i sz = {w. w mod 4 < 2 \<and> P (reg_of w)}" and "0 \<le> i" and "i + (if sz \<le> 8 then 1 else 5) < 20"
    and "side_ok p q" and "\<And>n. side_free p q n \<longleftrightarrow> side_free (first_apair r) (first_aquad r) n \<and> \<not> P n"
    and "\<And>n. P n \<Longrightarrow> side_free (first_apair r) (first_aquad r) n" and "q \<le> first_aquad r + 4"
  shows "took i sz r (r\<lparr>first_apair := p, first_aquad := q\<rparr>)"
  using assms by (auto simp: took_def alloc_ok_def free_word_def)

lemma took_b:
  assumes "alloc_ok r" and "reg_words i sz = {w. \<not> w mod 4 < 2 \<and> P (reg_of w)}" and "0 \<le> i" and "i + (if sz \<le> 8 then 1 else 5) < 20"
    and "side_ok p q" and "\<And>n. side_free p q n \<longleftrightarrow> side_free (first_bpair r) (first_bquad r) n \<and> \<not> P n"
    and "\<And>n. P n \<Longrightarrow> side_free (first_bpair r) (first_bquad r) n" and "q \<le> first_bquad r + 4"
  shows "took i sz r (r\<lparr>first_bpair := p, first_bquad := q\<rparr>)"
  using assms by (auto simp: took_def alloc_ok_def free_word_def)

lemma getarg_pair_cases:
  assumes "alloc_ok r" and "sz \<le> 8" and "getarg_inreg_index sz r = (i, r')"
  shows "(i = -1 \<and> r' = r \<and> 16 \<le> first_aquad r + first_bquad r) \<or> took i sz r r'"
proof -
  have a: "side_ok (first_apair r) (first_aquad r)" and b: "side_ok (first_bpair r) (first_bquad r)" using assms(1) by (simp_all add: alloc_ok_def)
  note e = side_even[OF a] side_even[OF b]
  obtain pa qa pb qb where t: "take_pair (first_apair r, first_aquad r) = (pa, qa)" "take_pair (first_bpair r, first_bquad r) = (pb, qb)"
    by fastforce
  consider "i = -1" "r' = r" "16 \<le> first_aquad r + first_bquad r"
    | "i = (first_apair r - 4) * 2" "i + 1 < 20" "r' = r\<lparr>first_apair := pa, first_aquad := qa\<rparr>"
    | "i = (first_bpair r - 4) * 2 + 2" "i + 1 < 20" "r' = r\<lparr>first_bpair := pb, first_bquad := qb\<rparr>"
    using assms(3) t e unfolding getarg_pair[OF assms(2)] by (auto split: if_splits)
  then show ?thesis
  proof cases
    case 2
    have "took i sz r r'" unfolding 2(3)
      by (rule took_a[OF assms(1), where P = "\<lambda>n. n = first_apair r \<or> n = first_apair r + 1"])
        (use 2 assms(2) e pair_words(1)[of "first_apair r"] take_pair_ok[OF a t(1)] in \<open>auto simp: reg_words_def side_free_def\<close>)
    then show ?thesis by simp
  next
    case 3
    have "took i sz r r'" unfolding 3(3)
      by (rule took_b[OF assms(1), where P = "\<lambda>n. n = first_bpair r \<or> n = first_bpair r + 1"])
        (use 3 assms(2) e pair_words(2)[of "first_bpair r"] take_pair_ok[OF b t(2)] in \<open>auto simp: reg_words_def side_free_def\<close>)
    then show ?thesis by simp
  qed simp
qed

lemma getarg_quad_cases:
  assumes "alloc_ok r" and "8 < sz" and "sz \<le> 16" and "getarg_inreg_index sz r = (i, r')"
  shows "(i = -1 \<and> r' = r \<and> 16 \<le> first_aquad r + first_bquad r) \<or> took i sz r r'"
proof -
  have a: "side_ok (first_apair r) (first_aquad r)" and b: "side_ok (first_bpair r) (first_bquad r)" using assms(1) by (simp_all add: alloc_ok_def)
  note e = side_even[OF a] side_even[OF b]
  obtain pa qa pb qb where t: "take_quad (first_apair r, first_aquad r) = (pa, qa)" "take_quad (first_bpair r, first_bquad r) = (pb, qb)"
    by fastforce
  consider "i = -1" "r' = r" "16 \<le> first_aquad r + first_bquad r"
    | "i = (first_aquad r - 4) * 2" "i + 5 < 20" "r' = r\<lparr>first_apair := pa, first_aquad := qa\<rparr>"
    | "i = (first_bquad r - 4) * 2 + 2" "i + 5 < 20" "r' = r\<lparr>first_bpair := pb, first_bquad := qb\<rparr>"
    using assms(4) t e unfolding getarg_quad[OF assms(2,3)] by (auto split: if_splits)
  then show ?thesis
  proof cases
    case 2
    have "took i sz r r'" unfolding 2(3)
      by (rule took_a[OF assms(1), where P = "\<lambda>n. first_aquad r \<le> n \<and> n < first_aquad r + 4"])
        (use 2 assms(2) e quad_words(1)[of "first_aquad r"] take_quad_ok[OF a t(1)] in \<open>auto simp: reg_words_def side_free_def\<close>)
    then show ?thesis by simp
  next
    case 3
    have "took i sz r r'" unfolding 3(3)
      by (rule took_b[OF assms(1), where P = "\<lambda>n. first_bquad r \<le> n \<and> n < first_bquad r + 4"])
        (use 3 assms(2) e quad_words(2)[of "first_bquad r"] take_quad_ok[OF b t(2)] in \<open>auto simp: reg_words_def side_free_def\<close>)
    then show ?thesis by simp
  qed simp
qed

text \<open>A register argument takes free words of the array, and all the other words stay as they are.\<close>

lemma getarg_cases:
  assumes "alloc_ok r" and "getarg_inreg_index sz r = (i, r')"
  obtains (full) "i = -1" "r' = r" "sz \<le> 16 \<Longrightarrow> 16 \<le> first_aquad r + first_bquad r" | (reg) "took i sz r r'" "sz \<le> 16"
proof (cases "sz \<le> 16")
  case True
  then show ?thesis
    using assms full reg getarg_pair_cases[of r sz i r'] getarg_quad_cases[of r sz i r'] by (cases "sz \<le> 8") auto
next
  case False
  then show ?thesis using assms(2) full by (auto simp: getarg_inreg_index_def)
qed

subsection \<open>Layout\<close>

text \<open>
  Where an argument goes: into registers, onto the stack, or into the area for large arguments with its
  address in a register or on the stack.
\<close>

datatype slot = Reg_slot int nat | Stack_slot int nat | Ref_slot place int nat

definition arg_size :: "Arg \<Rightarrow> nat" where
  "arg_size a = (if p_kind a = Buffer then 4 else vecValueSize a)"

definition slot_step :: "Arg \<Rightarrow> reg_alloc \<times> int \<times> int \<Rightarrow> slot \<times> reg_alloc \<times> int \<times> int" where
  "slot_step a = (\<lambda>(r, off, ref).
     let n = arg_size a; (i, r) = getarg_inreg_index (int n) r
     in if i \<ge> 0 then (Reg_slot i n, r, off, ref)
        else if n \<le> 16 then let x = ROUNDUP off (int n) in (Stack_slot x n, r, x + int n, ref)
        else let (j, r) = getarg_inreg_index 4 r
             in if j \<ge> 0 then (Ref_slot (In_reg j) ref n, r, off, ROUNDUP (ref + int n) 8)
                else (Ref_slot (On_stack (ROUNDUP off 4)) ref n, r, ROUNDUP off 4 + 4, ROUNDUP (ref + int n) 8))"

fun layout_from :: "Arg list \<Rightarrow> reg_alloc \<times> int \<times> int \<Rightarrow> slot list" where
  "layout_from [] x = []"
| "layout_from (a # as) x = (let (sl, x) = slot_step a x in sl # layout_from as x)"

definition reg_start :: reg_alloc where
  "reg_start = \<lparr>first_apair = REG_START, first_bpair = REG_START, first_aquad = REG_START, first_bquad = REG_START\<rparr>"

definition layout :: "Arg list \<Rightarrow> slot list" where
  "layout args = layout_from args (reg_start, 4, 0)"

text \<open>The words of registers and bytes of memory that a slot takes.\<close>

datatype cell = Reg_word int | Stack_byte int | Ref_byte int

fun place_cells :: "place \<Rightarrow> cell set" where
  "place_cells (In_reg i) = Reg_word ` reg_words i 4"
| "place_cells (On_stack o1) = Stack_byte ` {o1..<o1 + 4}"

fun slot_cells :: "slot \<Rightarrow> cell set" where
  "slot_cells (Reg_slot i n) = Reg_word ` reg_words i (int n)"
| "slot_cells (Stack_slot o1 n) = Stack_byte ` {o1..<o1 + int n}"
| "slot_cells (Ref_slot p o1 n) = place_cells p \<union> Ref_byte ` {o1..<o1 + int n}"

definition avail :: "reg_alloc \<times> int \<times> int \<Rightarrow> cell set" where
  "avail = (\<lambda>(r, off, ref). {c. case c of Reg_word w \<Rightarrow> free_word r w | Stack_byte x \<Rightarrow> off \<le> x | Ref_byte x \<Rightarrow> ref \<le> x})"

lemma in_avail [simp]:
  "Reg_word w \<in> avail (r, off, ref) \<longleftrightarrow> free_word r w" "Stack_byte x \<in> avail (r, off, ref) \<longleftrightarrow> off \<le> x"
  "Ref_byte x \<in> avail (r, off, ref) \<longleftrightarrow> ref \<le> x"
  by (simp_all add: avail_def)

lemma avail_mono:
  "(\<And>w. free_word r' w \<Longrightarrow> free_word r w) \<Longrightarrow> off \<le> off' \<Longrightarrow> ref \<le> ref' \<Longrightarrow> avail (r', off', ref') \<subseteq> avail (r, off, ref)"
  by (auto simp: avail_def split: cell.splits)

text \<open>Arguments as \<open>setArg\<close> leaves them: the size is a power of 2.\<close>

definition wf_arg :: "Arg \<Rightarrow> bool" where
  "wf_arg a \<longleftrightarrow> p_vec_dim a \<in> {1, 2, 3, 4, 8, 16} \<and> p_kind a \<notin> {Invalid, Image2D, Image3D} \<and>
     (if p_kind a = Buffer then p_vec_dim a = 1 \<and> (case p_data a of Some (Bytes bs) \<Rightarrow> False | _ \<Rightarrow> True)
      else (case p_data a of Some (Bytes bs) \<Rightarrow> length bs = vecValueSize a | _ \<Rightarrow> False))"

lemma wf_arg_size: "wf_arg a \<Longrightarrow> arg_size a = vecValueSize a \<and> arg_size a \<in> {1, 2, 4, 8, 16, 32, 64, 128}"
  by (cases "p_kind a") (auto simp: wf_arg_def arg_size_def vecValueSize_def valueSize_def)

lemma wf_arg_pow2: "wf_arg a \<Longrightarrow> \<exists>k \<le> 7. arg_size a = 2 ^ k"
  using wf_arg_size[of a] by (auto intro: exI[of _ 0] exI[of _ 1] exI[of _ 2] exI[of _ 3] exI[of _ 4] exI[of _ 5] exI[of _ 6] exI[of _ 7])

lemma ROUNDUP_4: "v \<le> ROUNDUP v 4 \<and> ROUNDUP v 4 \<le> v + 3"
  using ROUNDUP_bounds(1,2)[where v = v and k = 2] by simp

lemma ROUNDUP_size: "wf_arg a \<Longrightarrow> v \<le> ROUNDUP v (int (arg_size a)) \<and> ROUNDUP v (int (arg_size a)) + 1 \<le> v + int (arg_size a)"
proof -
  assume "wf_arg a"
  then obtain k where "int (arg_size a) = 2 ^ k" using wf_arg_pow2 by fastforce
  then show ?thesis using ROUNDUP_bounds(1,2)[where v = v and k = k] by simp
qed

lemma took_avail:
  assumes "took i n r r'"
  shows "Reg_word ` reg_words i n \<subseteq> avail (r, off, ref)" "Reg_word ` reg_words i n \<inter> avail (r', off', ref') = {}"
  using assms by (auto simp: took_def)

lemma took_avail_mono: "took i n r r' \<Longrightarrow> off \<le> off' \<Longrightarrow> ref \<le> ref' \<Longrightarrow> avail (r', off', ref') \<subseteq> avail (r, off, ref)"
  by (rule avail_mono) (auto simp: took_def)

lemma slot_step_ok:
  assumes "alloc_ok r" and "wf_arg a" and "slot_step a (r, off, ref) = (sl, r', off', ref')"
  shows "alloc_ok r'" and "slot_cells sl \<subseteq> avail (r, off, ref)" and "slot_cells sl \<inter> avail (r', off', ref') = {}"
    and "avail (r', off', ref') \<subseteq> avail (r, off, ref)"
proof -
  let ?n = "arg_size a"
  have sz: "off \<le> ROUNDUP off (int ?n)" "off \<le> ROUNDUP off 4" "ref + int ?n \<le> ROUNDUP (ref + int ?n) 8"
    using ROUNDUP_size[OF assms(2), of off] ROUNDUP_4[of off] ROUNDUP_bounds(1)[where v = "ref + int ?n" and k = 3] by simp_all
  obtain i r1 where g: "getarg_inreg_index (int ?n) r = (i, r1)" by fastforce
  from assms(1) g have "alloc_ok r' \<and> slot_cells sl \<subseteq> avail (r, off, ref) \<and> slot_cells sl \<inter> avail (r', off', ref') = {} \<and>
      avail (r', off', ref') \<subseteq> avail (r, off, ref)"
  proof (cases rule: getarg_cases)
    case reg
    then have "sl = Reg_slot i ?n" "r' = r1" "off' = off" "ref' = ref" using assms(3) g by (auto simp: slot_step_def took_def)
    with reg took_avail[OF reg(1)] took_avail_mono[OF reg(1)] show ?thesis by (simp add: took_def)
  next
    case full
    show ?thesis
    proof (cases "?n \<le> 16")
      case True
      then have "sl = Stack_slot (ROUNDUP off (int ?n)) ?n" "r' = r" "off' = ROUNDUP off (int ?n) + int ?n" "ref' = ref"
        using assms(3) g full by (auto simp: slot_step_def Let_def)
      with sz assms(1) avail_mono[of r' r off off' ref ref'] show ?thesis by auto
    next
      case False
      obtain j r2 where g2: "getarg_inreg_index 4 r = (j, r2)" by fastforce
      from assms(1) g2 show ?thesis
      proof (cases rule: getarg_cases)
        case reg2: reg
        then have "sl = Ref_slot (In_reg j) ref ?n" "r' = r2" "off' = off" "ref' = ROUNDUP (ref + int ?n) 8"
          using assms(3) g g2 full False by (auto simp: slot_step_def took_def Let_def)
        with sz took_avail[OF reg2(1), of off ref] took_avail_mono[OF reg2(1), of off off' ref ref'] reg2 show ?thesis by (auto simp: took_def)
      next
        case full2: full
        then have "sl = Ref_slot (On_stack (ROUNDUP off 4)) ref ?n" "r' = r" "off' = ROUNDUP off 4 + 4" "ref' = ROUNDUP (ref + int ?n) 8"
          using assms(3) g g2 full False by (auto simp: slot_step_def Let_def)
        with sz assms(1) avail_mono[of r' r off off' ref ref'] show ?thesis by auto
      qed
    qed
  qed
  then show "alloc_ok r'" and "slot_cells sl \<subseteq> avail (r, off, ref)" and "slot_cells sl \<inter> avail (r', off', ref') = {}"
    and "avail (r', off', ref') \<subseteq> avail (r, off, ref)" by blast+
qed

lemma layout_from_avail:
  "alloc_ok (fst x) \<Longrightarrow> list_all wf_arg as \<Longrightarrow> sl \<in> set (layout_from as x) \<Longrightarrow> slot_cells sl \<subseteq> avail x"
proof (induction as arbitrary: x)
  case (Cons a as)
  obtain r off ref sl0 r' off' ref' where x: "x = (r, off, ref)" "slot_step a x = (sl0, r', off', ref')" by (metis prod_cases3 prod_cases4)
  note ok = slot_step_ok[of r a off ref sl0 r' off' ref']
  from Cons.prems x show ?case using ok Cons.IH[of "(r', off', ref')"] by auto
qed simp

lemma layout_from_disjoint:
  "alloc_ok (fst x) \<Longrightarrow> list_all wf_arg as \<Longrightarrow> i < j \<Longrightarrow> j < length (layout_from as x) \<Longrightarrow>
   slot_cells (layout_from as x ! i) \<inter> slot_cells (layout_from as x ! j) = {}"
proof (induction as arbitrary: x i j)
  case (Cons a as)
  obtain r off ref sl0 r' off' ref' where x: "x = (r, off, ref)" "slot_step a x = (sl0, r', off', ref')" by (metis prod_cases3 prod_cases4)
  have ok: "alloc_ok r'" "slot_cells sl0 \<inter> avail (r', off', ref') = {}"
    using slot_step_ok[of r a off ref sl0 r' off' ref'] Cons.prems(1,2) x by auto
  obtain j' where j: "j = Suc j'" "j' < length (layout_from as (r', off', ref'))" using Cons.prems(3,4) x by (cases j) auto
  have cells: "slot_cells (layout_from as (r', off', ref') ! j') \<subseteq> avail (r', off', ref')"
    using layout_from_avail[of "(r', off', ref')" as] ok(1) Cons.prems(2) j(2) nth_mem by auto
  show ?case
  proof (cases i)
    case 0
    then show ?thesis using x j ok(2) cells by auto
  next
    case (Suc i')
    then show ?thesis using x j Cons.prems(2,3) ok(1) Cons.IH[of "(r', off', ref')" i' j'] by auto
  qed
qed simp

lemma alloc_ok_start: "alloc_ok reg_start"
  by (simp add: alloc_ok_def side_ok_def reg_start_def REG_START_def)

end
