(* ===== verification/Kernel_Placing.thy ===== *)
theory Kernel_Placing
  imports Kernel_Layout
begin

text \<open>
  \<open>callArgs\<close> follows the layout: its places lie inside the arrays of the event, and at the end every place
  holds its argument.
\<close>

subsection \<open>Room\<close>

text \<open>
  Of the bytes seen so far, at least one for every four registers went to registers, and the stack has
  grown by at most two for each of the others. An argument goes to the stack only when sixteen
  registers are taken, so the stack image of 2048 bytes is never full.
\<close>

definition room :: "int \<Rightarrow> reg_alloc \<times> int \<times> int \<Rightarrow> bool" where
  "room T = (\<lambda>(r, off, ref). 4 \<le> off \<and> 0 \<le> ref \<and> 8 dvd ref \<and> ref \<le> T \<and>
     (\<exists>R S. 0 \<le> S \<and> R + S \<le> T \<and> first_aquad r + first_bquad r \<le> 8 + 4 * R \<and> off \<le> 4 + 2 * S))"

fun place_fits :: "place \<Rightarrow> bool" where
  "place_fits (In_reg i) \<longleftrightarrow> 0 \<le> i \<and> i + 1 < 20"
| "place_fits (On_stack o1) \<longleftrightarrow> 4 \<le> o1 \<and> o1 + 4 \<le> 2048"

fun slot_fits :: "slot \<Rightarrow> bool" where
  "slot_fits (Reg_slot i n) \<longleftrightarrow> n \<le> 16 \<and> 0 \<le> i \<and> i + (if n \<le> 8 then 1 else 5) < 20"
| "slot_fits (Stack_slot o1 n) \<longleftrightarrow> 4 \<le> o1 \<and> o1 + int n \<le> 2048"
| "slot_fits (Ref_slot p o1 n) \<longleftrightarrow> place_fits p \<and> 0 \<le> o1 \<and> o1 + int n \<le> 1024"

lemma roomE:
  assumes "room T (r, off, ref)"
  obtains R S where "4 \<le> off" "0 \<le> ref" "8 dvd ref" "ref \<le> T" "0 \<le> S" "R + S \<le> T" "first_aquad r + first_bquad r \<le> 8 + 4 * R" "off \<le> 4 + 2 * S"
  using assms by (auto simp: room_def)

lemma roomI:
  "4 \<le> off \<Longrightarrow> 0 \<le> ref \<Longrightarrow> 8 dvd ref \<Longrightarrow> ref \<le> T \<Longrightarrow> 0 \<le> S \<Longrightarrow> R + S \<le> T \<Longrightarrow>
   first_aquad r + first_bquad r \<le> 8 + 4 * R \<Longrightarrow> off \<le> 4 + 2 * S \<Longrightarrow> room T (r, off, ref)"
  unfolding room_def prod.case by blast

lemma slot_step_room:
  assumes ok: "alloc_ok r" and wf: "wf_arg a" and room: "room T (r, off, ref)" and lim: "T + int (arg_size a) \<le> 1024"
    and step: "slot_step a (r, off, ref) = (sl, x')"
  shows "room (T + int (arg_size a)) x' \<and> slot_fits sl"
proof -
  let ?n = "arg_size a"
  obtain R S where rs: "4 \<le> off" "0 \<le> ref" "8 dvd ref" "ref \<le> T" "0 \<le> S" "R + S \<le> T" "first_aquad r + first_bquad r \<le> 8 + 4 * R" "off \<le> 4 + 2 * S"
    using room by (rule roomE)
  have n: "1 \<le> ?n" using wf_arg_size[OF wf] by auto
  have up: "off \<le> ROUNDUP off (int ?n)" "ROUNDUP off (int ?n) + 1 \<le> off + int ?n" using ROUNDUP_size[OF wf, of off] by simp_all
  have r4: "off \<le> ROUNDUP off 4" "ROUNDUP off 4 \<le> off + 3" using ROUNDUP_4[of off] by simp_all
  have r8: "ROUNDUP (ref + int ?n) 8 = ref + int ?n" "8 dvd ref + int ?n" if "16 < ?n"
  proof -
    have "8 dvd int ?n" using wf_arg_size[OF wf] that by auto
    then show "8 dvd ref + int ?n" using rs(3) by simp
    then show "ROUNDUP (ref + int ?n) 8 = ref + int ?n" using ROUNDUP_multiple[where k = 3] by simp
  qed
  obtain i r1 where g: "getarg_inreg_index (int ?n) r = (i, r1)" by fastforce
  from ok g show ?thesis
  proof (cases rule: getarg_cases)
    case reg
    then have "sl = Reg_slot i ?n" "x' = (r1, off, ref)" using step g by (auto simp: slot_step_def took_def)
    moreover have "room (T + int ?n) (r1, off, ref)" using reg(1) rs n by (intro roomI[where R = "R + 1" and S = S]) (auto simp: took_def)
    ultimately show ?thesis using reg by (simp add: took_def)
  next
    case full
    show ?thesis
    proof (cases "?n \<le> 16")
      case True
      then have "sl = Stack_slot (ROUNDUP off (int ?n)) ?n" "x' = (r, ROUNDUP off (int ?n) + int ?n, ref)"
        using step g full by (auto simp: slot_step_def Let_def)
      moreover have "room (T + int ?n) (r, ROUNDUP off (int ?n) + int ?n, ref)"
        using rs up n by (intro roomI[where R = R and S = "S + int ?n"]) auto
      moreover have "2 \<le> R" using full(3) True rs(7) by simp
      ultimately show ?thesis using rs up lim by auto
    next
      case False
      obtain j r2 where g2: "getarg_inreg_index 4 r = (j, r2)" by fastforce
      from ok g2 show ?thesis
      proof (cases rule: getarg_cases)
        case reg2: reg
        then have "sl = Ref_slot (In_reg j) ref ?n" "x' = (r2, off, ref + int ?n)"
          using step g g2 full False r8 by (auto simp: slot_step_def took_def Let_def)
        moreover have "room (T + int ?n) (r2, off, ref + int ?n)"
          using reg2(1) rs n False r8 by (intro roomI[where R = "R + 1" and S = S]) (auto simp: took_def)
        ultimately show ?thesis using reg2 rs lim by (simp add: took_def)
      next
        case full2: full
        then have "sl = Ref_slot (On_stack (ROUNDUP off 4)) ref ?n" "x' = (r, ROUNDUP off 4 + 4, ref + int ?n)"
          using step g g2 full False r8 by (auto simp: slot_step_def Let_def)
        moreover have "room (T + int ?n) (r, ROUNDUP off 4 + 4, ref + int ?n)"
          using rs r4 n False r8 by (intro roomI[where R = R and S = "S + 4"]) auto
        moreover have "2 \<le> R" using full2(3) rs(7) by simp
        ultimately show ?thesis using rs r4 lim False by auto
      qed
    qed
  qed
qed

lemma room_start: "room 0 (reg_start, 4, 0)"
  by (rule roomI[where R = 0 and S = 0]) (simp_all add: reg_start_def REG_START_def)

subsection \<open>Memory\<close>

definition reg_word :: "u8 list \<Rightarrow> int \<Rightarrow> u8 list" where
  "reg_word img w = take 4 (drop (4 * nat w) img)"

definition word_list :: "int \<Rightarrow> nat \<Rightarrow> int list" where
  "word_list i n = (if n \<le> 4 then [i] else if n \<le> 8 then [i, i + 1] else [i, i + 1, i + 4, i + 5])"

lemma reg_word_other:
  assumes "store_bytes img (4 * nat i) bs = Inr img'" and "length bs \<le> 8" and "0 \<le> i" and "0 \<le> w" and "w \<notin> {i, i + 1} \<or> length bs \<le> 4 \<and> w \<noteq> i"
  shows "reg_word img' w = reg_word img w"
proof -
  consider "nat w < nat i" | "nat w \<ge> nat i + 2" | "length bs \<le> 4" "nat w = nat i + 1" using assms(3-5) by force
  then show ?thesis
  proof cases
    case 1
    have "take (4 * nat i) img' = take (4 * nat i) img" by (rule store_bytes_take[OF assms(1)])
    then have "drop (4 * nat w) (take (4 * nat w + 4) img') = drop (4 * nat w) (take (4 * nat w + 4) img)"
      using 1 by (metis Suc_leI min.absorb1 mult_Suc_right mult_le_mono2 take_take add.commute)
    then show ?thesis by (simp add: reg_word_def take_drop add.commute)
  qed (use store_bytes_drop[OF assms(1), of "4 * nat w"] assms(2) in \<open>auto simp: reg_word_def\<close>)
qed

lemma memcpy_at_ok:
  "n \<le> length bs \<Longrightarrow> off + n \<le> length img \<Longrightarrow> \<exists>img'. memcpy_at img off bs n = Inr img' \<and> store_bytes img off (take n bs) = Inr img' \<and> length img' = length img"
  by (simp add: memcpy_at_def store_bytes_def)

lemma take_8: "take 8 xs = take 4 xs @ take 4 (drop 4 xs)"
  using take_add[of 4 4 xs] by simp

text \<open>A value of four, eight or sixteen bytes in its registers.\<close>

lemma setarg_inreg_pair:
  assumes "length img = 80" and "n \<in> {4, 8}" and "n \<le> length bs" and "0 \<le> i" and "i + 1 < 20"
  shows "\<exists>img'. setarg_inreg i n img bs = Inr img' \<and> length img' = 80 \<and> concat (map (reg_word img') (word_list i n)) = take n bs \<and>
     (\<forall>w. 0 \<le> w \<longrightarrow> w \<notin> reg_words i (int n) \<longrightarrow> reg_word img' w = reg_word img w)"
proof -
  have "4 * nat i + n \<le> length img" using assms by auto
  then obtain img' where img': "memcpy_at img (4 * nat i) bs n = Inr img'" "store_bytes img (4 * nat i) (take n bs) = Inr img'" "length img' = 80"
    using memcpy_at_ok[OF assms(3)] assms(1) by metis
  have "take n (drop (4 * nat i) img') = take n bs" using store_bytes_at[OF img'(2)] assms(3) by simp
  then have "concat (map (reg_word img') (word_list i n)) = take n bs"
    using assms(2,4) by (auto simp: word_list_def reg_word_def take_8 nat_add_distrib add.commute)
  with img' assms(2,4) show ?thesis
    by (auto simp: setarg_inreg_def reg_words_def intro!: reg_word_other[OF img'(2)])
qed

lemma setarg_inreg_quad:
  assumes "length img = 80" and "16 \<le> length bs" and "0 \<le> i" and "i + 5 < 20"
  shows "\<exists>img'. setarg_inreg i 16 img bs = Inr img' \<and> length img' = 80 \<and> concat (map (reg_word img') (word_list i 16)) = take 16 bs \<and>
     (\<forall>w. 0 \<le> w \<longrightarrow> w \<notin> reg_words i 16 \<longrightarrow> reg_word img' w = reg_word img w)"
proof -
  obtain img1 where s1: "setarg_inreg i 8 img bs = Inr img1" "length img1 = 80" "concat (map (reg_word img1) (word_list i 8)) = take 8 bs"
      "\<forall>w. 0 \<le> w \<longrightarrow> w \<notin> reg_words i 8 \<longrightarrow> reg_word img1 w = reg_word img w"
    using setarg_inreg_pair[of img 8 bs i] assms by auto
  obtain img2 where s2: "setarg_inreg (i + 4) 8 img1 (drop 8 bs) = Inr img2" "length img2 = 80"
      "concat (map (reg_word img2) (word_list (i + 4) 8)) = take 8 (drop 8 bs)"
      "\<forall>w. 0 \<le> w \<longrightarrow> w \<notin> reg_words (i + 4) 8 \<longrightarrow> reg_word img2 w = reg_word img1 w"
    using setarg_inreg_pair[of img1 8 "drop 8 bs" "i + 4"] s1(2) assms(2-4) by fastforce
  have "setarg_inreg i 16 img bs = Inr img2" using s1(1) s2(1) by (simp add: setarg_inreg_def)
  moreover have "reg_word img2 i = reg_word img1 i" "reg_word img2 (i + 1) = reg_word img1 (i + 1)"
    using s2(4) assms(3) by (auto simp: reg_words_def)
  then have "concat (map (reg_word img2) (word_list i 16)) = take 16 bs"
    using s1(3) s2(3) take_add[of 8 8 bs] by (simp add: word_list_def add.assoc)
  moreover have "\<forall>w. 0 \<le> w \<longrightarrow> w \<notin> reg_words i 16 \<longrightarrow> reg_word img2 w = reg_word img w"
    using s1(4) s2(4) by (auto simp: reg_words_def)
  ultimately show ?thesis using s2(2) by blast
qed

text \<open>What the callee finds in a slot.\<close>

fun place_word_at :: "call_state \<Rightarrow> place \<Rightarrow> u8 list" where
  "place_word_at s (In_reg i) = reg_word (reg_image s) i"
| "place_word_at s (On_stack o1) = take 4 (drop (nat o1) (args_on_stack s))"

fun holds :: "call_state \<Rightarrow> slot \<Rightarrow> u8 list \<Rightarrow> bool" where
  "holds s (Reg_slot i n) bs \<longleftrightarrow> concat (map (reg_word (reg_image s)) (word_list i n)) = bs"
| "holds s (Stack_slot o1 n) bs \<longleftrightarrow> take n (drop (nat o1) (args_on_stack s)) = bs"
| "holds s (Ref_slot p o1 n) bs \<longleftrightarrow> take n (drop (nat o1) (args_of_argref s)) = bs \<and> (p, of_int o1) \<in> set (p_argrefs s)"

definition buffer_word :: "Arg \<Rightarrow> u32" where
  "buffer_word a = (case p_data a of Some (Mem (Some b)) \<Rightarrow>
       if p_file a \<noteq> Local \<and> \<not> (flags b AND CL_MEM_USE_HOST_PTR \<noteq> 0 \<and> \<not> host_ptr_clMalloced b) \<and> device_data b < 0xFFFFFFFF
       then ucast (device_data b) else 0
     | _ \<Rightarrow> 0)"

definition data_bytes :: "Arg \<Rightarrow> u8 list" where
  "data_bytes a = (case p_data a of Some (Bytes bs) \<Rightarrow> bs | _ \<Rightarrow> [])"

text \<open>A subword in a register is extended to the word, by its sign unless its type is unsigned.\<close>

definition subword :: "Arg \<Rightarrow> u32" where
  "subword a = (let bs = data_bytes a
     in if arg_size a = 1 then if p_is_subword_int_uns a then ucast (hd bs) else scast (hd bs)
        else if p_is_subword_int_uns a then ucast (word16 LSB bs) else scast (word16 LSB bs))"

fun arg_content :: "Arg \<Rightarrow> slot \<Rightarrow> u8 list" where
  "arg_content a (Reg_slot i n) = (if p_kind a = Buffer then bytes32 LSB (buffer_word a)
     else if n \<le> 2 then bytes32 LSB (subword a) else data_bytes a)"
| "arg_content a (Stack_slot o1 n) = (if p_kind a = Buffer then bytes32 LSB (buffer_word a) else data_bytes a)"
| "arg_content a (Ref_slot p o1 n) = data_bytes a"

subsection \<open>Steps\<close>

text \<open>A step changes nothing but the cells of its slot, and a slot depends on its cells only.\<close>

fun cell_val :: "call_state \<Rightarrow> cell \<Rightarrow> u8 list" where
  "cell_val s (Reg_word w) = reg_word (reg_image s) w"
| "cell_val s (Stack_byte x) = [args_on_stack s ! nat x]"
| "cell_val s (Ref_byte x) = [args_of_argref s ! nat x]"

definition images_ok :: "call_state \<Rightarrow> bool" where
  "images_ok s \<longleftrightarrow> length (reg_image s) = 80 \<and> length (args_on_stack s) = 2048 \<and> length (args_of_argref s) = 2048"

definition only :: "cell set \<Rightarrow> call_state \<Rightarrow> call_state \<Rightarrow> bool" where
  "only C s s' \<longleftrightarrow> (\<forall>w. 0 \<le> w \<longrightarrow> Reg_word w \<notin> C \<longrightarrow> cell_val s' (Reg_word w) = cell_val s (Reg_word w)) \<and>
     (\<forall>x. 0 \<le> x \<longrightarrow> x < 2048 \<longrightarrow> Stack_byte x \<notin> C \<longrightarrow> cell_val s' (Stack_byte x) = cell_val s (Stack_byte x)) \<and>
     (\<forall>x. 0 \<le> x \<longrightarrow> x < 2048 \<longrightarrow> Ref_byte x \<notin> C \<longrightarrow> cell_val s' (Ref_byte x) = cell_val s (Ref_byte x)) \<and>
     set (p_argrefs s) \<subseteq> set (p_argrefs s')"

lemma cell_image [simp]:
  "Reg_word w \<in> Reg_word ` A \<longleftrightarrow> w \<in> A" "Stack_byte x \<in> Stack_byte ` B \<longleftrightarrow> x \<in> B" "Ref_byte x \<in> Ref_byte ` B \<longleftrightarrow> x \<in> B"
  by (simp_all add: image_iff)

lemma onlyD:
  assumes "only C s s'"
  shows "0 \<le> w \<Longrightarrow> Reg_word w \<notin> C \<Longrightarrow> reg_word (reg_image s') w = reg_word (reg_image s) w"
    and "y < 2048 \<Longrightarrow> Stack_byte (int y) \<notin> C \<Longrightarrow> args_on_stack s' ! y = args_on_stack s ! y"
    and "y < 2048 \<Longrightarrow> Ref_byte (int y) \<notin> C \<Longrightarrow> args_of_argref s' ! y = args_of_argref s ! y"
    and "set (p_argrefs s) \<subseteq> set (p_argrefs s')"
proof -
  show "0 \<le> w \<Longrightarrow> Reg_word w \<notin> C \<Longrightarrow> reg_word (reg_image s') w = reg_word (reg_image s) w"
    and "set (p_argrefs s) \<subseteq> set (p_argrefs s')" using assms by (simp_all add: only_def)
  assume "y < 2048"
  then show "Stack_byte (int y) \<notin> C \<Longrightarrow> args_on_stack s' ! y = args_on_stack s ! y"
    and "Ref_byte (int y) \<notin> C \<Longrightarrow> args_of_argref s' ! y = args_of_argref s ! y"
    using assms unfolding only_def cell_val.simps by (metis nat_int of_nat_0_le_iff of_nat_less_numeral_iff list.inject)+
qed

lemma only_trans: "only C s s' \<Longrightarrow> only D s' s'' \<Longrightarrow> only (C \<union> D) s s''"
  by (auto simp: only_def)

lemma take_drop_eq:
  assumes "length xs = length ys" and "off + n \<le> length xs" and "\<And>x. off \<le> x \<Longrightarrow> x < off + n \<Longrightarrow> ys ! x = xs ! x"
  shows "take n (drop off ys) = take n (drop off xs)"
  by (rule nth_equalityI) (use assms in auto)

lemma holds_only:
  assumes "holds s sl bs" and "only C s s'" and "slot_cells sl \<inter> C = {}" and "slot_fits sl" and "images_ok s" and "images_ok s'"
  shows "holds s' sl bs"
proof (cases sl)
  case (Reg_slot i n)
  have "reg_word (reg_image s') w = reg_word (reg_image s) w" if "w \<in> set (word_list i n)" for w
  proof -
    have "0 \<le> w" "w \<in> reg_words i (int n)" using that assms(4) Reg_slot by (auto simp: word_list_def reg_words_def split: if_splits)
    then show ?thesis using assms(2,3) Reg_slot by (auto simp: only_def)
  qed
  then have "map (reg_word (reg_image s')) (word_list i n) = map (reg_word (reg_image s)) (word_list i n)"
    by (rule map_cong[OF refl])
  then show ?thesis using assms(1) unfolding Reg_slot holds.simps by (rule trans[OF arg_cong])
next
  case (Stack_slot x n)
  have "take n (drop (nat x) (args_on_stack s')) = take n (drop (nat x) (args_on_stack s))"
  proof (rule take_drop_eq)
    fix y assume "nat x \<le> y" "y < nat x + n"
    then have "int y \<in> {x..<x + int n}" "int y < 2048" using assms(4) Stack_slot by auto
    moreover from this have "Stack_byte (int y) \<in> slot_cells sl" unfolding Stack_slot slot_cells.simps by blast
    then have "Stack_byte (int y) \<notin> C" using assms(3) by blast
    ultimately show "args_on_stack s' ! y = args_on_stack s ! y" using onlyD(2)[OF assms(2)] by simp
  qed (use assms(4-6) Stack_slot in \<open>auto simp: images_ok_def\<close>)
  then show ?thesis using assms(1) Stack_slot by simp
next
  case (Ref_slot p x n)
  have "take n (drop (nat x) (args_of_argref s')) = take n (drop (nat x) (args_of_argref s))"
  proof (rule take_drop_eq)
    fix y assume "nat x \<le> y" "y < nat x + n"
    then have "int y \<in> {x..<x + int n}" "int y < 2048" using assms(4) Ref_slot by auto
    moreover from this have "Ref_byte (int y) \<in> slot_cells sl" unfolding Ref_slot slot_cells.simps by blast
    then have "Ref_byte (int y) \<notin> C" using assms(3) by blast
    ultimately show "args_of_argref s' ! y = args_of_argref s ! y" using onlyD(3)[OF assms(2)] by simp
  qed (use assms(4-6) Ref_slot in \<open>auto simp: images_ok_def\<close>)
  then show ?thesis using assms(1,2) Ref_slot by (auto simp: only_def)
qed

lemma stack_store:
  assumes "images_ok s" and "n \<le> length bs" and "4 \<le> x" and "x + int n \<le> 2048"
  shows "\<exists>img. memcpy_at (args_on_stack s) (nat x) bs n = Inr img \<and> images_ok (s\<lparr>args_on_stack := img\<rparr>) \<and>
     take n (drop (nat x) img) = take n bs \<and> only (Stack_byte ` {x..<x + int n}) s (s\<lparr>args_on_stack := img\<rparr>)"
proof -
  have "nat x + n \<le> length (args_on_stack s)" using assms by (auto simp: images_ok_def)
  then obtain img where img: "memcpy_at (args_on_stack s) (nat x) bs n = Inr img" "store_bytes (args_on_stack s) (nat x) (take n bs) = Inr img"
      "length img = length (args_on_stack s)"
    using memcpy_at_ok[OF assms(2)] by blast
  have "img ! nat y = args_on_stack s ! nat y" if "0 \<le> y" "y < 2048" "\<not> (x \<le> y \<and> y < x + int n)" for y
    by (rule store_bytes_nth[OF img(2)]) (use that assms in \<open>auto simp: images_ok_def\<close>)
  then have "only (Stack_byte ` {x..<x + int n}) s (s\<lparr>args_on_stack := img\<rparr>)" by (auto simp: only_def)
  with img assms(1,2) store_bytes_at[OF img(2)] show ?thesis by (simp add: images_ok_def)
qed

lemma ref_store:
  assumes "images_ok s" and "n \<le> length bs" and "0 \<le> x" and "x + int n \<le> 2048"
  shows "\<exists>img. memcpy_at (args_of_argref s) (nat x) bs n = Inr img \<and> images_ok (s\<lparr>args_of_argref := img\<rparr>) \<and>
     take n (drop (nat x) img) = take n bs \<and> only (Ref_byte ` {x..<x + int n}) s (s\<lparr>args_of_argref := img\<rparr>)"
proof -
  have "nat x + n \<le> length (args_of_argref s)" using assms by (auto simp: images_ok_def)
  then obtain img where img: "memcpy_at (args_of_argref s) (nat x) bs n = Inr img" "store_bytes (args_of_argref s) (nat x) (take n bs) = Inr img"
      "length img = length (args_of_argref s)"
    using memcpy_at_ok[OF assms(2)] by blast
  have "img ! nat y = args_of_argref s ! nat y" if "0 \<le> y" "y < 2048" "\<not> (x \<le> y \<and> y < x + int n)" for y
    by (rule store_bytes_nth[OF img(2)]) (use that assms in \<open>auto simp: images_ok_def\<close>)
  then have "only (Ref_byte ` {x..<x + int n}) s (s\<lparr>args_of_argref := img\<rparr>)" by (auto simp: only_def)
  with img assms(1,2) store_bytes_at[OF img(2)] show ?thesis by (simp add: images_ok_def)
qed

lemma reg_store:
  assumes "images_ok s" and "n \<in> {4, 8, 16}" and "n \<le> length bs" and "0 \<le> i" and "i + (if n \<le> 8 then 1 else 5) < 20"
  shows "\<exists>img. setarg_inreg i n (reg_image s) bs = Inr img \<and> images_ok (s\<lparr>reg_image := img\<rparr>) \<and>
     concat (map (reg_word img) (word_list i n)) = take n bs \<and> only (Reg_word ` reg_words i (int n)) s (s\<lparr>reg_image := img\<rparr>)"
proof -
  have len: "length (reg_image s) = 80" using assms(1) by (simp add: images_ok_def)
  obtain img where "setarg_inreg i n (reg_image s) bs = Inr img" "length img = 80" "concat (map (reg_word img) (word_list i n)) = take n bs"
      "\<forall>w. 0 \<le> w \<longrightarrow> w \<notin> reg_words i (int n) \<longrightarrow> reg_word img w = reg_word (reg_image s) w"
  proof (cases "n = 16")
    case True
    then show ?thesis using setarg_inreg_quad[OF len, of bs i] assms(3-5) that by auto
  next
    case False
    then show ?thesis using setarg_inreg_pair[OF len, of n bs i] assms(2-5) that by auto
  qed
  with assms(1) show ?thesis by (auto simp: images_ok_def only_def)
qed

text \<open>A word goes to the next place.\<close>

definition position :: "call_state \<Rightarrow> reg_alloc \<times> int \<times> int" where
  "position s = (regs s, more_arg_offset s, argref_offset s)"

definition core :: "call_state \<Rightarrow> (reg_alloc \<times> int \<times> int) \<times> (u8 list \<times> u8 list \<times> u8 list) \<times> (place \<times> u32) list \<times> int" where
  "core s = (position s, (reg_image s, args_on_stack s, args_of_argref s), p_argrefs s, args_total_size s)"

lemma core_eqD:
  assumes "core s = core t"
  shows "images_ok s \<longleftrightarrow> images_ok t" "only C s u \<longleftrightarrow> only C t u" "position s = position t" "next_place i s = next_place i t" "p_argrefs s = p_argrefs t"
    "argref_offset s = argref_offset t" "args_total_size s = args_total_size t" "regs s = regs t" "more_arg_offset s = more_arg_offset t"
    "reg_image s = reg_image t" "args_on_stack s = args_on_stack t" "args_of_argref s = args_of_argref t"
  using assms by (auto simp: core_def position_def images_ok_def only_def next_place_def)

lemma place_word_ok:
  assumes "images_ok s" and "place_fits (next_place i s)"
  shows "\<exists>s'. place_word w i s = Inr s' \<and> images_ok s' \<and> place_word_at s' (next_place i s) = bytes32 LSB w \<and>
     only (place_cells (next_place i s)) s s' \<and> position s' = (regs s, if i \<ge> 0 then more_arg_offset s else ROUNDUP (more_arg_offset s) 4 + 4, argref_offset s) \<and>
     p_argrefs s' = p_argrefs s \<and> args_total_size s' = args_total_size s"
proof (cases "i \<ge> 0")
  case True
  then show ?thesis using reg_store[OF assms(1), of 4 "bytes32 LSB w" i] assms(2)
    by (auto simp: place_word_def next_place_def position_def word_list_def)
next
  case False
  then show ?thesis using stack_store[OF assms(1), of 4 "bytes32 LSB w" "ROUNDUP (more_arg_offset s) 4"] assms(2)
    by (auto simp: place_word_def next_place_def position_def SETMOREARG_def Let_def images_ok_def only_def)
qed

lemma same_word: "core s1 = core t \<Longrightarrow> \<exists>s2. place_word w i s1 = place_word w i s2 \<and> core s2 = core t"
  by blast

lemma place_buffer_word:
  assumes "wf_arg a" and "p_kind a = Buffer" and "getarg_inreg_index 4 (regs s) = (i, r)"
  shows "\<exists>s1. place_buffer a s = place_word (buffer_word a) i s1 \<and> core s1 = core (s\<lparr>regs := r\<rparr>)"
proof -
  have *: "\<exists>s1. place_buffer a s = place_word (buffer_word a) i s1 \<and> core s1 = core (s\<lparr>regs := r\<rparr>)"
    if "(case p_data a of None \<Rightarrow> Inr None | Some (Mem b) \<Rightarrow> Inr b | Some (Bytes _) \<Rightarrow> Inl Undefined) = (Inr buffer :: MemObject option result)" for buffer
  proof (cases "p_file a = Local")
    case True
    then show ?thesis using that assms
      by (auto simp: place_buffer_def Let_def buffer_word_def core_def position_def split: option.splits arg_data.splits intro!: same_word)
  next
    case False
    then show ?thesis using that assms
      by (cases buffer) (auto simp: place_buffer_def Let_def buffer_word_def core_def position_def split: option.splits arg_data.splits intro!: same_word)
  qed
  show ?thesis using assms(1,2) by (intro *[of "case p_data a of Some (Mem b) \<Rightarrow> b | _ \<Rightarrow> None"]) (auto simp: wf_arg_def split: option.splits arg_data.splits)
qed

text \<open>
  What one argument does: the position moves as in the layout, its slot holds its content, and nothing
  outside of the slot changes.
\<close>

definition arg_placed :: "Arg \<Rightarrow> slot \<Rightarrow> reg_alloc \<times> int \<times> int \<Rightarrow> call_state \<Rightarrow> call_state \<Rightarrow> bool" where
  "arg_placed a sl x s s' \<longleftrightarrow> position s' = x \<and> images_ok s' \<and> holds s' sl (arg_content a sl) \<and> only (slot_cells sl) s s' \<and>
     args_total_size s' = args_total_size s"

definition free_zero :: "call_state \<Rightarrow> bool" where
  "free_zero s \<longleftrightarrow> (\<forall>w. 0 \<le> w \<longrightarrow> w < 20 \<longrightarrow> free_word (regs s) w \<longrightarrow> reg_word (reg_image s) w = [0, 0, 0, 0])"

lemma place_buffer_placed:
  assumes "wf_arg a" and "p_kind a = Buffer" and "images_ok s" and "alloc_ok (regs s)"
    and "slot_step a (position s) = (sl, x)" and "slot_fits sl"
  shows "\<exists>s'. place_buffer a s = Inr s' \<and> arg_placed a sl x s s'"
proof -
  obtain i r where g: "getarg_inreg_index 4 (regs s) = (i, r)" by fastforce
  obtain s1 where s1: "place_buffer a s = place_word (buffer_word a) i s1" "core s1 = core (s\<lparr>regs := r\<rparr>)"
    using place_buffer_word[OF assms(1,2) g] by blast
  have s1': "images_ok s1" "next_place i s1 = next_place i s" "more_arg_offset s1 = more_arg_offset s" "argref_offset s1 = argref_offset s"
      "regs s1 = r" "args_total_size s1 = args_total_size s" "only C s1 u \<longleftrightarrow> only C s u" for C u
    using core_eqD[OF s1(2)] assms(3) by (simp_all add: images_ok_def next_place_def only_def)
  have n: "arg_size a = 4" using assms(2) by (simp add: arg_size_def)
  have sl: "sl = (case next_place i s of In_reg i \<Rightarrow> Reg_slot i 4 | On_stack x \<Rightarrow> Stack_slot x 4)"
      "x = (r, if i \<ge> 0 then more_arg_offset s else ROUNDUP (more_arg_offset s) 4 + 4, argref_offset s)"
    using assms(5) g n by (auto simp: slot_step_def position_def next_place_def Let_def split: if_splits)
  have "place_fits (next_place i s1)" using assms(6) sl(1) s1' by (auto simp: next_place_def split: if_splits)
  from place_word_ok[OF s1'(1) this, of "buffer_word a"] obtain s' where s': "place_word (buffer_word a) i s1 = Inr s'" "images_ok s'"
      "place_word_at s' (next_place i s) = bytes32 LSB (buffer_word a)" "only (place_cells (next_place i s)) s s'" "position s' = x"
      "args_total_size s' = args_total_size s"
    using s1' sl(2) by auto
  have "holds s' sl (arg_content a sl)" "slot_cells sl = place_cells (next_place i s)"
    using s'(3) sl(1) assms(2) by (auto simp: next_place_def word_list_def)
  then show ?thesis using s1(1) s' by (auto simp: arg_placed_def)
qed

text \<open>A subword in its register: one that is 0 is copied without its extension, over bytes that are 0.\<close>

lemma high_bit: "n < 8 \<Longrightarrow> 7 \<le> n \<Longrightarrow> n = 7" "n < 16 \<Longrightarrow> 15 \<le> n \<Longrightarrow> n = 15" for n :: nat
  by simp_all

lemma extend_zero:
  fixes x :: u8 and y :: u16
  shows "(ucast x :: u32) = 0 \<longleftrightarrow> x = 0" "(scast x :: u32) = 0 \<longleftrightarrow> x = 0" "(ucast y :: u32) = 0 \<longleftrightarrow> y = 0" "(scast y :: u32) = 0 \<longleftrightarrow> y = 0"
proof -
  have "ucast (ucast x :: u32) = x" "ucast (scast x :: u32) = x" "ucast (ucast y :: u32) = y" "ucast (scast y :: u32) = y"
    by (rule bit_word_eqI; auto simp: bit_simps min_def le_less_Suc_eq dest: high_bit)+
  then show "(ucast x :: u32) = 0 \<longleftrightarrow> x = 0" "(scast x :: u32) = 0 \<longleftrightarrow> x = 0" "(ucast y :: u32) = 0 \<longleftrightarrow> y = 0" "(scast y :: u32) = 0 \<longleftrightarrow> y = 0"
    by (metis signed_0 unsigned_0)+
qed

lemma subword_zero:
  assumes "p_data a = Some (Bytes bs)" and "length bs = arg_size a" and "arg_size a \<in> {1, 2}" and "subword a = 0"
  shows "bs = replicate (arg_size a) 0"
proof (cases "arg_size a = 1")
  case True
  then show ?thesis using assms by (cases bs) (auto simp: subword_def data_bytes_def extend_zero Let_def split: if_splits)
next
  case False
  then have "arg_size a = 2" using assms(3) by simp
  then obtain x y where bs: "bs = [x, y]" using assms(2) by (auto simp: numeral_2_eq_2 length_Suc_conv)
  then have "word_of_bytes [x, y] = (0 :: u16)" using assms \<open>arg_size a = 2\<close>
    by (auto simp: subword_def data_bytes_def extend_zero word16_def Let_def split: if_splits)
  then have "x = byte_of 0 (0 :: u16)" "y = byte_of 1 (0 :: u16)"
    using byte_of_word_of_bytes[of 0 "[x, y]", where 'a = 16] byte_of_word_of_bytes[of 1 "[x, y]", where 'a = 16] by simp_all
  then show ?thesis using bs \<open>arg_size a = 2\<close> by (simp add: byte_of_def numeral_2_eq_2)
qed

lemma subword_store:
  assumes "wf_arg a" and "p_data a = Some (Bytes bs)" and "vecValueSize a = n" and "n \<in> {1, 2}" and "images_ok s" and "0 \<le> i" and "i + 1 < 20"
    and "reg_word (reg_image s) i = [0, 0, 0, 0]"
  shows "\<exists>img. (if subword a = 0 then setarg_inreg i n (reg_image s) bs else setarg_inreg i 4 (reg_image s) (bytes32 LSB (subword a))) = Inr img \<and>
     images_ok (s\<lparr>reg_image := img\<rparr>) \<and> reg_word img i = bytes32 LSB (subword a) \<and>
     only (Reg_word ` reg_words i (int n)) s (s\<lparr>reg_image := img\<rparr>)"
proof (cases "subword a = 0")
  case False
  then show ?thesis
    using reg_store[OF assms(5), of 4 "bytes32 LSB (subword a)" i] assms(4,6,7) by (auto simp: word_list_def reg_words_def)
next
  case True
  have len: "length (reg_image s) = 80" using assms(5) by (simp add: images_ok_def)
  have bs: "length bs = n" using assms(1-3) by (auto simp: wf_arg_def split: if_splits)
  have zero: "bs = replicate n 0"
    using True bs assms(1,3,4) subword_zero[of a bs] wf_arg_size[of a] assms(2) by auto
  have "drop (4 * nat i) (reg_image s) = [0, 0, 0, 0] @ drop (4 * nat i + 4) (reg_image s)"
    using assms(8) by (metis append_take_drop_id drop_drop add.commute reg_word_def)
  then have "take n (drop (4 * nat i) (reg_image s)) = bs" using zero assms(4) by (auto simp: numeral_2_eq_2)
  then have "reg_image s = take (4 * nat i) (reg_image s) @ bs @ drop (4 * nat i + n) (reg_image s)"
    by (metis append_take_drop_id drop_drop add.commute)
  then have "setarg_inreg i n (reg_image s) bs = Inr (reg_image s)"
    using assms(4,6,7) bs len by (auto simp: setarg_inreg_def memcpy_at_def store_bytes_def)
  moreover have "bytes32 LSB 0 = [0, 0, 0, 0]" by (simp add: bytes32_def byte_of_def)
  ultimately show ?thesis using True assms(5,8) by (auto simp: images_ok_def only_def)
qed

lemma value_arg:
  assumes "wf_arg a" and "p_kind a \<noteq> Buffer"
  obtains bs where "p_data a = Some (Bytes bs)" "length bs = arg_size a" "data_bytes a = bs" "arg_size a = vecValueSize a"
    "arg_size a \<in> {1, 2, 4, 8, 16, 32, 64, 128}"
  using assms wf_arg_size[OF assms(1)] by (auto simp: wf_arg_def data_bytes_def split: option.splits arg_data.splits)

lemma extended_value:
  assumes "p_data a = Some (Bytes bs)" and "length bs = arg_size a" and "arg_size a = vecValueSize a"
  shows "extended a bs = Inr (if arg_size a \<in> {1, 2} then subword a else 0)"
  using assms by (auto simp: extended_def subword_def data_bytes_def Let_def numeral_2_eq_2 split: nat.splits)

lemma value_in_regs:
  assumes "wf_arg a" and "p_kind a \<noteq> Buffer" and "images_ok s" and "free_zero s"
    and "getarg_inreg_index (int (arg_size a)) (regs s) = (i, r)" and "took i (int (arg_size a)) (regs s) r" and "arg_size a \<le> 16"
  shows "\<exists>s'. place_value a s = Inr s' \<and> arg_placed a (Reg_slot i (arg_size a)) (r, more_arg_offset s, argref_offset s) s s'"
proof -
  let ?n = "arg_size a"
  obtain bs where bs: "p_data a = Some (Bytes bs)" "length bs = ?n" "data_bytes a = bs" "?n = vecValueSize a" "?n \<in> {1, 2, 4, 8, 16, 32, 64, 128}"
    using assms(1,2) by (rule value_arg)
  have i: "0 \<le> i" "i + (if ?n \<le> 8 then 1 else 5) < 20" "\<forall>w \<in> reg_words i (int ?n). free_word (regs s) w"
    using assms(6) by (auto simp: took_def)
  define d where "d = (if ?n \<in> {1, 2} then subword a else 0)"
  have ext: "extended a bs = Inr d" using extended_value[OF bs(1,2,4)] by (simp add: d_def)
  obtain img where img: "(if d = 0 then setarg_inreg i ?n (reg_image s) bs else setarg_inreg i 4 (reg_image s) (bytes32 LSB d)) = Inr img"
      "images_ok (s\<lparr>reg_image := img\<rparr>)" "only (Reg_word ` reg_words i (int ?n)) s (s\<lparr>reg_image := img\<rparr>)"
      "concat (map (reg_word img) (word_list i ?n)) = (if ?n \<le> 2 then bytes32 LSB (subword a) else bs)"
  proof (cases "?n \<in> {1, 2}")
    case True
    have "reg_word (reg_image s) i = [0, 0, 0, 0]" using assms(4) i by (auto simp: free_zero_def reg_words_def split: if_splits)
    moreover have "i + 1 < 20" using i(2) by (auto split: if_splits)
    ultimately obtain img where "(if subword a = 0 then setarg_inreg i ?n (reg_image s) bs else setarg_inreg i 4 (reg_image s) (bytes32 LSB (subword a))) = Inr img"
        "images_ok (s\<lparr>reg_image := img\<rparr>)" "reg_word img i = bytes32 LSB (subword a)" "only (Reg_word ` reg_words i (int ?n)) s (s\<lparr>reg_image := img\<rparr>)"
      using subword_store[OF assms(1) bs(1) bs(4)[symmetric] True assms(3) i(1)] by blast
    moreover have "word_list i ?n = [i]" "?n \<le> 2" using True by (auto simp: word_list_def)
    ultimately show ?thesis using that[of img] True by (simp only: d_def if_True list.map concat.simps append_Nil2)
  next
    case False
    then have "?n \<in> {4, 8, 16}" "?n \<le> length bs" "\<not> ?n \<le> 2" using bs(2,5) assms(7) by auto
    then show ?thesis using reg_store[OF assms(3) _ _ i(1,2), of bs] that False bs(2) by (auto simp: d_def)
  qed
  have "place_value a s = Inr (s\<lparr>regs := r, reg_image := img\<rparr>)"
    unfolding place_value_def bs(1) deref_simps
    using img(1) assms(5) i(1) ext bs(4) by (cases "d = 0") (simp_all add: Let_def)
  moreover have "arg_placed a (Reg_slot i ?n) (r, more_arg_offset s, argref_offset s) s (s\<lparr>regs := r, reg_image := img\<rparr>)"
    using img(2-4) assms(2) bs(3) by (simp add: arg_placed_def position_def images_ok_def only_def)
  ultimately show ?thesis by blast
qed

lemma value_on_stack:
  assumes "wf_arg a" and "p_kind a \<noteq> Buffer" and "images_ok s" and "getarg_inreg_index (int (arg_size a)) (regs s) = (-1, r)"
    and "arg_size a \<le> 16" and "slot_fits (Stack_slot (ROUNDUP (more_arg_offset s) (int (arg_size a))) (arg_size a))"
  shows "\<exists>s'. place_value a s = Inr s' \<and>
     arg_placed a (Stack_slot (ROUNDUP (more_arg_offset s) (int (arg_size a))) (arg_size a))
       (r, ROUNDUP (more_arg_offset s) (int (arg_size a)) + int (arg_size a), argref_offset s) s s'"
proof -
  let ?n = "arg_size a" and ?x = "ROUNDUP (more_arg_offset s) (int (arg_size a))"
  obtain bs where bs: "p_data a = Some (Bytes bs)" "length bs = ?n" "data_bytes a = bs" "?n = vecValueSize a"
    using assms(1,2) by (rule value_arg)
  obtain img where img: "memcpy_at (args_on_stack s) (nat ?x) bs ?n = Inr img" "images_ok (s\<lparr>args_on_stack := img\<rparr>)"
      "take ?n (drop (nat ?x) img) = bs" "only (Stack_byte ` {?x..<?x + int ?n}) s (s\<lparr>args_on_stack := img\<rparr>)"
    using stack_store[OF assms(3), of ?n bs ?x] assms(6) bs(2) by auto
  have "place_value a s = Inr (s\<lparr>regs := r, args_on_stack := img, more_arg_offset := ?x + int ?n\<rparr>)"
    unfolding place_value_def bs(1) deref_simps
    using img(1) assms(4,5) bs(4) by (simp add: Let_def SETMOREARG_def)
  moreover have "arg_placed a (Stack_slot ?x ?n) (r, ?x + int ?n, argref_offset s) s (s\<lparr>regs := r, args_on_stack := img, more_arg_offset := ?x + int ?n\<rparr>)"
    using img(2-4) assms(2) bs(3) by (simp add: arg_placed_def position_def images_ok_def only_def)
  ultimately show ?thesis by blast
qed

lemma value_by_ref:
  assumes "wf_arg a" and "p_kind a \<noteq> Buffer" and "images_ok s" and "getarg_inreg_index (int (arg_size a)) (regs s) = (-1, regs s)"
    and "\<not> arg_size a \<le> 16" and "getarg_inreg_index 4 (regs s) = (j, r)" and "slot_fits (Ref_slot (next_place j s) (argref_offset s) (arg_size a))"
  shows "\<exists>s'. place_value a s = Inr s' \<and>
     arg_placed a (Ref_slot (next_place j s) (argref_offset s) (arg_size a))
       (r, if j \<ge> 0 then more_arg_offset s else ROUNDUP (more_arg_offset s) 4 + 4, ROUNDUP (argref_offset s + int (arg_size a)) 8) s s'"
proof -
  let ?n = "arg_size a" and ?x = "argref_offset s" and ?p = "next_place j s"
  obtain bs where bs: "p_data a = Some (Bytes bs)" "length bs = ?n" "data_bytes a = bs" "?n = vecValueSize a"
    using assms(1,2) by (rule value_arg)
  let ?s = "s\<lparr>regs := r\<rparr>"
  have p: "next_place j ?s = ?p" "images_ok ?s" "\<And>C u. only C ?s u \<longleftrightarrow> only C s u" using assms(3) by (auto simp: next_place_def images_ok_def only_def)
  obtain s1 where s1: "place_word 0 j ?s = Inr s1" "images_ok s1" "only (place_cells ?p) s s1"
      "position s1 = (r, if j \<ge> 0 then more_arg_offset s else ROUNDUP (more_arg_offset s) 4 + 4, ?x)"
      "p_argrefs s1 = p_argrefs s" "args_total_size s1 = args_total_size s"
    using place_word_ok[OF p(2), of j 0] assms(7) unfolding p by auto
  then have x: "argref_offset s1 = ?x" by (simp add: position_def)
  obtain img where img: "memcpy_at (args_of_argref s1) (nat ?x) bs ?n = Inr img" "images_ok (s1\<lparr>args_of_argref := img\<rparr>)"
      "take ?n (drop (nat ?x) img) = bs" "only (Ref_byte ` {?x..<?x + int ?n}) s1 (s1\<lparr>args_of_argref := img\<rparr>)"
    using ref_store[OF s1(2), of ?n bs ?x] assms(7) bs(2) by auto
  let ?s' = "s1\<lparr>p_argrefs := p_argrefs s1 @ [(?p, of_int ?x)], args_of_argref := img, argref_offset := ROUNDUP (?x + int ?n) 8\<rparr>"
  have "place_value a s = Inr ?s'"
    unfolding place_value_def bs(1) deref_simps
    using img(1) assms(4-6) s1(1) p(1) x bs(4) by (simp add: Let_def)
  moreover have "only (slot_cells (Ref_slot ?p ?x ?n)) s (s1\<lparr>args_of_argref := img\<rparr>)" using only_trans[OF s1(3) img(4)] by simp
  then have "arg_placed a (Ref_slot ?p ?x ?n) (r, if j \<ge> 0 then more_arg_offset s else ROUNDUP (more_arg_offset s) 4 + 4, ROUNDUP (?x + int ?n) 8) s ?s'"
    using img(2,3) s1(4-6) assms(2) bs(3) by (auto simp: arg_placed_def position_def images_ok_def only_def)
  ultimately show ?thesis by blast
qed

definition place_arg :: "Arg \<Rightarrow> call_state \<Rightarrow> call_state result" where
  "place_arg a s = (if p_kind a = Buffer then place_buffer a s else place_value a s)"

lemma place_arg_placed:
  assumes "wf_arg a" and "images_ok s" and "free_zero s" and "alloc_ok (regs s)" and "slot_step a (position s) = (sl, x)" and "slot_fits sl"
  shows "\<exists>s'. place_arg a s = Inr s' \<and> arg_placed a sl x s s'"
proof (cases "p_kind a = Buffer")
  case True
  then show ?thesis using place_buffer_placed[OF assms(1) True assms(2,4-6)] by (simp add: place_arg_def)
next
  case False
  let ?n = "arg_size a"
  obtain i r where g: "getarg_inreg_index (int ?n) (regs s) = (i, r)" by fastforce
  from assms(4) g have "\<exists>s'. place_value a s = Inr s' \<and> arg_placed a sl x s s'"
  proof (cases rule: getarg_cases)
    case reg
    then have "sl = Reg_slot i ?n" "x = (r, more_arg_offset s, argref_offset s)" using assms(5) g by (auto simp: slot_step_def position_def took_def)
    then show ?thesis using value_in_regs[OF assms(1) False assms(2,3) g reg(1)] reg(2) by simp
  next
    case full
    show ?thesis
    proof (cases "?n \<le> 16")
      case True
      then have "sl = Stack_slot (ROUNDUP (more_arg_offset s) (int ?n)) ?n" "x = (r, ROUNDUP (more_arg_offset s) (int ?n) + int ?n, argref_offset s)"
        using assms(5) g full by (auto simp: slot_step_def position_def Let_def)
      then show ?thesis using value_on_stack[OF assms(1) False assms(2) _ True] g full(1) assms(6) by simp
    next
      case n: False
      obtain j r2 where g2: "getarg_inreg_index 4 (regs s) = (j, r2)" by fastforce
      then have "sl = Ref_slot (next_place j s) (argref_offset s) ?n"
          "x = (r2, if j \<ge> 0 then more_arg_offset s else ROUNDUP (more_arg_offset s) 4 + 4, ROUNDUP (argref_offset s + int ?n) 8)"
        using assms(5) g full(1,2) n by (auto simp: slot_step_def position_def next_place_def Let_def split: if_splits)
      then show ?thesis using value_by_ref[OF assms(1) False assms(2) _ n g2] g full(1,2) assms(6) by simp
    qed
  qed
  with False show ?thesis by (simp add: place_arg_def)
qed

subsection \<open>All arguments\<close>

lemma free_zero_only:
  assumes "free_zero s" and "only C s s'" and "C \<inter> avail (position s') = {}" and "avail (position s') \<subseteq> avail (position s)"
  shows "free_zero s'"
proof -
  have "reg_word (reg_image s') w = [0, 0, 0, 0]" if "0 \<le> w" "w < 20" "free_word (regs s') w" for w
  proof -
    have "Reg_word w \<in> avail (position s')" using that(3) by (simp add: position_def)
    then have "Reg_word w \<notin> C" "Reg_word w \<in> avail (position s)" using assms(3,4) by blast+
    then show ?thesis using that assms(1) onlyD(1)[OF assms(2), of w] by (simp add: position_def free_zero_def)
  qed
  then show ?thesis by (simp add: free_zero_def)
qed

definition total_size :: "Arg list \<Rightarrow> int" where
  "total_size as = (\<Sum>a \<leftarrow> as. int (arg_size a))"

lemma total_size_simps [simp]: "total_size [] = 0" "total_size (a # as) = int (arg_size a) + total_size as"
  by (simp_all add: total_size_def)

lemma total_size_pos: "0 \<le> total_size as"
  by (induction as) simp_all

lemma place_args_step:
  "wf_arg a \<Longrightarrow> args_total_size s + int (arg_size a) \<le> m \<Longrightarrow>
   place_args m (a # as) s = bindR (place_arg a (s\<lparr>args_total_size := args_total_size s + int (arg_size a)\<rparr>)) (place_args m as)"
  using wf_arg_size[of a] by (auto simp: place_arg_def Let_def wf_arg_def)

definition ready :: "call_state \<Rightarrow> bool" where
  "ready s \<longleftrightarrow> images_ok s \<and> free_zero s \<and> alloc_ok (regs s) \<and> room (args_total_size s) (position s)"

lemma place_args_placed:
  assumes "list_all wf_arg as" and "ready s" and "args_total_size s + total_size as \<le> m" and "m \<le> 1024"
  shows "\<exists>s'. place_args m as s = Inr (CL_SUCCESS, s') \<and> ready s' \<and> only (\<Union> (slot_cells ` set (layout_from as (position s)))) s s' \<and>
     args_total_size s' = args_total_size s + total_size as \<and> avail (position s') \<subseteq> avail (position s) \<and>
     (\<forall>sl \<in> set (layout_from as (position s)). slot_cells sl \<inter> avail (position s') = {}) \<and>
     list_all2 (\<lambda>a sl. slot_fits sl \<and> holds s' sl (arg_content a sl)) as (layout_from as (position s))"
  using assms
proof (induction as arbitrary: s)
  case Nil
  then show ?case by (auto simp: only_def)
next
  case (Cons a as)
  let ?s = "s\<lparr>args_total_size := args_total_size s + int (arg_size a)\<rparr>"
  obtain sl x where sl: "slot_step a (position s) = (sl, x)" by (cases "slot_step a (position s)")
  have wf: "wf_arg a" "list_all wf_arg as" and s: "images_ok s" "free_zero s" "alloc_ok (regs s)" "room (args_total_size s) (position s)"
    using Cons.prems(1,2) by (auto simp: ready_def)
  have lim: "args_total_size s + int (arg_size a) \<le> m" using Cons.prems(3) total_size_pos[of as] by simp
  have fits: "room (args_total_size s + int (arg_size a)) x" "slot_fits sl"
    using slot_step_room[OF s(3) wf(1), of "args_total_size s" "more_arg_offset s" "argref_offset s" sl x] s(4) sl lim Cons.prems(4) by (simp_all add: position_def)
  have s': "images_ok ?s" "free_zero ?s" "position ?s = position s" "only C ?s u \<longleftrightarrow> only C s u" for C u
    using s by (simp_all add: images_ok_def free_zero_def position_def only_def)
  obtain s1 where s1: "place_arg a ?s = Inr s1" "arg_placed a sl x ?s s1"
    using place_arg_placed[OF wf(1) s'(1,2) _ _ fits(2), of x] s(3) sl s'(3) by auto
  have p: "position s1 = x" "images_ok s1" "holds s1 sl (arg_content a sl)" "only (slot_cells sl) s s1"
      "args_total_size s1 = args_total_size s + int (arg_size a)"
    using s1(2) s'(4) by (simp_all add: arg_placed_def)
  have step: "alloc_ok (regs s1)" "slot_cells sl \<inter> avail (position s1) = {}" "avail (position s1) \<subseteq> avail (position s)"
    using slot_step_ok[OF s(3) wf(1), of "more_arg_offset s" "argref_offset s" sl "regs s1" "more_arg_offset s1" "argref_offset s1"] sl p(1)
    by (simp_all add: position_def)
  have "ready s1" using p step fits(1) free_zero_only[OF s(2) p(4) step(2,3)] by (simp add: ready_def)
  moreover have "args_total_size s1 + total_size as \<le> m" using Cons.prems(3) p(5) by simp
  ultimately obtain s2 where s2: "place_args m as s1 = Inr (CL_SUCCESS, s2)" "ready s2" "only (\<Union> (slot_cells ` set (layout_from as (position s1)))) s1 s2"
      "args_total_size s2 = args_total_size s1 + total_size as" "avail (position s2) \<subseteq> avail (position s1)"
      "\<forall>sl \<in> set (layout_from as (position s1)). slot_cells sl \<inter> avail (position s2) = {}"
      "list_all2 (\<lambda>a sl. slot_fits sl \<and> holds s2 sl (arg_content a sl)) as (layout_from as (position s1))"
    using Cons.IH[OF wf(2) _ _ Cons.prems(4)] by blast
  have "slot_cells sl \<inter> \<Union> (slot_cells ` set (layout_from as (position s1))) = {}"
    using layout_from_avail[of "position s1" as] step(1,2) wf(2) by (fastforce simp: position_def)
  then have "holds s2 sl (arg_content a sl)" using holds_only[OF p(3) s2(3) _ fits(2) p(2)] s2(2) by (simp add: ready_def)
  moreover have "place_args m (a # as) s = Inr (CL_SUCCESS, s2)" using place_args_step[OF wf(1) lim] s1(1) s2(1) by simp
  moreover have lay: "layout_from (a # as) (position s) = sl # layout_from as (position s1)" using sl p(1) by simp
  moreover have "avail (position s2) \<subseteq> avail (position s)" "slot_cells sl \<inter> avail (position s2) = {}" using s2(5) step(2,3) by blast+
  ultimately show ?case using s2 p(5) fits(2) only_trans[OF p(4) s2(3)] unfolding lay by simp
qed

end
