(* ===== verification/Kernel_Properties.thy ===== *)
theory Kernel_Properties
  imports Kernel_Placing
begin

text \<open>
  Properties of the arguments of a kernel: what \<open>setArg\<close> keeps, that \<open>callArgs\<close> puts every argument into a
  place of its own where the callee finds it, and which arguments it refuses.
\<close>

subsection \<open>The start\<close>

lemma reg_word_zero: "0 \<le> w \<Longrightarrow> w < 20 \<Longrightarrow> reg_word (replicate 80 0) w = [0, 0, 0, 0]"
  by (simp add: reg_word_def min_def) (simp add: numeral_eq_Suc)

lemma ready_start: "length stack = 2048 \<Longrightarrow> length argref = 2048 \<Longrightarrow> ready (call_start stack argref)"
  using alloc_ok_start room_start
  by (auto simp: ready_def call_start_def images_ok_def free_zero_def position_def reg_start_def reg_word_zero)

lemma position_start: "position (call_start stack argref) = (reg_start, 4, 0)"
  by (simp add: position_def call_start_def reg_start_def)

subsection \<open>Sizes in the message\<close>

lemma num_regs_max:
  "num_regs r = (let m = max (max (first_apair r) (first_aquad r)) (max (first_bpair r) (first_bquad r))
     in if m \<ge> 6 then min 20 ((m - 6) * 2 + 4) else 0)"
  by (auto simp: num_regs_def REG_START_def TOTAL_REGS_def Let_def)

lemma word_side_bound:
  assumes "side_ok p q" and "\<not> side_free p q (reg_of w)" and "0 \<le> w"
  shows "6 \<le> q \<and> w < (q - 6) * 2 + 4"
proof -
  have "reg_of w < q" using assms(2) by (auto simp: side_free_def)
  moreover obtain m where "q = 4 * m" using side_even[OF assms(1)] by (auto simp: mod_eq_0_iff_dvd elim: dvdE)
  ultimately show ?thesis using assms(3) by (cases w rule: word_cases; simp; presburger)
qed

lemma num_regs_covers:
  assumes "alloc_ok r" and "\<not> free_word r w" and "0 \<le> w" and "w < 20"
  shows "w < num_regs r"
  using assms word_side_bound[of "first_apair r" "first_aquad r" w] word_side_bound[of "first_bpair r" "first_bquad r" w]
  by (auto simp: num_regs_max free_word_def alloc_ok_def Let_def split: if_splits)

lemma callArgs_placed:
  assumes "list_all wf_arg args" and "total_size args \<le> m" and "m \<le> MAX_ARGS_TOTAL_SIZE" and "length stack = 2048" and "length argref = 2048"
  obtains s where "place_args m args (call_start stack argref) = Inr (CL_SUCCESS, s)" "ready s" "args_total_size s = total_size args"
    "\<forall>sl \<in> set (layout args). slot_cells sl \<inter> avail (position s) = {}"
    "list_all2 (\<lambda>a sl. slot_fits sl \<and> holds s sl (arg_content a sl)) args (layout args)"
proof -
  let ?s = "call_start stack argref"
  have "args_total_size ?s + total_size args \<le> m" "m \<le> 1024" and zero: "args_total_size ?s = 0"
    using assms(2,3) by (simp_all add: call_start_def MAX_ARGS_TOTAL_SIZE_def)
  from place_args_placed[OF assms(1) ready_start[OF assms(4,5)] this(1,2)]
  obtain s where s: "place_args m args ?s = Inr (CL_SUCCESS, s)" "ready s" "args_total_size s = args_total_size ?s + total_size args"
      "\<forall>sl \<in> set (layout args). slot_cells sl \<inter> avail (position s) = {}"
      "list_all2 (\<lambda>a sl. slot_fits sl \<and> holds s sl (arg_content a sl)) args (layout args)"
    unfolding position_start layout_def[symmetric] by blast
  moreover have "args_total_size s = total_size args" using s(3) zero by simp
  ultimately show ?thesis using that by blast
qed

text \<open>
  What the callee reads of a message: the words it loads into registers, as many as \<open>args_in_reg_size\<close> says, and
  the bytes of the stack, as many as \<open>args_on_stack_size\<close> says.
\<close>

fun in_message :: "kernel_msg \<Rightarrow> cell \<Rightarrow> bool" where
  "in_message k (Reg_word w) \<longleftrightarrow> 0 \<le> w \<and> w < uint (args_in_reg_size k)"
| "in_message k (Stack_byte x) \<longleftrightarrow> 4 \<le> x \<and> x < uint (args_on_stack_size k)"
| "in_message k (Ref_byte x) \<longleftrightarrow> 0 \<le> x \<and> x < 1024"

lemma list_all2_mono_in: "list_all2 P xs ys \<Longrightarrow> (\<And>x y. y \<in> set ys \<Longrightarrow> P x y \<Longrightarrow> Q x y) \<Longrightarrow> list_all2 Q xs ys"
  by (simp add: list_all2_conv_all_nth)

lemma uint_small: "0 \<le> x \<Longrightarrow> x < 4294967296 \<Longrightarrow> uint (of_int x :: u32) = x"
  by (simp add: uint_word_of_int_eq take_bit_eq_mod)

fun delivered :: "call_state \<Rightarrow> kernel_msg \<Rightarrow> slot \<Rightarrow> u8 list \<Rightarrow> bool" where
  "delivered s k (Reg_slot i n) bs \<longleftrightarrow> concat (map (\<lambda>w. bytes32 LSB (args_in_reg k ! nat w)) (word_list i n)) = bs"
| "delivered s k (Stack_slot x n) bs \<longleftrightarrow> take n (drop (nat x) (args_on_stack s)) = bs"
| "delivered s k (Ref_slot p x n) bs \<longleftrightarrow> take n (drop (nat x) (args_of_argref s)) = bs \<and> (p, of_int x) \<in> set (p_argrefs s)"

definition message_of :: "call_state \<Rightarrow> kernel_msg \<Rightarrow> kernel_msg" where
  "message_of s k = k\<lparr>args_on_stack_addr := 0, args_in_reg := map (\<lambda>i. word32 LSB (take 4 (drop (4 * i) (reg_image s)))) [0..<20],
     args_in_reg_size := of_int (num_regs (regs s)), args_on_stack_size := of_int (args_on_stack_bytes s)\<rparr>"

lemma callArgs_message:
  "place_args m args (call_start stack argref) = Inr (CL_SUCCESS, s) \<Longrightarrow> callArgs m args stack argref k = Inr (CL_SUCCESS, s, message_of s k)"
  by (simp add: callArgs_def message_of_def Let_def)

lemma message_word:
  assumes "images_ok s" and "0 \<le> w" and "w < 20"
  shows "bytes32 LSB (args_in_reg (message_of s k) ! nat w) = reg_word (reg_image s) w"
proof -
  have "nat w < 20" using assms(2,3) by simp
  then show ?thesis using assms(1) by (simp add: message_of_def reg_word_def bytes32_word32 images_ok_def)
qed

lemma holds_delivered:
  assumes "holds s sl bs" and "images_ok s" and "slot_fits sl"
  shows "delivered s (message_of s k) sl bs"
proof (cases sl)
  case (Reg_slot i n)
  have "map (\<lambda>w. bytes32 LSB (args_in_reg (message_of s k) ! nat w)) (word_list i n) = map (reg_word (reg_image s)) (word_list i n)"
    by (rule map_cong[OF refl], rule message_word[OF assms(2)])
      (use assms(3) Reg_slot in \<open>auto simp: word_list_def split: if_splits\<close>)
  then show ?thesis using assms(1) unfolding Reg_slot holds.simps delivered.simps by (rule trans[OF arg_cong])
qed (use assms(1) in auto)

lemma slot_fits_cell:
  assumes "slot_fits sl" and "c \<in> slot_cells sl"
  shows "case c of Reg_word w \<Rightarrow> 0 \<le> w \<and> w < 20 | Stack_byte x \<Rightarrow> 4 \<le> x \<and> x < 2048 | Ref_byte x \<Rightarrow> 0 \<le> x \<and> x < 1024"
proof -
  have p: "place_fits p \<Longrightarrow> c \<in> place_cells p \<Longrightarrow> case c of Reg_word w \<Rightarrow> 0 \<le> w \<and> w < 20 | Stack_byte x \<Rightarrow> 4 \<le> x \<and> x < 2048 | Ref_byte x \<Rightarrow> 0 \<le> x \<and> x < 1024" for p
    by (cases p) (auto simp: reg_words_def)
  show ?thesis
  proof (cases sl)
    case (Ref_slot p x n)
    then show ?thesis using assms p by auto
  qed (use assms in \<open>auto simp: reg_words_def split: if_splits\<close>)
qed

lemma slot_in_message:
  assumes "ready s" and "slot_fits sl" and "slot_cells sl \<inter> avail (position s) = {}" and "c \<in> slot_cells sl" and "args_total_size s \<le> 1024"
  shows "in_message (message_of s k) c"
proof -
  have fits: "case c of Reg_word w \<Rightarrow> 0 \<le> w \<and> w < 20 | Stack_byte x \<Rightarrow> 4 \<le> x \<and> x < 2048 | Ref_byte x \<Rightarrow> 0 \<le> x \<and> x < 1024"
    using assms(2,4) by (rule slot_fits_cell)
  have used: "c \<notin> avail (position s)" using assms(3,4) by blast
  show ?thesis
  proof (cases c)
    case (Reg_word w)
    then have "w < num_regs (regs s)" using fits used assms(1) num_regs_covers by (simp add: ready_def position_def)
    moreover have "num_regs (regs s) \<le> 20" by (simp add: num_regs_max Let_def)
    ultimately show ?thesis using Reg_word fits by (simp add: message_of_def uint_small)
  next
    case (Stack_byte x)
    obtain R S where "4 \<le> more_arg_offset s" "R + S \<le> args_total_size s" "0 \<le> S" "first_aquad (regs s) + first_bquad (regs s) \<le> 8 + 4 * R" "more_arg_offset s \<le> 4 + 2 * S"
      using assms(1) unfolding ready_def position_def by (auto elim: roomE)
    moreover have "x < more_arg_offset s" "4 \<le> x" using used Stack_byte fits by (simp_all add: position_def)
    moreover have "8 \<le> first_aquad (regs s) + first_bquad (regs s)"
      using assms(1) by (auto simp: ready_def alloc_ok_def dest!: side_even)
    ultimately have "x < args_on_stack_bytes s" "args_on_stack_bytes s < 4294967296"
      using ROUNDUP_bounds(1,2)[where v = "more_arg_offset s" and k = 3] assms(5) by (auto simp: args_on_stack_bytes_def)
    then show ?thesis using Stack_byte \<open>4 \<le> x\<close> by (simp add: message_of_def uint_small)
  next
    case (Ref_byte x)
    then show ?thesis using fits by simp
  qed
qed

subsection \<open>Properties\<close>

text \<open>
  C6: For arguments as \<open>setArg\<close> leaves them, of at most 1024 bytes in all, \<open>callArgs\<close> returns
  success, and at the end each of them is complete in its place: the register words of the message, the stack
  image, or the area for large arguments with its offset recorded for the word that will refer to it. A
  subword in a register is extended by its sign or by 0, a buffer is the address of its device memory. Every register
  and stack byte used is among those the message announces, and no two arguments share one.
\<close>

theorem arguments_placed:
  assumes "list_all wf_arg args" and "total_size args \<le> m" and "m \<le> MAX_ARGS_TOTAL_SIZE" and "length stack = 2048" and "length argref = 2048"
  shows "\<exists>s k'. callArgs m args stack argref k = Inr (CL_SUCCESS, s, k') \<and>
     list_all2 (\<lambda>a sl. delivered s k' sl (arg_content a sl) \<and> (\<forall>c \<in> slot_cells sl. in_message k' c)) args (layout args) \<and>
     (\<forall>i j. i < j \<longrightarrow> j < length args \<longrightarrow> slot_cells (layout args ! i) \<inter> slot_cells (layout args ! j) = {})"
proof -
  obtain s where s: "place_args m args (call_start stack argref) = Inr (CL_SUCCESS, s)" "ready s" "args_total_size s = total_size args"
      "\<forall>sl \<in> set (layout args). slot_cells sl \<inter> avail (position s) = {}"
      "list_all2 (\<lambda>a sl. slot_fits sl \<and> holds s sl (arg_content a sl)) args (layout args)"
    using assms by (rule callArgs_placed)
  have small: "args_total_size s \<le> 1024" using s(3) assms(2,3) by (simp add: MAX_ARGS_TOTAL_SIZE_def)
  have "list_all2 (\<lambda>a sl. delivered s (message_of s k) sl (arg_content a sl) \<and> (\<forall>c \<in> slot_cells sl. in_message (message_of s k) c)) args (layout args)"
    using s(5)
  proof (rule list_all2_mono_in)
    fix a sl assume "sl \<in> set (layout args)" "slot_fits sl \<and> holds s sl (arg_content a sl)"
    then show "delivered s (message_of s k) sl (arg_content a sl) \<and> (\<forall>c \<in> slot_cells sl. in_message (message_of s k) c)"
      using holds_delivered[of s sl] slot_in_message[OF s(2) _ _ _ small] s(2,4) by (auto simp: ready_def)
  qed
  moreover have "slot_cells (layout args ! i) \<inter> slot_cells (layout args ! j) = {}" if "i < j" "j < length args" for i j
    using layout_from_disjoint[of "(reg_start, 4, 0)" args i j] that alloc_ok_start assms(1) list_all2_lengthD[OF s(5)] by (simp add: layout_def)
  ultimately show ?thesis using callArgs_message[OF s(1), of k] by blast
qed

text \<open>A kernel with a character, a vector of sixteen floats, a buffer and a vector of three ints.\<close>

definition char_arg :: Arg where
  "char_arg = \<lparr>p_vec_dim = 1, p_file = Private, p_kind = Int8, p_data = Some (Bytes [0xFF]), p_defined = True, p_runtime_alloc = 0,
     p_is_subword_int_uns = False\<rparr>"

definition float16_arg :: Arg where
  "float16_arg = \<lparr>p_vec_dim = 16, p_file = Private, p_kind = Float, p_data = Some (Bytes (replicate 64 7)), p_defined = True, p_runtime_alloc = 0,
     p_is_subword_int_uns = False\<rparr>"

definition buffer_arg :: Arg where
  "buffer_arg = \<lparr>p_vec_dim = 1, p_file = Global, p_kind = Buffer,
     p_data = Some (Mem (Some \<lparr>flags = 1, host_ptr_clMalloced = False, buffer_size = 64, device_data = 0x80000000\<rparr>)), p_defined = True,
     p_runtime_alloc = 0, p_is_subword_int_uns = False\<rparr>"

definition int3_arg :: Arg where
  "int3_arg = \<lparr>p_vec_dim = 3, p_file = Private, p_kind = Int32, p_data = Some (Bytes (replicate 16 9)), p_defined = True, p_runtime_alloc = 0,
     p_is_subword_int_uns = False\<rparr>"

lemmas sample_args = char_arg_def float16_arg_def buffer_arg_def int3_arg_def

lemma sample_args_wf: "list_all wf_arg [char_arg, float16_arg, buffer_arg, int3_arg]" "total_size [char_arg, float16_arg, buffer_arg, int3_arg] = 85"
  by (simp_all add: sample_args wf_arg_def vecValueSize_def valueSize_def arg_size_def)

theorem arguments_placed_witness:
  "\<forall>k. \<exists>s k'. callArgs 1024 [char_arg, float16_arg, buffer_arg, int3_arg] (replicate 2048 0) (replicate 2048 0) k = Inr (CL_SUCCESS, s, k') \<and>
     delivered s k' (layout [char_arg, float16_arg, buffer_arg, int3_arg] ! 0) (arg_content char_arg (layout [char_arg, float16_arg, buffer_arg, int3_arg] ! 0))"
proof
  fix k
  let ?as = "[char_arg, float16_arg, buffer_arg, int3_arg]"
  obtain s k' where s: "callArgs 1024 ?as (replicate 2048 0) (replicate 2048 0) k = Inr (CL_SUCCESS, s, k')"
      "list_all2 (\<lambda>a sl. delivered s k' sl (arg_content a sl) \<and> (\<forall>c \<in> slot_cells sl. in_message k' c)) ?as (layout ?as)"
    using arguments_placed[of ?as 1024 "replicate 2048 0" "replicate 2048 0" k] sample_args_wf by (auto simp: MAX_ARGS_TOTAL_SIZE_def)
  then show "\<exists>s k'. callArgs 1024 ?as (replicate 2048 0) (replicate 2048 0) k = Inr (CL_SUCCESS, s, k') \<and>
      delivered s k' (layout ?as ! 0) (arg_content char_arg (layout ?as ! 0))"
    using list_all2_nthD[OF s(2), of 0] by auto
qed

lemma place_args_append:
  "place_args m as s = Inr (CL_SUCCESS, s') \<Longrightarrow> place_args m (as @ bs) s = place_args m bs s'"
proof (induction as arbitrary: s)
  case (Cons a as)
  from Cons.prems show ?case
    by (auto simp: Let_def CL_INVALID_ARG_SIZE_def CL_INVALID_KERNEL_ARGS_def bindR_eq_Inr Cons.IH split: if_splits)
qed simp

definition refused :: "int \<Rightarrow> Arg list \<Rightarrow> Arg \<Rightarrow> bool" where
  "refused m before b \<longleftrightarrow> vecValueSize b = 0 \<or> total_size before + int (vecValueSize b) > m \<or> p_kind b \<in> {Image2D, Image3D}"

text \<open>
  C33: At the first argument that has no size, is an image, or makes the total exceed the
  limit, \<open>callArgs\<close> returns the error code for it, and the sizes in the message stay as they were.
\<close>

theorem arguments_refused:
  assumes "list_all wf_arg before" and "total_size before \<le> m" and "m \<le> MAX_ARGS_TOTAL_SIZE" and "length stack = 2048" and "length argref = 2048"
    and "refused m before b"
  shows "\<exists>s k'. callArgs m (before @ b # rest) stack argref k =
       Inr (if vecValueSize b = 0 then CL_INVALID_ARG_SIZE else CL_INVALID_KERNEL_ARGS, s, k') \<and>
     args_in_reg_size k' = args_in_reg_size k \<and> args_on_stack_size k' = args_on_stack_size k"
proof -
  obtain s where s: "place_args m before (call_start stack argref) = Inr (CL_SUCCESS, s)" "args_total_size s = total_size before"
    using assms(1-5) by (rule callArgs_placed)
  have "\<exists>s'. place_args m (b # rest) s = Inr (if vecValueSize b = 0 then CL_INVALID_ARG_SIZE else CL_INVALID_KERNEL_ARGS, s')"
    using assms(6) s(2) by (auto simp: refused_def Let_def)
  then obtain s' where "place_args m (b # rest) s = Inr (if vecValueSize b = 0 then CL_INVALID_ARG_SIZE else CL_INVALID_KERNEL_ARGS, s')" ..
  then have "place_args m (before @ b # rest) (call_start stack argref) = Inr (if vecValueSize b = 0 then CL_INVALID_ARG_SIZE else CL_INVALID_KERNEL_ARGS, s')"
    using place_args_append[OF s(1)] by simp
  then show ?thesis by (simp add: callArgs_def Let_def CL_INVALID_ARG_SIZE_def CL_INVALID_KERNEL_ARGS_def)
qed

theorem arguments_refused_witness:
  "\<forall>k. \<exists>s k'. callArgs 1024 ([char_arg] @ buffer_arg\<lparr>p_kind := Image2D\<rparr> # []) (replicate 2048 0) (replicate 2048 0) k = Inr (CL_INVALID_KERNEL_ARGS, s, k')"
proof
  fix k
  have "refused 1024 [char_arg] (buffer_arg\<lparr>p_kind := Image2D\<rparr>)" "vecValueSize (buffer_arg\<lparr>p_kind := Image2D\<rparr>) = 4"
    by (simp_all add: refused_def sample_args vecValueSize_def valueSize_def)
  then show "\<exists>s k'. callArgs 1024 ([char_arg] @ buffer_arg\<lparr>p_kind := Image2D\<rparr> # []) (replicate 2048 0) (replicate 2048 0) k = Inr (CL_INVALID_KERNEL_ARGS, s, k')"
    using arguments_refused[of "[char_arg]" 1024 "replicate 2048 0" "replicate 2048 0" "buffer_arg\<lparr>p_kind := Image2D\<rparr>" "[]" k] sample_args_wf
    by (auto simp: MAX_ARGS_TOTAL_SIZE_def)
qed

subsection \<open>Setting arguments\<close>

text \<open>
  The arguments of a kernel before any is set, what \<open>setArg\<close> keeps of them, and a program that sets
  arguments one after the other, whatever \<open>setArg\<close> returns.
\<close>

definition proto :: "Arg \<Rightarrow> bool" where
  "proto a \<longleftrightarrow> p_vec_dim a \<in> {1, 2, 3, 4, 8, 16} \<and> p_kind a \<noteq> Invalid \<and>
     (p_kind a \<in> {Buffer, Image2D, Image3D} \<longrightarrow> p_vec_dim a = 1) \<and> (p_file a = Local \<longrightarrow> p_kind a = Buffer)"

definition arg_ok :: "Arg \<Rightarrow> bool" where
  "arg_ok a \<longleftrightarrow> proto a \<and> (p_file a = Local \<longrightarrow> p_data a = None) \<and> (p_data a = None \<longrightarrow> p_defined a \<longrightarrow> p_file a = Local) \<and>
     (case p_data a of Some (Bytes bs) \<Rightarrow> p_kind a \<notin> {Buffer, Image2D, Image3D} \<and> length bs = vecValueSize a
      | Some (Mem _) \<Rightarrow> p_kind a \<in> {Buffer, Image2D, Image3D} | None \<Rightarrow> True)"

lemma arg_ok_wf: "arg_ok a \<Longrightarrow> p_defined a \<Longrightarrow> p_kind a \<notin> {Image2D, Image3D} \<Longrightarrow> wf_arg a"
  by (auto simp: arg_ok_def proto_def wf_arg_def split: option.splits arg_data.splits)

lemma loadData_ok:
  assumes "loadData junk a bs = Inr a'" and "proto a" and "p_file a \<noteq> Local" and "p_kind a \<notin> {Buffer, Image2D, Image3D}"
  shows "arg_ok a' \<and> p_defined a'"
  using assms by (auto simp: loadData_def Let_def arg_ok_def proto_def vecValueSize_def valueSize_def split: if_splits)

lemma setArg_cases:
  assumes "setArg junk args i sz v = Inr (c, args')" and "list_all arg_ok args"
  obtains (error) "c \<noteq> CL_SUCCESS" "args' = args" | (set_arg) a where "c = CL_SUCCESS" "i < length args" "args' = args[i := a]" "arg_ok a" "p_defined a"
proof (cases "i < length args")
  case False
  then show ?thesis using assms(1) error by (auto simp: setArg_def index_def CL_INVALID_ARG_INDEX_def split: if_splits)
next
  case True
  let ?a = "args ! i"
  have a: "arg_ok ?a" "proto ?a" using assms(2) True by (auto simp: list_all_length arg_ok_def)
  have at: "index args i = Inr ?a" using True by (simp add: index_def)
  show ?thesis
  proof (cases "p_file ?a = Local")
    case local: True
    have "arg_ok (?a\<lparr>p_runtime_alloc := of_nat sz, p_defined := True\<rparr>)" using a local by (simp add: arg_ok_def proto_def)
    then show ?thesis using assms(1) True at local error set_arg[of "?a\<lparr>p_runtime_alloc := of_nat sz, p_defined := True\<rparr>"]
      by (auto simp: setArg_def CL_INVALID_ARG_SIZE_def CL_INVALID_ARG_VALUE_def split: if_splits)
  next
    case glob: False
    have sampler: "arg_ok a \<and> p_defined a" if "loadData junk (?a\<lparr>p_kind := Sampler\<rparr>) bs = Inr a" for a bs
      using loadData_ok[OF that] a(2) glob by (simp add: proto_def)
    have raw: "arg_ok a \<and> p_defined a" if "loadData junk ?a bs = Inr a" "p_kind ?a \<notin> {Buffer, Image2D, Image3D}" for a bs
      using loadData_ok[OF that(1) a(2) glob that(2)] .
    have mem: "arg_ok (?a\<lparr>p_data := Some (Mem b), p_defined := True\<rparr>)" if "p_kind ?a \<in> {Buffer, Image2D, Image3D}" for b
      using a(2) that glob by (auto simp: arg_ok_def proto_def)
    consider "c \<noteq> CL_SUCCESS" "args' = args"
      | a bs where "c = CL_SUCCESS" "args' = args[i := a]" "loadData junk (?a\<lparr>p_kind := Sampler\<rparr>) bs = Inr a"
      | a bs where "c = CL_SUCCESS" "args' = args[i := a]" "loadData junk ?a bs = Inr a" "p_kind ?a \<notin> {Buffer, Image2D, Image3D}"
      | b where "c = CL_SUCCESS" "args' = args[i := ?a\<lparr>p_data := Some (Mem b), p_defined := True\<rparr>]" "p_kind ?a \<in> {Buffer, Image2D, Image3D}"
      using assms(1) True at glob
      by (auto simp: setArg_def Let_def CL_INVALID_ARG_SIZE_def CL_INVALID_ARG_VALUE_def bindR_eq_Inr split: if_splits arg_value.splits bool.splits)
    then show ?thesis
    proof cases
      case 1
      then show ?thesis by (rule error)
    next
      case 2
      then show ?thesis using sampler set_arg True by blast
    next
      case 3
      then show ?thesis using raw set_arg True by blast
    next
      case (4 b)
      then show ?thesis using mem[of b] set_arg[OF 4(1) True 4(2)] by simp
    qed
  qed
qed

fun set_args :: "(u8 list \<times> nat \<times> nat \<times> arg_value) list \<Rightarrow> Arg list \<Rightarrow> Arg list result" where
  "set_args [] args = Inr args"
| "set_args ((junk, i, sz, v) # cs) args = bindR (setArg junk args i sz v) (\<lambda>(c, args). set_args cs args)"

lemma set_args_ok: "set_args cs args = Inr args' \<Longrightarrow> list_all arg_ok args \<Longrightarrow> list_all arg_ok args'"
proof (induction cs arbitrary: args)
  case (Cons call cs)
  obtain junk i sz v where call: "call = (junk, i, sz, v)" by (rule prod_cases4)
  from Cons.prems(1) obtain c args1 where s: "setArg junk args i sz v = Inr (c, args1)" "set_args cs args1 = Inr args'"
    by (auto simp: call bindR_eq_Inr)
  from s(1) Cons.prems(2) have "list_all arg_ok args1"
  proof (cases rule: setArg_cases)
    case (set_arg a)
    then show ?thesis using Cons.prems(2) by (auto simp: list_all_length nth_list_update)
  qed (use Cons.prems(2) in simp)
  then show ?case using Cons.IH s(2) by blast
qed simp

text \<open>
  C7: However a program sets the arguments of a kernel, by any sequence of calls of
  \<open>setArg\<close>, failed ones included: once \<open>argsSpecified\<close> says that all are set, none is an image and the
  total is within the limit, \<open>callArgs\<close> succeeds.
\<close>

theorem set_arguments_launch:
  assumes "list_all (\<lambda>a. proto a \<and> p_data a = None \<and> \<not> p_defined a) protos" and "set_args cs protos = Inr args"
    and "argsSpecified args" and "list_all (\<lambda>a. p_kind a \<notin> {Image2D, Image3D}) args" and "total_size args \<le> MAX_ARGS_TOTAL_SIZE"
    and "length stack = 2048" and "length argref = 2048"
  shows "\<exists>s k'. callArgs MAX_ARGS_TOTAL_SIZE args stack argref k = Inr (CL_SUCCESS, s, k')"
proof -
  have "list_all arg_ok protos" using assms(1) by (auto simp: list_all_iff arg_ok_def)
  then have "list_all arg_ok args" by (rule set_args_ok[OF assms(2)])
  then have "list_all wf_arg args" using assms(3,4) arg_ok_wf by (auto simp: list_all_iff argsSpecified_def)
  then obtain s where "place_args MAX_ARGS_TOTAL_SIZE args (call_start stack argref) = Inr (CL_SUCCESS, s)"
    using callArgs_placed[OF _ assms(5) order_refl assms(6,7)] by blast
  then show ?thesis using callArgs_message by blast
qed

definition int_proto :: Arg where
  "int_proto = \<lparr>p_vec_dim = 1, p_file = Private, p_kind = Int32, p_data = None, p_defined = False, p_runtime_alloc = 0, p_is_subword_int_uns = False\<rparr>"

definition local_proto :: Arg where
  "local_proto = \<lparr>p_vec_dim = 1, p_file = Local, p_kind = Buffer, p_data = None, p_defined = False, p_runtime_alloc = 0, p_is_subword_int_uns = False\<rparr>"

definition sample_calls :: "(u8 list \<times> nat \<times> nat \<times> arg_value) list" where
  "sample_calls = [([0, 0, 0, 0], 0, 8, Raw [1, 2, 3, 4]), ([0, 0, 0, 0], 0, 4, Raw [1, 2, 3, 4]), ([], 1, 64, No_value)]"

lemma sample_calls_set:
  "set_args sample_calls [int_proto, local_proto] =
     Inr [int_proto\<lparr>p_data := Some (Bytes [1, 2, 3, 4]), p_defined := True\<rparr>, local_proto\<lparr>p_runtime_alloc := 64, p_defined := True\<rparr>]"
  by (simp add: sample_calls_def setArg_def int_proto_def local_proto_def loadData_def alloc_def vecValueSize_def valueSize_def Let_def)

theorem set_arguments_launch_witness:
  "\<forall>k. \<exists>args. set_args sample_calls [int_proto, local_proto] = Inr args \<and>
     (\<exists>s k'. callArgs MAX_ARGS_TOTAL_SIZE args (replicate 2048 0) (replicate 2048 0) k = Inr (CL_SUCCESS, s, k'))"
proof
  fix k
  show "\<exists>args. set_args sample_calls [int_proto, local_proto] = Inr args \<and>
     (\<exists>s k'. callArgs MAX_ARGS_TOTAL_SIZE args (replicate 2048 0) (replicate 2048 0) k = Inr (CL_SUCCESS, s, k'))"
    unfolding sample_calls_set
    using set_arguments_launch[OF _ sample_calls_set, of "replicate 2048 0" "replicate 2048 0" k]
    by (simp add: proto_def argsSpecified_def int_proto_def local_proto_def arg_size_def vecValueSize_def valueSize_def MAX_ARGS_TOTAL_SIZE_def)
qed

text \<open>
  \<open>setArg\<close> refuses an index above the number of arguments and leaves the arguments as
  they are, but an index equal to that number reads behind the vector of arguments.
\<close>

lemma set_arg_index_limit:
  "i > length args \<Longrightarrow> setArg junk args i sz v = Inr (CL_INVALID_ARG_INDEX, args)"
  "setArg junk args (length args) sz v = Inl Undefined"
  by (simp_all add: setArg_def index_def)

end
