(* ===== verification/Host_Mail.thy ===== *)
theory Host_Mail
  imports Monitor
begin

text \<open>
  The host's end of the mail between host and cores: the core scheduler (\<open>core_scheduler.h\<close>), the table of
  events that wait for answers (\<open>u_concurrent_map.h\<close>), sending and receiving messages
  (\<open>rootdevice.cpp\<close>, \<open>device.cpp\<close>), and the completion of a kernel event (\<open>HandleEventCompletion\<close> of
  \<open>offload/worker.h\<close>). The operations on scheduler and table hold their locks from start to end, so they
  are atomic. Output and the recording of profiling data are not modelled.
\<close>

subsection \<open>The core scheduler\<close>

text \<open>A set of compute units: their numbers in ascending order.\<close>

type_synonym DSPCoreSet = "u8 list"

record CoreScheduler =
  sched_depth :: u32
  sched_count :: "u32 \<Rightarrow> int option"

definition CORE_SCHEDULER_DEFAULT_DEPTH :: u32 where "CORE_SCHEDULER_DEFAULT_DEPTH = 4"

definition CoreScheduler_new :: "DSPCoreSet \<Rightarrow> u32 \<Rightarrow> CoreScheduler" where
  "CoreScheduler_new compute_units d =
     \<lparr>sched_depth = d, sched_count = (\<lambda>c. if c \<in> ucast ` set compute_units then Some 0 else None)\<rparr>"

text \<open>Reading \<open>count_[core]\<close> enters 0 for a core that is not in the map; \<open>touch\<close> does so for the cores of a loop.\<close>

definition count_at :: "CoreScheduler \<Rightarrow> u32 \<Rightarrow> int" where
  "count_at s core = (case sched_count s core of None \<Rightarrow> 0 | Some n \<Rightarrow> n)"

definition touch :: "DSPCoreSet \<Rightarrow> CoreScheduler \<Rightarrow> CoreScheduler" where
  "touch compute_units s = s\<lparr>sched_count := (\<lambda>c. if c \<in> ucast ` set compute_units then Some (count_at s c) else sched_count s c)\<rparr>"

definition any_core_available :: "DSPCoreSet \<Rightarrow> CoreScheduler \<Rightarrow> bool" where
  "any_core_available compute_units s \<longleftrightarrow>
     (\<Sum>c \<leftarrow> compute_units. count_at s (ucast c)) < int (length compute_units) * uint (sched_depth s)"

definition core_reserve :: "u32 \<Rightarrow> CoreScheduler \<Rightarrow> CoreScheduler" where
  "core_reserve core s = s\<lparr>sched_count := (sched_count s)(core \<mapsto> count_at s core + 1)\<rparr>"

definition core_release :: "u32 \<Rightarrow> CoreScheduler \<Rightarrow> CoreScheduler" where
  "core_release core s = s\<lparr>sched_count := (sched_count s)(core \<mapsto> count_at s core - 1)\<rparr>"

text \<open>A count is compared with the depth as an unsigned number.\<close>

fun select_loop :: "CoreScheduler \<Rightarrow> DSPCoreSet \<Rightarrow> u32 \<Rightarrow> u32 \<Rightarrow> u32" where
  "select_loop s [] min_depth min_core = min_core"
| "select_loop s (c # cs) min_depth min_core =
     (if (of_int (count_at s (ucast c)) :: u32) < min_depth then select_loop s cs (of_int (count_at s (ucast c))) (ucast c)
      else select_loop s cs min_depth min_core)"

definition core_select :: "DSPCoreSet \<Rightarrow> CoreScheduler \<Rightarrow> u32 result" where
  "core_select compute_units s = bindR (index compute_units 0) (\<lambda>c. Inr (select_loop s compute_units (sched_depth s) (ucast c)))"

text \<open>\<open>Inr None\<close>: the caller waits.\<close>

definition sched_allocate :: "DSPCoreSet \<Rightarrow> CoreScheduler \<Rightarrow> (u32 \<times> CoreScheduler) option result" where
  "sched_allocate compute_units s =
     (if compute_units = [] then Inl AssertFail
      else let s = touch compute_units s
           in if any_core_available compute_units s
              then bindR (core_select compute_units s) (\<lambda>core. Inr (Some (core, core_reserve core s)))
              else Inr None)"

definition sched_free :: "u32 \<Rightarrow> CoreScheduler \<Rightarrow> CoreScheduler result" where
  "sched_free core s = (if sched_count s core = None then Inl AssertFail else Inr (core_release core s))"

subsection \<open>Events that wait for answers\<close>

record 'e concurrent_map =
  M :: "u32 \<Rightarrow> ('e \<times> u32) option"
  num_elements :: int

definition cm_push :: "u32 \<Rightarrow> 'e \<Rightarrow> u32 \<Rightarrow> 'e concurrent_map \<Rightarrow> 'e concurrent_map" where
  "cm_push idx data cnt m = m\<lparr>M := (M m)(idx \<mapsto> (data, cnt)), num_elements := num_elements m + 1\<rparr>"

definition try_pop :: "u32 \<Rightarrow> 'e concurrent_map \<Rightarrow> 'e option \<times> 'e concurrent_map" where
  "try_pop idx m = (case M m idx of
       None \<Rightarrow> (None, m)
     | Some (data, cnt) \<Rightarrow>
         if cnt - 1 = 0 then (Some data, m\<lparr>M := (M m)(idx := None), num_elements := num_elements m - 1\<rparr>)
         else (None, m\<lparr>M := (M m)(idx \<mapsto> (data, cnt - 1))\<rparr>))"

subsection \<open>Sending\<close>

text \<open>The host: \<open>kernel_errors\<close> is the static map of \<open>HandleEventCompletion\<close>.\<close>

record 'e host =
  core_scheduler :: CoreScheduler
  p_complete_pending :: "'e concurrent_map"
  kernel_errors :: "int \<Rightarrow> int option"
  p_exit_acked :: bool

definition IS_OOO_TASK :: "command_codes \<Rightarrow> u32 \<Rightarrow> bool" where
  "IS_OOO_TASK cmd global_size0 \<longleftrightarrow> cmd = TASK \<and> global_size0 \<noteq> IN_ORDER_TASK_SIZE"

definition IS_DEBUG_MODE :: "Msg \<Rightarrow> bool" where
  "IS_DEBUG_MODE m \<longleftrightarrow> WG_gid_start (config m) ! 0 = DEBUG_MODE_WG_GID_START"

definition numHostMails :: "DSPCoreSet \<Rightarrow> Msg \<Rightarrow> u32" where
  "numHostMails compute_units m =
     (if command m \<in> {EXIT, CACHEINV, SETUP_DEBUG, CONFIGURE_MONITOR} \<or> command m = NDRKERNEL \<and> \<not> IS_DEBUG_MODE m
      then of_nat (length compute_units) else 1)"

text \<open>
  The cores that get the message, in the order of sending. \<open>Inr None\<close>: the sender waits for a core. A message
  of another kind ends the process.
\<close>

definition mail_to :: "Msg \<Rightarrow> DSPCoreSet \<Rightarrow> CoreScheduler \<Rightarrow> (u32 list \<times> CoreScheduler) option result" where
  "mail_to m compute_units s = (case command m of
       TASK \<Rightarrow> if IS_OOO_TASK (command m) (global_size (config m) ! 0)
         then bindR (sched_allocate compute_units s) (\<lambda>r. Inr (map_option (\<lambda>(core, s). ([core], s)) r))
         else Inr (Some (map ucast compute_units, s))
     | FREQUENCY \<Rightarrow> if compute_units = [] then Inl AssertFail else Inr (Some ([ucast (hd compute_units)], s))
     | PRINT \<Rightarrow> Inl (Exit 1)
     | _ \<Rightarrow> if IS_DEBUG_MODE m
         then if compute_units = [] then Inl AssertFail else Inr (Some ([ucast (hd compute_units)], s))
         else Inr (Some (map ucast compute_units, s)))"

subsection \<open>Receiving\<close>

text \<open>
  What the host reads of a message from a core. The core answers in the message it got: the return
  code and, when the kernel is profiled, \<open>profiling_status\<close> and two counters are written into the union over the
  configuration. The status is the lowest byte of \<open>global_size[0]\<close>, the counters are the two other sizes.
\<close>

record rx_msg =
  rx_command :: command_codes
  rx_core :: u8
  rx_trans_id :: u32
  rx_retcode :: int
  rx_global_size0 :: u32

definition rx_of :: "Msg \<Rightarrow> u8 \<Rightarrow> u8 \<Rightarrow> reply \<Rightarrow> rx_msg" where
  "rx_of m core profiling_status r =
     \<lparr>rx_command = command m, rx_core = core, rx_trans_id = trans_id r, rx_retcode = retcode r,
      rx_global_size0 = (let g0 = global_size (config m) ! 0
        in if with_profile r then (g0 AND NOT 0xFF) OR ucast profiling_status else g0)\<rparr>"

text \<open>The number of the message and, unless it is only output or the answer to \<open>EXIT\<close>, its return code.\<close>

definition mail_from :: "DSPCoreSet \<Rightarrow> rx_msg \<Rightarrow> 'e host \<Rightarrow> (int \<times> int option \<times> 'e host) result" where
  "mail_from compute_units rx h =
     (if rx_command rx = PRINT then Inr (-1, None, h)
      else if rx_command rx = EXIT then Inr (-1, None, h\<lparr>p_exit_acked := True\<rparr>)
      else bindR (if IS_OOO_TASK (rx_command rx) (rx_global_size0 rx) \<and> rx_core rx \<in> set compute_units
                  then bindR (sched_free (ucast (rx_core rx)) (core_scheduler h)) (\<lambda>s. Inr (h\<lparr>core_scheduler := s\<rparr>))
                  else Inr h) (\<lambda>h.
             Inr (sint (rx_trans_id rx), Some (rx_retcode rx), h)))"

text \<open>The event that is complete, if one is, with the return code for its status.\<close>

definition handle_event_completion :: "DSPCoreSet \<Rightarrow> rx_msg \<Rightarrow> 'e host \<Rightarrow> (('e \<times> int) option \<times> 'e host) result" where
  "handle_event_completion compute_units rx h =
     bindR (mail_from compute_units rx h) (\<lambda>(k_id, rc, h).
     let retcode = (case rc of None \<Rightarrow> CL_SUCCESS | Some rc \<Rightarrow> rc)
     in if k_id < 0 then Inr (None, h)
        else let (popped, m) = try_pop (of_int k_id) (p_complete_pending h); h = h\<lparr>p_complete_pending := m\<rparr>
             in case popped of
                  None \<Rightarrow> Inr (None, if retcode \<noteq> CL_SUCCESS then h\<lparr>kernel_errors := (kernel_errors h)(k_id \<mapsto> retcode)\<rparr> else h)
                | Some event \<Rightarrow>
                    (case kernel_errors h k_id of
                       None \<Rightarrow> Inr (Some (event, retcode), h)
                     | Some e \<Rightarrow> Inr (Some (event, e), h\<lparr>kernel_errors := (kernel_errors h)(k_id := None)\<rparr>)))"

text \<open>The completion thread: the messages in the order in which they arrive, and the events that complete.\<close>

fun completion_thread :: "DSPCoreSet \<Rightarrow> rx_msg list \<Rightarrow> 'e host \<Rightarrow> (('e \<times> int) list \<times> 'e host) result" where
  "completion_thread compute_units [] h = Inr ([], h)"
| "completion_thread compute_units (rx # rxs) h =
     bindR (handle_event_completion compute_units rx h) (\<lambda>(c, h).
     bindR (completion_thread compute_units rxs h) (\<lambda>(cs, h). Inr ((case c of None \<Rightarrow> cs | Some x \<Rightarrow> x # cs), h)))"

definition push_complete_pending :: "u32 \<Rightarrow> 'e \<Rightarrow> u32 \<Rightarrow> 'e host \<Rightarrow> 'e host" where
  "push_complete_pending idx data cnt h = h\<lparr>p_complete_pending := cm_push idx data cnt (p_complete_pending h)\<rparr>"

end
