(* ===== verification/Monitor_NDRange.thy ===== *)
theory Monitor_NDRange
  imports Monitor
begin

text \<open>
  The work-groups of an NDRange kernel: the loop of a core visits its part of the grid in order, the
  parts of the cores are disjoint and cover the grid, and the number the monitor gives a work-group is
  its place in the grid.
\<close>

subsection \<open>The grid\<close>

text \<open>
  A dimension is its local size and its number of work-groups. The work-group with number \<open>t\<close> begins at
  the multiples of the local sizes that are the digits of \<open>t\<close>, the first dimension being the fastest.
\<close>

type_synonym dim = "u32 \<times> nat"

fun wg_vec :: "dim list \<Rightarrow> nat \<Rightarrow> u32 list" where
  "wg_vec [] t = []"
| "wg_vec ((l, n) # ds) t = of_nat (t mod n) * l # wg_vec ds (t div n)"

definition grid :: "dim list \<Rightarrow> nat" where
  "grid ds = prod_list (map snd ds)"

definition dim_ok :: "dim \<Rightarrow> bool" where
  "dim_ok d \<longleftrightarrow> 0 < fst d \<and> 0 < snd d \<and> snd d < 2 ^ 31 \<and> snd d * unat (fst d) < 2 ^ 32"

definition extent_of :: "dim \<Rightarrow> u32" where
  "extent_of d = of_nat (snd d) * fst d"

lemma dim_ok_part: "dim_ok (l, n) \<Longrightarrow> 0 < w \<Longrightarrow> w \<le> n \<Longrightarrow> dim_ok (l, w)"
  unfolding dim_ok_def fst_conv snd_conv by (meson le_less_trans mult_le_mono1)

lemma grid_simps [simp]: "grid [] = 1" "grid (d # ds) = snd d * grid ds" "grid (as @ bs) = grid as * grid bs"
  by (simp_all add: grid_def)

lemma grid_pos: "\<forall>d \<in> set ds. dim_ok d \<Longrightarrow> 0 < grid ds"
  by (induction ds) (auto simp: dim_ok_def)

lemma length_wg_vec [simp]: "length (wg_vec ds t) = length ds"
  by (induction ds arbitrary: t) auto

lemma wg_vec_append: "wg_vec (as @ bs) t = wg_vec as t @ wg_vec bs (t div grid as)"
  by (induction as arbitrary: t) (auto simp: div_mult2_eq)

lemma wg_vec_zero: "wg_vec ds 0 = replicate (length ds) 0"
  by (induction ds) auto

lemma wg_vec_period: "0 < grid ds \<Longrightarrow> wg_vec ds (k * grid ds + t) = wg_vec ds t"
proof (induction ds arbitrary: k t)
  case (Cons d ds)
  obtain l n where d: "d = (l, n)" by (cases d)
  have n: "0 < n" "0 < grid ds" using Cons.prems d by auto
  have e: "k * (n * grid ds) + t = n * (k * grid ds) + t" by (simp add: algebra_simps)
  have "(k * (n * grid ds) + t) mod n = t mod n" "(k * (n * grid ds) + t) div n = k * grid ds + t div n"
    unfolding e using n by simp_all
  with Cons.IH[OF n(2), of k "t div n"] d show ?case by simp
qed simp

lemma grid_ones: "\<forall>d \<in> set ds. snd d = 1 \<Longrightarrow> grid ds = 1"
  by (induction ds) auto

lemma wg_vec_single: "\<forall>d \<in> set ds. snd d = 1 \<Longrightarrow> wg_vec ds t = replicate (length ds) 0"
  by (induction ds arbitrary: t) auto

subsection \<open>Stepping through the grid\<close>

lemma unat_steps: "k \<le> n \<Longrightarrow> n * unat l < 2 ^ 32 \<Longrightarrow> unat (of_nat k * l :: u32) = k * unat l"
proof -
  assume "k \<le> n" "n * unat l < 2 ^ 32"
  moreover from this have "k * unat l < 2 ^ 32" by (meson le_less_trans mult_le_mono1)
  moreover have "of_nat k * l = (of_nat (k * unat l) :: u32)" by simp
  ultimately show ?thesis by (simp only: unat_of_nat take_bit_nat_eq_self) (simp add: take_bit_nat_eq_self)
qed

lemma step_less:
  assumes "dim_ok (l, n)" and "k < n"
  shows "(of_nat k * l + l :: u32) < extent_of (l, n) \<longleftrightarrow> Suc k < n"
proof -
  have "of_nat k * l + l = of_nat (Suc k) * l" by (simp add: algebra_simps)
  moreover have "unat (of_nat (Suc k) * l) = Suc k * unat l" "unat (of_nat n * l) = n * unat l"
    using assms unat_steps[of "Suc k" n l] unat_steps[of n n l] by (simp_all add: dim_ok_def del: of_nat_Suc)
  moreover have "0 < unat l" using assms(1) by (simp add: dim_ok_def word_less_nat_alt)
  ultimately show ?thesis
    by (simp only: extent_of_def word_less_nat_alt fst_conv snd_conv mult_less_cancel2) simp
qed

lemma incVec_loop_grid:
  assumes "\<forall>d \<in> set ds. dim_ok d" and "t < grid ds" and "length pre = i" and "length pre1 = i" and "length pre2 = i"
  shows "incVec_loop [i..<i + length ds] True (pre @ wg_vec ds t @ post) (pre1 @ map fst ds @ post1)
     (pre2 @ map extent_of ds @ post2) = Inr (Suc t = grid ds, pre @ wg_vec ds (Suc t mod grid ds) @ post)"
  using assms
proof (induction ds arbitrary: i t pre pre1 pre2)
  case (Cons d ds)
  obtain l n where d: "d = (l, n)" by (cases d)
  have ok: "dim_ok (l, n)" "\<forall>d \<in> set ds. dim_ok d" "0 < n" using Cons.prems(1) d by (auto simp: dim_ok_def)
  have upt: "[i..<i + length (d # ds)] = i # [Suc i..<Suc i + length ds]" by (simp add: upt_rec)
  have t: "t div n < grid ds" using Cons.prems(2) d by (simp add: less_mult_imp_div_less mult.commute)
  have step: "(of_nat (t mod n) * l + l < extent_of (l, n)) = (Suc (t mod n) < n)"
    using step_less[OF ok(1)] ok(3) by simp
  show ?case
  proof (cases "Suc (t mod n) < n")
    case True
    then have s: "Suc t mod n = Suc (t mod n)" "Suc t div n = t div n" by (simp_all add: mod_Suc div_Suc)
    have "Suc t \<noteq> n * grid ds" using True s(1) by auto
    moreover have "Suc t < n * grid ds" using Cons.prems(2) d calculation by simp
    ultimately show ?thesis
      unfolding upt using Cons.prems(3-5) step True s d
      by (simp add: index_def nth_append list_update_append distrib_right add.commute)
  next
    case False
    then have s: "Suc (t mod n) = n" using ok(3) mod_less_divisor[OF ok(3), of t] by linarith
    then have s': "Suc t mod n = 0" "Suc t div n = Suc (t div n)" by (simp_all add: mod_Suc div_Suc)
    have T: "Suc t = n * Suc (t div n)" using s' by (metis add.right_neutral div_mult_mod_eq mult.commute)
    have "incVec_loop [Suc i..<Suc i + length ds] True ((pre @ [0]) @ wg_vec ds (t div n) @ post) ((pre1 @ [l]) @ map fst ds @ post1)
        ((pre2 @ [extent_of (l, n)]) @ map extent_of ds @ post2) =
        Inr (Suc (t div n) = grid ds, (pre @ [0]) @ wg_vec ds (Suc (t div n) mod grid ds) @ post)"
      using Cons.IH[OF ok(2) t, of "pre @ [0]" "Suc i" "pre1 @ [l]" "pre2 @ [extent_of (l, n)]"] Cons.prems(3-5) by simp
    moreover have "(Suc t = n * grid ds) = (Suc (t div n) = grid ds)" unfolding T using ok(3) by (simp del: mult_Suc_right)
    moreover have "Suc t mod (n * grid ds) mod n = 0" "Suc t mod (n * grid ds) div n = Suc (t div n) mod grid ds"
      unfolding T using ok(3) by (simp_all add: mod_mult_mult1 del: mult_Suc_right)
    ultimately show ?thesis
      unfolding upt using Cons.prems(3-5) step False d by (simp add: index_def nth_append list_update_append)
  qed
qed simp

lemma incVec_grid:
  assumes "\<forall>d \<in> set ds. dim_ok d" and "t < grid ds" and "ds \<noteq> []" and "length ds < 2 ^ 32"
  shows "incVec (of_nat (length ds)) (wg_vec ds t @ post) (map fst ds @ post1) (map extent_of ds @ post2) =
     Inr (Suc t = grid ds, wg_vec ds (Suc t mod grid ds) @ post)"
proof -
  have u: "unat (of_nat (length ds) :: u32) = length ds" using assms(4) by (simp add: unat_of_nat take_bit_nat_eq_self)
  have "incVec_loop [0..<length ds] False v a b = incVec_loop [0..<length ds] True v a b" for v a b
    using assms(3) by (simp add: upt_rec)
  then show ?thesis
    using incVec_loop_grid[OF assms(1,2), of "[]" 0 "[]" "[]" post post1 post2] by (simp add: incVec_def u)
qed

subsection \<open>The loop of a core\<close>

text \<open>How the calls of a kernel end, as a function of the configuration.\<close>

definition outcome :: "'s env \<Rightarrow> kernel_msg \<Rightarrow> (kernel_config \<Rightarrow> rpc_end) \<Rightarrow> bool" where
  "outcome E k f \<longleftrightarrow> (\<forall>cfg s. fst (rpc E k cfg s) = f cfg) \<and> (timeout_ms k = 0 \<longrightarrow> (\<forall>cfg. f cfg \<noteq> Runs_on))"

text \<open>The calls that are made for a list of configurations, and how the last one of them ends.\<close>

fun run_calls :: "(kernel_config \<Rightarrow> rpc_end) \<Rightarrow> kernel_config list \<Rightarrow> kernel_config list \<times> rpc_end" where
  "run_calls f [] = ([], Returned)"
| "run_calls f (x # xs) = (if f x = Returned then (x # fst (run_calls f xs), snd (run_calls f xs)) else ([x], f x))"

lemma run_calls_all [simp]: "\<forall>x \<in> set xs. f x = Returned \<Longrightarrow> run_calls f xs = (xs, Returned)"
  by (induction xs) auto

definition end_code :: "rpc_end \<Rightarrow> int" where
  "end_code e = (case e of Returned \<Rightarrow> CL_SUCCESS | Kernel_exit \<Rightarrow> CL_ERROR_KERNEL_EXIT_TI |
     Kernel_abort \<Rightarrow> CL_ERROR_KERNEL_ABORT_TI | Runs_on \<Rightarrow> CL_ERROR_KERNEL_TIMEOUT_TI)"

text \<open>What the calls change of a core.\<close>

definition ran_groups :: "'s core \<Rightarrow> kernel_config list \<times> rpc_end \<Rightarrow> 's core \<Rightarrow> bool" where
  "ran_groups c ce c' \<longleftrightarrow>
     c' = c\<lparr>device := device c', kernel_config_l2 := kernel_config_l2 c', calls := calls c @ fst ce,
            command_retcode := (if snd ce = Returned \<or> snd ce = Runs_on then command_retcode c else end_code (snd ce))\<rparr>"

lemma dsp_rpc_outcome:
  assumes "outcome E (kernel m) f"
  shows "\<exists>c'. dsp_rpc E m c = Inr (f (kernel_config_l2 c), c') \<and> ran_groups c ([kernel_config_l2 c], f (kernel_config_l2 c)) c'"
proof -
  obtain s where "rpc E (kernel m) (kernel_config_l2 c) (device c) = (f (kernel_config_l2 c), s)"
    "timeout_ms (kernel m) = 0 \<Longrightarrow> f (kernel_config_l2 c) \<noteq> Runs_on"
    using assms by (metis outcome_def eq_fst_iff)
  then show ?thesis
    by (cases "f (kernel_config_l2 c)") (auto simp: dsp_rpc_def after_call_def ran_groups_def kernel_exit_def
      kernel_abort_def free_channels_def end_code_def)
qed

lemma service_workgroup_outcome:
  assumes "outcome E (kernel m) f"
  shows "\<exists>c'. service_workgroup E m c = Inr (f (config m), c') \<and> ran_groups c ([config m], f (config m)) c'"
  using dsp_rpc_outcome[OF assms, of "c\<lparr>kernel_config_l2 := config m\<rparr>"] by (auto simp: service_workgroup_def ran_groups_def)

lemma ran_groups_Cons:
  "ran_groups c ([x], Returned) c1 \<Longrightarrow> ran_groups c1 (run_calls f xs) c2 \<Longrightarrow> f x = Returned \<Longrightarrow> ran_groups c (run_calls f (x # xs)) c2"
  by (cases c, cases c1, cases c2) (auto simp: ran_groups_def split: if_splits)

lemma workgroup_loop_grid:
  assumes "outcome E (kernel m) f" and "\<forall>d \<in> set ds. dim_ok d" and "ds \<noteq> []"
    and "num_dims (config m) = of_nat (length ds)" and "length ds < 2 ^ 32"
    and "local_size (config m) = map fst ds @ post1" and "t < grid ds" and "grid ds \<le> fuel + t"
  shows "\<exists>c'. let xs = map (\<lambda>j. (config m)\<lparr>WG_gid_start := map2 (+) offsets (wg_vec ds j @ post), WG_id := w + of_nat (j - t)\<rparr>) [t..<grid ds]
     in workgroup_loop E fuel (map extent_of ds @ post2) offsets (wg_vec ds t @ post) w m c = Inr (snd (run_calls f xs) = Runs_on, c') \<and>
        ran_groups c (run_calls f xs) c'"
  using assms(1,4,6-)
proof (induction fuel arbitrary: t w m c)
  case (Suc fuel)
  define cfg where "cfg = (config m)\<lparr>WG_gid_start := map2 (+) offsets (wg_vec ds t @ post), WG_id := w\<rparr>"
  define m' where "m' = m\<lparr>config := cfg\<rparr>"
  define F where "F = (\<lambda>j. (config m)\<lparr>WG_gid_start := map2 (+) offsets (wg_vec ds j @ post), WG_id := w + of_nat (j - t)\<rparr>)"
  have m': "outcome E (kernel m') f" "config m' = cfg" "num_dims cfg = of_nat (length ds)" "local_size cfg = map fst ds @ post1"
    using Suc.prems by (simp_all add: m'_def cfg_def)
  obtain c1 where c1: "service_workgroup E m' c = Inr (f cfg, c1)" "ran_groups c ([cfg], f cfg) c1"
    using service_workgroup_outcome[OF m'(1)] m'(2) by metis
  have inc: "incVec (num_dims cfg) (wg_vec ds t @ post) (local_size cfg) (map extent_of ds @ post2) =
      Inr (Suc t = grid ds, wg_vec ds (Suc t mod grid ds) @ post)"
    unfolding m'(3,4) by (rule incVec_grid[OF assms(2) Suc.prems(4) assms(3,5)])
  have step: "workgroup_loop E (Suc fuel) (map extent_of ds @ post2) offsets (wg_vec ds t @ post) w m c =
      (if f cfg = Returned \<and> Suc t \<noteq> grid ds
       then workgroup_loop E fuel (map extent_of ds @ post2) offsets (wg_vec ds (Suc t) @ post) (w + 1) m' c1
       else Inr (f cfg = Runs_on, c1))"
    using c1(1) inc Suc.prems(4) by (cases "f cfg") (auto simp: cfg_def[symmetric] m'_def[symmetric])
  have F: "map F [t..<grid ds] = cfg # map F [Suc t..<grid ds]" using Suc.prems(4) by (simp add: upt_conv_Cons cfg_def F_def)
  have "\<exists>c'. workgroup_loop E (Suc fuel) (map extent_of ds @ post2) offsets (wg_vec ds t @ post) w m c =
      Inr (snd (run_calls f (map F [t..<grid ds])) = Runs_on, c') \<and> ran_groups c (run_calls f (map F [t..<grid ds])) c'"
  proof (cases "f cfg = Returned \<and> Suc t \<noteq> grid ds")
    case False
    then have "run_calls f (map F [t..<grid ds]) = ([cfg], f cfg)" unfolding F by auto
    with c1(2) step False show ?thesis by simp
  next
    case True
    then have lt: "Suc t < grid ds" using Suc.prems(4) by simp
    have same: "map (\<lambda>j. (config m')\<lparr>WG_gid_start := map2 (+) offsets (wg_vec ds j @ post), WG_id := w + 1 + of_nat (j - Suc t)\<rparr>) [Suc t..<grid ds] =
        map F [Suc t..<grid ds]"
      by (simp add: m'(2) cfg_def F_def)
    obtain c2 where c2: "workgroup_loop E fuel (map extent_of ds @ post2) offsets (wg_vec ds (Suc t) @ post) (w + 1) m' c1 =
        Inr (snd (run_calls f (map F [Suc t..<grid ds])) = Runs_on, c2)" "ran_groups c1 (run_calls f (map F [Suc t..<grid ds])) c2"
      using Suc.IH[of m' "Suc t" "w + 1" c1] m' lt Suc.prems(5) unfolding Let_def same by auto
    moreover have "ran_groups c (run_calls f (cfg # map F [Suc t..<grid ds])) c2"
      using c1(2) c2(2) True by (intro ran_groups_Cons) auto
    ultimately show ?thesis using step True unfolding F by simp
  qed
  then show ?case by (simp only: F_def Let_def)
qed simp

subsection \<open>Shares of the cores\<close>

text \<open>
  Of \<open>n\<close> work-groups along a dimension, the core with logical number \<open>k\<close> of \<open>nc\<close> gets those from
  \<open>share_first n nc k\<close> up to the first one of the next core.
\<close>

definition share_first :: "nat \<Rightarrow> nat \<Rightarrow> nat \<Rightarrow> nat" where
  "share_first n nc k = k * (n div nc) + min k (n mod nc)"

definition share :: "nat \<Rightarrow> nat \<Rightarrow> nat \<Rightarrow> nat" where
  "share n nc k = n div nc + (if k < n mod nc then 1 else 0)"

lemma share_first_simps [simp]: "share_first n nc 0 = 0" "0 < nc \<Longrightarrow> share_first n nc nc = n"
  by (simp_all add: share_first_def min_absorb2 less_imp_le_nat)

lemma share_first_Suc: "share_first n nc (Suc k) = share_first n nc k + share n nc k"
  by (simp add: share_first_def share_def min_def)

lemma share_first_mono: "k \<le> k' \<Longrightarrow> share_first n nc k \<le> share_first n nc k'"
  by (induction k' rule: nat_induct_at_least) (auto simp: share_first_Suc)

lemma share_pos: "0 < nc \<Longrightarrow> k < nc \<Longrightarrow> 0 < share n nc k \<longleftrightarrow> k < n"
  by (cases "n < nc") (auto simp: share_def div_greater_zero_iff not_less)

lemma share_end: "k < nc \<Longrightarrow> share_first n nc k + share n nc k \<le> n"
  using share_first_mono[of "Suc k" nc n nc] by (simp add: share_first_Suc)

lemma concat_ranges:
  "(\<And>i j. i \<le> j \<Longrightarrow> f i \<le> f j) \<Longrightarrow> concat (map (\<lambda>k. map g [f k..<f (Suc k)]) [0..<n]) = map g [f 0..<f n]" for f :: "nat \<Rightarrow> nat"
proof (induction n)
  case (Suc n)
  have "[f 0..<f (Suc n)] = [f 0..<f n] @ [f n..<f (Suc n)]"
    using Suc.prems by (metis le0 le_SucI order_refl upt_add_eq_append le_iff_add)
  with Suc show ?case by simp
qed simp

lemma unat_small: "n < 2 ^ 31 \<Longrightarrow> unat (of_nat n :: u32) = n" "n < 2 ^ 31 \<Longrightarrow> sint (of_nat n :: u32) = int n"
  by (simp_all add: unat_of_nat take_bit_nat_eq_self signed_of_nat signed_take_bit_int_eq_self)

lemma dim_quotient:
  assumes "dim_ok (l, n)" and "k \<le> n"
  shows "(of_nat k * l) div l = (of_nat k :: u32)"
proof -
  have "unat (of_nat k * l) = k * unat l" "0 < unat l" "k < 2 ^ 31"
    using assms unat_steps[of k n l] by (auto simp: dim_ok_def word_less_nat_alt)
  then have "unat ((of_nat k * l) div l) = unat (of_nat k :: u32)" by (simp add: unat_div unat_small)
  then show ?thesis by (simp add: word_unat_eq_iff)
qed

lemma nat_sdiv: "int n sdiv int k = int (n div k)" "int n smod int k = int (n mod k)"
  by (cases "n = 0"; cases "k = 0"; simp add: signed_divide_int_def signed_modulo_int_def zdiv_int zmod_int)+

text \<open>Dimensions of one work-group are passed over; the first other one is split.\<close>

lemma split_dim_skip:
  "\<forall>d \<in> set ds. dim_ok d \<Longrightarrow> \<forall>d \<in> set bs. snd d = 1 \<Longrightarrow> ds = as @ bs \<Longrightarrow> j \<le> length bs \<Longrightarrow>
   split_dim c (length as + j) limits offsets (map extent_of ds) (map fst ds) nc =
   split_dim c (length as) limits offsets (map extent_of ds) (map fst ds) nc"
proof (induction j)
  case (Suc j)
  obtain l n where d: "bs ! j = (l, n)" by (cases "bs ! j")
  then have in_bs: "(l, n) \<in> set bs" "bs ! j = (l, n)" using Suc.prems(4) by (metis Suc_le_lessD nth_mem)+
  then have n: "n = 1" and ok: "dim_ok (l, n)" using Suc.prems(1-3) by auto
  have "extent_of (l, n) div l = 1" using dim_quotient[OF ok, of n] n by (simp add: extent_of_def)
  then have "index (map extent_of ds) (length as + j) = Inr (extent_of (l, n))" "index (map fst ds) (length as + j) = Inr l"
    "udiv (extent_of (l, n)) l = Inr 1"
    using Suc.prems(3,4) in_bs(2) ok by (auto simp: index_def nth_append udiv_def dim_ok_def)
  with Suc show ?case by simp
qed simp

lemma split_dim_at:
  assumes "\<forall>d \<in> set ds. dim_ok d" and "ds = as @ (l, n) # bs" and "1 < n" and "k < nc" and "nc < 256"
    and "DNUM c - ucast (master_core c) = of_nat k" and "length as < length offsets"
  shows "split_dim c (Suc (length as)) limits offsets (map extent_of ds) (map fst ds) (of_nat nc) =
     Inr (k < n, limits[length as := of_nat (share n nc k) * l],
          offsets[length as := offsets ! length as + of_nat (share_first n nc k) * l])"
proof -
  have ok: "dim_ok (l, n)" using assms(1,2) by simp
  then have n: "n < 2 ^ 31" "0 < l" by (simp_all add: dim_ok_def)
  have "extent_of (l, n) div l = of_nat n" using dim_quotient[OF ok, of n] by (simp add: extent_of_def)
  then have q: "udiv (extent_of (l, n)) l = Inr (of_nat n)" using n by (auto simp: udiv_def)
  have nums: "sint (of_nat nc :: u32) = int nc" "sint (of_nat k :: u32) = int k" "sint (of_nat n :: u32) = int n"
    using assms(4,5) n by (simp_all add: unat_small)
  have sf: "share_first n nc k \<le> n" using share_end[OF assms(4), of n] by simp
  have "k * (n div nc) \<le> n" using sf by (simp add: share_first_def)
  then have b: "in_int (int k * int (n div nc)) = Inr (int (k * (n div nc)))"
    using n by (simp add: in_int_def flip: of_nat_mult)
  have f: "in_int (int k * int (n div nc) + int (min k (n mod nc))) = Inr (int (share_first n nc k))"
    using sf n by (simp add: in_int_def share_first_def flip: of_nat_mult of_nat_add)
  show ?thesis
  proof (cases "k < n mod nc")
    case True
    then have "in_int (int k * int (n div nc) + int k) = Inr (int (share_first n nc k))" "share n nc k = n div nc + 1"
      using f by (simp_all add: min_absorb1 share_def)
    with True assms(2-4,7) q show ?thesis by (simp add: index_def nth_append Let_def assms(6) nums nat_sdiv b add.commute)
  next
    case False
    then have "in_int (int k * int (n div nc) + int (n mod nc)) = Inr (int (share_first n nc k))" "share n nc k = n div nc"
      using f by (simp_all add: min_absorb2 share_def)
    with False assms(2-4,7) q show ?thesis by (simp add: index_def nth_append Let_def assms(6) nums nat_sdiv b)
  qed
qed

subsection \<open>Places in the grid\<close>

text \<open>
  A configuration over the dimensions \<open>ds\<close>, as the host sends it: three dimensions, the sizes are
  multiples of the local sizes, and the dimensions that are not used have one work-group.
\<close>

definition ndr_ok :: "dim list \<Rightarrow> kernel_config \<Rightarrow> bool" where
  "ndr_ok ds cfg \<longleftrightarrow> length ds = 3 \<and> list_all dim_ok ds \<and> global_size cfg = map extent_of ds \<and>
     local_size cfg = map fst ds \<and> length (global_offset cfg) = 3 \<and> length (WG_gid_start cfg) = 3 \<and>
     num_dims cfg \<in> {1, 2, 3} \<and> list_all (\<lambda>d. snd d = 1) (drop (unat (num_dims cfg)) ds)"

text \<open>The configuration with which the work-group with number \<open>t\<close> is to be run.\<close>

definition wg_config :: "kernel_config \<Rightarrow> dim list \<Rightarrow> nat \<Rightarrow> kernel_config" where
  "wg_config cfg ds t = cfg\<lparr>WG_gid_start := map2 (+) (global_offset cfg) (wg_vec ds t), WG_id := of_nat t\<rparr>"

lemma three_cases: "length xs = 3 \<Longrightarrow> \<exists>a b c. xs = [a, b, c]"
  by (auto simp: numeral_3_eq_3 length_Suc_conv)

lemma digits_of:
  fixes t :: nat
  shows "t < a * b * c \<Longrightarrow> (of_nat (t div a div b mod c) * of_nat b * of_nat a + of_nat (t div a mod b) * of_nat a + of_nat (t mod a) :: u32) = of_nat t"
proof -
  assume "t < a * b * c"
  then have "t div a div b < c"
    by (metis div_mult2_eq less_mult_imp_div_less mult.commute)
  then have "t = (t div a div b mod c) * b * a + (t div a mod b) * a + t mod a"
    by (metis add_mult_distrib div_mult_mod_eq mod_less)
  then show ?thesis by (metis of_nat_add of_nat_mult)
qed

lemma first_workgroup_number:
  assumes "ndr_ok ds cfg" and "t < grid ds"
  shows "first_workgroup cfg (map2 (+) (global_offset cfg) (wg_vec ds t)) = Inr (of_nat t)"
proof -
  obtain d0 d1 d2 where d: "ds = [d0, d1, d2]" using assms(1) three_cases by (metis ndr_ok_def)
  obtain l0 n0 l1 n1 l2 n2 where e: "d0 = (l0, n0)" "d1 = (l1, n1)" "d2 = (l2, n2)" by (metis surj_pair)
  have ok: "dim_ok (l0, n0)" "dim_ok (l1, n1)" "dim_ok (l2, n2)" using assms(1) d e by (auto simp: ndr_ok_def)
  then have pos: "0 < n0" "0 < n1" "0 < n2" "l0 \<noteq> 0" "l1 \<noteq> 0" "l2 \<noteq> 0" by (auto simp: dim_ok_def)
  obtain g0 g1 g2 where g: "global_offset cfg = [g0, g1, g2]" using assms(1) three_cases by (metis ndr_ok_def)
  have le: "x mod n0 \<le> n0" "x mod n1 \<le> n1" "x mod n2 \<le> n2" for x using pos by (simp_all add: less_imp_le)
  note q = dim_quotient[OF ok(1) le(1)] dim_quotient[OF ok(2) le(2)] dim_quotient[OF ok(3) le(3)]
    dim_quotient[OF ok(1) order_refl] dim_quotient[OF ok(2) order_refl] dim_quotient[OF ok(3) order_refl]
  have "t < n0 * n1 * n2" using assms(2) d e by simp
  from digits_of[OF this] show ?thesis
    using assms(1) d e g pos by (simp add: first_workgroup_def ndr_ok_def udiv_def extent_of_def q)
qed

lemma map2_plus_assoc: "map2 (+) (map2 (+) xs ys) zs = map2 (+) xs (map2 (+) ys zs)" for xs :: "u32 list"
  by (induction xs arbitrary: ys zs) (auto split: list.splits simp: zip_Cons1 add.assoc)

lemma map2_plus_zero: "length xs = n \<Longrightarrow> map2 (+) (replicate n 0) xs = (xs :: u32 list)"
  "length xs = n \<Longrightarrow> map2 (+) xs (replicate n 0) = xs"
  by (induction xs arbitrary: n) auto

lemma wg_vec_chunk:
  assumes "ds = as @ (l, n) # bs" and "\<forall>d \<in> set bs. snd d = 1" and "0 < grid as" and "f + n' \<le> n" and "j < n' * grid as"
  shows "map2 (+) (wg_vec ds (f * grid as)) (wg_vec (as @ (l, n') # bs) j) = wg_vec ds (f * grid as + j)"
proof -
  have q: "j div grid as < n'" using assms(5) by (simp add: less_mult_imp_div_less)
  then have m: "(f + j div grid as) mod n = f + j div grid as" "f mod n = f" "(j div grid as) mod n' = j div grid as" using assms(4) by auto
  have "wg_vec ds (f * grid as + j) = wg_vec as j @ of_nat (f + j div grid as) * l # replicate (length bs) 0"
    "wg_vec ds (f * grid as) = replicate (length as) 0 @ of_nat f * l # replicate (length bs) 0"
    "wg_vec (as @ (l, n') # bs) j = wg_vec as j @ of_nat (j div grid as) * l # replicate (length bs) 0"
    using assms(1-3) m wg_vec_period[OF assms(3), of f j] wg_vec_period[OF assms(3), of f 0]
    by (simp_all add: wg_vec_append wg_vec_single wg_vec_zero)
  then show ?thesis by (simp add: map2_plus_zero distrib_right)
qed

lemma wg_vec_take:
  assumes "\<forall>d \<in> set (drop n ds). snd d = 1" and "n \<le> length ds"
  shows "wg_vec (take n ds) t @ replicate (length ds - n) 0 = wg_vec ds t" "grid (take n ds) = grid ds"
proof -
  have "wg_vec (take n ds @ drop n ds) t = wg_vec (take n ds) t @ replicate (length ds - n) 0"
    unfolding wg_vec_append using assms(1) by (simp add: wg_vec_single)
  then show "wg_vec (take n ds) t @ replicate (length ds - n) 0 = wg_vec ds t" by simp
  have "grid (drop n ds) = 1" using assms(1) by (rule grid_ones)
  then show "grid (take n ds) = grid ds" using grid_simps(3)[of "take n ds" "drop n ds"] by simp
qed

text \<open>\<open>cs\<close> is a part of the grid \<open>ds\<close> with \<open>nd\<close> used dimensions, starting at the work-group with number \<open>t0\<close>.\<close>

definition grid_part :: "dim list \<Rightarrow> nat \<Rightarrow> nat \<Rightarrow> dim list \<Rightarrow> bool" where
  "grid_part ds nd t0 cs \<longleftrightarrow> length cs = 3 \<and> (\<forall>d \<in> set cs. dim_ok d) \<and> map fst cs = map fst ds \<and> (\<forall>d \<in> set (drop nd cs). snd d = 1) \<and>
     (\<forall>j < grid cs. map2 (+) (wg_vec ds t0) (wg_vec cs j) = wg_vec ds (t0 + j))"

lemma grid_part_whole:
  assumes "length ds = 3" and "\<forall>d \<in> set ds. dim_ok d" and "\<forall>d \<in> set (drop nd ds). snd d = 1"
  shows "grid_part ds nd 0 ds"
proof -
  have "wg_vec ds 0 = replicate 3 0" using assms(1) by (simp add: wg_vec_zero)
  with assms show ?thesis by (simp add: grid_part_def map2_plus_zero)
qed

lemma grid_part_split:
  assumes "length ds = 3" and "\<forall>d \<in> set ds. dim_ok d" and "\<forall>d \<in> set (drop nd ds). snd d = 1"
    and "ds = as @ (l, n) # bs" and "\<forall>d \<in> set bs. snd d = 1" and "length as < nd" and "0 < w" and "f + w \<le> n"
  shows "grid_part ds nd (f * grid as) (as @ (l, w) # bs)"
proof -
  have "dim_ok (l, n)" using assms(2,4) by simp
  then have "dim_ok (l, w)" using assms(7) add_leD2[OF assms(8)] by (rule dim_ok_part)
  moreover have "0 < grid as" using assms(2,4) by (intro grid_pos) auto
  moreover have "drop nd (as @ (l, w) # bs) = drop nd ds" using assms(4,6) by (simp add: drop_Cons split: nat.splits)
  moreover have "map2 (+) (wg_vec ds (f * grid as)) (wg_vec (as @ (l, w) # bs) j) = wg_vec ds (f * grid as + j)"
    if "j < grid (as @ (l, w) # bs)" for j
    using that wg_vec_chunk[OF assms(4,5) calculation(2) assms(8), of j] assms(5) by (simp add: grid_ones mult.commute)
  ultimately show ?thesis using assms(1-4) by (auto simp: grid_part_def)
qed

lemma workgroup_loop_chunk:
  assumes "ndr_ok ds (config m)" and "outcome E (kernel m) f" and part: "grid_part ds (unat (num_dims (config m))) t0 cs"
    and "grid cs \<le> fuel"
  shows "\<exists>c'. workgroup_loop E fuel (map extent_of cs) (map2 (+) (global_offset (config m)) (wg_vec ds t0)) [0, 0, 0] (of_nat t0) m c =
       Inr (snd (run_calls f (map (wg_config (config m) ds) [t0..<t0 + grid cs])) = Runs_on, c') \<and>
     ran_groups c (run_calls f (map (wg_config (config m) ds) [t0..<t0 + grid cs])) c'"
proof -
  have cs: "length cs = 3" "\<forall>d \<in> set cs. dim_ok d" "map fst cs = map fst ds"
    "\<forall>d \<in> set (drop (unat (num_dims (config m))) cs). snd d = 1"
    and at: "\<And>j. j < grid cs \<Longrightarrow> map2 (+) (wg_vec ds t0) (wg_vec cs j) = wg_vec ds (t0 + j)"
    using part by (auto simp: grid_part_def)
  define n where "n = unat (num_dims (config m))"
  have n: "n \<in> {1, 2, 3}" "num_dims (config m) = of_nat n" using assms(1) by (auto simp: ndr_ok_def n_def)
  define ts where "ts = take n cs"
  have ts: "length ts = n" "ts \<noteq> []" "\<forall>d \<in> set ts. dim_ok d" "grid ts = grid cs"
    using n cs wg_vec_take(2)[of n cs] by (auto simp: ts_def n_def[symmetric] dest: in_set_takeD)
  have v: "wg_vec ts j @ replicate (3 - n) 0 = wg_vec cs j" for j
    using n cs wg_vec_take(1)[of n cs j] by (auto simp: ts_def n_def[symmetric])
  have ls: "local_size (config m) = map fst ts @ map fst (drop n cs)"
    using assms(1) cs(3) by (simp add: ndr_ok_def ts_def flip: map_append)
  have ext: "map extent_of cs = map extent_of ts @ map extent_of (drop n cs)" by (simp add: ts_def flip: map_append)
  have z: "wg_vec cs 0 = [0, 0, 0]" using cs(1) by (simp add: wg_vec_zero numeral_3_eq_3)
  have bounds: "num_dims (config m) = of_nat (length ts)" "length ts < 2 ^ 32" "0 < grid ts" "grid ts \<le> fuel + 0"
    using n ts assms(4) grid_pos[OF ts(3)] by auto
  let ?off = "map2 (+) (global_offset (config m)) (wg_vec ds t0)"
  have "map (\<lambda>j. (config m)\<lparr>WG_gid_start := map2 (+) ?off (wg_vec cs j), WG_id := of_nat t0 + of_nat (j - 0)\<rparr>) [0..<grid cs] =
      map (\<lambda>j. wg_config (config m) ds (j + t0)) [0..<grid cs]"
    using at by (simp add: map2_plus_assoc wg_config_def add.commute)
  also have "\<dots> = map (wg_config (config m) ds) [t0..<t0 + grid cs]"
    using map_add_upt[of t0 "grid cs"] by (simp add: comp_def add.commute[of t0] flip: map_add_upt)
  finally have cfgs: "map (\<lambda>j. (config m)\<lparr>WG_gid_start := map2 (+) ?off (wg_vec cs j), WG_id := of_nat t0 + of_nat (j - 0)\<rparr>) [0..<grid cs] =
      map (wg_config (config m) ds) [t0..<t0 + grid cs]" .
  show ?thesis
    using workgroup_loop_grid[OF assms(2) ts(3) ts(2) bounds(1,2) ls bounds(3,4), where offsets = ?off and post = "replicate (3 - n) 0" and w = "of_nat t0" and ?post2.0 = "map extent_of (drop n cs)" and c = c]
    unfolding Let_def ext[symmetric] v z ts(4) cfgs by blast
qed

subsection \<open>The kernel command\<close>

text \<open>
  The number of the first work-group of the core with logical number \<open>k\<close> of \<open>nc\<close>: the outermost dimension
  of more than one work-group is shared out. A single work-group is the master's.
\<close>

definition group_first :: "dim list \<Rightarrow> nat \<Rightarrow> nat \<Rightarrow> nat" where
  "group_first ds nc k = (case dropWhile (\<lambda>d. snd d = 1) (rev ds) of
     [] \<Rightarrow> (if k = 0 then 0 else 1) | d # ds' \<Rightarrow> share_first (snd d) nc k * grid ds')"

lemma grid_rev: "grid (rev ds) = grid ds"
  by (induction ds) auto

lemma group_first_cases:
  obtains (ones) "\<forall>d \<in> set ds. snd d = 1" "group_first ds nc = (\<lambda>k. if k = 0 then 0 else 1)"
  | (split) as l n bs where "ds = as @ (l, n) # bs" "n \<noteq> 1" "\<forall>d \<in> set bs. snd d = 1"
      "group_first ds nc = (\<lambda>k. share_first n nc k * grid as)"
proof (cases "dropWhile (\<lambda>d. snd d = 1) (rev ds)")
  case Nil
  then have "\<forall>d \<in> set ds. snd d = 1" by (simp add: dropWhile_eq_Nil_conv)
  moreover have "group_first ds nc = (\<lambda>k. if k = 0 then 0 else 1)" by (intro ext) (simp only: group_first_def Nil list.case)
  ultimately show ?thesis by (rule ones)
next
  case (Cons d ds')
  let ?ones = "takeWhile (\<lambda>d. snd d = 1) (rev ds)"
  have "rev ds = ?ones @ d # ds'" using takeWhile_dropWhile_id[of "\<lambda>d. snd d = 1" "rev ds"] unfolding Cons by (rule HOL.sym)
  then have "ds = rev (?ones @ d # ds')" by (metis rev_rev_ident)
  then have ds: "ds = rev ds' @ (fst d, snd d) # rev ?ones" by simp
  have d: "snd d \<noteq> 1" using Cons by (metis (mono_tags) dropWhile_eq_Cons_conv)
  have os: "\<forall>d \<in> set (rev ?ones). snd d = 1" by (auto dest: set_takeWhileD)
  have gf: "group_first ds nc = (\<lambda>k. share_first (snd d) nc k * grid (rev ds'))"
    by (intro ext) (simp only: group_first_def Cons list.case grid_rev)
  show ?thesis by (rule split[OF ds d os gf])
qed

lemma group_first_ends: "group_first ds nc 0 = 0" "0 < nc \<Longrightarrow> group_first ds nc nc = grid ds"
  by (cases ds nc rule: group_first_cases; simp add: grid_ones)+

lemma group_first_mono: "i \<le> j \<Longrightarrow> group_first ds nc i \<le> group_first ds nc j"
  by (cases ds nc rule: group_first_cases) (auto simp: share_first_mono)

lemma group_first_upper: "k < nc \<Longrightarrow> group_first ds nc (Suc k) \<le> grid ds"
  using group_first_mono[of "Suc k" nc ds nc] group_first_ends(2)[of nc ds] by simp

lemma map2_plus_single:
  "length xs = Suc (a + b) \<Longrightarrow> map2 (+) xs (replicate a 0 @ v # replicate b 0) = xs[a := xs ! a + v]" for xs :: "u32 list"
  by (rule nth_equalityI) (auto simp: nth_append nth_list_update nth_Cons split: nat.splits)

lemma dims_int: "nd \<in> {1, 2, 3} \<Longrightarrow> nat (sint nd) = unat nd" "nd \<in> {1, 2, 3} \<Longrightarrow> unat nd \<le> 3" for nd :: u32
  by auto

lemma core_number_eq: "a < 256 \<Longrightarrow> b < 256 \<Longrightarrow> (of_nat a :: u32) = of_nat b \<longleftrightarrow> a = b"
proof -
  assume "a < 256" "b < 256"
  then have "unat (of_nat a :: u32) = a" "unat (of_nat b :: u32) = b" by (simp_all add: unat_small)
  then show ?thesis by metis
qed

text \<open>What the split gives a core: nothing, or a part of the grid.\<close>

lemma split_dim_share:
  assumes ds: "length ds = 3" "\<forall>d \<in> set ds. dim_ok d" "\<forall>d \<in> set (drop nd ds). snd d = 1" and "nd \<le> 3" and "length go = 3"
    and "ds = as @ (l, n) # bs" and "n \<noteq> 1" and "\<forall>d \<in> set bs. snd d = 1"
    and "k < nc" and "nc < 256" and "DNUM c - ucast (master_core c) = of_nat k"
  shows "split_dim c nd (map extent_of ds) go (map extent_of ds) (map fst ds) (of_nat nc) =
     Inr (k < n, map extent_of (as @ (l, share n nc k) # bs), go[length as := go ! length as + of_nat (share_first n nc k) * l])"
    and "length as < nd"
proof -
  have n: "1 < n" using ds(2) assms(6,7) by (auto simp: dim_ok_def)
  show inside: "length as < nd"
  proof (rule ccontr)
    assume "\<not> length as < nd"
    then have "(l, n) \<in> set (drop nd ds)" using assms(6) by simp
    with ds(3) assms(7) show False by auto
  qed
  have "(map extent_of ds)[length as := of_nat (share n nc k) * l] = map extent_of (as @ (l, share n nc k) # bs)"
    using assms(6) by (simp add: list_update_append extent_of_def)
  then show "split_dim c nd (map extent_of ds) go (map extent_of ds) (map fst ds) (of_nat nc) =
     Inr (k < n, map extent_of (as @ (l, share n nc k) # bs), go[length as := go ! length as + of_nat (share_first n nc k) * l])"
    using split_dim_skip[OF ds(2) assms(8), of "as @ [(l, n)]" "nd - Suc (length as)" c] inside assms(4,5,6) ds(1)
      split_dim_at[OF ds(2) assms(6) n assms(9-11), of go] by simp
qed

lemma offsets_at_share:
  assumes "ds = as @ (l, n) # bs" and "\<forall>d \<in> set bs. snd d = 1" and "0 < grid as" and "f < n" and "length go = length ds"
  shows "go[length as := go ! length as + of_nat f * l] = map2 (+) go (wg_vec ds (f * grid as))"
proof -
  have "wg_vec ds (f * grid as) = replicate (length as) 0 @ of_nat f * l # replicate (length bs) 0"
    using assms(1,2,4) wg_vec_period[OF assms(3), of f 0] assms(3) by (simp add: wg_vec_append wg_vec_single wg_vec_zero)
  then show ?thesis using assms(1,5) by (simp add: map2_plus_single)
qed

lemma setup_ndr_chunks_share:
  assumes "ndr_ok ds cfg" and "k < nc" and "nc < 256" and "DNUM c - ucast (master_core c) = of_nat k"
  obtains (no_work) limits offsets where
      "setup_ndr_chunks c (num_dims cfg) (global_size cfg) (global_offset cfg) (global_size cfg) (local_size cfg) (of_nat nc) =
         Inr (False, limits, offsets)" "group_first ds nc (Suc k) = group_first ds nc k"
  | (work) cs where
      "setup_ndr_chunks c (num_dims cfg) (global_size cfg) (global_offset cfg) (global_size cfg) (local_size cfg) (of_nat nc) =
         Inr (True, map extent_of cs, map2 (+) (global_offset cfg) (wg_vec ds (group_first ds nc k)))"
      "grid_part ds (unat (num_dims cfg)) (group_first ds nc k) cs" "group_first ds nc (Suc k) = group_first ds nc k + grid cs"
proof -
  define nd where "nd = unat (num_dims cfg)"
  have nd: "nat (sint (num_dims cfg)) = nd" "nd \<le> 3" using assms(1) dims_int[of "num_dims cfg"] by (auto simp: ndr_ok_def nd_def)
  have ds: "length ds = 3" "\<forall>d \<in> set ds. dim_ok d" "\<forall>d \<in> set (drop nd ds). snd d = 1"
    and cfg: "global_size cfg = map extent_of ds" "local_size cfg = map fst ds" "length (global_offset cfg) = 3"
    using assms(1) by (auto simp: ndr_ok_def list_all_iff nd_def)
  have go: "global_offset cfg = map2 (+) (global_offset cfg) (wg_vec ds 0)" using ds(1) cfg(3) by (simp add: wg_vec_zero map2_plus_zero)
  show ?thesis
  proof (cases "nc = 1")
    case True
    moreover have "group_first ds nc (Suc 0) = grid ds" using group_first_ends(2)[of nc ds] True by simp
    ultimately show ?thesis
      using assms(2) cfg go grid_part_whole[OF ds] by (intro work[of ds]) (simp_all add: setup_ndr_chunks_def group_first_ends nd_def)
  next
    case False
    then have "(of_nat nc :: u32) \<noteq> 1" using assms(3) core_number_eq[of nc 1] by simp
    then have split_eq: "setup_ndr_chunks c (num_dims cfg) (global_size cfg) (global_offset cfg) (global_size cfg) (local_size cfg) (of_nat nc) =
        split_dim c nd (map extent_of ds) (global_offset cfg) (map extent_of ds) (map fst ds) (of_nat nc)"
      using nd cfg by (simp add: setup_ndr_chunks_def)
    have master: "MASTER_CORE c \<longleftrightarrow> k = 0"
      using assms(2,3) core_number_eq[of k 0] right_minus_eq[of "DNUM c" "ucast (master_core c)"]
      unfolding MASTER_CORE_def assms(4) by simp
    show ?thesis
    proof (cases ds nc rule: group_first_cases)
      case ones
      have "split_dim c nd (map extent_of ds) (global_offset cfg) (map extent_of ds) (map fst ds) (of_nat nc) =
          Inr (k = 0, map extent_of ds, global_offset cfg)"
        using split_dim_skip[OF ds(2) ones(1), of "[]" nd c] nd(2) ds(1) master by simp
      with split_eq ones go grid_ones[OF ones(1)] grid_part_whole[OF ds] show ?thesis
        by (cases "k = 0") (intro work[of ds], simp_all add: nd_def, intro no_work, simp_all)
    next
      case (split as l n bs)
      note parts = split_dim_share[OF ds nd(2) cfg(3) split(1-3) assms(2-4)]
      show ?thesis
      proof (cases "k < n")
        case True
        have w: "0 < share n nc k" "share_first n nc k + share n nc k \<le> n" "share_first n nc k < n"
          using True assms(2) share_pos[of nc k n] share_end[of k nc n] by auto
        have "0 < grid as" using ds(2) split(1) by (intro grid_pos) auto
        from offsets_at_share[OF split(1,3) this w(3)] grid_part_split[OF ds split(1,3) parts(2) w(1,2)]
        show ?thesis using split_eq parts(1) True split(3,4) ds(1) cfg(3)
          by (intro work[of "as @ (l, share n nc k) # bs"]) (simp_all add: nd_def share_first_Suc grid_ones algebra_simps)
      next
        case False
        with split_eq parts(1) split(4) share_pos[of nc k n] assms(2) show ?thesis
          by (intro no_work) (auto simp: share_first_Suc)
      qed
    qed
  qed
qed

lemma ran_groups_fields:
  "ran_groups c ce c' \<Longrightarrow> calls c' = calls c @ fst ce \<and> replies c' = replies c \<and> freed c' = freed c \<and>
     command_retcode c' = (if snd ce = Returned \<or> snd ce = Runs_on then command_retcode c else end_code (snd ce))"
  by (cases c; cases c') (simp add: ran_groups_def)

lemma counting_fields [simp]:
  "calls (start_counting m c) = calls c" "replies (start_counting m c) = replies c" "freed (start_counting m c) = freed c"
  "command_retcode (start_counting m c) = command_retcode c" "MASTER_CORE (start_counting m c) = MASTER_CORE c"
  "device (start_counting m c) = device c" "kernel_config_l2 (start_counting m c) = kernel_config_l2 c"
  "calls (stop_counting m c) = calls c" "replies (stop_counting m c) = replies c" "freed (stop_counting m c) = freed c"
  "command_retcode (stop_counting m c) = command_retcode c" "MASTER_CORE (stop_counting m c) = MASTER_CORE c"
  by (simp_all add: start_counting_def stop_counting_def MASTER_CORE_def)

text \<open>The configurations of the share of a core.\<close>

definition core_share :: "kernel_config \<Rightarrow> dim list \<Rightarrow> nat \<Rightarrow> nat \<Rightarrow> kernel_config list" where
  "core_share cfg ds nc k = map (wg_config cfg ds) [group_first ds nc k..<group_first ds nc (Suc k)]"

lemma concat_core_share: "0 < nc \<Longrightarrow> concat (map (core_share cfg ds nc) [0..<nc]) = map (wg_config cfg ds) [0..<grid ds]"
  using concat_ranges[of "group_first ds nc" "wg_config cfg ds" nc, OF group_first_mono] group_first_ends
  by (simp add: core_share_def[abs_def])

text \<open>A core runs its share of the work-groups, in order, until a call does not return.\<close>

lemma process_kernel_share:
  assumes "ndr_ok ds (config m)" and "WG_gid_start (config m) ! 0 \<noteq> DEBUG_MODE_WG_GID_START" and "outcome E (kernel m) f"
    and "k < nc" and "nc = unat (num_cores (kernel m))" and "DNUM c = ucast (msg_master_core (kernel m)) + of_nat k" and "grid ds \<le> fuel"
    and "ce = run_calls f (core_share (config m) ds nc k)"
  shows "\<exists>c'. process_kernel_command E fuel m c = Inr (snd ce = Runs_on, c') \<and> replies c' = replies c \<and> freed c' = freed c \<and>
     command_retcode c' = (if snd ce = Returned \<or> snd ce = Runs_on then command_retcode c else end_code (snd ce)) \<and>
     calls c' = calls c @ fst ce"
proof -
  let ?cfg = "config m"
  define c0 where "c0 = c\<lparr>master_core := msg_master_core (kernel m), device := edma_reset E (device c)\<rparr>"
  have dn: "DNUM c0 - ucast (master_core c0) = of_nat k" using assms(6) by (simp add: c0_def)
  have nc: "nc < 256" "ucast (num_cores (kernel m)) = (of_nat nc :: u32)" using assms(5) unsigned_less[of "num_cores (kernel m)"] by simp_all
  have g0: "index (WG_gid_start ?cfg) 0 = Inr (WG_gid_start ?cfg ! 0)" using assms(1) by (simp add: ndr_ok_def)
  have fields: "replies c0 = replies c" "freed c0 = freed c" "command_retcode c0 = command_retcode c" "calls c0 = calls c"
    by (simp_all add: c0_def)
  from assms(1) assms(4) nc(1) dn show ?thesis
  proof (cases rule: setup_ndr_chunks_share)
    case (no_work limits offsets)
    then show ?thesis
      using g0 assms(2,8) fields by (simp add: process_kernel_command_def c0_def[symmetric] nc(2) core_share_def)
  next
    case (work cs)
    let ?t = "group_first ds nc k"
    have upper: "?t + grid cs \<le> grid ds" using work(3) group_first_upper[OF assms(4), of ds] by simp
    moreover have "0 < grid cs" using work(2) by (intro grid_pos) (simp add: grid_part_def)
    ultimately have "first_workgroup ?cfg (map2 (+) (global_offset ?cfg) (wg_vec ds ?t)) = Inr (of_nat ?t)"
      by (intro first_workgroup_number[OF assms(1)]) simp
    moreover obtain c' where "workgroup_loop E fuel (map extent_of cs) (map2 (+) (global_offset ?cfg) (wg_vec ds ?t)) [0, 0, 0] (of_nat ?t) m
        (start_counting m c0) = Inr (snd ce = Runs_on, c')" "ran_groups (start_counting m c0) ce c'"
      using workgroup_loop_chunk[OF assms(1,3) work(2), of fuel "start_counting m c0"] upper assms(7,8) work(3) by (auto simp: core_share_def)
    ultimately show ?thesis
      using work(1) g0 assms(2) fields ran_groups_fields[of "start_counting m c0" ce c']
      by (auto simp: process_kernel_command_def c0_def[symmetric] nc(2))
  qed
qed

lemma answered_ndr_share:
  assumes "command m = NDRKERNEL" and "ndr_ok ds (config m)" and "WG_gid_start (config m) ! 0 \<noteq> DEBUG_MODE_WG_GID_START"
    and "outcome E (kernel m) f" and "grid ds \<le> fuel" and "k < nc" and "nc = unat (num_cores (kernel m))"
    and "DNUM c = ucast (msg_master_core (kernel m)) + of_nat k" and "ce = run_calls f (core_share (config m) ds nc k)"
  shows "\<exists>c' r. monitor_step E fuel m c = Inr c' \<and> replies c' = replies c @ [r] \<and> freed c' = freed c \<and>
     reply_to r = reply_queue m \<and> trans_id r = Kernel_id (kernel m) \<and> retcode r = end_code (snd ce) \<and> calls c' = calls c @ fst ce"
proof -
  let ?c = "c\<lparr>enable_printf := Some (reply_queue m), command_retcode := CL_SUCCESS\<rparr>"
  obtain c' where "process_kernel_command E fuel m ?c = Inr (snd ce = Runs_on, c')" "replies c' = replies c" "freed c' = freed c"
    "command_retcode c' = (if snd ce = Returned \<or> snd ce = Runs_on then CL_SUCCESS else end_code (snd ce))" "calls c' = calls c @ fst ce"
    using process_kernel_share[OF assms(2-4,6,7) _ assms(5,9), of ?c] assms(8) by auto
  then show ?thesis
    by (cases "snd ce") (simp_all add: monitor_step_def assms(1) process_cache_command_def ocl_timeout_def respond_to_host_def flush_buffers_def
      free_channels_def Let_def end_code_def)
qed

end
