(* ===== verification/Monitor_Properties.thy ===== *)
theory Monitor_Properties
  imports Monitor_NDRange
begin

text \<open>
  What the monitor promises the host: the cores together run every work-group once, every message is
  answered or given back once, abnormal ends and timeouts are reported, and the configuration stays
  while a process uses it.
\<close>

subsection \<open>Work-groups\<close>

text \<open>C3: every work-group is run once. When the cores of a device get an
  NDRange kernel over a grid of work-groups and the calls of the kernel return, every core ends, with one
  answer that reports success under the number of the kernel. The calls that the cores make, one core
  after the other, are those for the work-groups of the grid in order: each with the global index at
  which it begins and with its own number.
\<close>

theorem work_groups_partitioned:
  assumes "command m = NDRKERNEL" and "ndr_ok ds (config m)" and "WG_gid_start (config m) ! 0 \<noteq> DEBUG_MODE_WG_GID_START"
    and "outcome E (kernel m) (\<lambda>_. Returned)" and "grid ds \<le> fuel" and "nc = unat (num_cores (kernel m))" and "0 < nc"
    and "\<forall>k < nc. DNUM (c k) = ucast (msg_master_core (kernel m)) + of_nat k"
  shows "\<exists>c' r. (\<forall>k < nc. monitor_step E fuel m (c k) = Inr (c' k) \<and> replies (c' k) = replies (c k) @ [r k] \<and>
       trans_id (r k) = Kernel_id (kernel m) \<and> retcode (r k) = CL_SUCCESS) \<and>
     concat (map (\<lambda>k. drop (length (calls (c k))) (calls (c' k))) [0..<nc]) = map (wg_config (config m) ds) [0..<grid ds]"
proof -
  have "\<exists>c' r. monitor_step E fuel m (c k) = Inr c' \<and> replies c' = replies (c k) @ [r] \<and> trans_id r = Kernel_id (kernel m) \<and>
       retcode r = CL_SUCCESS \<and> calls c' = calls (c k) @ core_share (config m) ds nc k" if "k < nc" for k
    using answered_ndr_share[OF assms(1-5) that assms(6) _ refl, of "c k"] assms(8) that by (auto simp: end_code_def)
  then obtain c' r where run: "\<forall>k < nc. monitor_step E fuel m (c k) = Inr (c' k) \<and> replies (c' k) = replies (c k) @ [r k] \<and>
       trans_id (r k) = Kernel_id (kernel m) \<and> retcode (r k) = CL_SUCCESS \<and> calls (c' k) = calls (c k) @ core_share (config m) ds nc k"
    by metis
  then have "concat (map (\<lambda>k. drop (length (calls (c k))) (calls (c' k))) [0..<nc]) = concat (map (core_share (config m) ds nc) [0..<nc])"
    by (intro arg_cong[of _ _ concat] map_cong) auto
  with run concat_core_share[OF assms(7)] show ?thesis by auto
qed

definition quiet_env :: "unit env" where
  "quiet_env = \<lparr>rpc = (\<lambda>_ _ s. (Returned, s)), edma_reset = id, edma_wait_and_free = id, edma_initialize = Pair True,
     omp_init = (\<lambda>_ _. Pair True), omp_exit = id, omp_dispatch_finish = id, omp_dispatch_once = Pair Returned,
     omp_dispatch_is_finished = (\<lambda>_. True), dsp_frequency = 600\<rparr>"

definition ndr_config :: kernel_config where
  "ndr_config = \<lparr>num_dims = 2, global_size = [4, 5, 1], local_size = [2, 1, 1], global_offset = [10, 0, 0], WG_gid_start = [0, 0, 0],
     WG_id = 0, WG_alloca_start = 0, WG_alloca_size = 0, L2_scratch_start = 0, L2_scratch_size = 0\<rparr>"

definition ndr_kernel :: kernel_msg where
  "ndr_kernel = \<lparr>Kernel_id = 7, entry_point = 0, data_page_ptr = 0, args_in_reg_size = 0, args_in_reg = [], args_on_stack_addr = 0, args_on_stack_size = 0,
     timeout_ms = 0, profiling = \<lparr>stall_cycle_threshold = 0, event_type = 0, event_number1 = 0, event_number2 = 0\<rparr>,
     from_sub_device = 0, num_cores = 3, msg_master_core = 1\<rparr>"

definition ndr_msg :: Msg where
  "ndr_msg = \<lparr>command = NDRKERNEL, config = ndr_config, kernel = ndr_kernel, cfg_n_cores = 0, cfg_master_core = 0, reply_queue = 5\<rparr>"

definition idle_core :: "u32 \<Rightarrow> unit core" where
  "idle_core d = \<lparr>DNUM = d, enable_printf = None, edmamgr_initialized = True, config_reference_count = 1, config_n_cores = 3,
     config_master_core = 1, master_core = 1, command_retcode = 0, kernel_config_l2 = ndr_config, device = (), calls = [],
     replies = [], freed = 0, flushes = 0, counting = False\<rparr>"

text \<open>Five rows of two work-groups on three cores: the first two cores take two rows each.\<close>

theorem work_groups_partitioned_witness:
  "\<exists>c'. (\<forall>k < 3. monitor_step quiet_env 10 ndr_msg (idle_core (1 + of_nat k)) = Inr (c' k)) \<and>
     concat (map (\<lambda>k. calls (c' k)) [0..<3]) = map (wg_config ndr_config [(2, 2), (1, 5), (1, 1)]) [0..<10]"
proof -
  have "ndr_ok [(2, 2), (1, 5), (1, 1)] ndr_config" by (simp add: ndr_ok_def ndr_config_def dim_ok_def extent_of_def)
  moreover have "outcome quiet_env ndr_kernel (\<lambda>_. Returned)" by (simp add: outcome_def quiet_env_def)
  ultimately show ?thesis
    using work_groups_partitioned[of ndr_msg "[(2, 2), (1, 5), (1, 1)]" quiet_env 10 3 "\<lambda>k. idle_core (1 + of_nat k)"]
    by (auto simp: ndr_msg_def ndr_kernel_def idle_core_def ndr_config_def DEBUG_MODE_WG_GID_START_def)
qed

text \<open>C4: a core makes the calls for its share of the work-groups in order, up to
  and including the first one that does not return, and then answers once, with the code for the way
  that call ended: left through exit or abort, or stopped by the clock. Without such a call it makes
  all of them and reports success.\<close>

theorem share_outcome_reported:
  assumes "command m = NDRKERNEL" and "ndr_ok ds (config m)" and "WG_gid_start (config m) ! 0 \<noteq> DEBUG_MODE_WG_GID_START"
    and "outcome E (kernel m) f" and "grid ds \<le> fuel" and "k < unat (num_cores (kernel m))"
    and "DNUM c = ucast (msg_master_core (kernel m)) + of_nat k"
  shows "\<exists>c' r. monitor_step E fuel m c = Inr c' \<and> replies c' = replies c @ [r] \<and> freed c' = freed c \<and>
     reply_to r = reply_queue m \<and> trans_id r = Kernel_id (kernel m) \<and>
     (let (cs, e) = run_calls f (core_share (config m) ds (unat (num_cores (kernel m))) k)
      in retcode r = end_code e \<and> calls c' = calls c @ cs)"
  using answered_ndr_share[OF assms(1-6) refl assms(7) refl] by (simp add: split_def Let_def)

definition aborting_env :: "unit env" where
  "aborting_env = quiet_env\<lparr>rpc := (\<lambda>_ cfg s. (if WG_id cfg = 1 then Kernel_abort else Returned, s))\<rparr>"

text \<open>The first core has four work-groups and stops after the second one.\<close>

theorem share_outcome_reported_witness:
  "\<exists>c' r. monitor_step aborting_env 10 ndr_msg (idle_core 1) = Inr c' \<and> replies c' = [r] \<and> retcode r = -7101 \<and>
     map WG_id (calls c') = [0, 1]"
proof -
  let ?f = "\<lambda>cfg. if WG_id cfg = 1 then Kernel_abort else Returned"
  have ok: "ndr_ok [(2, 2), (1, 5), (1, 1)] ndr_config" by (simp add: ndr_ok_def ndr_config_def dim_ok_def extent_of_def)
  have f: "outcome aborting_env ndr_kernel ?f" by (simp add: outcome_def aborting_env_def quiet_env_def)
  have "group_first [(2, 2), (1, 5), (1, 1)] 3 0 = 0" "group_first [(2, 2), (1, 5), (1, 1)] 3 (Suc 0) = 4"
    by (simp_all add: group_first_def share_first_def)
  moreover have "[0..<4] = [0, 1, 2, 3 :: nat]" by (simp add: upt_rec)
  ultimately have "run_calls ?f (core_share ndr_config [(2, 2), (1, 5), (1, 1)] 3 0) =
      ([wg_config ndr_config [(2, 2), (1, 5), (1, 1)] 0, wg_config ndr_config [(2, 2), (1, 5), (1, 1)] 1], Kernel_abort)"
    unfolding core_share_def by (simp add: wg_config_def)
  note calls = this
  have m: "command ndr_msg = NDRKERNEL" "config ndr_msg = ndr_config" "kernel ndr_msg = ndr_kernel" by (simp_all add: ndr_msg_def)
  have n: "unat (num_cores ndr_kernel) = 3" "DNUM (idle_core 1) = ucast (msg_master_core ndr_kernel) + of_nat 0" "grid [(2, 2), (1, 5), (1, 1)] \<le> 10"
    "WG_gid_start ndr_config ! 0 \<noteq> DEBUG_MODE_WG_GID_START" "calls (idle_core 1) = []" "replies (idle_core 1) = []"
    by (simp_all add: ndr_kernel_def idle_core_def ndr_config_def DEBUG_MODE_WG_GID_START_def)
  have e: "end_code Kernel_abort = -7101" by (simp add: end_code_def CL_ERROR_KERNEL_ABORT_TI_def)
  obtain c' r where "monitor_step aborting_env 10 ndr_msg (idle_core 1) = Inr c'" "replies c' = [r]" "retcode r = -7101"
    "calls c' = [wg_config ndr_config [(2, 2), (1, 5), (1, 1)] 0, wg_config ndr_config [(2, 2), (1, 5), (1, 1)] 1]"
    using share_outcome_reported[of ndr_msg "[(2, 2), (1, 5), (1, 1)]" aborting_env ?f 10 0 "idle_core 1"]
    unfolding m n e calls using ok f n by (auto simp: e)
  then show ?thesis by (auto simp: wg_config_def)
qed

subsection \<open>Messages\<close>

text \<open>The messages a core has given back, as answers or to the pool, and the configuration for OpenMP.\<close>

definition returned :: "'s core \<Rightarrow> nat" where
  "returned c = length (replies c) + freed c"

definition omp_config :: "'s core \<Rightarrow> u32 \<times> u8 \<times> u8" where
  "omp_config c = (config_reference_count c, config_n_cores c, config_master_core c)"

definition frame :: "nat \<Rightarrow> 's core \<Rightarrow> 's core \<Rightarrow> bool" where
  "frame n c c' \<longleftrightarrow> returned c' = returned c + n \<and> omp_config c' = omp_config c"

lemma frame_trans0: "frame 0 c c1 \<Longrightarrow> frame n c1 c2 \<Longrightarrow> frame n c c2"
  by (simp add: frame_def)

lemma frame_simps [simp]:
  "frame 0 c c" "frame n c (flush_buffers c') = frame n c c'" "frame n c (start_counting m c') = frame n c c'"
  "frame n c (stop_counting m c') = frame n c c'" "frame n c (free_channels E c') = frame n c c'"
  "frame (Suc n) c (respond_to_host m i c') = frame n c c'" "frame (Suc n) c (MessageQ_free c') = frame n c c'"
  "frame n c (c'\<lparr>command_retcode := x\<rparr>) = frame n c c'" "frame n c (c'\<lparr>device := s\<rparr>) = frame n c c'"
  "frame n c (c'\<lparr>enable_printf := p\<rparr>) = frame n c c'" "frame n c (c'\<lparr>kernel_config_l2 := k\<rparr>) = frame n c c'"
  "frame n c (c'\<lparr>calls := cs\<rparr>) = frame n c c'" "frame n c (c'\<lparr>master_core := mc\<rparr>) = frame n c c'"
  by (auto simp: frame_def returned_def omp_config_def flush_buffers_def start_counting_def stop_counting_def free_channels_def
      respond_to_host_def MessageQ_free_def Let_def)

lemma frame_after_call: "after_call E m r c = Inr (r', c') \<Longrightarrow> frame 0 c c'"
  by (auto simp: after_call_def kernel_exit_def kernel_abort_def split: rpc_end.splits if_splits)

lemma frame_dsp_rpc: "dsp_rpc E m c = Inr (r, c') \<Longrightarrow> frame 0 c c'"
  by (auto simp: dsp_rpc_def Let_def split: prod.splits dest!: frame_after_call)
     (simp add: frame_def returned_def omp_config_def)

abbreviation "frame2 n c \<equiv> (\<lambda>x. frame n c (snd x))"

lemma after_dsp_rpc: "frame n c0 c \<Longrightarrow> holdsR (frame2 n c0) (dsp_rpc E m c)"
  by (auto simp: holdsR_def frame_def dest!: frame_dsp_rpc)

lemma after_service_workgroup: "frame n c0 c \<Longrightarrow> holdsR (frame2 n c0) (service_workgroup E m c)"
  by (simp add: service_workgroup_def after_dsp_rpc)

lemma after_workgroup_loop: "frame n c0 c \<Longrightarrow> holdsR (frame2 n c0) (workgroup_loop E fuel ls os w g m c)"
proof (induction fuel arbitrary: w g m c)
  case (Suc fuel)
  show ?case unfolding workgroup_loop.simps Let_def
    using Suc.IH
    by (intro holdsR_bindI[OF after_service_workgroup[OF Suc.prems]])
      (auto intro!: holdsR_bind_any split: rpc_end.splits prod.splits)
qed simp

lemma after_process_kernel: "frame n c0 c \<Longrightarrow> holdsR (frame2 n c0) (process_kernel_command E fuel m c)"
  unfolding process_kernel_command_def Let_def
proof (rule holdsR_bind_any, rule holdsR_bind_any, clarify)
  fix any_work limits offsets assume "frame n c0 c"
  then have c1: "frame n c0 (start_counting m (c\<lparr>master_core := msg_master_core (kernel m), device := edma_reset E (device c)\<rparr>))" by simp
  show "holdsR (frame2 n c0) (if \<not> any_work then Inr (False, c\<lparr>master_core := msg_master_core (kernel m), device := edma_reset E (device c)\<rparr>)
     else bindR (first_workgroup (config m) offsets) (\<lambda>workgroup.
       bindR (workgroup_loop E fuel limits offsets [0, 0, 0] workgroup m
         (start_counting m (c\<lparr>master_core := msg_master_core (kernel m), device := edma_reset E (device c)\<rparr>)))
         (\<lambda>(killed, c). Inr (killed, if killed then c else stop_counting m c))))"
    using \<open>frame n c0 c\<close> by (auto intro!: holdsR_bind_any[where m = "first_workgroup (config m) offsets"] holdsR_bindI[OF after_workgroup_loop[OF c1]])
qed

lemma after_dispatch_loop: "frame n c0 c \<Longrightarrow> holdsR (frame2 n c0) (dispatch_loop E fuel m c)"
proof (induction fuel arbitrary: c)
  case (Suc fuel)
  have "holdsR (frame2 n c0) (after_call E m r (c\<lparr>device := s\<rparr>))" for r s
    using Suc.prems by (auto simp: holdsR_def frame_def dest!: frame_after_call) (simp_all add: returned_def omp_config_def)
  then show ?case
    by (auto simp: Let_def split: prod.splits intro!: holdsR_bindI Suc.IH)
qed simp

lemma frame_ocl_timeout: "frame n c0 c \<Longrightarrow> frame (Suc n) c0 (ocl_timeout E m b c)"
  by (simp add: ocl_timeout_def Let_def)

lemma after_service_omp: "frame n c0 c \<Longrightarrow> holdsR (frame (Suc n) c0) (ocl_service_omp E fuel m c)"
  unfolding ocl_service_omp_def Let_def
  by (auto intro!: holdsR_bindI[OF after_dsp_rpc[of n c0]] holdsR_bindI[OF after_dispatch_loop[of n c0]] frame_ocl_timeout holdsR_deref)

lemma after_process_task: "frame n c0 c \<Longrightarrow> holdsR (frame (Suc n) c0) (process_task_command E fuel m c)"
  unfolding process_task_command_def Let_def
  by (auto intro!: holdsR_bindI[OF after_dsp_rpc[of n c0]] after_service_omp frame_ocl_timeout holdsR_index)

lemma after_monitor_step:
  assumes "command m \<notin> {EXIT, CONFIGURE_MONITOR}"
  shows "holdsR (frame (if command m = PRINT then 0 else 1) c) (monitor_step E fuel m c)"
proof -
  define c1 where "c1 = c\<lparr>enable_printf := Some (reply_queue m), command_retcode := CL_SUCCESS\<rparr>"
  have c1: "frame 0 c c1" by (simp add: c1_def)
  note rules = holdsR_bindI[OF after_process_kernel[OF c1]] holdsR_bindI[OF after_process_task[OF c1]] frame_ocl_timeout
  have "holdsR (frame (if command m = PRINT then 0 else 1) c) (case command m of
           TASK \<Rightarrow> process_task_command E fuel m c1
         | NDRKERNEL \<Rightarrow> bindR (process_kernel_command E fuel m c1) (\<lambda>(killed, c).
             if killed then Inr (ocl_timeout E m False c)
             else Inr (process_cache_command (Kernel_id (kernel m)) m c))
         | CACHEINV \<Rightarrow> Inr (process_cache_command (-1) m c1)
         | EXIT \<Rightarrow> Inr (process_exit_command E c1)
         | SETUP_DEBUG \<Rightarrow> Inr (process_setup_debug_command c1)
         | FREQUENCY \<Rightarrow> Inr (respond_to_host m (dsp_frequency E) c1)
         | CONFIGURE_MONITOR \<Rightarrow> process_configuration_message E m c1
         | PRINT \<Rightarrow> Inr c1)"
    using assms c1 after_process_task[OF c1, of E fuel m]
    by (cases "command m") (auto simp: process_cache_command_def process_setup_debug_command_def intro!: rules)
  then show ?thesis unfolding monitor_step_def Let_def c1_def[symmetric] by (rule holdsR_bindI) simp
qed

definition configured :: "Msg \<Rightarrow> 's core \<Rightarrow> 's core \<Rightarrow> bool" where
  "configured m c c' \<longleftrightarrow> returned c' = Suc (returned c) \<and>
     (if config_reference_count c = 0 then omp_config c' = (1, cfg_n_cores m, cfg_master_core m)
      else cfg_n_cores m = config_n_cores c \<and> cfg_master_core m = config_master_core c \<and>
        omp_config c' = (config_reference_count c + 1, config_n_cores c, config_master_core c))"

lemma configured_device [simp]:
  "configured m c (c'\<lparr>device := s, edmamgr_initialized := b\<rparr>) = configured m c c'"
  "configured m c (c'\<lparr>enable_printf := p\<rparr>) = configured m c c'"
  "configured m (c\<lparr>enable_printf := p, command_retcode := x\<rparr>) = configured m c"
  by (simp_all add: fun_eq_iff configured_def returned_def omp_config_def)

lemma after_configuration: "holdsR (configured m c) (process_configuration_message E m c)"
  unfolding process_configuration_message_def Let_def
  apply (rule holdsR_bindI[where Q = "configured m c"])
  subgoal by (auto simp: configured_def returned_def omp_config_def MessageQ_free_def split: prod.splits)
  subgoal by (auto split: prod.splits)
  done

lemma process_exit_config:
  "returned (process_exit_command E c) = Suc (returned c)"
  "omp_config (process_exit_command E c) =
     (if config_reference_count c = 0 then 0 else config_reference_count c - 1, config_n_cores c, config_master_core c)"
  by (auto simp: process_exit_command_def Let_def returned_def omp_config_def MessageQ_free_def flush_buffers_def word_gt_0)

lemma monitor_step_configure: "command m = CONFIGURE_MONITOR \<Longrightarrow> holdsR (configured m c) (monitor_step E fuel m c)"
  using after_configuration[of m "c\<lparr>enable_printf := Some (reply_queue m), command_retcode := CL_SUCCESS\<rparr>" E]
  by (auto simp: monitor_step_def Let_def intro!: holdsR_bindI[where Q = "configured m c"])

lemma monitor_step_exit:
  "command m = EXIT \<Longrightarrow> monitor_step E fuel m c = Inr c' \<Longrightarrow> returned c' = Suc (returned c) \<and>
     omp_config c' = (if config_reference_count c = 0 then 0 else config_reference_count c - 1, config_n_cores c, config_master_core c)"
  using process_exit_config[of E "c\<lparr>enable_printf := Some (reply_queue m), command_retcode := CL_SUCCESS\<rparr>"]
  by (auto simp: monitor_step_def Let_def returned_def omp_config_def)

lemma process_task_returned: "process_task_command E fuel m c = Inr c' \<Longrightarrow> returned c' = Suc (returned c)"
  using after_process_task[of 0 c c E fuel m] by (simp add: holdsR_def frame_def)

lemma process_configuration_returned: "process_configuration_message E m c = Inr c' \<Longrightarrow> returned c' = Suc (returned c)"
  using after_configuration[of m c E] by (simp add: holdsR_def configured_def)

text \<open>A handler gives back the messages that it takes, each once; so does a run over many messages.\<close>

locale message_handler =
  fixes handle :: "Msg \<Rightarrow> 's core \<Rightarrow> 's core result" and takes :: "Msg \<Rightarrow> bool"
  assumes gives_back: "handle m c = Inr c' \<Longrightarrow> returned c' = returned c + (if takes m then 1 else 0)"
begin

lemma run_gives_back: "foldR handle ms c = Inr c' \<Longrightarrow> returned c' = returned c + length (filter takes ms)"
  by (induction ms arbitrary: c) (auto simp: bindR_eq_Inr dest!: gives_back)

end

interpretation task: message_handler "process_task_command E fuel" "\<lambda>_. True" for E :: "'s env" and fuel
  by unfold_locales (simp add: process_task_returned)

interpretation configuration: message_handler "process_configuration_message E" "\<lambda>_. True" for E :: "'s env"
  by unfold_locales (simp add: process_configuration_returned)

interpretation monitor_loop: message_handler "monitor_step E fuel" "\<lambda>m. command m \<noteq> PRINT" for E :: "'s env" and fuel
proof unfold_locales
  fix m c c' assume step: "monitor_step E fuel m c = Inr c'"
  consider "command m = EXIT" | "command m = CONFIGURE_MONITOR" | "command m \<notin> {EXIT, CONFIGURE_MONITOR}" by auto
  then show "returned c' = returned c + (if command m \<noteq> PRINT then 1 else 0)"
  proof cases
    case 1
    with monitor_step_exit[OF 1 step] show ?thesis by simp
  next
    case 2
    with monitor_step_configure[OF 2, of c E fuel] step show ?thesis by (simp add: holdsR_def configured_def)
  next
    case 3
    with after_monitor_step[OF 3, of c E fuel] step show ?thesis by (auto simp: holdsR_def frame_def split: if_splits)
  qed
qed

lemma ocl_monitor_foldR: "ocl_monitor E fuel ms c = foldR (monitor_step E fuel) ms c"
  by (induction ms arbitrary: c) (auto intro: bindR_cong)



subsection \<open>Configuration\<close>

definition count_cmd :: "command_codes \<Rightarrow> Msg list \<Rightarrow> nat" where
  "count_cmd k ms = length (filter (\<lambda>m. command m = k) ms)"

lemma count_cmd_simps [simp]: "count_cmd k [] = 0" "count_cmd k (m # ms) = (if command m = k then 1 else 0) + count_cmd k ms"
  by (simp_all add: count_cmd_def)

lemma unat_plus_1: "unat c + 1 < 2 ^ 32 \<Longrightarrow> unat (c + 1) = unat c + 1" for c :: u32
  by (simp add: unat_word_ariths unsigned_of_nat)

lemma unat_minus_1: "c \<noteq> 0 \<Longrightarrow> unat (c - 1) = unat c - 1" for c :: u32
  by (simp add: unat_minus_one)

text \<open>C20: while at least one process that uses the monitor has not left, the
  configuration for OpenMP stays as it is, a process that asks for another one does not get it (the
  monitor aborts, so a run that ends has none), and the count of processes is right.\<close>

theorem configuration_kept:
  assumes "ocl_monitor E fuel ms c = Inr c'" and "count_cmd EXIT ms < unat (config_reference_count c)"
    and "unat (config_reference_count c) + length ms < 2 ^ 32"
  shows "config_n_cores c' = config_n_cores c \<and> config_master_core c' = config_master_core c \<and>
     (\<forall>m \<in> set ms. command m = CONFIGURE_MONITOR \<longrightarrow>
        cfg_n_cores m = config_n_cores c \<and> cfg_master_core m = config_master_core c) \<and>
     unat (config_reference_count c') + count_cmd EXIT ms = unat (config_reference_count c) + count_cmd CONFIGURE_MONITOR ms"
  using assms
proof (induction ms arbitrary: c)
  case (Cons m ms)
  from Cons.prems(1) obtain c1 where step: "monitor_step E fuel m c = Inr c1" and rest: "ocl_monitor E fuel ms c1 = Inr c'"
    by (auto simp: bindR_eq_Inr)
  have c: "config_reference_count c \<noteq> 0" using Cons.prems(2) by auto
  have one: "config_n_cores c1 = config_n_cores c \<and> config_master_core c1 = config_master_core c \<and>
      (command m = CONFIGURE_MONITOR \<longrightarrow> cfg_n_cores m = config_n_cores c \<and> cfg_master_core m = config_master_core c) \<and>
      config_reference_count c1 = (if command m = CONFIGURE_MONITOR then config_reference_count c + 1
        else if command m = EXIT then config_reference_count c - 1 else config_reference_count c)"
    using step c monitor_step_exit[OF _ step] monitor_step_configure[of m c E fuel] after_monitor_step[of m c E fuel]
    by (cases "command m") (auto simp: holdsR_def configured_def frame_def omp_config_def)
  have n: "unat (config_reference_count c1) + (if command m = EXIT then 1 else 0) =
      unat (config_reference_count c) + (if command m = CONFIGURE_MONITOR then 1 else 0)"
    using one c Cons.prems(2,3) unat_plus_1[of "config_reference_count c"] unat_minus_1[OF c] by auto
  have "count_cmd EXIT ms < unat (config_reference_count c1)" "unat (config_reference_count c1) + length ms < 2 ^ 32"
    using n Cons.prems(2,3) by (auto split: if_splits)
  from Cons.IH[OF rest this] one n show ?case by (auto split: if_splits)
qed simp

theorem configuration_kept_witness:
  "\<exists>c'. ocl_monitor quiet_env 10 [ndr_msg\<lparr>command := CONFIGURE_MONITOR, cfg_n_cores := 3, cfg_master_core := 1\<rparr>] (idle_core 1) = Inr c' \<and>
     unat (config_reference_count c') = 2"
proof -
  let ?m = "ndr_msg\<lparr>command := CONFIGURE_MONITOR, cfg_n_cores := 3, cfg_master_core := 1\<rparr>"
  obtain c' where "ocl_monitor quiet_env 10 [?m] (idle_core 1) = Inr c'"
    by (simp add: monitor_step_def ndr_msg_def process_configuration_message_def idle_core_def MessageQ_free_def Let_def)
  with configuration_kept[OF this] show ?thesis by (simp add: idle_core_def ndr_msg_def)
qed

subsection \<open>Tasks\<close>

lemma ran_groups_rest:
  "ran_groups c ce c' \<Longrightarrow> MASTER_CORE c' = MASTER_CORE c \<and> config_n_cores c' = config_n_cores c \<and>
     config_master_core c' = config_master_core c \<and> master_core c' = master_core c"
  by (cases c; cases c') (auto simp: ran_groups_def MASTER_CORE_def)

text \<open>The state in which a task is called.\<close>

definition task_entry :: "'s env \<Rightarrow> Msg \<Rightarrow> 's core \<Rightarrow> 's core" where
  "task_entry E m c = start_counting m (c\<lparr>enable_printf := Some (reply_queue m), command_retcode := CL_SUCCESS,
     master_core := msg_master_core (kernel m), device := edma_reset E (device c),
     kernel_config_l2 := task_config (config m) (kernel_config_l2 c)\<rparr>)"

lemma task_entry_simps [simp]:
  "kernel_config_l2 (task_entry E m c) = task_config (config m) (kernel_config_l2 c)" "replies (task_entry E m c) = replies c"
  "calls (task_entry E m c) = calls c" "MASTER_CORE (task_entry E m c) = (DNUM c = ucast (msg_master_core (kernel m)))"
  "command_retcode (task_entry E m c) = CL_SUCCESS" "config_n_cores (task_entry E m c) = config_n_cores c"
  "config_master_core (task_entry E m c) = config_master_core c" "master_core (task_entry E m c) = msg_master_core (kernel m)"
  by (simp_all add: task_entry_def MASTER_CORE_def start_counting_def)

lemma monitor_step_task:
  assumes "command m = TASK" and "global_size (config m) \<noteq> []"
  shows "monitor_step E fuel m c = bindR (
       if global_size (config m) ! 0 = IN_ORDER_TASK_SIZE \<and> from_sub_device (kernel m) = 0 then ocl_service_omp E fuel m (task_entry E m c)
       else bindR (dsp_rpc E m (task_entry E m c)) (\<lambda>(r, c).
             if r = Runs_on then if global_size (config m) ! 0 = IN_ORDER_TASK_SIZE then Inl Diverge else Inr (ocl_timeout E m False c)
             else Inr (flush_buffers (respond_to_host m (Kernel_id (kernel m)) (stop_counting m c))))) (\<lambda>c. Inr (c\<lparr>enable_printf := None\<rparr>))"
  using assms by (simp add: monitor_step_def process_task_command_def task_entry_def Let_def)


definition task_msg :: Msg where
  "task_msg = ndr_msg\<lparr>command := TASK, config := ndr_config\<lparr>global_size := [1, 1, 1]\<rparr>\<rparr>"

definition stuck_env :: "unit env" where
  "stuck_env = quiet_env\<lparr>rpc := (\<lambda>_ _ s. (Runs_on, s))\<rparr>"

definition timed_kernel :: kernel_msg where
  "timed_kernel = ndr_kernel\<lparr>timeout_ms := 100\<rparr>"


text \<open>C38: a task in order from a root device other than the one that
  configured the monitor is refused with a message, but the code goes on: the task is called all the
  same, and the answer is then written through a null pointer.\<close>

theorem omp_mismatch_undefined:
  assumes "command m = TASK" and "global_size (config m) \<noteq> []" and "global_size (config m) ! 0 = IN_ORDER_TASK_SIZE"
    and "from_sub_device (kernel m) = 0" and "DNUM c = ucast (msg_master_core (kernel m))"
    and "config_master_core c \<noteq> msg_master_core (kernel m) \<or> config_n_cores c \<noteq> num_cores (kernel m)"
    and "outcome E (kernel m) (\<lambda>_. Returned)"
  shows "monitor_step E fuel m c = Inl Undefined"
proof -
  have entry: "MASTER_CORE (flush_buffers (task_entry E m c))" using assms(5) by (simp add: flush_buffers_def MASTER_CORE_def task_entry_def start_counting_def)
  obtain c1 where "dsp_rpc E m (flush_buffers (task_entry E m c)) = Inr (Returned, c1)"
    using dsp_rpc_outcome[OF assms(7), of "flush_buffers (task_entry E m c)"] by auto
  with entry assms show ?thesis by (auto simp: monitor_step_task ocl_service_omp_def)
qed

theorem omp_mismatch_undefined_witness:
  "monitor_step quiet_env 0 (task_msg\<lparr>kernel := ndr_kernel\<lparr>num_cores := 2\<rparr>\<rparr>) (idle_core 1) = Inl Undefined"
  by (rule omp_mismatch_undefined)
    (simp_all add: task_msg_def ndr_msg_def ndr_kernel_def idle_core_def outcome_def quiet_env_def IN_ORDER_TASK_SIZE_def)

text \<open>The clock does not stop a task in order from a sub device: it
  runs in the task of the monitor, but the clock ends the task for OpenMP, and the monitor is stuck
  for good in spite of the timeout.\<close>

lemma sub_device_task_not_stopped:
  assumes "command m = TASK" and "global_size (config m) \<noteq> []" and "global_size (config m) ! 0 = IN_ORDER_TASK_SIZE"
    and "from_sub_device (kernel m) \<noteq> 0" and "timeout_ms (kernel m) \<noteq> 0" and "\<forall>cfg s. fst (rpc E (kernel m) cfg s) = Runs_on"
  shows "monitor_step E fuel m c = Inl Diverge"
proof -
  have "outcome E (kernel m) (\<lambda>_. Runs_on)" using assms(5,6) by (simp add: outcome_def)
  then obtain c1 where "dsp_rpc E m (task_entry E m c) = Inr (Runs_on, c1)" using dsp_rpc_outcome by blast
  with assms show ?thesis by (simp add: monitor_step_task)
qed

end
