(* ===== verification/Host_Mail_Properties.thy ===== *)
theory Host_Mail_Properties
  imports Host_Mail Monitor_Properties "HOL-Library.Multiset"
begin

text \<open>
  Properties of the mail between host and cores: the core scheduler counts the tasks out of order on every core
  and picks the least loaded one, and a kernel event is complete after the last answer for it, with an error
  if one of the answers reports one. With the monitor at the other end this gives the life of a kernel event from
  sending to completion.
\<close>

subsection \<open>The core scheduler\<close>

definition sched_inv :: "CoreScheduler \<Rightarrow> bool" where
  "sched_inv s \<longleftrightarrow> uint (sched_depth s) < 2 ^ 31 \<and> (\<forall>c. 0 \<le> count_at s c \<and> count_at s c \<le> uint (sched_depth s))"

lemma count_as_word: "sched_inv s \<Longrightarrow> uint (of_int (count_at s c) :: u32) = count_at s c"
proof -
  assume "sched_inv s"
  then have "0 \<le> count_at s c" "count_at s c < 2 ^ 32" by (auto simp: sched_inv_def dest!: spec[of _ c])
  then show ?thesis by (simp add: uint_word_of_int_eq take_bit_eq_mod)
qed

lemma count_at_touch [simp]: "count_at (touch cus s) = count_at s" "sched_depth (touch cus s) = sched_depth s" "sched_inv (touch cus s) = sched_inv s"
  by (auto simp: touch_def count_at_def sched_inv_def fun_eq_iff)

lemma count_at_reserve [simp]: "count_at (core_reserve c s) = (count_at s)(c := count_at s c + 1)" "sched_depth (core_reserve c s) = sched_depth s"
  by (auto simp: core_reserve_def count_at_def fun_eq_iff)

lemma count_at_release [simp]: "count_at (core_release c s) = (count_at s)(c := count_at s c - 1)" "sched_depth (core_release c s) = sched_depth s"
  by (auto simp: core_release_def count_at_def fun_eq_iff)

text \<open>The loop finds the least loaded core.\<close>

lemma select_loop_least:
  assumes "sched_inv s"
  shows "(select_loop s cs d c0 = c0 \<and> (\<forall>c \<in> set cs. uint d \<le> count_at s (ucast c))) \<or>
     (\<exists>c \<in> set cs. select_loop s cs d c0 = ucast c \<and> count_at s (ucast c) < uint d \<and> (\<forall>c' \<in> set cs. count_at s (ucast c) \<le> count_at s (ucast c')))"
proof (induction cs arbitrary: d c0)
  case (Cons c cs)
  let ?n = "of_int (count_at s (ucast c)) :: u32"
  have n: "uint ?n = count_at s (ucast c)" by (rule count_as_word[OF assms])
  show ?case
  proof (cases "?n < d")
    case True
    then have "count_at s (ucast c) < uint d" using n by (simp add: word_less_def)
    then show ?thesis using Cons.IH[of ?n "ucast c"] True n by auto
  next
    case False
    then have "uint d \<le> count_at s (ucast c)" using n by (simp add: word_less_def)
    then show ?thesis using Cons.IH[of d c0] False by force
  qed
qed simp

lemma some_core_free:
  assumes "sched_inv s" and "any_core_available cus s"
  shows "\<exists>c \<in> set cus. count_at s (ucast c) < uint (sched_depth s)"
proof (rule ccontr)
  assume "\<not> ?thesis"
  then have "\<forall>c \<in> set cus. uint (sched_depth s) \<le> count_at s (ucast c)" by force
  then have "int (length cus) * uint (sched_depth s) \<le> (\<Sum>c \<leftarrow> cus. count_at s (ucast c))"
    by (induction cus) (auto simp: algebra_simps)
  then show False using assms(2) by (simp add: any_core_available_def)
qed

lemma no_core_free:
  assumes "sched_inv s" and "\<not> any_core_available cus s"
  shows "\<forall>c \<in> set cus. count_at s (ucast c) = uint (sched_depth s)"
proof -
  have le: "\<forall>c. count_at s c \<le> uint (sched_depth s)" using assms(1) by (simp add: sched_inv_def)
  have "(\<Sum>c \<leftarrow> cus. count_at s (ucast c)) \<ge> int (length cus) * uint (sched_depth s)" using assms(2) by (simp add: any_core_available_def)
  then show ?thesis
  proof (induction cus)
    case (Cons c cus)
    have "(\<Sum>c \<leftarrow> cus. count_at s (ucast c)) \<le> int (length cus) * uint (sched_depth s)"
      using le by (induction cus) (auto simp: algebra_simps add_mono)
    with Cons le show ?case by (auto simp: algebra_simps dest: spec[of _ "ucast c"])
  qed simp
qed

text \<open>
  The states of a scheduler, with the tasks that are running: \<open>R\<close> has the core of each. A task is started by
  \<open>allocate\<close> for some set of compute units and ended by \<open>free\<close> of its core.
\<close>

inductive scheduling :: "CoreScheduler \<Rightarrow> u32 multiset \<Rightarrow> bool" where
  sched_start: "uint d < 2 ^ 31 \<Longrightarrow> scheduling (CoreScheduler_new cus d) {#}"
| sched_alloc: "scheduling s R \<Longrightarrow> sched_allocate cus s = Inr (Some (core, s')) \<Longrightarrow> scheduling s' (add_mset core R)"
| sched_end: "scheduling s R \<Longrightarrow> core \<in># R \<Longrightarrow> sched_free core s = Inr s' \<Longrightarrow> scheduling s' (R - {#core#})"

lemma sched_allocate_cases:
  assumes "sched_inv s" and "cus \<noteq> []"
  obtains (full) "sched_allocate cus s = Inr None" "\<forall>c \<in> set cus. count_at s (ucast c) = uint (sched_depth s)"
    | (free) c where "c \<in> set cus" "sched_allocate cus s = Inr (Some (ucast c, core_reserve (ucast c) (touch cus s)))"
        "count_at s (ucast c) < uint (sched_depth s)" "\<forall>c' \<in> set cus. count_at s (ucast c) \<le> count_at s (ucast c')"
proof (cases "any_core_available cus (touch cus s)")
  case True
  then obtain c where c: "c \<in> set cus" "select_loop (touch cus s) cus (sched_depth s) (ucast (cus ! 0)) = ucast c"
      "count_at s (ucast c) < uint (sched_depth s)" "\<forall>c' \<in> set cus. count_at s (ucast c) \<le> count_at s (ucast c')"
    using select_loop_least[of "touch cus s" cus "sched_depth s" "ucast (cus ! 0)"] some_core_free[of "touch cus s" cus] assms(1) by fastforce
  then show ?thesis using free[of c] True assms(2) by (simp add: sched_allocate_def core_select_def)
next
  case False
  then show ?thesis using full no_core_free[of "touch cus s" cus] assms by (simp add: sched_allocate_def)
qed

lemma scheduling_inv:
  "scheduling s R \<Longrightarrow> sched_inv s \<and> (\<forall>c. count_at s c = int (count R c))"
proof (induction rule: scheduling.induct)
  case (sched_start d cus)
  then show ?case by (auto simp: sched_inv_def CoreScheduler_new_def count_at_def)
next
  case (sched_alloc s R cus core s')
  have "cus \<noteq> []" using sched_alloc.hyps(2) by (auto simp: sched_allocate_def)
  with sched_alloc.IH[THEN conjunct1] show ?case
  proof (cases rule: sched_allocate_cases)
    case (free c)
    then show ?thesis using sched_alloc by (auto simp: sched_inv_def)
  qed (use sched_alloc.hyps(2) in simp)
next
  case (sched_end s R core s')
  then have "0 < count_at s core" "s' = core_release core s" by (auto simp: sched_free_def split: if_splits)
  moreover have "count_at s core = int (count R core)" using sched_end.IH by blast
  moreover have "int (count R core) - 1 \<le> uint (sched_depth s)" using sched_end.IH by (auto simp: sched_inv_def dest!: spec[of _ core])
  ultimately show ?case using sched_end.IH by (auto simp: sched_inv_def of_nat_diff)
qed



subsection \<open>Completion\<close>

text \<open>An answer to the kernel with number \<open>k\<close>; the cores whose slots may be freed are known to the scheduler.\<close>

definition answers :: "u32 \<Rightarrow> rx_msg \<Rightarrow> bool" where
  "answers k rx \<longleftrightarrow> rx_command rx \<notin> {PRINT, EXIT} \<and> rx_trans_id rx = k"

definition cores_known :: "DSPCoreSet \<Rightarrow> 'e host \<Rightarrow> bool" where
  "cores_known cus h \<longleftrightarrow> (\<forall>c \<in> set cus. sched_count (core_scheduler h) (ucast c) \<noteq> None)"

text \<open>What a host knows of kernel \<open>k\<close>: its entry in the table, and an error of an answer for it.\<close>

abbreviation entry :: "u32 \<Rightarrow> 'e host \<Rightarrow> ('e \<times> u32) option" where
  "entry k h \<equiv> M (p_complete_pending h) k"

definition event_only :: "u32 \<Rightarrow> 'e \<Rightarrow> 'e host \<Rightarrow> bool" where
  "event_only k ev h \<longleftrightarrow> (\<forall>i e n. i \<noteq> k \<longrightarrow> entry i h = Some (e, n) \<longrightarrow> e \<noteq> ev)"

lemma mail_from_ok:
  assumes "cores_known cus h"
  shows "\<exists>h1. mail_from cus rx h =
      Inr (if rx_command rx \<in> {PRINT, EXIT} then -1 else sint (rx_trans_id rx), if rx_command rx \<in> {PRINT, EXIT} then None else Some (rx_retcode rx), h1) \<and>
    cores_known cus h1 \<and> p_complete_pending h1 = p_complete_pending h \<and> kernel_errors h1 = kernel_errors h"
proof -
  have "sched_free (ucast c) (core_scheduler h) = Inr (core_release (ucast c) (core_scheduler h))" if "c \<in> set cus" for c
    using assms that by (simp add: cores_known_def sched_free_def)
  then show ?thesis
    using assms by (auto simp: mail_from_def cores_known_def core_release_def)
qed

lemma of_sint: "of_int (sint (k :: u32)) = k"
  by simp

lemma completion_other:
  assumes "cores_known cus h" and "\<not> answers k rx" and "event_only k ev h" and "0 \<le> sint k"
  shows "\<exists>r h'. handle_event_completion cus rx h = Inr (r, h') \<and> cores_known cus h' \<and> entry k h' = entry k h \<and>
     kernel_errors h' (sint k) = kernel_errors h (sint k) \<and> event_only k ev h' \<and> (\<forall>rc. r \<noteq> Some (ev, rc))"
proof -
  obtain h1 where h1: "mail_from cus rx h =
      Inr (if rx_command rx \<in> {PRINT, EXIT} then -1 else sint (rx_trans_id rx), if rx_command rx \<in> {PRINT, EXIT} then None else Some (rx_retcode rx), h1)"
      "cores_known cus h1" "p_complete_pending h1 = p_complete_pending h" "kernel_errors h1 = kernel_errors h"
    using mail_from_ok[OF assms(1)] by blast
  show ?thesis
  proof (cases "rx_command rx \<in> {PRINT, EXIT} \<or> sint (rx_trans_id rx) < 0")
    case True
    then show ?thesis using h1 assms(3) by (auto simp: handle_event_completion_def event_only_def)
  next
    case False
    then have ne: "rx_trans_id rx \<noteq> k" "sint (rx_trans_id rx) \<noteq> sint k" using assms(2) by (auto simp: answers_def signed_word_eqI)
    have ev: "e \<noteq> ev" if "entry (rx_trans_id rx) h = Some (e, n)" for e n using assms(3) ne(1) that by (auto simp: event_only_def)
    show ?thesis using False h1 ne ev assms(3)
      by (auto simp: handle_event_completion_def Let_def of_sint try_pop_def cores_known_def event_only_def split: option.splits)
  qed
qed

lemma completion_answer:
  assumes "cores_known cus h" and "answers k rx" and "event_only k ev h" and "0 \<le> sint k" and "entry k h = Some (ev, n)"
  shows "\<exists>h'. handle_event_completion cus rx h =
       Inr (if n = 1 then Some (ev, case kernel_errors h (sint k) of None \<Rightarrow> rx_retcode rx | Some e \<Rightarrow> e) else None, h') \<and> cores_known cus h' \<and>
     entry k h' = (if n = 1 then None else Some (ev, n - 1)) \<and> event_only k ev h' \<and>
     kernel_errors h' (sint k) = (if n = 1 then None else if rx_retcode rx \<noteq> CL_SUCCESS then Some (rx_retcode rx) else kernel_errors h (sint k))"
proof -
  obtain h1 where h1: "mail_from cus rx h = Inr (sint k, Some (rx_retcode rx), h1)"
      "cores_known cus h1" "p_complete_pending h1 = p_complete_pending h" "kernel_errors h1 = kernel_errors h"
    using mail_from_ok[OF assms(1), of rx] assms(2) by (auto simp: answers_def)
  have "n - 1 = 0 \<longleftrightarrow> n = 1" by auto
  then show ?thesis using h1 assms(3-5)
    by (auto simp: handle_event_completion_def Let_def of_sint try_pop_def cores_known_def event_only_def split: option.splits)
qed

text \<open>
  The code of an event after the answers with codes \<open>rcs\<close>: the last answer's, unless one before it had an error.
\<close>

definition verdict :: "int option \<Rightarrow> int list \<Rightarrow> int" where
  "verdict e rcs = (let es = filter (\<lambda>rc. rc \<noteq> CL_SUCCESS) (butlast rcs)
     in if es \<noteq> [] then last es else case e of Some e \<Rightarrow> e | None \<Rightarrow> last rcs)"

lemma verdict_Cons: "rcs \<noteq> [] \<Longrightarrow> verdict e (rc # rcs) = verdict (if rc \<noteq> CL_SUCCESS then Some rc else e) rcs"
  by (auto simp: verdict_def Let_def split: option.splits)

lemma verdict_success: "rcs \<noteq> [] \<Longrightarrow> verdict None rcs = CL_SUCCESS \<longleftrightarrow> (\<forall>rc \<in> set rcs. rc = CL_SUCCESS)"
proof -
  assume "rcs \<noteq> []"
  then obtain xs x where rcs: "rcs = xs @ [x]" by (metis append_butlast_last_id)
  have "last (filter (\<lambda>rc. rc \<noteq> 0) xs) \<noteq> 0" if "filter (\<lambda>rc. rc \<noteq> 0) xs \<noteq> []" using last_in_set[OF that] by auto
  then show ?thesis by (auto simp: verdict_def Let_def rcs filter_empty_conv)
qed

lemma verdict_in: "rcs \<noteq> [] \<Longrightarrow> verdict None rcs \<in> set rcs"
proof -
  assume "rcs \<noteq> []"
  then obtain xs x where rcs: "rcs = xs @ [x]" by (metis append_butlast_last_id)
  have "last (filter (\<lambda>rc. rc \<noteq> 0) xs) \<in> set xs" if "filter (\<lambda>rc. rc \<noteq> 0) xs \<noteq> []" using last_in_set[OF that] by auto
  then show ?thesis by (auto simp: verdict_def Let_def rcs)
qed

lemma completion_run_other:
  assumes "cores_known cus h" and "event_only k ev h" and "0 \<le> sint k" and "entry k h = None" and "\<forall>rx \<in> set rxs. \<not> answers k rx"
  shows "\<exists>cs h'. completion_thread cus rxs h = Inr (cs, h') \<and> (\<forall>rc. (ev, rc) \<notin> set cs) \<and> entry k h' = None"
  using assms
proof (induction rxs arbitrary: h)
  case (Cons rx rxs)
  obtain r h1 where h1: "handle_event_completion cus rx h = Inr (r, h1)" "cores_known cus h1" "entry k h1 = entry k h" "event_only k ev h1" "\<forall>rc. r \<noteq> Some (ev, rc)"
    using completion_other[OF Cons.prems(1) _ Cons.prems(2,3), of rx] Cons.prems(5) by auto
  then show ?case using Cons.IH[OF h1(2,4) Cons.prems(3)] Cons.prems(4,5) by (auto split: option.splits)
qed simp

lemma completion_run:
  assumes "cores_known cus h" and "event_only k ev h" and "0 \<le> sint k" and "entry k h = Some (ev, n)" and "length (filter (answers k) rxs) = unat n" and "n \<noteq> 0"
  shows "\<exists>cs h'. completion_thread cus rxs h = Inr (cs, h') \<and> entry k h' = None \<and>
     filter (\<lambda>c. fst c = ev) cs = [(ev, verdict (kernel_errors h (sint k)) (map rx_retcode (filter (answers k) rxs)))]"
  using assms
proof (induction rxs arbitrary: h n)
  case (Cons rx rxs)
  show ?case
  proof (cases "answers k rx")
    case False
    obtain r h1 where h1: "handle_event_completion cus rx h = Inr (r, h1)" "cores_known cus h1" "entry k h1 = entry k h"
        "kernel_errors h1 (sint k) = kernel_errors h (sint k)" "event_only k ev h1" "\<forall>rc. r \<noteq> Some (ev, rc)"
      using completion_other[OF Cons.prems(1) False Cons.prems(2,3)] by blast
    then show ?thesis using Cons.IH[OF h1(2,5) Cons.prems(3), of n] Cons.prems(4-6) False by (auto split: option.splits)
  next
    case True
    obtain h1 where h1: "handle_event_completion cus rx h =
          Inr (if n = 1 then Some (ev, case kernel_errors h (sint k) of None \<Rightarrow> rx_retcode rx | Some e \<Rightarrow> e) else None, h1)" "cores_known cus h1"
        "entry k h1 = (if n = 1 then None else Some (ev, n - 1))" "event_only k ev h1"
        "kernel_errors h1 (sint k) = (if n = 1 then None else if rx_retcode rx \<noteq> CL_SUCCESS then Some (rx_retcode rx) else kernel_errors h (sint k))"
      using completion_answer[OF Cons.prems(1) True Cons.prems(2-4)] by blast
    show ?thesis
    proof (cases "n = 1")
      case n: True
      then have rest: "filter (answers k) rxs = []" using Cons.prems(5) True by simp
      then have "\<forall>rx \<in> set rxs. \<not> answers k rx" by (simp add: filter_empty_conv)
      then obtain cs h2 where "completion_thread cus rxs h1 = Inr (cs, h2)" "\<forall>rc. (ev, rc) \<notin> set cs" "entry k h2 = None"
        using completion_run_other[OF h1(2,4) Cons.prems(3)] h1(3) n by (metis (full_types))
      moreover from this have "filter (\<lambda>c. fst c = ev) cs = []" by (auto simp: filter_empty_conv)
      ultimately show ?thesis using h1(1) n True rest by (auto simp: verdict_def split: option.splits)
    next
      case n: False
      have u: "unat (n - 1) = unat n - 1" using Cons.prems(6) by (simp add: unat_minus_one)
      have len: "length (filter (answers k) rxs) = unat (n - 1)" "n - 1 \<noteq> 0" using Cons.prems(5) True u n by auto
      then have "filter (answers k) rxs \<noteq> []" by (metis list.size(3) unat_eq_0)
      then show ?thesis using Cons.IH[OF h1(2,4) Cons.prems(3), of "n - 1"] h1(1,3,5) len n True
        by (auto simp: verdict_Cons[symmetric] split: if_splits)
    qed
  qed
qed (simp add: unat_eq_0)

lemma completed_once:
  assumes "cores_known cus h" and "event_only k ev h" and "0 \<le> sint k" and "kernel_errors h (sint k) = None" and "n \<noteq> 0"
    and "length (filter (answers k) rxs) = unat n"
  shows "\<exists>cs h' rc. completion_thread cus rxs (push_complete_pending k ev n h) = Inr (cs, h') \<and> entry k h' = None \<and>
     filter (\<lambda>c. fst c = ev) cs = [(ev, rc)] \<and> rc \<in> set (map rx_retcode (filter (answers k) rxs)) \<and>
     (rc = CL_SUCCESS \<longleftrightarrow> (\<forall>rx \<in> set rxs. answers k rx \<longrightarrow> rx_retcode rx = CL_SUCCESS))"
proof -
  let ?h = "push_complete_pending k ev n h" and ?rcs = "map rx_retcode (filter (answers k) rxs)"
  have h: "cores_known cus ?h" "event_only k ev ?h" "entry k ?h = Some (ev, n)" "kernel_errors ?h (sint k) = None"
    using assms(1,2,4) by (auto simp: push_complete_pending_def cm_push_def cores_known_def event_only_def)
  obtain cs h' where run: "completion_thread cus rxs ?h = Inr (cs, h')" "entry k h' = None" "filter (\<lambda>c. fst c = ev) cs = [(ev, verdict None ?rcs)]"
    using completion_run[OF h(1,2) assms(3) h(3) assms(6,5)] h(4) by auto
  have "?rcs \<noteq> []" using assms(5,6) by (metis length_map list.size(3) unat_eq_0)
  from verdict_in[OF this] verdict_success[OF this] have "verdict None ?rcs \<in> set ?rcs"
      "verdict None ?rcs = CL_SUCCESS \<longleftrightarrow> (\<forall>rx \<in> set rxs. answers k rx \<longrightarrow> rx_retcode rx = CL_SUCCESS)" by auto
  with run show ?thesis by blast
qed

text \<open>
  C27: An event that was entered with the number of answers to wait for completes
  exactly once, whatever other messages arrive in between and in whatever order: with the last of that many
  answers for it. Its return code is that of one of the answers, and says success only if all of them do.
\<close>

theorem event_completed_once:
  assumes "cores_known cus h" and "event_only k ev h" and "0 \<le> sint k" and "kernel_errors h (sint k) = None" and "n \<noteq> 0"
    and "length (filter (answers k) rxs) = unat n"
  shows "\<exists>cs h' rc. completion_thread cus rxs (push_complete_pending k ev n h) = Inr (cs, h') \<and> entry k h' = None \<and>
     filter (\<lambda>c. fst c = ev) cs = [(ev, rc)] \<and> rc \<in> set (map rx_retcode (filter (answers k) rxs)) \<and>
     (rc = CL_SUCCESS \<longleftrightarrow> (\<forall>rx \<in> set rxs. answers k rx \<longrightarrow> rx_retcode rx = CL_SUCCESS))"
  using assms by (rule completed_once)

subsection \<open>The life of a kernel event\<close>

lemma all_filter_image: "set (filter P xs) = set (map g ks) \<Longrightarrow> (\<forall>x \<in> set xs. P x \<longrightarrow> Q x) \<longleftrightarrow> (\<forall>k \<in> set ks. Q (g k))"
proof -
  assume *: "set (filter P xs) = set (map g ks)"
  have "(\<forall>x \<in> set xs. P x \<longrightarrow> Q x) \<longleftrightarrow> (\<forall>x \<in> set (filter P xs). Q x)" by auto
  also have "\<dots> \<longleftrightarrow> (\<forall>k \<in> set ks. Q (g k))" unfolding * by simp
  finally show ?thesis .
qed

lemma run_calls_returned: "snd (run_calls f xs) = Returned \<longleftrightarrow> (\<forall>x \<in> set xs. f x = Returned)"
  by (induction xs) auto

lemma end_code_success: "end_code e = CL_SUCCESS \<longleftrightarrow> e = Returned"
  by (cases e) (simp_all add: end_code_def CL_ERROR_KERNEL_EXIT_TI_def CL_ERROR_KERNEL_ABORT_TI_def CL_ERROR_KERNEL_TIMEOUT_TI_def)

lemma all_shares_returned:
  assumes "0 < nc"
  shows "(\<forall>k < nc. snd (run_calls f (core_share cfg ds nc k)) = Returned) \<longleftrightarrow> (\<forall>t < grid ds. f (wg_config cfg ds t) = Returned)"
proof -
  have "(\<forall>k < nc. snd (run_calls f (core_share cfg ds nc k)) = Returned) \<longleftrightarrow> (\<forall>x \<in> set (concat (map (core_share cfg ds nc) [0..<nc])). f x = Returned)"
    by (auto simp: run_calls_returned)
  also have "\<dots> \<longleftrightarrow> (\<forall>t < grid ds. f (wg_config cfg ds t) = Returned)" unfolding concat_core_share[OF assms] by auto
  finally show ?thesis .
qed

text \<open>
  C5: The life of an NDRange kernel event. The host enters the event with \<open>numHostMails\<close> and
  sends the message to all cores of the device. The monitor of each core answers it once. In whatever order the answers
  arrive, between whatever other messages, the event completes once, and its code is success exactly when the
  calls of the kernel return for all of the work-groups.
\<close>

theorem kernel_event_life:
  assumes "command m = NDRKERNEL" and "ndr_ok ds (config m)" and "\<not> IS_DEBUG_MODE m" and "outcome E (kernel m) f" and "grid ds \<le> fuel"
    and "nc = unat (num_cores (kernel m))" and "0 < nc" and "length cus = nc"
    and "\<forall>k < nc. DNUM (c k) = ucast (msg_master_core (kernel m)) + of_nat k"
    and "cores_known root h" and "event_only (Kernel_id (kernel m)) ev h" and "0 \<le> sint (Kernel_id (kernel m))"
    and "kernel_errors h (sint (Kernel_id (kernel m))) = None"
  shows "mail_to m cus (core_scheduler h) = Inr (Some (map ucast cus, core_scheduler h)) \<and>
     (\<exists>c' r. (\<forall>k < nc. monitor_step E fuel m (c k) = Inr (c' k) \<and> replies (c' k) = replies (c k) @ [r k] \<and> trans_id (r k) = Kernel_id (kernel m)) \<and>
       (\<forall>rxs st. mset (filter (answers (Kernel_id (kernel m))) rxs) = mset (map (\<lambda>k. rx_of m (cus ! k) (st k) (r k)) [0..<nc]) \<longrightarrow>
         (\<exists>cs h' rc. completion_thread root rxs (push_complete_pending (Kernel_id (kernel m)) ev (numHostMails cus m) h) = Inr (cs, h') \<and>
           filter (\<lambda>c. fst c = ev) cs = [(ev, rc)] \<and>
           (rc = CL_SUCCESS \<longleftrightarrow> (\<forall>t < grid ds. f (wg_config (config m) ds t) = Returned)))))"
proof -
  let ?id = "Kernel_id (kernel m)"
  have dbg: "WG_gid_start (config m) ! 0 \<noteq> DEBUG_MODE_WG_GID_START" using assms(3) by (simp add: IS_DEBUG_MODE_def)
  have "\<exists>c' r. monitor_step E fuel m (c k) = Inr c' \<and> replies c' = replies (c k) @ [r] \<and> trans_id r = ?id \<and>
       retcode r = end_code (snd (run_calls f (core_share (config m) ds nc k)))" if "k < nc" for k
    using answered_ndr_share[OF assms(1,2) dbg assms(4,5) that assms(6) _ refl, of "c k"] assms(9) that by auto
  then obtain c' r where run: "\<forall>k < nc. monitor_step E fuel m (c k) = Inr (c' k) \<and> replies (c' k) = replies (c k) @ [r k]"
      "\<forall>k < nc. trans_id (r k) = ?id \<and> retcode (r k) = end_code (snd (run_calls f (core_share (config m) ds nc k)))"
    by metis
  have "nc < 2 ^ 8" unfolding assms(6) using unsigned_less[of "num_cores (kernel m)", where ?'a = nat] by simp
  then have "unat (numHostMails cus m) = nc" using assms(1,3,8) by (simp add: numHostMails_def unat_of_nat take_bit_nat_eq_self)
  moreover from this have "numHostMails cus m \<noteq> 0" using assms(7) by (metis less_irrefl unat_0)
  ultimately have n: "unat (numHostMails cus m) = nc" "numHostMails cus m \<noteq> 0" .
  have "\<exists>cs h' rc. completion_thread root rxs (push_complete_pending ?id ev (numHostMails cus m) h) = Inr (cs, h') \<and>
      filter (\<lambda>c. fst c = ev) cs = [(ev, rc)] \<and> (rc = CL_SUCCESS \<longleftrightarrow> (\<forall>t < grid ds. f (wg_config (config m) ds t) = Returned))"
    if rxs: "mset (filter (answers ?id) rxs) = mset (map (\<lambda>k. rx_of m (cus ! k) (st k) (r k)) [0..<nc])" for rxs st
  proof -
    have len: "length (filter (answers ?id) rxs) = unat (numHostMails cus m)" using mset_eq_length[OF rxs] n(1) by simp
    have "set (filter (answers ?id) rxs) = set (map (\<lambda>k. rx_of m (cus ! k) (st k) (r k)) [0..<nc])" using rxs by (metis set_mset_mset)
    then have "(\<forall>rx \<in> set rxs. answers ?id rx \<longrightarrow> rx_retcode rx = CL_SUCCESS) \<longleftrightarrow> (\<forall>k < nc. retcode (r k) = CL_SUCCESS)"
      by (subst all_filter_image, assumption) (auto simp: rx_of_def)
    also have "\<dots> \<longleftrightarrow> (\<forall>t < grid ds. f (wg_config (config m) ds t) = Returned)"
      using run(2) all_shares_returned[OF assms(7), of f] by (simp add: end_code_success)
    finally show ?thesis using completed_once[OF assms(10-13) n(2) len] by metis
  qed
  moreover have "mail_to m cus (core_scheduler h) = Inr (Some (map ucast cus, core_scheduler h))"
    using assms(1,3) by (simp add: mail_to_def)
  ultimately show ?thesis using run by blast
qed

text \<open>Examples: a host with three cores that has sent nothing yet.\<close>

definition fresh_host :: "nat host" where
  "fresh_host = \<lparr>core_scheduler = CoreScheduler_new [1, 2, 3] 4, p_complete_pending = \<lparr>M = (\<lambda>_. None), num_elements = 0\<rparr>,
     kernel_errors = (\<lambda>_. None), p_exit_acked = False\<rparr>"

lemma fresh_host_ok: "cores_known [1, 2, 3] fresh_host" "event_only k ev fresh_host" "kernel_errors fresh_host i = None"
  by (simp_all add: cores_known_def event_only_def fresh_host_def CoreScheduler_new_def)

definition rx_sample :: "command_codes \<Rightarrow> u32 \<Rightarrow> int \<Rightarrow> rx_msg" where
  "rx_sample cmd i rc = \<lparr>rx_command = cmd, rx_core = 1, rx_trans_id = i, rx_retcode = rc, rx_global_size0 = 1\<rparr>"

theorem event_completed_once_witness:
  "\<exists>cs h' rc. completion_thread [1, 2, 3] [rx_sample NDRKERNEL 7 (-7101), rx_sample PRINT 7 0, rx_sample NDRKERNEL 8 0, rx_sample NDRKERNEL 7 0]
       (push_complete_pending 7 42 2 fresh_host) = Inr (cs, h') \<and> filter (\<lambda>c. fst c = 42) cs = [(42, rc)] \<and> rc \<noteq> CL_SUCCESS"
proof -
  let ?rxs = "[rx_sample NDRKERNEL 7 (-7101), rx_sample PRINT 7 0, rx_sample NDRKERNEL 8 0, rx_sample NDRKERNEL 7 0]"
  have "length (filter (answers 7) ?rxs) = unat (2 :: u32)" by (simp add: answers_def rx_sample_def)
  from event_completed_once[OF fresh_host_ok(1,2) _ fresh_host_ok(3) _ this, of 42] show ?thesis by (auto simp: answers_def rx_sample_def)
qed

theorem kernel_event_life_witness:
  "\<exists>c' r. (\<forall>k < 3. monitor_step quiet_env 10 ndr_msg (idle_core (1 + of_nat k)) = Inr (c' k) \<and> replies (c' k) = [r k]) \<and>
     (\<exists>cs h'. completion_thread [1, 2, 3] (map (\<lambda>k. rx_of ndr_msg ([1, 2, 3] ! k) 0 (r k)) [0..<3])
        (push_complete_pending 7 42 (numHostMails [1, 2, 3] ndr_msg) fresh_host) = Inr (cs, h') \<and> filter (\<lambda>c. fst c = 42) cs = [(42, CL_SUCCESS)])"
proof -
  have ok: "ndr_ok [(2, 2), (1, 5), (1, 1)] ndr_config" by (simp add: ndr_ok_def ndr_config_def dim_ok_def extent_of_def)
  have f: "outcome quiet_env ndr_kernel (\<lambda>_. Returned)" by (simp add: outcome_def quiet_env_def)
  have m: "command ndr_msg = NDRKERNEL" "config ndr_msg = ndr_config" "kernel ndr_msg = ndr_kernel" "Kernel_id ndr_kernel = 7" by (simp_all add: ndr_msg_def ndr_kernel_def)
  have n: "unat (num_cores ndr_kernel) = 3" "\<not> IS_DEBUG_MODE ndr_msg" "\<forall>k < 3. DNUM (idle_core (1 + of_nat k)) = ucast (msg_master_core ndr_kernel) + of_nat k"
      "replies (idle_core d) = []" for d
    by (simp_all add: ndr_kernel_def idle_core_def ndr_msg_def ndr_config_def IS_DEBUG_MODE_def DEBUG_MODE_WG_GID_START_def)
  obtain c' r where run: "\<forall>k < 3. monitor_step quiet_env 10 ndr_msg (idle_core (1 + of_nat k)) = Inr (c' k) \<and> replies (c' k) = [r k] \<and> trans_id (r k) = 7"
      "\<forall>rxs st. mset (filter (answers 7) rxs) = mset (map (\<lambda>k. rx_of ndr_msg ([1, 2, 3] ! k) (st k) (r k)) [0..<3]) \<longrightarrow>
         (\<exists>cs h' rc. completion_thread [1, 2, 3] rxs (push_complete_pending 7 42 (numHostMails [1, 2, 3] ndr_msg) fresh_host) = Inr (cs, h') \<and>
           filter (\<lambda>c. fst c = 42) cs = [(42, rc)] \<and> (rc = CL_SUCCESS))"
    using kernel_event_life[of ndr_msg "[(2, 2), (1, 5), (1, 1)]" quiet_env "\<lambda>_. Returned" 10 3 "[1, 2, 3]" "\<lambda>k. idle_core (1 + of_nat k)" "[1, 2, 3]" fresh_host 42]
    using ok f n fresh_host_ok unfolding m n by auto
  let ?rxs = "map (\<lambda>k. rx_of ndr_msg ([1, 2, 3] ! k) 0 (r k)) [0..<3]"
  have "\<forall>rx \<in> set ?rxs. answers 7 rx" using run(1) m(1) by (auto simp: answers_def rx_of_def)
  then have "filter (answers 7) ?rxs = ?rxs" by (simp add: filter_id_conv)
  then obtain cs h' where "completion_thread [1, 2, 3] ?rxs (push_complete_pending 7 42 (numHostMails [1, 2, 3] ndr_msg) fresh_host) = Inr (cs, h')"
      "filter (\<lambda>c. fst c = 42) cs = [(42, CL_SUCCESS)]"
    using run(2)[rule_format, of ?rxs "\<lambda>_. 0"] by auto
  then show ?thesis using run(1) by blast
qed

subsection \<open>Tasks\<close>

text \<open>
  C34: An in-order task of a sub device is sent to all cores of the sub device. The host
  waits for one answer, but every core calls the task and answers: the task runs as often as the sub device has cores, and
  the event completes with the first of the answers while the others may still be running it.
\<close>

theorem sub_device_task_repeated:
  assumes "command m = TASK" and "global_size (config m) \<noteq> []" and "global_size (config m) ! 0 = IN_ORDER_TASK_SIZE"
    and "from_sub_device (kernel m) \<noteq> 0" and "outcome E (kernel m) (\<lambda>_. Returned)"
  shows "mail_to m cus s = Inr (Some (map ucast cus, s)) \<and> numHostMails cus m = 1 \<and>
     (\<forall>k < length cus. \<exists>c' r. monitor_step E fuel m (c k) = Inr c' \<and> replies c' = replies (c k) @ [r] \<and> trans_id r = Kernel_id (kernel m) \<and>
        calls c' = calls (c k) @ [task_config (config m) (kernel_config_l2 (c k))])"
proof -
  have "\<exists>c' r. monitor_step E fuel m c = Inr c' \<and> replies c' = replies c @ [r] \<and> trans_id r = Kernel_id (kernel m) \<and>
      calls c' = calls c @ [task_config (config m) (kernel_config_l2 c)]" for c
  proof -
    obtain c1 where rpc: "dsp_rpc E m (task_entry E m c) = Inr (Returned, c1)"
        "ran_groups (task_entry E m c) ([task_config (config m) (kernel_config_l2 c)], Returned) c1"
      using dsp_rpc_outcome[OF assms(5), of "task_entry E m c"] by auto
    then show ?thesis
      unfolding monitor_step_task[OF assms(1,2)] using assms(3,4) ran_groups_fields[OF rpc(2)]
      by (auto simp: respond_to_host_def flush_buffers_def stop_counting_def Let_def)
  qed
  then show ?thesis using assms(1,3) by (simp add: mail_to_def numHostMails_def IS_OOO_TASK_def)
qed

lemma idle_core_replies: "replies (idle_core d) = []"
  by (simp add: idle_core_def)

theorem sub_device_task_repeated_witness:
  "numHostMails [1, 2] (task_msg\<lparr>kernel := ndr_kernel\<lparr>from_sub_device := 1\<rparr>\<rparr>) = 1 \<and>
   (\<exists>c' r. monitor_step quiet_env 0 (task_msg\<lparr>kernel := ndr_kernel\<lparr>from_sub_device := 1\<rparr>\<rparr>) (idle_core 1) = Inr c' \<and> replies c' = [r]) \<and>
   (\<exists>c' r. monitor_step quiet_env 0 (task_msg\<lparr>kernel := ndr_kernel\<lparr>from_sub_device := 1\<rparr>\<rparr>) (idle_core 2) = Inr c' \<and> replies c' = [r])"
proof -
  let ?m = "task_msg\<lparr>kernel := ndr_kernel\<lparr>from_sub_device := 1\<rparr>\<rparr>"
  have m: "command ?m = TASK" "global_size (config ?m) \<noteq> []" "global_size (config ?m) ! 0 = IN_ORDER_TASK_SIZE" "from_sub_device (kernel ?m) \<noteq> 0"
      "outcome quiet_env (kernel ?m) (\<lambda>_. Returned)"
    by (simp_all add: task_msg_def ndr_msg_def IN_ORDER_TASK_SIZE_def outcome_def quiet_env_def)
  have two: "length [1, 2 :: u8] = 2" by simp
  have all: "numHostMails [1, 2] ?m = 1 \<and> (\<forall>k < 2. \<exists>c' r. monitor_step quiet_env 0 ?m (idle_core (1 + of_nat k)) = Inr c' \<and> replies c' = [r])"
    using sub_device_task_repeated[OF m, where cus = "[1, 2]" and c = "\<lambda>k. idle_core (1 + of_nat k)" and fuel = 0]
    unfolding idle_core_replies two append_Nil by blast
  from all[THEN conjunct2, rule_format, of 0] all[THEN conjunct2, rule_format, of 1] all[THEN conjunct1]
  show ?thesis by (simp del: One_nat_def split del: if_split)
qed

text \<open>
  C35: An in-order task takes no slot of the scheduler. When it is profiled, the status of the
  profiler overwrites the low byte of the field by which the host tells the two kinds of tasks apart; with the status for
  success the host takes the answer for one of a task out of order and frees a slot of the core, down to a count
  below 0.
\<close>

theorem profiled_task_frees_core:
  assumes "command m = TASK" and "global_size (config m) ! 0 = IN_ORDER_TASK_SIZE" and "with_profile r" and "core \<in> set cus" and "cores_known cus h"
  shows "mail_to m cus (core_scheduler h) = Inr (Some (map ucast cus, core_scheduler h)) \<and>
     (\<exists>x h'. handle_event_completion cus (rx_of m core 0 r) h = Inr (x, h') \<and>
       count_at (core_scheduler h') (ucast core) = count_at (core_scheduler h) (ucast core) - 1)"
proof -
  have "IS_OOO_TASK (rx_command (rx_of m core 0 r)) (rx_global_size0 (rx_of m core 0 r))"
    using assms(1-3) by (simp add: rx_of_def IS_OOO_TASK_def IN_ORDER_TASK_SIZE_def)
  then have "mail_from cus (rx_of m core 0 r) h = Inr (sint (trans_id r), Some (retcode r),
      h\<lparr>core_scheduler := core_release (ucast core) (core_scheduler h)\<rparr>)"
    using assms(1,4,5) by (simp add: mail_from_def rx_of_def sched_free_def cores_known_def)
  moreover have "mail_to m cus (core_scheduler h) = Inr (Some (map ucast cus, core_scheduler h))"
    using assms(1,2) by (simp add: mail_to_def IS_OOO_TASK_def)
  ultimately show ?thesis by (simp add: handle_event_completion_def Let_def split: option.splits prod.splits)
qed

theorem profiled_task_frees_core_witness:
  "\<exists>x h'. handle_event_completion [1, 2, 3] (rx_of task_msg 1 0 \<lparr>reply_to = 5, trans_id = 7, retcode = 0, with_profile = True\<rparr>) fresh_host = Inr (x, h') \<and>
     count_at (core_scheduler h') 1 = -1"
proof -
  have "command task_msg = TASK" "global_size (config task_msg) ! 0 = IN_ORDER_TASK_SIZE"
    by (simp_all add: task_msg_def IN_ORDER_TASK_SIZE_def)
  from profiled_task_frees_core[OF this _ _ fresh_host_ok(1), of "\<lparr>reply_to = 5, trans_id = 7, retcode = 0, with_profile = True\<rparr>" 1]
  show ?thesis by (simp add: fresh_host_def CoreScheduler_new_def count_at_def)
qed

end
