(* ===== verification/Command_Queue.thy ===== *)
theory Command_Queue
  imports DLoad_Prelude
begin

text \<open>
  Command queues and events (\<open>src/host/src/core/commandqueue.cpp\<close>) with the worker of the device
  (\<open>offload/worker.h\<close>, \<open>dsp/rootdevice.cpp\<close>), for the queues of one device. The code runs on several threads: those
  of the application, which enqueue_command commands and set user events, and the worker threads, which run commands and
  report their end. A thread is a stack of the calls it has still to make; the part of a call that holds one lock is
  one step, and the steps of the threads interleave in any order. Objects are numbered in the order of
  their creation. A reference count that gets to 0 stands for a deleted object. Timing, profiling and the data of a
  command are not modelled.
\<close>

subsection \<open>Events and queues\<close>

datatype ev_type = NDRangeKernel | TaskKernel | NativeKernel | ReadBuffer | WriteBuffer | CopyBuffer | ReadImage |
  WriteImage | CopyImage | CopyImageToBuffer | CopyBufferToImage | MapBuffer | MapImage | UnmapMemObject |
  MigrateMemObject | Marker | AcquireGLObjects | ReleaseGLObjects | ReadBufferRect | WriteBufferRect |
  CopyBufferRect | User | FillBuffer | Barrier | WaitForEvents

text \<open>A status is one of the following or a negative error code.\<close>

definition Complete :: int where "Complete = 0"
definition Running :: int where "Running = 1"
definition Submitted :: int where "Submitted = 2"
definition Queued :: int where "Queued = 3"

definition CL_EXEC_STATUS_ERROR_FOR_EVENTS_IN_WAIT_LIST :: int where
  "CL_EXEC_STATUS_ERROR_FOR_EVENTS_IN_WAIT_LIST = -14"

record Event =
  e_type :: ev_type
  e_parent :: "nat option"
  p_status :: int
  p_wait_events :: "nat list"
  p_dependent_events :: "nat list"
  p_callbacks :: "(int \<times> nat) list"
  e_references :: int

record CommandQueue =
  p_events :: "nat list"
  p_num_events_on_device :: int
  p_num_events_completed :: int
  is_ooo :: bool
  p_flushed :: bool
  q_references :: int

text \<open>
  The calls a thread has still to make. \<open>NewEvent\<close> is the constructor of an event that is queued afterwards. \<open>NotifyComplete\<close> and \<open>NotifyError\<close> are the loops of \<open>setStatus\<close> over the
  dependent events, with the index, the number of dependents, and whether the event's own queue was pushed.
  \<open>Finish\<close> is the loop of \<open>finish\<close>, asleep or not.
\<close>

datatype frame =
    NewEvent nat nat "nat list"
  | QueueEvent nat nat
  | PushEvents nat "nat option" bool
  | SetStatus nat int
  | NotifyComplete nat nat nat bool
  | NotifyError nat nat nat
  | Callbacks nat int "nat list"
  | ReleaseEvent nat
  | ReleaseQueue nat
  | DerefQueue nat
  | Dispatch nat
  | Run nat
  | SetUser nat int
  | CleanEvents nat
  | Finish nat bool

text \<open>
  The runtime: events and queues, the events in the queue of the device, those that a worker has started, the
  calls of callbacks, and the threads.
\<close>

record runtime =
  evs :: "nat \<Rightarrow> Event"
  num_evs :: nat
  cqs :: "nat \<Rightarrow> CommandQueue"
  dev_events :: "nat list"
  started :: "nat list"
  called :: "(nat \<times> nat \<times> int) list"
  threads :: "frame list list"

definition upd_ev :: "nat \<Rightarrow> (Event \<Rightarrow> Event) \<Rightarrow> runtime \<Rightarrow> runtime" where
  "upd_ev e f st = st\<lparr>evs := (evs st)(e := f (evs st e))\<rparr>"

definition upd_cq :: "nat \<Rightarrow> (CommandQueue \<Rightarrow> CommandQueue) \<Rightarrow> runtime \<Rightarrow> runtime" where
  "upd_cq q f st = st\<lparr>cqs := (cqs st)(q := f (cqs st q))\<rparr>"

abbreviation "status st e \<equiv> p_status (evs st e)"
abbreviation "etype st e \<equiv> e_type (evs st e)"
abbreviation "parent st e \<equiv> e_parent (evs st e)"
abbreviation "waits st e \<equiv> p_wait_events (evs st e)"
abbreviation "deps st e \<equiv> p_dependent_events (evs st e)"
abbreviation "events_of st q \<equiv> p_events (cqs st q)"
abbreviation "on_device st q \<equiv> p_num_events_on_device (cqs st q)"

definition set_events :: "nat \<Rightarrow> nat list \<Rightarrow> runtime \<Rightarrow> runtime" where
  "set_events q es = upd_cq q (\<lambda>c. c\<lparr>p_events := es\<rparr>)"

definition set_flushed :: "nat \<Rightarrow> bool \<Rightarrow> runtime \<Rightarrow> runtime" where
  "set_flushed q b = upd_cq q (\<lambda>c. c\<lparr>p_flushed := b\<rparr>)"

definition count_device :: "nat \<Rightarrow> int \<Rightarrow> runtime \<Rightarrow> runtime" where
  "count_device q n = upd_cq q (\<lambda>c. c\<lparr>p_num_events_on_device := p_num_events_on_device c + n\<rparr>)"

definition count_completed :: "nat \<Rightarrow> int \<Rightarrow> runtime \<Rightarrow> runtime" where
  "count_completed q n = upd_cq q (\<lambda>c. c\<lparr>p_num_events_completed := p_num_events_completed c + n\<rparr>)"

definition reference_event :: "nat \<Rightarrow> runtime \<Rightarrow> runtime" where
  "reference_event e = upd_ev e (\<lambda>x. x\<lparr>e_references := e_references x + 1\<rparr>)"

definition release_event :: "nat \<Rightarrow> runtime \<Rightarrow> runtime" where
  "release_event e = upd_ev e (\<lambda>x. x\<lparr>e_references := e_references x - 1\<rparr>)"

definition reference_queue :: "nat option \<Rightarrow> int \<Rightarrow> runtime \<Rightarrow> runtime" where
  "reference_queue q n st = (case q of None \<Rightarrow> st | Some q \<Rightarrow> upd_cq q (\<lambda>c. c\<lparr>q_references := q_references c + n\<rparr>) st)"

text \<open>\<open>pthread_cond_broadcast\<close> on \<open>p_event_list_cond\<close> wakes the threads that sleep in \<open>finish\<close>.\<close>

fun wake :: "nat \<Rightarrow> frame list \<Rightarrow> frame list" where
  "wake q (Finish q' b # fs) = Finish q' (b \<and> q' \<noteq> q) # fs"
| "wake q fs = fs"

definition broadcast :: "nat \<Rightarrow> runtime \<Rightarrow> runtime" where
  "broadcast q st = st\<lparr>threads := map (wake q) (threads st)\<rparr>"

subsection \<open>Status of an event\<close>

definition isInstantaneous :: "ev_type \<Rightarrow> bool" where
  "isInstantaneous t \<longleftrightarrow> t \<in> {Marker, User, Barrier, WaitForEvents}"

definition addDependentEvent :: "nat \<Rightarrow> nat \<Rightarrow> runtime \<Rightarrow> int \<times> runtime" where
  "addDependentEvent w e st =
     (if status st w = Complete then (0, st)
      else if status st w < 0 then (-1, st)
      else (1, reference_event w (upd_ev w (\<lambda>x. x\<lparr>p_dependent_events := p_dependent_events x @ [e]\<rparr>) st)))"

text \<open>The wait list is registered while the lock of the new event is held; the result says whether an event of it has failed.\<close>

fun add_waits :: "nat \<Rightarrow> nat list \<Rightarrow> bool \<Rightarrow> runtime \<Rightarrow> bool \<times> runtime" where
  "add_waits e [] failed st = (failed, st)"
| "add_waits e (w # ws) failed st =
     (let (added, st) = addDependentEvent w e st
      in if added > 0 then add_waits e ws failed (upd_ev e (\<lambda>x. x\<lparr>p_wait_events := p_wait_events x @ [w]\<rparr>) st)
         else add_waits e ws (failed \<or> added < 0) st)"

definition removeWaitEvent :: "nat \<Rightarrow> nat \<Rightarrow> runtime \<Rightarrow> bool \<times> runtime" where
  "removeWaitEvent d e st =
     (let st = upd_ev d (\<lambda>x. x\<lparr>p_wait_events := removeAll e (p_wait_events x)\<rparr>) st
      in (waits st d = [], if parent st e = None then st else release_event e st))"

definition setStatusHelper :: "nat \<Rightarrow> int \<Rightarrow> runtime \<Rightarrow> nat \<times> nat list \<times> runtime" where
  "setStatusHelper e s st =
     (let st = upd_ev e (\<lambda>x. x\<lparr>p_status := s\<rparr>) st;
          callbacks = map snd (filter (\<lambda>(t, c). t = (if s > 0 then s else Complete)) (p_callbacks (evs st e)))
      in (length (deps st e), callbacks, if callbacks = [] then st else reference_event e st))"

text \<open>The calls of \<open>setStatus\<close> after the status is set.\<close>

definition setStatus :: "nat \<Rightarrow> int \<Rightarrow> runtime \<Rightarrow> frame list \<times> runtime" where
  "setStatus e s st =
     (let cq = parent st e
      in if s = Complete \<and> (etype st e = User \<or> cq \<noteq> None)
         then let (n, callbacks, st) = setStatusHelper e s (reference_queue cq 1 st)
              in ([NotifyComplete e 0 n False, Callbacks e s callbacks], st)
         else let (n, callbacks, st) = setStatusHelper e s st
              in if s < 0 then ([NotifyError e 0 n, Callbacks e s callbacks], reference_queue cq 1 st)
                 else ([Callbacks e s callbacks], st))"

definition call_callbacks :: "nat \<Rightarrow> int \<Rightarrow> nat list \<Rightarrow> runtime \<Rightarrow> runtime" where
  "call_callbacks e s cbs st =
     (if cbs = [] then st else release_event e (st\<lparr>called := called st @ map (\<lambda>c. (c, e, s)) cbs\<rparr>))"

definition notify_complete :: "nat \<Rightarrow> nat \<Rightarrow> nat \<Rightarrow> bool \<Rightarrow> runtime \<Rightarrow> frame list \<times> runtime" where
  "notify_complete e i n already_pushed st =
     (let cq = parent st e
      in if i < n
         then let d = deps st e ! i; (empty, st) = removeWaitEvent d e st
              in case (empty, parent st d) of
                   (True, Some q) \<Rightarrow>
                     ([PushEvents q (Some d) (cq = Some q), NotifyComplete e (i + 1) n (already_pushed \<or> cq = Some q)], st)
                 | _ \<Rightarrow> ([NotifyComplete e (i + 1) n already_pushed], st)
         else case cq of
                None \<Rightarrow> ([], st)
              | Some q \<Rightarrow> ((if already_pushed then [] else [PushEvents q None True]) @ [ReleaseQueue q], st))"

definition notify_error :: "nat \<Rightarrow> nat \<Rightarrow> nat \<Rightarrow> runtime \<Rightarrow> frame list \<times> runtime" where
  "notify_error e i n st =
     (if i < n
      then let d = deps st e ! i; (empty, st) = removeWaitEvent d e st
           in ([SetStatus d CL_EXEC_STATUS_ERROR_FOR_EVENTS_IN_WAIT_LIST, NotifyError e (i + 1) n], st)
      else case parent st e of None \<Rightarrow> ([], st) | Some q \<Rightarrow> ([PushEvents q None True, ReleaseQueue q], st))"

subsection \<open>Pushing events on the device\<close>

definition OOO_QUEUE_PUSH_EVENTS_THRESHOLD :: nat where "OOO_QUEUE_PUSH_EVENTS_THRESHOLD = 64"

text \<open>The device takes an event that gets the status \<open>Submitted\<close>.\<close>

definition submit :: "nat \<Rightarrow> nat \<Rightarrow> runtime \<Rightarrow> runtime" where
  "submit q e st =
     (let (_, callbacks, st) = setStatusHelper e Submitted st;
          st = count_device q 1 (call_callbacks e Submitted callbacks st)
      in st\<lparr>dev_events := dev_events st @ [e]\<rparr>)"

text \<open>What the operations leave of the fields that steer the queues.\<close>

lemma upd_ev_simps [simp]:
  "evs (upd_ev e f st) x = (if x = e then f (evs st e) else evs st x)" "num_evs (upd_ev e f st) = num_evs st"
  "cqs (upd_ev e f st) = cqs st" "dev_events (upd_ev e f st) = dev_events st" "started (upd_ev e f st) = started st"
  "threads (upd_ev e f st) = threads st"
  by (simp_all add: upd_ev_def)

lemma upd_cq_simps [simp]:
  "cqs (upd_cq q f st) x = (if x = q then f (cqs st q) else cqs st x)" "evs (upd_cq q f st) = evs st"
  "num_evs (upd_cq q f st) = num_evs st" "dev_events (upd_cq q f st) = dev_events st" "started (upd_cq q f st) = started st"
  "threads (upd_cq q f st) = threads st"
  by (simp_all add: upd_cq_def)

lemma reference_event_simps [simp]:
  "status (reference_event e st) x = status st x" "etype (reference_event e st) x = etype st x"
  "parent (reference_event e st) x = parent st x" "waits (reference_event e st) x = waits st x"
  "deps (reference_event e st) x = deps st x" "p_callbacks (evs (reference_event e st) x) = p_callbacks (evs st x)"
  "num_evs (reference_event e st) = num_evs st" "cqs (reference_event e st) = cqs st"
  "dev_events (reference_event e st) = dev_events st" "started (reference_event e st) = started st"
  "threads (reference_event e st) = threads st"
  by (simp_all add: reference_event_def)

lemma release_event_simps [simp]:
  "status (release_event e st) x = status st x" "etype (release_event e st) x = etype st x"
  "parent (release_event e st) x = parent st x" "waits (release_event e st) x = waits st x"
  "deps (release_event e st) x = deps st x" "num_evs (release_event e st) = num_evs st" "cqs (release_event e st) = cqs st"
  "dev_events (release_event e st) = dev_events st" "started (release_event e st) = started st"
  "threads (release_event e st) = threads st"
  by (simp_all add: release_event_def)

lemma queue_update_simps [simp]:
  "evs (set_events q es st) = evs st" "num_evs (set_events q es st) = num_evs st"
  "dev_events (set_events q es st) = dev_events st" "started (set_events q es st) = started st"
  "threads (set_events q es st) = threads st" "evs (set_flushed q b st) = evs st" "num_evs (set_flushed q b st) = num_evs st"
  "dev_events (set_flushed q b st) = dev_events st" "started (set_flushed q b st) = started st"
  "threads (set_flushed q b st) = threads st" "evs (count_device q n st) = evs st" "num_evs (count_device q n st) = num_evs st"
  "dev_events (count_device q n st) = dev_events st" "started (count_device q n st) = started st"
  "threads (count_device q n st) = threads st" "evs (count_completed q n st) = evs st"
  "num_evs (count_completed q n st) = num_evs st" "dev_events (count_completed q n st) = dev_events st"
  "started (count_completed q n st) = started st" "threads (count_completed q n st) = threads st"
  by (simp_all add: set_events_def set_flushed_def count_device_def count_completed_def)

lemma queue_field_simps [simp]:
  "events_of (set_events q es st) x = (if x = q then es else events_of st x)"
  "on_device (set_events q es st) x = on_device st x" "is_ooo (cqs (set_events q es st) x) = is_ooo (cqs st x)"
  "events_of (set_flushed q b st) x = events_of st x" "on_device (set_flushed q b st) x = on_device st x"
  "is_ooo (cqs (set_flushed q b st) x) = is_ooo (cqs st x)"
  "p_flushed (cqs (set_flushed q b st) x) = (if x = q then b else p_flushed (cqs st x))"
  "events_of (count_device q n st) x = events_of st x"
  "on_device (count_device q n st) x = (if x = q then on_device st q + n else on_device st x)"
  "is_ooo (cqs (count_device q n st) x) = is_ooo (cqs st x)" "p_flushed (cqs (count_device q n st) x) = p_flushed (cqs st x)"
  "events_of (count_completed q n st) x = events_of st x" "on_device (count_completed q n st) x = on_device st x"
  "is_ooo (cqs (count_completed q n st) x) = is_ooo (cqs st x)"
  by (simp_all add: set_events_def set_flushed_def count_device_def count_completed_def)

lemma reference_queue_simps [simp]:
  "evs (reference_queue q n st) = evs st" "num_evs (reference_queue q n st) = num_evs st"
  "dev_events (reference_queue q n st) = dev_events st" "started (reference_queue q n st) = started st"
  "threads (reference_queue q n st) = threads st" "events_of (reference_queue q n st) x = events_of st x"
  "on_device (reference_queue q n st) x = on_device st x" "is_ooo (cqs (reference_queue q n st) x) = is_ooo (cqs st x)"
  by (simp_all add: reference_queue_def split: option.splits)

lemma broadcast_simps [simp]:
  "evs (broadcast q st) = evs st" "num_evs (broadcast q st) = num_evs st" "dev_events (broadcast q st) = dev_events st"
  "started (broadcast q st) = started st" "cqs (broadcast q st) = cqs st" "threads (broadcast q st) = map (wake q) (threads st)"
  by (simp_all add: broadcast_def)

lemma call_callbacks_simps [simp]:
  "status (call_callbacks e s cbs st) x = status st x" "etype (call_callbacks e s cbs st) x = etype st x"
  "parent (call_callbacks e s cbs st) x = parent st x" "waits (call_callbacks e s cbs st) x = waits st x"
  "deps (call_callbacks e s cbs st) x = deps st x" "num_evs (call_callbacks e s cbs st) = num_evs st"
  "cqs (call_callbacks e s cbs st) = cqs st" "dev_events (call_callbacks e s cbs st) = dev_events st"
  "started (call_callbacks e s cbs st) = started st" "threads (call_callbacks e s cbs st) = threads st"
  by (simp_all add: call_callbacks_def release_event_def)

definition with_status :: "nat \<Rightarrow> int \<Rightarrow> runtime \<Rightarrow> runtime" where
  "with_status e s st = snd (snd (setStatusHelper e s st))"

lemma with_status_simps [simp]:
  "status (with_status e s st) x = (if x = e then s else status st x)" "etype (with_status e s st) x = etype st x"
  "parent (with_status e s st) x = parent st x" "waits (with_status e s st) x = waits st x"
  "deps (with_status e s st) x = deps st x" "num_evs (with_status e s st) = num_evs st"
  "cqs (with_status e s st) = cqs st" "dev_events (with_status e s st) = dev_events st"
  "started (with_status e s st) = started st" "threads (with_status e s st) = threads st"
  by (simp_all add: with_status_def setStatusHelper_def Let_def)

lemma setStatusHelper_with_status:
  "setStatusHelper e s st = (length (deps st e), fst (snd (setStatusHelper e s st)), with_status e s st)"
  by (simp add: with_status_def setStatusHelper_def Let_def)

lemma submit_eq:
  "submit q e st = count_device q 1 (call_callbacks e Submitted (fst (snd (setStatusHelper e Submitted st))) (with_status e Submitted st))
     \<lparr>dev_events := dev_events st @ [e]\<rparr>"
  by (simp add: submit_def with_status_def split_beta Let_def) (simp flip: with_status_def)

lemma submit_simps [simp]:
  "status (submit q e st) x = (if x = e then Submitted else status st x)" "etype (submit q e st) x = etype st x"
  "parent (submit q e st) x = parent st x" "waits (submit q e st) x = waits st x"
  "deps (submit q e st) x = deps st x" "num_evs (submit q e st) = num_evs st"
  "events_of (submit q e st) x = events_of st x" "is_ooo (cqs (submit q e st) x) = is_ooo (cqs st x)"
  "on_device (submit q e st) x = (if x = q then on_device st q + 1 else on_device st x)"
  "dev_events (submit q e st) = dev_events st @ [e]" "started (submit q e st) = started st" "threads (submit q e st) = threads st"
  "p_flushed (cqs (submit q e st) x) = p_flushed (cqs st x)"
  by (simp_all add: submit_eq)

text \<open>
  The loop over the events of a queue: those behind the iterator (\<open>kept\<close>) and those to come. An event that was
  submitted is looked at again. The result is the event without work on the device at which the loop stops, if
  it stops at one.
\<close>

function push_loop :: "nat \<Rightarrow> nat option \<Rightarrow> nat list \<Rightarrow> nat list \<Rightarrow> bool \<Rightarrow> nat \<Rightarrow> runtime \<Rightarrow> nat option \<times> runtime" where
  "push_loop q ready kept [] first n st = (None, st)"
| "push_loop q ready kept (e # rest) first n st =
     (if status st e = Complete \<or> status st e < 0
      then push_loop q ready kept rest first n (release_event e (set_events q (kept @ rest) (count_completed q (-1) st)))
      else if ready = None \<and> n > OOO_QUEUE_PUSH_EVENTS_THRESHOLD then (None, st)
      else if \<not> is_ooo (cqs st q) \<and> \<not> first then (None, set_flushed q False st)
      else if etype st e = Barrier \<and> \<not> first then (None, set_flushed q False st)
      else if status st e \<noteq> Queued
      then if Some e = ready then (None, st) else push_loop q ready (kept @ [e]) rest False (n + 1) st
      else if waits st e \<noteq> []
      then let st = set_flushed q False st
           in if etype st e \<in> {WaitForEvents, Barrier, Marker} then (None, st)
              else push_loop q ready (kept @ [e]) rest False (n + 1) st
      else if isInstantaneous (etype st e)
      then (Some e, count_device q 1 (set_flushed q (kept @ rest = []) (set_events q (kept @ rest) st)))
      else push_loop q ready kept (e # rest) False (n + 1) (submit q e st))"
  by pat_completeness auto
termination
  by (relation "measure (\<lambda>(q, ready, kept, rest, first, n, st). 2 * length rest +
        (case rest of [] \<Rightarrow> 0 | e # _ \<Rightarrow> if status st e = Queued then 1 else 0))")
     (auto simp: Submitted_def Queued_def split: list.splits)

definition gotEnoughToWorkOn :: "runtime \<Rightarrow> bool" where
  "gotEnoughToWorkOn st \<longleftrightarrow> dev_events st \<noteq> []"

definition pushEventsOnDevice :: "nat \<Rightarrow> nat option \<Rightarrow> bool \<Rightarrow> runtime \<Rightarrow> frame list \<times> runtime" where
  "pushEventsOnDevice q ready_event one_event_completed_on_device st =
     (let st = (if one_event_completed_on_device then count_completed q 1 (count_device q (-1) st) else st)
      in if is_ooo (cqs st q) \<and> ready_event = None \<and> on_device st q > 2 \<and> gotEnoughToWorkOn st then ([], st)
         else let (inst, st) = push_loop q ready_event [] (events_of st q) True 0 (set_flushed q True st)
              in case inst of
                   Some e \<Rightarrow> ([SetStatus e Complete, ReleaseEvent e], if p_flushed (cqs st q) then broadcast q st else st)
                 | None \<Rightarrow>
                     let st = (if ready_event \<noteq> None \<and> p_flushed (cqs st q) then set_flushed q (events_of st q = []) st else st)
                     in ([], if p_flushed (cqs st q) then broadcast q st else st))"

subsection \<open>The other operations of a queue\<close>

text \<open>\<open>queueEvent\<close>, when the device accepts the event.\<close>

definition queueEvent :: "nat \<Rightarrow> nat \<Rightarrow> runtime \<Rightarrow> frame list \<times> runtime" where
  "queueEvent q e st = ([PushEvents q None False], set_flushed q False (set_events q (events_of st q @ [e]) st))"

fun clean_loop :: "nat \<Rightarrow> nat list \<Rightarrow> nat list \<Rightarrow> runtime \<Rightarrow> runtime" where
  "clean_loop q kept [] st = st"
| "clean_loop q kept (e # rest) st =
     (if status st e = Complete
      then clean_loop q kept rest (release_event e (set_events q (kept @ rest) (count_completed q (-1) st)))
      else if \<not> is_ooo (cqs st q) then st
      else clean_loop q (kept @ [e]) rest st)"

text \<open>The difference is one of unsigned 32 bit numbers.\<close>

definition cleanEvents :: "nat \<Rightarrow> runtime \<Rightarrow> runtime" where
  "cleanEvents q st =
     (let c = cqs st q
      in if p_num_events_completed c < 16 \<and> p_num_events_on_device c > 0 \<and>
            (of_nat (length (p_events c)) - of_int (p_num_events_completed c) :: u32) > 0 then st
         else let st = clean_loop q [] (p_events c) st
              in if events_of st q = [] then broadcast q st else st)"

definition setCallback :: "nat \<Rightarrow> int \<Rightarrow> nat \<Rightarrow> runtime \<Rightarrow> runtime" where
  "setCallback e command_exec_callback_type callback st =
     (if command_exec_callback_type \<ge> status st e then st\<lparr>called := called st @ [(callback, e, status st e)]\<rparr>
      else upd_ev e (\<lambda>x. x\<lparr>p_callbacks := p_callbacks x @ [(command_exec_callback_type, callback)]\<rparr>) st)"

subsection \<open>Threads\<close>

text \<open>The next step of a call: the calls that replace it and the runtime after it.\<close>

fun exec :: "frame \<Rightarrow> runtime \<Rightarrow> frame list \<times> runtime" where
  "exec (NewEvent q e ws) st =
     (let (failed, st) = add_waits e ws False st
      in ((if failed then [SetStatus e CL_EXEC_STATUS_ERROR_FOR_EVENTS_IN_WAIT_LIST] else []) @ [QueueEvent q e], st))"
| "exec (QueueEvent q e) st = queueEvent q e st"
| "exec (PushEvents q ready one) st = pushEventsOnDevice q ready one st"
| "exec (SetStatus e s) st = setStatus e s st"
| "exec (NotifyComplete e i n already) st = notify_complete e i n already st"
| "exec (NotifyError e i n) st = notify_error e i n st"
| "exec (Callbacks e s cbs) st = ([], call_callbacks e s cbs st)"
| "exec (ReleaseEvent e) st = ([], release_event e st)"
| "exec (ReleaseQueue q) st = ([PushEvents q None False, DerefQueue q], st)"
| "exec (DerefQueue q) st = ([], reference_queue (Some q) (-1) st)"
| "exec (Dispatch e) st = (let (fs, st) = setStatus e Running st in (fs @ [Run e], st))"
| "exec (Run e) st = ([], st\<lparr>started := started st @ [e]\<rparr>)"
| "exec (SetUser e s) st =
     (if etype st e = User \<and> s \<le> Complete \<and> status st e = Submitted then [SetStatus e s] else [], st)"
| "exec (CleanEvents q) st = ([], cleanEvents q st)"
| "exec (Finish q asleep) st = (if events_of st q = [] then [] else [Finish q True], st)"

definition spawn :: "frame list \<Rightarrow> runtime \<Rightarrow> runtime" where
  "spawn fs st = st\<lparr>threads := threads st @ [fs]\<rparr>"

definition asleep :: "frame \<Rightarrow> bool" where
  "asleep f = (case f of Finish q b \<Rightarrow> b | _ \<Rightarrow> False)"

definition run_thread :: "nat \<Rightarrow> runtime \<Rightarrow> runtime" where
  "run_thread i st = (case threads st ! i of
       [] \<Rightarrow> st
     | f # fs \<Rightarrow> if asleep f then st else let (gs, st') = exec f st in st'\<lparr>threads := (threads st')[i := gs @ fs]\<rparr>)"

text \<open>
  Enqueueing a command creates its event, unless an event of the wait list has failed, in which case the call
  returns with an error. The events of a queue hold a reference to it; the caller gets a reference to the event if
  it asks for one.
\<close>

definition Event_new :: "nat option \<Rightarrow> ev_type \<Rightarrow> int \<Rightarrow> runtime \<Rightarrow> runtime" where
  "Event_new q t s st =
     reference_queue q 1 (st\<lparr>evs := (evs st)(num_evs st := \<lparr>e_type = t, e_parent = q, p_status = s, p_wait_events = [],
       p_dependent_events = [], p_callbacks = [], e_references = 1\<rparr>), num_evs := num_evs st + 1\<rparr>)"

definition enqueue_command :: "nat \<Rightarrow> ev_type \<Rightarrow> nat list \<Rightarrow> bool \<Rightarrow> runtime \<Rightarrow> int + runtime" where
  "enqueue_command q t ws event st =
     (if \<exists>w \<in> set ws. status st w < 0 then Inl CL_EXEC_STATUS_ERROR_FOR_EVENTS_IN_WAIT_LIST
      else let e = num_evs st; st = Event_new (Some q) t Queued st
           in Inr (spawn [NewEvent q e ws] (if event then reference_event e st else st)))"

definition create_user :: "runtime \<Rightarrow> runtime" where
  "create_user = Event_new None User Submitted"

text \<open>The worker takes the first event of the device.\<close>

definition getEvent :: "runtime \<Rightarrow> runtime" where
  "getEvent st = (case dev_events st of [] \<Rightarrow> st | e # es \<Rightarrow> spawn [Dispatch e] (st\<lparr>dev_events := es\<rparr>))"

definition end_command :: "nat \<Rightarrow> int \<Rightarrow> runtime \<Rightarrow> runtime" where
  "end_command e s st = spawn [SetStatus e s] (st\<lparr>started := remove1 e (started st)\<rparr>)"

text \<open>An application only knows events whose call has queued them: user events, and those that no call has still to queue.\<close>

fun queues :: "frame \<Rightarrow> nat option" where
  "queues (NewEvent q e ws) = Some e"
| "queues (QueueEvent q e) = Some e"
| "queues _ = None"

definition known :: "runtime \<Rightarrow> nat \<Rightarrow> bool" where
  "known st w \<longleftrightarrow> w < num_evs st \<and> (\<forall>fs \<in> set (threads st). \<forall>f \<in> set fs. queues f \<noteq> Some w)"

text \<open>Steps: threads go on, and calls begin. Commands and user events end with a status in \<open>R\<close>.\<close>

inductive queue_step :: "int set \<Rightarrow> runtime \<Rightarrow> runtime \<Rightarrow> bool" for R where
  step_thread: "i < length (threads st) \<Longrightarrow> queue_step R st (run_thread i st)"
| step_enqueue: "t \<noteq> User \<Longrightarrow> \<forall>w \<in> set ws. known st w \<Longrightarrow> enqueue_command q t ws event st = Inr st' \<Longrightarrow> queue_step R st st'"
| step_create_user: "queue_step R st (create_user st)"
| step_set_user: "known st e \<Longrightarrow> s \<in> R \<Longrightarrow> queue_step R st (spawn [SetUser e s] st)"
| step_set_callback: "known st e \<Longrightarrow> queue_step R st (setCallback e t c st)"
| step_worker: "dev_events st \<noteq> [] \<Longrightarrow> queue_step R st (getEvent st)"
| step_end: "e \<in> set (started st) \<Longrightarrow> s \<in> R \<Longrightarrow> queue_step R st (end_command e s st)"
| step_flush: "queue_step R st (spawn [PushEvents q None False] st)"
| step_finish: "queue_step R st (spawn [CleanEvents q, Finish q False] st)"

definition initial :: "runtime \<Rightarrow> bool" where
  "initial st \<longleftrightarrow> num_evs st = 0 \<and> dev_events st = [] \<and> started st = [] \<and> threads st = [] \<and>
     (\<forall>q. events_of st q = [] \<and> on_device st q = 0 \<and> p_num_events_completed (cqs st q) = 0)"

inductive reachable :: "int set \<Rightarrow> runtime \<Rightarrow> bool" for R where
  reach_start: "initial st \<Longrightarrow> reachable R st"
| reach_step: "reachable R st \<Longrightarrow> queue_step R st st' \<Longrightarrow> reachable R st'"

end
