(* ===== verification/Queue_Invariants.thy ===== *)
theory Queue_Invariants
  imports Command_Queue "HOL-Library.Multiset"
begin

text \<open>
  Invariants of the command queues over all interleavings. The calls that are under way are a multiset;
  each part of the invariant is kept by each step of a call.
\<close>

subsection \<open>Calls under way\<close>

fun is_Finish :: "frame \<Rightarrow> bool" where
  "is_Finish (Finish q b) \<longleftrightarrow> True"
| "is_Finish _ \<longleftrightarrow> False"

lemma is_Finish_iff: "is_Finish f \<longleftrightarrow> (\<exists>q b. f = Finish q b)"
  by (cases f) auto

definition frames :: "runtime \<Rightarrow> frame multiset" where
  "frames st = mset (filter (\<lambda>f. \<not> is_Finish f) (concat (threads st)))"

subsection \<open>Objects\<close>

fun frame_ok :: "runtime \<Rightarrow> frame \<Rightarrow> bool" where
  "frame_ok st (NewEvent q e ws) \<longleftrightarrow> e < num_evs st \<and> parent st e = Some q \<and> (\<forall>w \<in> set ws. w < num_evs st)"
| "frame_ok st (QueueEvent q e) \<longleftrightarrow> e < num_evs st \<and> parent st e = Some q"
| "frame_ok st (SetStatus e s) \<longleftrightarrow> e < num_evs st \<and> s \<le> 0"
| "frame_ok st (NotifyComplete e i n b) \<longleftrightarrow> e < num_evs st \<and> n \<le> length (deps st e)"
| "frame_ok st (NotifyError e i n) \<longleftrightarrow> e < num_evs st \<and> n \<le> length (deps st e)"
| "frame_ok st (Dispatch e) \<longleftrightarrow> e < num_evs st \<and> parent st e \<noteq> None"
| "frame_ok st (Run e) \<longleftrightarrow> e < num_evs st \<and> parent st e \<noteq> None"
| "frame_ok st (SetUser e s) \<longleftrightarrow> e < num_evs st \<and> s \<le> 0"
| "frame_ok _ _ \<longleftrightarrow> True"

definition objects_ok :: "frame multiset \<Rightarrow> runtime \<Rightarrow> bool" where
  "objects_ok F st \<longleftrightarrow>
     (\<forall>e < num_evs st. etype st e = User \<longleftrightarrow> parent st e = None) \<and>
     (\<forall>q. distinct (events_of st q) \<and> (\<forall>e \<in> set (events_of st q). e < num_evs st \<and> parent st e = Some q)) \<and>
     (\<forall>e \<in> set (dev_events st) \<union> set (started st). e < num_evs st \<and> parent st e \<noteq> None) \<and>
     (\<forall>f \<in># F. frame_ok st f) \<and>
     (\<forall>w < num_evs st. \<forall>d \<in> set (deps st w). d < num_evs st \<and> parent st d \<noteq> None)"

text \<open>An event is queued once, and until then no other event waits for it.\<close>

definition fresh_ok :: "frame multiset \<Rightarrow> runtime \<Rightarrow> bool" where
  "fresh_ok F st \<longleftrightarrow>
     (\<forall>e. size {#f \<in># F. queues f = Some e#} \<le> 1) \<and>
     (\<forall>f \<in># F. \<forall>e. queues f = Some e \<longrightarrow> deps st e = [] \<and> (\<forall>q. e \<notin> set (events_of st q))) \<and>
     (\<forall>q e ws. NewEvent q e ws \<in># F \<longrightarrow> (\<forall>w \<in> set ws. \<forall>f \<in># F. queues f \<noteq> Some w))"

text \<open>An event waits for unfinished events only, or is about to be notified.\<close>

fun notifies :: "runtime \<Rightarrow> nat \<Rightarrow> nat \<Rightarrow> frame \<Rightarrow> bool" where
  "notifies st w d (NotifyComplete e i n b) \<longleftrightarrow> e = w \<and> d \<in> set (drop i (take n (deps st w)))"
| "notifies st w d (NotifyError e i n) \<longleftrightarrow> e = w \<and> d \<in> set (drop i (take n (deps st w)))"
| "notifies _ _ _ _ \<longleftrightarrow> False"

definition waits_ok :: "frame multiset \<Rightarrow> runtime \<Rightarrow> bool" where
  "waits_ok F st \<longleftrightarrow> (\<forall>d < num_evs st. \<forall>w \<in> set (waits st d).
     w < num_evs st \<and> d \<in> set (deps st w) \<and> (status st w \<le> 0 \<longrightarrow> (\<exists>f \<in># F. notifies st w d f)))"

text \<open>An unfinished command is in its queue, on the device, or in the hands of a call.\<close>

fun in_hand :: "nat \<Rightarrow> frame \<Rightarrow> bool" where
  "in_hand e (Dispatch x) \<longleftrightarrow> x = e"
| "in_hand e (Run x) \<longleftrightarrow> x = e"
| "in_hand e (SetStatus x s) \<longleftrightarrow> x = e"
| "in_hand _ _ \<longleftrightarrow> False"

fun sets_status :: "nat \<Rightarrow> frame \<Rightarrow> bool" where
  "sets_status e (SetStatus x s) \<longleftrightarrow> x = e"
| "sets_status _ _ \<longleftrightarrow> False"

definition whereabouts_ok :: "frame multiset \<Rightarrow> runtime \<Rightarrow> bool" where
  "whereabouts_ok F st \<longleftrightarrow> (\<forall>e < num_evs st. parent st e \<noteq> None \<longrightarrow>
     (status st e \<le> Complete \<or> status st e \<in> {Running, Submitted, Queued}) \<and>
     (status st e = Queued \<longrightarrow> e \<in> set (events_of st (the (parent st e))) \<or> (\<exists>f \<in># F. queues f = Some e \<or> sets_status e f)) \<and>
     (status st e \<in> {Running, Submitted} \<longrightarrow> e \<in> set (dev_events st) \<union> set (started st) \<or> (\<exists>f \<in># F. in_hand e f)))"

text \<open>The counter of a queue is at most the number of its events on the device and of ends still to be counted.\<close>

fun slot :: "runtime \<Rightarrow> nat \<Rightarrow> frame \<Rightarrow> bool" where
  "slot st q (Dispatch e) \<longleftrightarrow> parent st e = Some q"
| "slot st q (Run e) \<longleftrightarrow> parent st e = Some q"
| "slot st q (SetStatus e s) \<longleftrightarrow> parent st e = Some q"
| "slot st q (NotifyComplete e i n b) \<longleftrightarrow> \<not> b \<and> parent st e = Some q"
| "slot st q (NotifyError e i n) \<longleftrightarrow> parent st e = Some q"
| "slot st q (PushEvents x r b) \<longleftrightarrow> x = q \<and> b"
| "slot _ _ _ \<longleftrightarrow> False"

definition device_slots :: "runtime \<Rightarrow> nat \<Rightarrow> nat" where
  "device_slots st q = length (filter (\<lambda>e. parent st e = Some q) (dev_events st @ started st))"

definition call_slots :: "frame multiset \<Rightarrow> runtime \<Rightarrow> nat \<Rightarrow> nat" where
  "call_slots F st q = size {#f \<in># F. slot st q f#}"

lemma call_slots_add [simp]: "call_slots (add_mset f F) st q = call_slots F st q + of_bool (slot st q f)"
  by (simp add: call_slots_def)

definition counted_ok :: "frame multiset \<Rightarrow> runtime \<Rightarrow> bool" where
  "counted_ok F st \<longleftrightarrow> (\<forall>q. on_device st q \<le> int (device_slots st q + call_slots F st q))"

text \<open>When the first event of a queue can be removed or pushed, a call will look at the queue.\<close>

definition head_ready :: "runtime \<Rightarrow> nat \<Rightarrow> bool" where
  "head_ready st q \<longleftrightarrow> (case events_of st q of [] \<Rightarrow> False
     | e # _ \<Rightarrow> status st e \<le> 0 \<or> status st e = Queued \<and> waits st e = [])"

fun will_push :: "runtime \<Rightarrow> nat \<Rightarrow> frame \<Rightarrow> bool" where
  "will_push st q (Dispatch e) \<longleftrightarrow> parent st e = Some q"
| "will_push st q (Run e) \<longleftrightarrow> parent st e = Some q"
| "will_push st q (SetStatus e s) \<longleftrightarrow> parent st e = Some q"
| "will_push st q (NotifyComplete e i n b) \<longleftrightarrow> parent st e = Some q"
| "will_push st q (NotifyError e i n) \<longleftrightarrow> parent st e = Some q"
| "will_push st q (PushEvents x r b) \<longleftrightarrow> x = q"
| "will_push st q (ReleaseQueue x) \<longleftrightarrow> x = q"
| "will_push _ _ _ \<longleftrightarrow> False"

definition attended :: "frame multiset \<Rightarrow> runtime \<Rightarrow> nat \<Rightarrow> bool" where
  "attended F st q \<longleftrightarrow> (\<exists>e \<in> set (dev_events st) \<union> set (started st). parent st e = Some q) \<or> (\<exists>f \<in># F. will_push st q f)"

definition attended_ok :: "frame multiset \<Rightarrow> runtime \<Rightarrow> bool" where
  "attended_ok F st \<longleftrightarrow> (\<forall>q. head_ready st q \<longrightarrow> attended F st q)"

text \<open>Dependencies and the order in the queues together have no cycle.\<close>

fun earlier :: "'a list \<Rightarrow> ('a \<times> 'a) set" where
  "earlier [] = {}"
| "earlier (x # xs) = {x} \<times> set xs \<union> earlier xs"

lemma earlier_append: "earlier (xs @ ys) = earlier xs \<union> set xs \<times> set ys \<union> earlier ys"
  by (induction xs) auto

definition before :: "runtime \<Rightarrow> (nat \<times> nat) set" where
  "before st = {(w, d). w < num_evs st \<and> d \<in> set (deps st w)} \<union> (\<Union>q. earlier (events_of st q))"

definition order_ok :: "runtime \<Rightarrow> bool" where
  "order_ok st \<longleftrightarrow> acyclic (before st)"

definition queue_inv :: "frame multiset \<Rightarrow> runtime \<Rightarrow> bool" where
  "queue_inv F st \<longleftrightarrow> objects_ok F st \<and> fresh_ok F st \<and> waits_ok F st \<and> whereabouts_ok F st \<and> counted_ok F st \<and>
     attended_ok F st \<and> order_ok st"

lemmas queue_inv_parts = objects_ok_def fresh_ok_def waits_ok_def whereabouts_ok_def counted_ok_def attended_ok_def order_ok_def

lemma queue_invI:
  assumes "objects_ok F st" "fresh_ok F st" "waits_ok F st" "whereabouts_ok F st" "counted_ok F st" "attended_ok F st" "order_ok st"
  shows "queue_inv F st"
  using assms by (simp add: queue_inv_def)

lemma queue_invD:
  assumes "queue_inv F st"
  shows "objects_ok F st" "fresh_ok F st" "waits_ok F st" "whereabouts_ok F st" "counted_ok F st" "attended_ok F st" "order_ok st"
  using assms by (simp_all add: queue_inv_def)

text \<open>The invariant looks at the fields that steer the queues only.\<close>

definition same_view :: "runtime \<Rightarrow> runtime \<Rightarrow> bool" where
  "same_view st st' \<longleftrightarrow> num_evs st' = num_evs st \<and> dev_events st' = dev_events st \<and> started st' = started st \<and>
     (\<forall>e. etype st' e = etype st e \<and> parent st' e = parent st e \<and> status st' e = status st e \<and> waits st' e = waits st e \<and>
        deps st' e = deps st e) \<and>
     (\<forall>q. events_of st' q = events_of st q \<and> on_device st' q = on_device st q \<and> is_ooo (cqs st' q) = is_ooo (cqs st q))"

lemma frame_view:
  assumes "num_evs st' = num_evs st" and "\<And>e. parent st' e = parent st e" and "\<And>e. deps st' e = deps st e"
  shows "frame_ok st' = frame_ok st" "notifies st' = notifies st" "slot st' = slot st" "will_push st' = will_push st"
proof -
  have "frame_ok st' f = frame_ok st f" "notifies st' w d f = notifies st w d f" "slot st' q f = slot st q f"
      "will_push st' q f = will_push st q f" for f w d q
    using assms by (cases f; simp)+
  then show "frame_ok st' = frame_ok st" "notifies st' = notifies st" "slot st' = slot st" "will_push st' = will_push st"
    by (simp_all add: fun_eq_iff)
qed

lemma same_view_inv:
  assumes "same_view st st'"
  shows "queue_inv F st' = queue_inv F st"
proof -
  have "frame_ok st' = frame_ok st" "notifies st' = notifies st" "slot st' = slot st" "will_push st' = will_push st"
    "device_slots st' = device_slots st" "call_slots F st' = call_slots F st" "head_ready st' = head_ready st" "before st' = before st"
    using assms frame_view[of st' st]
    by (auto simp: same_view_def fun_eq_iff device_slots_def call_slots_def head_ready_def before_def split: list.splits)
  moreover from this have "attended F st' = attended F st" using assms by (simp add: fun_eq_iff attended_def same_view_def)
  ultimately show ?thesis using assms by (simp add: queue_inv_def queue_inv_parts same_view_def)
qed

subsection \<open>Steps of the invariant\<close>

definition drop_wait :: "nat \<Rightarrow> nat \<Rightarrow> runtime \<Rightarrow> runtime" where
  "drop_wait d e = upd_ev d (\<lambda>x. x\<lparr>p_wait_events := removeAll e (p_wait_events x)\<rparr>)"

lemma drop_wait_simps [simp]:
  "status (drop_wait d e st) x = status st x" "etype (drop_wait d e st) x = etype st x" "parent (drop_wait d e st) x = parent st x"
  "waits (drop_wait d e st) x = (if x = d then removeAll e (waits st d) else waits st x)" "deps (drop_wait d e st) x = deps st x"
  "num_evs (drop_wait d e st) = num_evs st" "cqs (drop_wait d e st) = cqs st" "dev_events (drop_wait d e st) = dev_events st"
  "started (drop_wait d e st) = started st" "threads (drop_wait d e st) = threads st"
  by (simp_all add: drop_wait_def)

lemma frame_views [simp]:
  "frame_ok (with_status e s st) = frame_ok st" "notifies (with_status e s st) = notifies st" "slot (with_status e s st) = slot st"
  "will_push (with_status e s st) = will_push st" "frame_ok (submit q e st) = frame_ok st" "notifies (submit q e st) = notifies st"
  "slot (submit q e st) = slot st" "will_push (submit q e st) = will_push st" "frame_ok (set_events q es st) = frame_ok st"
  "notifies (set_events q es st) = notifies st" "slot (set_events q es st) = slot st" "will_push (set_events q es st) = will_push st"
  "frame_ok (count_device q n st) = frame_ok st" "notifies (count_device q n st) = notifies st"
  "slot (count_device q n st) = slot st" "will_push (count_device q n st) = will_push st"
  "frame_ok (drop_wait d e st) = frame_ok st" "notifies (drop_wait d e st) = notifies st" "slot (drop_wait d e st) = slot st"
  "will_push (drop_wait d e st) = will_push st" "frame_ok (st\<lparr>dev_events := es\<rparr>) = frame_ok st"
  "notifies (st\<lparr>dev_events := es\<rparr>) = notifies st" "slot (st\<lparr>dev_events := es\<rparr>) = slot st"
  "will_push (st\<lparr>dev_events := es\<rparr>) = will_push st" "frame_ok (st\<lparr>started := es\<rparr>) = frame_ok st"
  "notifies (st\<lparr>started := es\<rparr>) = notifies st" "slot (st\<lparr>started := es\<rparr>) = slot st"
  "will_push (st\<lparr>started := es\<rparr>) = will_push st"
  by (rule frame_view; simp)+

lemmas status_defs = Complete_def Running_def Submitted_def Queued_def

lemma slots_views [simp]:
  "call_slots F (with_status e s st) q = call_slots F st q" "device_slots (with_status e s st) q = device_slots st q"
  "call_slots F (submit p e st) q = call_slots F st q"
  "device_slots (submit p e st) q = device_slots st q + of_bool (parent st e = Some q)"
  "call_slots F (set_events p es st) q = call_slots F st q" "device_slots (set_events p es st) q = device_slots st q"
  "call_slots F (count_device p n st) q = call_slots F st q" "device_slots (count_device p n st) q = device_slots st q"
  "call_slots F (drop_wait d e st) q = call_slots F st q" "device_slots (drop_wait d e st) q = device_slots st q"
  "call_slots F (st\<lparr>dev_events := es\<rparr>) q = call_slots F st q" "call_slots F (st\<lparr>started := es\<rparr>) q = call_slots F st q"
  by (simp_all add: call_slots_def device_slots_def)

lemma head_ready_views [simp]:
  "head_ready (count_device p n st) q = head_ready st q" "head_ready (st\<lparr>dev_events := es\<rparr>) q = head_ready st q"
  "head_ready (st\<lparr>started := es\<rparr>) q = head_ready st q"
  by (simp_all add: head_ready_def split: list.splits)

lemma attended_mono:
  assumes "attended_ok F st" and "\<And>q. head_ready st' q \<Longrightarrow> head_ready st q \<or> attended F' st' q"
    and "\<And>q. attended F st q \<Longrightarrow> attended F' st' q"
  shows "attended_ok F' st'"
  using assms unfolding attended_ok_def by blast

lemma order_view:
  assumes "num_evs st' = num_evs st" and "\<And>e. deps st' e = deps st e" and "\<And>q. events_of st' q = events_of st q"
  shows "order_ok st' = order_ok st"
  using assms by (simp add: order_ok_def before_def)

text \<open>Calls of no interest to the invariant.\<close>

fun inert :: "frame \<Rightarrow> bool" where
  "inert (Callbacks e s cbs) \<longleftrightarrow> True"
| "inert (ReleaseEvent e) \<longleftrightarrow> True"
| "inert (DerefQueue q) \<longleftrightarrow> True"
| "inert (CleanEvents q) \<longleftrightarrow> True"
| "inert (SetUser e s) \<longleftrightarrow> True"
| "inert _ \<longleftrightarrow> False"

lemma inert_simps:
  assumes "inert f"
  shows "queues f = None" "\<not> notifies st w d f" "\<not> in_hand e f" "\<not> sets_status e f" "\<not> slot st q f" "\<not> will_push st q f"
    "NewEvent q e ws \<noteq> f"
  using assms by (cases f; simp)+

lemma inert_frame:
  assumes "inert f"
  shows "queue_inv (add_mset f G) st \<longleftrightarrow> frame_ok st f \<and> queue_inv G st"
proof -
  note f = inert_simps[OF assms]
  have "objects_ok (add_mset f G) st \<longleftrightarrow> frame_ok st f \<and> objects_ok G st" by (auto simp: objects_ok_def)
  moreover have "fresh_ok (add_mset f G) st \<longleftrightarrow> fresh_ok G st" by (simp add: fresh_ok_def f(1,7))
  moreover have "waits_ok (add_mset f G) st \<longleftrightarrow> waits_ok G st" by (simp add: waits_ok_def f(2))
  moreover have "whereabouts_ok (add_mset f G) st \<longleftrightarrow> whereabouts_ok G st" by (simp add: whereabouts_ok_def f(1,3,4))
  moreover have "counted_ok (add_mset f G) st \<longleftrightarrow> counted_ok G st" by (simp add: counted_ok_def f(5))
  moreover have "attended_ok (add_mset f G) st \<longleftrightarrow> attended_ok G st" by (simp add: attended_ok_def attended_def f(6))
  ultimately show ?thesis by (simp add: queue_inv_def)
qed

lemma set_finished_inv:
  assumes inv: "queue_inv (add_mset (SetStatus e s) G) st"
    and N: "N = NotifyComplete e 0 (length (deps st e)) False \<or> N = NotifyError e 0 (length (deps st e))"
  shows "queue_inv (add_mset N G) (with_status e s st)"
proof (rule queue_invI)
  note I = queue_invD[OF inv]
  have s: "s \<le> 0" "e < num_evs st" using I(1) by (auto simp: objects_ok_def)
  show "objects_ok (add_mset N G) (with_status e s st)"
    using I(1) N by (auto simp: objects_ok_def)
  show "fresh_ok (add_mset N G) (with_status e s st)"
    using I(2) N by (auto simp: fresh_ok_def)
  show "waits_ok (add_mset N G) (with_status e s st)"
    using I(3) N by (fastforce simp: waits_ok_def)
  show "whereabouts_ok (add_mset N G) (with_status e s st)"
    using I(4) N s by (auto simp: whereabouts_ok_def status_defs)
  show "counted_ok (add_mset N G) (with_status e s st)"
  proof -
    have "slot st q N \<longleftrightarrow> slot st q (SetStatus e s)" for q using N by auto
    then show ?thesis using I(5) by (simp add: counted_ok_def)
  qed
  show "attended_ok (add_mset N G) (with_status e s st)"
  proof (rule attended_mono[OF I(6)])
    fix q
    have "will_push st q N \<longleftrightarrow> parent st e = Some q" using N by auto
    then show "attended (add_mset (SetStatus e s) G) st q \<Longrightarrow> attended (add_mset N G) (with_status e s st) q"
      and "head_ready (with_status e s st) q \<Longrightarrow> head_ready st q \<or> attended (add_mset N G) (with_status e s st) q"
      using I(1) by (auto simp: attended_def head_ready_def objects_ok_def split: list.splits if_splits)
  qed
  show "order_ok (with_status e s st)"
    using I(7) by (subst order_view) auto
qed

text \<open>Calls that replace others without a change of the state.\<close>

lemma call_slots_union [simp]: "call_slots (F + H) st q = call_slots F st q + call_slots H st q"
  by (simp add: call_slots_def)

lemma call_slots_empty [simp]: "call_slots {#} st q = 0"
  by (simp add: call_slots_def)

lemma swap_frames:
  assumes inv: "queue_inv (N + G) st" and M: "\<forall>f \<in># M. frame_ok st f \<and> queues f = None" and N: "\<forall>f \<in># N. queues f = None"
    and nt: "\<And>w d f. f \<in># N \<Longrightarrow> notifies st w d f \<Longrightarrow> w \<in> set (waits st d) \<Longrightarrow> \<exists>g \<in># M. notifies st w d g"
    and hand: "\<And>e f. f \<in># N \<Longrightarrow> in_hand e f \<Longrightarrow> \<exists>g \<in># M. in_hand e g \<and> (sets_status e f \<longrightarrow> sets_status e g)"
    and slots: "\<And>q. call_slots N st q \<le> call_slots M st q"
    and push: "\<And>q f. f \<in># N \<Longrightarrow> will_push st q f \<Longrightarrow> \<exists>g \<in># M. will_push st q g"
  shows "queue_inv (M + G) st"
proof (rule queue_invI)
  note I = queue_invD[OF inv]
  have sets: "\<exists>g \<in># M. sets_status e g" if "f \<in># N" "sets_status e f" for e f
    using hand[OF that(1), of e] that(2) by (cases f) auto
  show "objects_ok (M + G) st" using I(1) M by (auto simp: objects_ok_def)
  show "fresh_ok (M + G) st"
  proof -
    have none: "{#f \<in># M. queues f = Some e#} = {#}" "{#f \<in># N. queues f = Some e#} = {#}" for e
      using M N by (auto simp flip: set_mset_eq_empty_iff)
    have "NewEvent q e ws \<notin># M" for q e ws using M by fastforce
    show ?thesis unfolding fresh_ok_def
    proof (intro conjI)
      show "\<forall>e. size {#f \<in># M + G. queues f = Some e#} \<le> 1" using I(2) unfolding fresh_ok_def filter_union_mset none by simp
      show "\<forall>f \<in># M + G. \<forall>e. queues f = Some e \<longrightarrow> deps st e = [] \<and> (\<forall>q. e \<notin> set (events_of st q))"
        using I(2) M unfolding fresh_ok_def by (metis union_iff option.distinct(1))
      show "\<forall>q e ws. NewEvent q e ws \<in># M + G \<longrightarrow> (\<forall>w \<in> set ws. \<forall>f \<in># M + G. queues f \<noteq> Some w)"
        using I(2) M \<open>\<And>q e ws. NewEvent q e ws \<notin># M\<close> unfolding fresh_ok_def by (metis union_iff option.distinct(1))
    qed
  qed
  have "\<exists>g \<in># M + G. notifies st w d g" if "\<exists>f \<in># N + G. notifies st w d f" "w \<in> set (waits st d)" for w d
    using that nt by (metis union_iff)
  then show "waits_ok (M + G) st" using I(3) unfolding waits_ok_def by blast
  have "\<exists>g \<in># M + G. queues g = Some e \<or> sets_status e g" if "\<exists>f \<in># N + G. queues f = Some e \<or> sets_status e f" for e
    using that N sets by (metis option.distinct(1) union_iff)
  moreover have "\<exists>g \<in># M + G. in_hand e g" if "\<exists>f \<in># N + G. in_hand e f" for e
    using that hand by (metis union_iff)
  ultimately show "whereabouts_ok (M + G) st" using I(4) unfolding whereabouts_ok_def by blast
  show "counted_ok (M + G) st" unfolding counted_ok_def
  proof
    fix q show "on_device st q \<le> int (device_slots st q + call_slots (M + G) st q)"
      using I(5)[unfolded counted_ok_def, rule_format, of q] slots[of q] by simp
  qed
  have "attended (M + G) st q" if "attended (N + G) st q" for q
    using that push unfolding attended_def by (metis union_iff)
  then show "attended_ok (M + G) st" using I(6) unfolding attended_ok_def by blast
  show "order_ok st" by (rule I(7))
qed

lemma drop_wait_inv:
  assumes inv: "queue_inv F st" and push: "\<And>q. removeAll e (waits st d) = [] \<Longrightarrow> parent st d = Some q \<Longrightarrow> attended F st q"
  shows "queue_inv F (drop_wait d e st)"
proof (rule queue_invI)
  note I = queue_invD[OF inv]
  let ?st = "drop_wait d e st"
  show "objects_ok F ?st" using I(1) by (simp add: objects_ok_def)
  show "fresh_ok F ?st" using I(2) by (simp add: fresh_ok_def)
  show "waits_ok F ?st" using I(3) by (auto simp: waits_ok_def)
  show "whereabouts_ok F ?st" using I(4) by (simp add: whereabouts_ok_def)
  show "counted_ok F ?st" using I(5) by (simp add: counted_ok_def)
  show "attended_ok F ?st" unfolding attended_ok_def
  proof (intro allI impI)
    fix p assume r: "head_ready ?st p"
    have "attended F st p"
    proof (cases "head_ready st p")
      case True then show ?thesis using I(6) by (simp add: attended_ok_def)
    next
      case False
      with r have "removeAll e (waits st d) = []" "d \<in> set (events_of st p)"
        by (auto simp: head_ready_def split: list.splits if_splits)
      moreover from this have "parent st d = Some p" using I(1) by (auto simp: objects_ok_def)
      ultimately show ?thesis by (intro push)
    qed
    then show "attended F ?st p" by (simp add: attended_def)
  qed
  show "order_ok ?st" using I(7) by (subst order_view) auto
qed

text \<open>The steps of pushing.\<close>

lemma count_end_inv:
  assumes inv: "queue_inv (add_mset (PushEvents q r True) G) st"
  shows "queue_inv (add_mset (PushEvents q r False) G) (count_device q (-1) st)"
proof (rule queue_invI)
  note I = queue_invD[OF inv]
  let ?F = "add_mset (PushEvents q r False) G" and ?st = "count_device q (-1) st"
  show "objects_ok ?F ?st" using I(1) by (simp add: objects_ok_def)
  show "fresh_ok ?F ?st" using I(2) by (simp add: fresh_ok_def)
  show "waits_ok ?F ?st" using I(3) by (simp add: waits_ok_def)
  show "whereabouts_ok ?F ?st" using I(4) by (simp add: whereabouts_ok_def)
  show "counted_ok ?F ?st" unfolding counted_ok_def
  proof
    fix p show "on_device ?st p \<le> int (device_slots ?st p + call_slots ?F ?st p)"
      using I(5)[unfolded counted_ok_def, rule_format, of p] by (cases "p = q") simp_all
  qed
  show "attended_ok ?F ?st" using I(6) by (simp add: attended_ok_def attended_def)
  show "order_ok ?st" using I(7) by (subst order_view) auto
qed

lemma before_erase: "events_of st q = kept @ e # rest \<Longrightarrow> before (set_events q (kept @ rest) st) \<subseteq> before st"
proof -
  assume q: "events_of st q = kept @ e # rest"
  have "earlier (kept @ rest) \<subseteq> earlier (events_of st q)" by (auto simp: q earlier_append)
  then show ?thesis by (auto simp: before_def split: if_splits)
qed

lemma erase_inv:
  assumes inv: "queue_inv F st" and q: "events_of st q = kept @ e # rest" and att: "kept = [] \<Longrightarrow> attended F st q"
    and e: "status st e \<noteq> Queued \<or> (\<exists>f \<in># F. sets_status e f)"
  shows "queue_inv F (set_events q (kept @ rest) st)"
proof (rule queue_invI)
  note I = queue_invD[OF inv]
  let ?st = "set_events q (kept @ rest) st"
  show "objects_ok F ?st"
  proof -
    have "distinct (kept @ e # rest)" using I(1) unfolding q[symmetric] by (simp add: objects_ok_def)
    moreover have "x \<in> set (kept @ rest) \<Longrightarrow> x \<in> set (events_of st q)" for x by (auto simp: q)
    ultimately show ?thesis using I(1) by (auto simp: objects_ok_def)
  qed
  show "fresh_ok F ?st" using I(2) unfolding fresh_ok_def by (auto simp: q) (metis in_set_conv_decomp q Un_iff set_append list.set_intros(2))+
  show "waits_ok F ?st" using I(3) by (simp add: waits_ok_def)
  show "whereabouts_ok F ?st" using I(4) e unfolding whereabouts_ok_def by (simp add: q) (metis q in_set_conv_decomp Un_iff set_append set_ConsD)
  show "counted_ok F ?st" using I(5) by (simp add: counted_ok_def)
  show "attended_ok F ?st"
  proof (rule attended_mono[OF I(6)])
    fix p
    show "attended F st p \<Longrightarrow> attended F ?st p" by (simp add: attended_def)
    show "head_ready ?st p \<Longrightarrow> head_ready st p \<or> attended F ?st p"
      using att q by (cases kept) (auto simp: head_ready_def attended_def split: if_splits list.splits)
  qed
  show "order_ok ?st" using I(7) before_erase[OF q] unfolding order_ok_def by (metis acyclic_subset)
qed

lemma submit_inv:
  assumes inv: "queue_inv F st" and e: "e \<in> set (events_of st q)" "status st e = Queued"
  shows "queue_inv F (submit q e st)"
proof (rule queue_invI)
  note I = queue_invD[OF inv]
  let ?st = "submit q e st"
  have p: "e < num_evs st" "parent st e = Some q" using I(1) e(1) by (auto simp: objects_ok_def)
  show "objects_ok F ?st" using I(1) p by (auto simp: objects_ok_def)
  show "fresh_ok F ?st" using I(2) by (simp add: fresh_ok_def)
  show "waits_ok F ?st" using I(3) by (auto simp: waits_ok_def status_defs)
  show "whereabouts_ok F ?st" using I(4) by (auto simp: whereabouts_ok_def status_defs)
  show "counted_ok F ?st" unfolding counted_ok_def
  proof
    fix p show "on_device ?st p \<le> int (device_slots ?st p + call_slots F ?st p)"
      using I(5)[unfolded counted_ok_def, rule_format, of p] \<open>parent st e = Some q\<close> by auto
  qed
  show "attended_ok F ?st"
    by (rule attended_mono[OF I(6)]) (use p in \<open>auto simp: head_ready_def attended_def status_defs split: if_splits list.splits\<close>)
  show "order_ok ?st" using I(7) by (subst order_view) auto
qed

lemma count_start_inv:
  assumes inv: "queue_inv G st" and e: "parent st e = Some q" "e < num_evs st"
  shows "queue_inv (add_mset (SetStatus e Complete) G) (count_device q 1 st)"
proof (rule queue_invI)
  note I = queue_invD[OF inv]
  let ?F = "add_mset (SetStatus e Complete) G" and ?st = "count_device q 1 st"
  show "objects_ok ?F ?st" using I(1) e by (auto simp: objects_ok_def Complete_def)
  show "fresh_ok ?F ?st" using I(2) by (simp add: fresh_ok_def)
  show "waits_ok ?F ?st" using I(3) by (simp add: waits_ok_def)
  show "whereabouts_ok ?F ?st" using I(4) unfolding whereabouts_ok_def by (auto simp: Bex_def)
  show "counted_ok ?F ?st" unfolding counted_ok_def
  proof
    fix p show "on_device ?st p \<le> int (device_slots ?st p + call_slots ?F ?st p)"
      using I(5)[unfolded counted_ok_def, rule_format, of p] e by auto
  qed
  show "attended_ok ?F ?st" using I(6) by (auto simp: attended_ok_def attended_def)
  show "order_ok ?st" using I(7) by (subst order_view) auto
qed

lemma push_end_inv:
  assumes inv: "queue_inv (add_mset (PushEvents q r False) G) st" and q: "\<not> head_ready st q \<or> on_device st q > 0"
  shows "queue_inv G st"
proof (rule queue_invI)
  note I = queue_invD[OF inv]
  show "objects_ok G st" using I(1) by (simp add: objects_ok_def)
  show "fresh_ok G st" using I(2) by (simp add: fresh_ok_def)
  show "waits_ok G st" using I(3) by (simp add: waits_ok_def)
  show "whereabouts_ok G st" using I(4) by (simp add: whereabouts_ok_def)
  show "counted_ok G st" using I(5) by (simp add: counted_ok_def)
  have "attended G st q" if "on_device st q > 0"
  proof -
    from that I(5)[unfolded counted_ok_def, rule_format, of q] have "0 < device_slots st q \<or> 0 < call_slots G st q"
      by (cases "device_slots st q") auto
    then show ?thesis
    proof
      assume "0 < device_slots st q"
      then show ?thesis unfolding device_slots_def attended_def length_greater_0_conv filter_empty_conv by auto
    next
      assume "0 < call_slots G st q"
      then obtain f where "f \<in># G" "slot st q f" unfolding call_slots_def by (auto simp: nonempty_has_size[symmetric] dest: multiset_nonemptyE)
      moreover from this have "will_push st q f" by (cases f) auto
      ultimately show ?thesis by (auto simp: attended_def)
    qed
  qed
  then show "attended_ok G st" using I(6) q by (auto simp: attended_ok_def attended_def)
  show "order_ok st" by (rule I(7))
qed

text \<open>Queueing an event, registering its wait list, and the way of an event through the device.\<close>

lemma acyclic_last:
  assumes "acyclic r" and "\<And>y. (x, y) \<notin> r" and "x \<notin> A"
  shows "acyclic (r \<union> A \<times> {x})"
proof -
  have no: "(x, y) \<notin> (r \<union> A \<times> {x})\<^sup>+" for y
    using assms(2,3) by (auto dest: tranclD)
  have "(a, b) \<in> (r \<union> A \<times> {x})\<^sup>+ \<Longrightarrow> b = x \<or> (a, b) \<in> r\<^sup>+" for a b
  proof (induction rule: trancl_induct)
    case (step b c)
    then have "b \<noteq> x" using assms(2,3) by auto
    with step show ?case by (auto intro: trancl_into_trancl)
  qed auto
  then show ?thesis using assms(1) no unfolding acyclic_def by metis
qed

lemma earlier_in: "(x, y) \<in> earlier xs \<Longrightarrow> x \<in> set xs \<and> y \<in> set xs"
  by (induction xs) auto

lemma nothing_after: "deps st e = [] \<Longrightarrow> (\<And>q. e \<notin> set (events_of st q)) \<Longrightarrow> (e, y) \<notin> before st"
  by (auto simp: before_def dest: earlier_in)

lemma queue_event_inv:
  assumes inv: "queue_inv (add_mset (QueueEvent q e) G) st"
  shows "queue_inv (add_mset (PushEvents q None False) G) (set_events q (events_of st q @ [e]) st)"
proof (rule queue_invI)
  note I = queue_invD[OF inv]
  let ?F = "add_mset (PushEvents q None False) G" and ?st = "set_events q (events_of st q @ [e]) st"
  have e: "e < num_evs st" "parent st e = Some q" "deps st e = []" "\<And>p. e \<notin> set (events_of st p)"
    using I(1,2) by (auto simp: objects_ok_def fresh_ok_def)
  have one: "\<forall>f \<in># G. queues f \<noteq> Some e"
  proof -
    have "{#f \<in># G. queues f = Some e#} = {#}"
      using I(2)[unfolded fresh_ok_def, THEN conjunct1, rule_format, of e] by simp
    then show ?thesis by (auto simp flip: set_mset_eq_empty_iff)
  qed
  show "objects_ok ?F ?st" using I(1) e by (auto simp: objects_ok_def)
  show "fresh_ok ?F ?st" unfolding fresh_ok_def
  proof (intro conjI)
    show "\<forall>x. size {#f \<in># ?F. queues f = Some x#} \<le> 1"
    proof
      fix x
      have "size {#f \<in># ?F. queues f = Some x#} \<le> size {#f \<in># add_mset (QueueEvent q e) G. queues f = Some x#}" by simp
      also have "\<dots> \<le> 1" using I(2) by (auto simp only: fresh_ok_def)
      finally show "size {#f \<in># ?F. queues f = Some x#} \<le> 1" .
    qed
    show "\<forall>f \<in># ?F. \<forall>x. queues f = Some x \<longrightarrow> deps ?st x = [] \<and> (\<forall>p. x \<notin> set (events_of ?st p))"
      using I(2) one by (auto simp: fresh_ok_def)
    show "\<forall>p x ws. NewEvent p x ws \<in># ?F \<longrightarrow> (\<forall>w \<in> set ws. \<forall>f \<in># ?F. queues f \<noteq> Some w)"
      using I(2) by (auto simp: fresh_ok_def)
  qed
  show "waits_ok ?F ?st" using I(3) by (simp add: waits_ok_def)
  show "whereabouts_ok ?F ?st" using I(4) e(2) unfolding whereabouts_ok_def by (auto simp: Bex_def)
  show "counted_ok ?F ?st" using I(5) by (simp add: counted_ok_def)
  show "attended_ok ?F ?st"
    by (rule attended_mono[OF I(6)]) (auto simp: head_ready_def attended_def split: if_splits list.splits)
  show "order_ok ?st"
  proof -
    have "before ?st = before st \<union> set (events_of st q) \<times> {e}" by (auto simp: before_def earlier_append split: if_splits)
    moreover have "(e, y) \<notin> before st" for y using e(3,4) by (rule nothing_after)
    ultimately show ?thesis using I(7) e(4) acyclic_last unfolding order_ok_def by metis
  qed
qed

definition add_dep :: "nat \<Rightarrow> nat \<Rightarrow> runtime \<Rightarrow> runtime" where
  "add_dep w e st = upd_ev e (\<lambda>x. x\<lparr>p_wait_events := p_wait_events x @ [w]\<rparr>)
     (upd_ev w (\<lambda>x. x\<lparr>p_dependent_events := p_dependent_events x @ [e]\<rparr>) st)"

lemma add_dep_simps [simp]:
  "status (add_dep w e st) x = status st x" "etype (add_dep w e st) x = etype st x" "parent (add_dep w e st) x = parent st x"
  "waits (add_dep w e st) x = waits st x @ (if x = e then [w] else [])"
  "deps (add_dep w e st) x = deps st x @ (if x = w then [e] else [])"
  "num_evs (add_dep w e st) = num_evs st" "cqs (add_dep w e st) = cqs st" "dev_events (add_dep w e st) = dev_events st"
  "started (add_dep w e st) = started st" "threads (add_dep w e st) = threads st"
  by (simp_all add: add_dep_def)

lemma add_dep_frames:
  "slot (add_dep w e st) q f = slot st q f" "will_push (add_dep w e st) q f = will_push st q f"
  "frame_ok st f \<Longrightarrow> frame_ok (add_dep w e st) f" "notifies st x d f \<Longrightarrow> notifies (add_dep w e st) x d f"
  by (cases f; force)+

lemma add_dep_inv:
  assumes inv: "queue_inv F st" and f: "f \<in># F" "queues f = Some e" and w: "w < num_evs st" "status st w > 0" "\<forall>g \<in># F. queues g \<noteq> Some w"
  shows "queue_inv F (add_dep w e st)"
proof (rule queue_invI)
  note I = queue_invD[OF inv]
  let ?st = "add_dep w e st"
  have e: "e < num_evs st" "parent st e \<noteq> None" using I(1) f by (cases f; auto simp: objects_ok_def)+
  have d: "deps st e = []" "\<And>p. e \<notin> set (events_of st p)" using I(2) f by (auto simp: fresh_ok_def)
  have "w \<noteq> e" using w(3) f by auto
  show "objects_ok F ?st" using I(1) e add_dep_frames(3) by (auto simp: objects_ok_def)
  show "fresh_ok F ?st" using I(2) w(3) unfolding fresh_ok_def by simp
  show "waits_ok F ?st" using I(3) w(1,2) unfolding waits_ok_def by (auto split: if_splits) (meson add_dep_frames(4))+
  show "whereabouts_ok F ?st" using I(4) by (simp add: whereabouts_ok_def)
  show "counted_ok F ?st" using I(5) by (simp add: counted_ok_def call_slots_def device_slots_def add_dep_frames)
  show "attended_ok F ?st"
    by (rule attended_mono[OF I(6)]) (auto simp: head_ready_def attended_def add_dep_frames split: if_splits list.splits)
  show "order_ok ?st"
  proof -
    have "before ?st = before st \<union> {w} \<times> {e}" using w(1) by (auto simp: before_def split: if_splits)
    moreover have "(e, y) \<notin> before st" for y using d by (rule nothing_after)
    ultimately show ?thesis using I(7) \<open>w \<noteq> e\<close> acyclic_last[of "before st" e "{w}"] unfolding order_ok_def by auto
  qed
qed

lemma dispatch_inv:
  assumes inv: "queue_inv (add_mset (Dispatch e) G) st"
  shows "queue_inv (add_mset (Run e) G) (with_status e Running st)"
proof (rule queue_invI)
  note I = queue_invD[OF inv]
  let ?F = "add_mset (Run e) G" and ?st = "with_status e Running st"
  show "objects_ok ?F ?st" using I(1) by (simp add: objects_ok_def)
  show "fresh_ok ?F ?st" using I(2) by (simp add: fresh_ok_def)
  show "waits_ok ?F ?st" using I(3) by (auto simp: waits_ok_def Running_def)
  show "whereabouts_ok ?F ?st" using I(4) by (auto simp: whereabouts_ok_def status_defs)
  show "counted_ok ?F ?st" using I(5) by (simp add: counted_ok_def)
  show "attended_ok ?F ?st"
    by (rule attended_mono[OF I(6)]) (auto simp: head_ready_def attended_def status_defs split: if_splits list.splits)
  show "order_ok ?st" using I(7) by (subst order_view) auto
qed

lemma run_inv:
  assumes inv: "queue_inv (add_mset (Run e) G) st"
  shows "queue_inv G (st\<lparr>started := started st @ [e]\<rparr>)"
proof (rule queue_invI)
  note I = queue_invD[OF inv]
  let ?st = "st\<lparr>started := started st @ [e]\<rparr>"
  show "objects_ok G ?st" using I(1) by (auto simp: objects_ok_def)
  show "fresh_ok G ?st" using I(2) by (simp add: fresh_ok_def)
  show "waits_ok G ?st" using I(3) by (simp add: waits_ok_def)
  show "whereabouts_ok G ?st" using I(4) by (auto simp: whereabouts_ok_def)
  have "device_slots ?st q = device_slots st q + of_bool (parent st e = Some q)" for q by (simp add: device_slots_def)
  then show "counted_ok G ?st" using I(5) by (simp add: counted_ok_def algebra_simps)
  show "attended_ok G ?st" by (rule attended_mono[OF I(6)]) (auto simp: attended_def)
  show "order_ok ?st" using I(7) by (subst order_view) auto
qed

lemma get_inv:
  assumes inv: "queue_inv G st" and e: "dev_events st = e # es"
  shows "queue_inv (add_mset (Dispatch e) G) (st\<lparr>dev_events := es\<rparr>)"
proof (rule queue_invI)
  note I = queue_invD[OF inv]
  let ?F = "add_mset (Dispatch e) G" and ?st = "st\<lparr>dev_events := es\<rparr>"
  show "objects_ok ?F ?st" using I(1) by (auto simp: objects_ok_def e)
  show "fresh_ok ?F ?st" using I(2) by (simp add: fresh_ok_def)
  show "waits_ok ?F ?st" using I(3) by (simp add: waits_ok_def)
  show "whereabouts_ok ?F ?st" using I(4) by (auto simp: whereabouts_ok_def e)
  have "device_slots st q = device_slots ?st q + of_bool (parent st e = Some q)" for q by (simp add: device_slots_def e)
  then show "counted_ok ?F ?st" using I(5) by (simp add: counted_ok_def algebra_simps)
  show "attended_ok ?F ?st" by (rule attended_mono[OF I(6)]) (auto simp: attended_def e)
  show "order_ok ?st" using I(7) by (subst order_view) auto
qed

lemma end_inv:
  assumes inv: "queue_inv G st" and e: "e \<in> set (started st)" and s: "s \<le> 0"
  shows "queue_inv (add_mset (SetStatus e s) G) (st\<lparr>started := remove1 e (started st)\<rparr>)"
proof (rule queue_invI)
  note I = queue_invD[OF inv]
  let ?F = "add_mset (SetStatus e s) G" and ?st = "st\<lparr>started := remove1 e (started st)\<rparr>"
  have in1: "x \<in> set (started st) \<Longrightarrow> x = e \<or> x \<in> set (remove1 e (started st))" for x by (metis in_set_remove1)
  show "objects_ok ?F ?st" using I(1) e s by (auto simp: objects_ok_def dest: notin_set_remove1[rotated])
  show "fresh_ok ?F ?st" using I(2) by (simp add: fresh_ok_def)
  show "waits_ok ?F ?st" using I(3) by (simp add: waits_ok_def)
  show "whereabouts_ok ?F ?st" using I(4) in1 unfolding whereabouts_ok_def by auto
  have "device_slots st q = device_slots ?st q + of_bool (parent st e = Some q)" for q
  proof -
    obtain us vs where "started st = us @ e # vs" "e \<notin> set us" using split_list_first[OF e] by blast
    then show ?thesis by (simp add: device_slots_def remove1_append)
  qed
  then show "counted_ok ?F ?st" using I(5) by (simp add: counted_ok_def algebra_simps)
  show "attended_ok ?F ?st" by (rule attended_mono[OF I(6)]) (use in1 in \<open>auto simp: attended_def\<close>)
  show "order_ok ?st" using I(7) by (subst order_view) auto
qed

end
