(* ===== verification/Queue_Progress.thy ===== *)
theory Queue_Progress
  imports Queue_Invariants
begin

text \<open>
  The invariant holds in every reachable state of the command queues, whatever the interleaving and however
  commands end. Nothing gets stuck: when all calls have returned and the device is idle, a command is left only
  if it waits, directly or not, for a user event.
\<close>

subsection \<open>New events\<close>

lemma add_waits_inv:
  assumes "queue_inv F st" and "f \<in># F" "queues f = Some e" and "\<forall>w \<in> set ws. w < num_evs st \<and> (\<forall>g \<in># F. queues g \<noteq> Some w)"
  shows "queue_inv F (snd (add_waits e ws failed st))"
  using assms(1,4)
proof (induction ws arbitrary: failed st)
  case (Cons w ws)
  show ?case
  proof (cases "status st w = Complete \<or> status st w < 0")
    case True
    then show ?thesis using Cons.IH[of st] Cons.prems by (auto simp: addDependentEvent_def)
  next
    case False
    let ?st = "upd_ev e (\<lambda>x. x\<lparr>p_wait_events := p_wait_events x @ [w]\<rparr>)
      (reference_event w (upd_ev w (\<lambda>x. x\<lparr>p_dependent_events := p_dependent_events x @ [e]\<rparr>) st))"
    have "same_view (add_dep w e st) ?st" by (auto simp: same_view_def reference_event_def)
    moreover have "queue_inv F (add_dep w e st)"
      using Cons.prems False by (intro add_dep_inv[OF _ assms(2,3)]) (auto simp: Complete_def)
    ultimately have "queue_inv F ?st" by (simp add: same_view_inv)
    moreover have "snd (add_waits e (w # ws) failed st) = snd (add_waits e ws failed ?st)" using False by (simp add: addDependentEvent_def)
    ultimately show ?thesis using Cons.IH[of ?st] Cons.prems by simp
  qed
qed simp

lemma add_waits_simps [simp]:
  "cqs (snd (add_waits e ws failed st)) = cqs st" "threads (snd (add_waits e ws failed st)) = threads st"
  "parent (snd (add_waits e ws failed st)) x = parent st x" "num_evs (snd (add_waits e ws failed st)) = num_evs st"
  by (induction ws arbitrary: st failed) (simp_all add: addDependentEvent_def)

lemma constructed_inv:
  assumes inv: "queue_inv (add_mset (NewEvent q e ws) G) st"
  shows "queue_inv (add_mset (QueueEvent q e) G) st"
proof (rule queue_invI)
  note I = queue_invD[OF inv]
  let ?F = "add_mset (QueueEvent q e) G"
  show "objects_ok ?F st" using I(1) by (auto simp: objects_ok_def)
  show "fresh_ok ?F st" unfolding fresh_ok_def
  proof (intro conjI)
    show "\<forall>x. size {#f \<in># ?F. queues f = Some x#} \<le> 1"
      using I(2) unfolding fresh_ok_def by (simp only: filter_mset_add_mset queues.simps size_add_mset) (auto split: if_splits)
    show "\<forall>f \<in># ?F. \<forall>x. queues f = Some x \<longrightarrow> deps st x = [] \<and> (\<forall>p. x \<notin> set (events_of st p))"
      using I(2) by (auto simp: fresh_ok_def)
    show "\<forall>p x ws. NewEvent p x ws \<in># ?F \<longrightarrow> (\<forall>w \<in> set ws. \<forall>f \<in># ?F. queues f \<noteq> Some w)"
      using I(2) by (auto simp: fresh_ok_def)
  qed
  show "waits_ok ?F st" using I(3) by (simp add: waits_ok_def)
  show "whereabouts_ok ?F st" using I(4) by (simp add: whereabouts_ok_def)
  show "counted_ok ?F st" using I(5) by (simp add: counted_ok_def)
  show "attended_ok ?F st" using I(6) by (simp add: attended_ok_def attended_def)
  show "order_ok st" by (rule I(7))
qed

lemma add_frame_inv:
  assumes "queue_inv G st" and "frame_ok st f" and "queues f = None"
  shows "queue_inv (add_mset f G) st"
  using swap_frames[of "{#}" G st "{#f#}"] assms by simp

lemma Event_new_simps [simp]:
  "num_evs (Event_new q t s st) = Suc (num_evs st)" "dev_events (Event_new q t s st) = dev_events st"
  "started (Event_new q t s st) = started st" "threads (Event_new q t s st) = threads st"
  "events_of (Event_new q t s st) p = events_of st p" "on_device (Event_new q t s st) p = on_device st p"
  "is_ooo (cqs (Event_new q t s st) p) = is_ooo (cqs st p)"
  "evs (Event_new q t s st) x = (if x = num_evs st then \<lparr>e_type = t, e_parent = q, p_status = s, p_wait_events = [],
       p_dependent_events = [], p_callbacks = [], e_references = 1\<rparr> else evs st x)"
  by (simp_all add: Event_new_def)

lemma Event_new_frames:
  assumes "frame_ok st f"
  shows "frame_ok (Event_new q t s st) f" "slot (Event_new q t s st) p f = slot st p f"
    "will_push (Event_new q t s st) p f = will_push st p f" "w < num_evs st \<Longrightarrow> notifies (Event_new q t s st) w d f = notifies st w d f"
    "queues f \<noteq> Some (num_evs st)"
  using assms by (cases f; auto)+

lemma Event_new_inv:
  assumes inv: "queue_inv G st"
    and M: "q = None \<and> t = User \<and> M = {#} \<or> (\<exists>p ws. q = Some p \<and> t \<noteq> User \<and> s = Queued \<and> M = {#NewEvent p (num_evs st) ws#} \<and>
      (\<forall>w \<in> set ws. w < num_evs st \<and> (\<forall>f \<in># G. queues f \<noteq> Some w)))"
  shows "queue_inv (M + G) (Event_new q t s st)"
proof (rule queue_invI)
  note I = queue_invD[OF inv]
  let ?st = "Event_new q t s st" and ?n = "num_evs st"
  have ok: "\<And>f. f \<in># G \<Longrightarrow> frame_ok st f" using I(1) by (auto simp: objects_ok_def)
  note frs = Event_new_frames[OF ok]
  have ids: "\<And>p. ?n \<notin> set (events_of st p)" "?n \<notin> set (dev_events st)" "?n \<notin> set (started st)" using I(1) by (auto simp: objects_ok_def)
  have M_ok: "frame_ok ?st f" if "f \<in># M" for f using that M by (auto simp: less_Suc_eq)
  show "objects_ok (M + G) ?st" unfolding objects_ok_def
  proof (intro conjI)
    show "\<forall>e < num_evs ?st. etype ?st e = User \<longleftrightarrow> parent ?st e = None"
      using I(1) M by (auto simp: objects_ok_def less_Suc_eq)
    show "\<forall>p. distinct (events_of ?st p) \<and> (\<forall>e \<in> set (events_of ?st p). e < num_evs ?st \<and> parent ?st e = Some p)"
      using I(1) by (auto simp: objects_ok_def less_Suc_eq)
    show "\<forall>e \<in> set (dev_events ?st) \<union> set (started ?st). e < num_evs ?st \<and> parent ?st e \<noteq> None"
      using I(1) by (auto simp: objects_ok_def less_Suc_eq)
    show "\<forall>f \<in># M + G. frame_ok ?st f" using frs(1) M_ok by auto
    show "\<forall>w < num_evs ?st. \<forall>d \<in> set (deps ?st w). d < num_evs ?st \<and> parent ?st d \<noteq> None"
      using I(1) by (auto simp: objects_ok_def less_Suc_eq)
  qed
  show "fresh_ok (M + G) ?st" unfolding fresh_ok_def
  proof (intro conjI)
    have none: "{#f \<in># G. queues f = Some ?n#} = {#}" using frs(5) by (auto simp flip: set_mset_eq_empty_iff)
    show "\<forall>x. size {#f \<in># M + G. queues f = Some x#} \<le> 1"
    proof
      fix x
      have "size {#f \<in># G. queues f = Some x#} \<le> 1" using I(2) by (auto simp only: fresh_ok_def)
      moreover have "size {#f \<in># M. queues f = Some x#} \<le> 1" "x \<noteq> ?n \<Longrightarrow> size {#f \<in># M. queues f = Some x#} = 0" using M by auto
      moreover have "x = ?n \<Longrightarrow> size {#f \<in># G. queues f = Some x#} = 0" using none by simp
      ultimately show "size {#f \<in># M + G. queues f = Some x#} \<le> 1" unfolding filter_union_mset size_union by linarith
    qed
    show "\<forall>f \<in># M + G. \<forall>x. queues f = Some x \<longrightarrow> deps ?st x = [] \<and> (\<forall>p. x \<notin> set (events_of ?st p))"
      using I(2) M ids(1) by (auto simp: fresh_ok_def)
    show "\<forall>p x ws. NewEvent p x ws \<in># M + G \<longrightarrow> (\<forall>w \<in> set ws. \<forall>f \<in># M + G. queues f \<noteq> Some w)"
      using I(2) M ok by (fastforce simp: fresh_ok_def)
  qed
  have "\<exists>f \<in># M + G. notifies ?st w d f" if "\<exists>f \<in># G. notifies st w d f" "w < ?n" for w d
    using that frs(4) by (metis union_iff)
  then show "waits_ok (M + G) ?st"
    using I(3) unfolding waits_ok_def by (simp add: less_Suc_eq) (metis nat_less_le)
  show "whereabouts_ok (M + G) ?st"
    using I(4) M unfolding whereabouts_ok_def by (auto simp: less_Suc_eq Bex_def status_defs)
  show "counted_ok (M + G) ?st"
  proof -
    have "filter_mset (slot ?st p) G = filter_mset (slot st p) G" for p using frs(2) by (intro filter_mset_cong) auto
    moreover have "device_slots ?st p = device_slots st p" for p 
      unfolding device_slots_def using ids by (intro arg_cong[where f = length] filter_cong) auto
    moreover have "call_slots M ?st p = 0" for p using M by (auto simp: call_slots_def)
    ultimately have "device_slots ?st p + call_slots (M + G) ?st p = device_slots st p + call_slots G st p" for p
      unfolding call_slots_union by (simp add: call_slots_def)
    then show ?thesis using I(5) by (simp add: counted_ok_def)
  qed
  show "attended_ok (M + G) ?st"
  proof (rule attended_mono[OF I(6)])
    fix p show "head_ready ?st p \<Longrightarrow> head_ready st p \<or> attended (M + G) ?st p"
      using ids(1)[of p] by (auto simp: head_ready_def split: list.splits)
    show "attended (M + G) ?st p" if "attended G st p"
      using that frs(3) ids(2,3) unfolding attended_def by (auto simp: Bex_def) (metis)+
  qed
  show "order_ok ?st"
  proof -
    have "before ?st = before st" by (auto simp: before_def less_Suc_eq)
    then show ?thesis using I(7) by (simp add: order_ok_def)
  qed
qed

subsection \<open>Pushing\<close>

definition ready_event :: "runtime \<Rightarrow> nat \<Rightarrow> bool" where
  "ready_event st e \<longleftrightarrow> status st e \<le> 0 \<or> status st e = Queued \<and> waits st e = []"

lemma head_ready_ready: "head_ready st q \<longleftrightarrow> events_of st q \<noteq> [] \<and> ready_event st (hd (events_of st q))"
  by (auto simp: head_ready_def ready_event_def split: list.splits)

definition loop_head :: "runtime \<Rightarrow> nat list \<Rightarrow> nat list \<Rightarrow> bool \<Rightarrow> nat \<Rightarrow> bool" where
  "loop_head st kept rest first n \<longleftrightarrow> (first \<longrightarrow> kept = [] \<and> n = 0) \<and> (kept \<noteq> [] \<longrightarrow> \<not> ready_event st (hd kept)) \<and>
     (kept = [] \<and> \<not> first \<longrightarrow> rest \<noteq> [] \<and> status st (hd rest) = Submitted)"

lemma same_view_erased: "same_view (set_events q es st) (release_event e (set_events q es (count_completed q n st)))"
  by (auto simp: same_view_def)

lemma same_view_flushed [simp]: "same_view st (set_flushed q b st)" "same_view st (broadcast q st)" "same_view st st"
  by (simp_all add: same_view_def)

lemma same_view_head: "same_view st st' \<Longrightarrow> head_ready st' q = head_ready st q"
  by (simp add: same_view_def head_ready_def split: list.splits)

text \<open>What the loop leaves.\<close>

definition loop_post :: "nat \<Rightarrow> nat option \<Rightarrow> frame multiset \<Rightarrow> nat option \<times> runtime \<Rightarrow> bool" where
  "loop_post q r G res \<longleftrightarrow> (case res of
       (None, st) \<Rightarrow> queue_inv (add_mset (PushEvents q r False) G) st \<and> \<not> head_ready st q \<and> (\<not> p_flushed (cqs st q) \<longrightarrow> events_of st q \<noteq> [])
     | (Some e, st) \<Rightarrow> queue_inv (add_mset (SetStatus e Complete) (add_mset (PushEvents q r False) G)) st \<and>
         parent st e = Some q \<and> p_flushed (cqs st q) = (events_of st q = []))"

lemma push_loop_post:
  assumes "queue_inv (add_mset (PushEvents q r False) G) st" and "events_of st q = kept @ rest" and "loop_head st kept rest first n"
    and "\<not> p_flushed (cqs st q) \<longrightarrow> kept \<noteq> []"
  shows "loop_post q r G (push_loop q r kept rest first n st)"
  using assms
proof (induction q r kept rest first n st rule: push_loop.induct)
  case (1 q ready kept first n st)
  then show ?case by (auto simp: loop_post_def loop_head_def head_ready_ready)
next
  case (2 q r kept e rest first n st)
  let ?F = "add_mset (PushEvents q r False) G"
  note inv = "2.prems"(1) and es = "2.prems"(2) and head = "2.prems"(3) and fl = "2.prems"(4)
  have dist: "e \<notin> set kept" "e \<notin> set rest" and par: "parent st e = Some q" "e < num_evs st"
    using queue_invD(1)[OF inv] unfolding objects_ok_def by (metis distinct_append distinct.simps(2) es not_distinct_conv_prefix in_set_conv_decomp)+
  have att: "attended ?F st q" by (simp add: attended_def)
  show ?case
  proof (cases "status st e \<le> 0")
    case True
    let ?st = "release_event e (set_events q (kept @ rest) (count_completed q (-1) st))"
    have "queue_inv ?F ?st"
      using erase_inv[OF inv es att] same_view_inv[OF same_view_erased] True by (auto simp: Queued_def)
    moreover have "loop_head ?st kept rest first n" using head True by (auto simp: loop_head_def ready_event_def Submitted_def)
    ultimately show ?thesis using "2.IH"(1) True fl
      by (auto simp: Complete_def set_events_def count_completed_def)
  next
    case False
    then have st: "\<not> (status st e = Complete \<or> status st e < 0)" by (auto simp: Complete_def)
    note step = push_loop.simps(2)[of q r kept e rest first n st]
    have quit: "loop_post q r G (None, st)" if "kept = [] \<longrightarrow> \<not> ready_event st e"
      using inv es head that fl by (cases kept) (auto simp: loop_post_def head_ready_ready loop_head_def)
    have quit': "loop_post q r G (None, set_flushed q False st)" if "kept = [] \<longrightarrow> \<not> ready_event st e"
      using quit[OF that] es by (simp add: loop_post_def same_view_inv[OF same_view_flushed(1)] same_view_head[OF same_view_flushed(1)])
    have unready: "kept = [] \<longrightarrow> \<not> ready_event st e" if "\<not> first"
      using that head by (auto simp: loop_head_def ready_event_def status_defs)
    have next_head: "loop_head st (kept @ [e]) rest False (n + 1)" if "\<not> ready_event st e"
      using that head by (cases kept) (auto simp: loop_head_def)
    consider (stop) "r = None \<and> n > OOO_QUEUE_PUSH_EVENTS_THRESHOLD"
      | (late) "\<not> first" "\<not> (r = None \<and> n > OOO_QUEUE_PUSH_EVENTS_THRESHOLD)" "\<not> is_ooo (cqs st q) \<or> etype st e = Barrier"
      | (go) "\<not> (r = None \<and> n > OOO_QUEUE_PUSH_EVENTS_THRESHOLD)" "\<not> (\<not> is_ooo (cqs st q) \<and> \<not> first)" "\<not> (etype st e = Barrier \<and> \<not> first)"
      by blast
    then show ?thesis
    proof cases
      case stop
      then have "\<not> first" using head by (auto simp: loop_head_def)
      moreover have "push_loop q r kept (e # rest) first n st = (None, st)" using step st stop by simp
      ultimately show ?thesis using quit[OF unready] by simp
    next
      case late
      then have "push_loop q r kept (e # rest) first n st = (None, set_flushed q False st)" using step st by auto
      then show ?thesis using quit'[OF unready] late(1) by simp
    next
      case go
      note step = step[unfolded if_not_P[OF st] if_not_P[OF go(1)] if_not_P[OF go(2)] if_not_P[OF go(3)]]
      consider (away) "status st e \<noteq> Queued" | (waiting) "status st e = Queued" "waits st e \<noteq> []"
        | (instant) "status st e = Queued" "waits st e = []" "isInstantaneous (etype st e)"
        | (push) "status st e = Queued" "waits st e = []" "\<not> isInstantaneous (etype st e)" by blast
      then show ?thesis
      proof cases
        case away
        then have nr: "\<not> ready_event st e" using False by (simp add: ready_event_def)
        show ?thesis
        proof (cases "Some e = r")
          case True then show ?thesis using quit nr step away by simp
        next
          case no: False
          have "loop_post q r G (push_loop q r (kept @ [e]) rest False (n + 1) st)"
            using "2.IH"(2) st go away no inv es next_head[OF nr] by simp
          then show ?thesis using step away no by simp
        qed
      next
        case waiting
        then have nr: "\<not> ready_event st e" using False by (simp add: ready_event_def)
        show ?thesis
        proof (cases "etype st e \<in> {WaitForEvents, Barrier, Marker}")
          case True then show ?thesis using quit' nr step waiting by (simp add: Let_def)
        next
          case no: False
          have "loop_post q r G (push_loop q r (kept @ [e]) rest False (n + 1) (set_flushed q False st))"
          proof (rule "2.IH"(3))
            show "queue_inv ?F (set_flushed q False st)" using inv same_view_inv[OF same_view_flushed(1)] by simp
            show "loop_head (set_flushed q False st) (kept @ [e]) rest False (n + 1)"
              using next_head[OF nr] by (simp add: loop_head_def ready_event_def)
          qed (use st go waiting no es in auto)
          then show ?thesis using step waiting no by (simp add: Let_def)
        qed
      next
        case instant
        let ?st = "set_events q (kept @ rest) (count_device q 1 st)"
        let ?H = "add_mset (SetStatus e Complete) ?F"
        have "queue_inv ?H (count_device q 1 st)" by (rule count_start_inv[OF inv par])
        then have "queue_inv ?H ?st" by (rule erase_inv) (use es in \<open>auto simp: attended_def\<close>)
        moreover have "same_view ?st (count_device q 1 (set_flushed q (kept @ rest = []) (set_events q (kept @ rest) st)))"
          by (simp add: same_view_def)
        ultimately show ?thesis using step instant par by (simp add: loop_post_def same_view_inv)
      next
        case push
        have "loop_post q r G (push_loop q r kept (e # rest) False (n + 1) (submit q e st))"
        proof (rule "2.IH"(4))
          show "queue_inv ?F (submit q e st)" using inv es push(1) by (intro submit_inv) auto
          show "loop_head (submit q e st) kept (e # rest) False (n + 1)"
            using head dist by (cases kept) (auto simp: loop_head_def ready_event_def)
        qed (use st go push es fl in auto)
        then show ?thesis using step push by simp
      qed
    qed
  qed
qed

lemma push_loop_threads: "threads (snd (push_loop q r kept rest first n st)) = threads st"
  by (induction q r kept rest first n st rule: push_loop.induct) (simp_all add: Let_def)

lemma push_loop_others: "p \<noteq> q \<Longrightarrow> events_of (snd (push_loop q r kept rest first n st)) p = events_of st p"
  by (induction q r kept rest first n st rule: push_loop.induct) (simp_all add: Let_def)

text \<open>The calls that follow, and the wake-up of sleeping threads.\<close>

definition wakes :: "runtime \<Rightarrow> runtime \<Rightarrow> bool" where
  "wakes st st' \<longleftrightarrow> threads st' = threads st \<and> (\<forall>q. events_of st' q = [] \<longrightarrow> events_of st q = []) \<or>
     (\<exists>q. threads st' = map (wake q) (threads st) \<and> (\<forall>p. p \<noteq> q \<longrightarrow> events_of st' p = [] \<longrightarrow> events_of st p = []))"

lemma wakes_same: "threads st' = threads st \<Longrightarrow> (\<And>q. events_of st' q = [] \<Longrightarrow> events_of st q = []) \<Longrightarrow> wakes st st'"
  by (simp add: wakes_def)

lemma wakes_broadcast:
  assumes "threads st' = threads st" and "\<And>p. p \<noteq> q \<Longrightarrow> events_of st' p = events_of st p" and "b \<or> events_of st' q \<noteq> []"
  shows "wakes st (if b then broadcast q st' else st')"
proof (cases b)
  case False
  then have "events_of st p = []" if "events_of st' p = []" for p using that assms by (cases "p = q") auto
  then show ?thesis using False assms(1) by (simp add: wakes_def)
qed (use assms in \<open>auto simp: wakes_def\<close>)

definition call_post :: "frame multiset \<Rightarrow> runtime \<Rightarrow> frame list \<times> runtime \<Rightarrow> bool" where
  "call_post G st res \<longleftrightarrow> (case res of (gs, st') \<Rightarrow> queue_inv (mset gs + G) st' \<and> (\<forall>f \<in> set gs. \<not> is_Finish f) \<and> wakes st st')"

lemma pushEventsOnDevice_post:
  assumes inv: "queue_inv (add_mset (PushEvents q r one) G) st"
  shows "call_post G st (pushEventsOnDevice q r one st)"
proof -
  define st1 where "st1 = (if one then count_completed q 1 (count_device q (-1) st) else st)"
  have inv1: "queue_inv (add_mset (PushEvents q r False) G) st1"
  proof (cases one)
    case True
    have "same_view (count_device q (-1) st) st1" by (simp add: st1_def True same_view_def)
    then show ?thesis using count_end_inv inv True by (simp add: same_view_inv)
  qed (use inv st1_def in simp)
  have st1: "threads st1 = threads st" "\<And>p. events_of st1 p = events_of st p" by (simp_all add: st1_def)
  show ?thesis
  proof (cases "is_ooo (cqs st1 q) \<and> r = None \<and> on_device st1 q > 2 \<and> gotEnoughToWorkOn st1")
    case True
    then have "queue_inv G st1" using push_end_inv[OF inv1] by simp
    moreover have "pushEventsOnDevice q r one st = ([], st1)" using True by (simp add: pushEventsOnDevice_def Let_def flip: st1_def)
    ultimately show ?thesis using st1 by (simp add: call_post_def wakes_def)
  next
    case False
    define st2 where "st2 = set_flushed q True st1"
    obtain inst st3 where loop: "push_loop q r [] (events_of st1 q) True 0 st2 = (inst, st3)" by fastforce
    have post: "loop_post q r G (inst, st3)" unfolding loop[symmetric]
      by (rule push_loop_post) (use inv1 same_view_inv[OF same_view_flushed(1)] in \<open>auto simp: st2_def loop_head_def\<close>)
    have others: "threads st3 = threads st" "\<And>p. p \<noteq> q \<Longrightarrow> events_of st3 p = events_of st p"
      using push_loop_threads[of q r "[]" "events_of st1 q" True 0 st2] push_loop_others[of _ q r "[]" "events_of st1 q" True 0 st2] loop st1
      by (simp_all add: st2_def)
    show ?thesis
    proof (cases inst)
      case (Some e)
      from post have i: "queue_inv ({#SetStatus e Complete, PushEvents q r False#} + G) st3" and par: "parent st3 e = Some q"
        and fl: "p_flushed (cqs st3 q) \<longleftrightarrow> events_of st3 q = []" by (simp_all add: loop_post_def Some)
      have "queue_inv ({#SetStatus e Complete#} + G) st3"
        by (rule swap_frames[OF i]) (use i par in \<open>auto simp: queue_inv_def objects_ok_def\<close>)
      then have "queue_inv (mset [SetStatus e Complete, ReleaseEvent e] + G) st3"
        using inert_frame[of "ReleaseEvent e"] by (simp add: add_mset_commute)
      moreover have "pushEventsOnDevice q r one st = ([SetStatus e Complete, ReleaseEvent e], if events_of st3 q = [] then broadcast q st3 else st3)"
        using False loop fl by (simp add: pushEventsOnDevice_def Let_def Some flip: st1_def st2_def)
      ultimately show ?thesis using wakes_broadcast[OF others, where b = "events_of st3 q = []"]
        by (simp add: call_post_def same_view_inv[OF same_view_flushed(2)])
    next
      case None
      from post have i: "queue_inv (add_mset (PushEvents q r False) G) st3" and h: "\<not> head_ready st3 q"
        and fl: "\<not> p_flushed (cqs st3 q) \<Longrightarrow> events_of st3 q \<noteq> []" by (simp_all add: loop_post_def None)
      have inv3: "queue_inv G st3" using push_end_inv[OF i] h by simp
      define st4 where "st4 = (if r \<noteq> None \<and> p_flushed (cqs st3 q) then set_flushed q (events_of st3 q = []) st3 else st3)"
      have v: "same_view st3 st4" "threads st4 = threads st3" "events_of st4 p = events_of st3 p" for p
        by (simp_all add: st4_def same_view_def)
      have fl4: "\<not> p_flushed (cqs st4 q) \<Longrightarrow> events_of st3 q \<noteq> []" using fl by (auto simp: st4_def split: if_splits)
      have "pushEventsOnDevice q r one st = ([], if p_flushed (cqs st4 q) then broadcast q st4 else st4)"
        using loop unfolding pushEventsOnDevice_def Let_def st1_def[symmetric] if_not_P[OF False] st2_def[symmetric]
        by (simp add: None st4_def)
      moreover have "queue_inv G st4" using inv3 same_view_inv[OF v(1)] by simp
      moreover have "wakes st (if p_flushed (cqs st4 q) then broadcast q st4 else st4)"
        by (rule wakes_broadcast) (use others v fl4 in auto)
      ultimately show ?thesis by (simp add: call_post_def same_view_inv[OF same_view_flushed(2)])
    qed
  qed
qed

subsection \<open>Every call keeps the invariant\<close>

lemma call_postI:
  assumes "queue_inv (mset gs + G) st'" and "same_view st' st''" and "\<forall>f \<in> set gs. \<not> is_Finish f" and "wakes st st''"
  shows "call_post G st (gs, st'')"
  using assms same_view_inv by (simp add: call_post_def)

lemma new_event_post:
  assumes inv: "queue_inv (add_mset (NewEvent q e ws) G) st"
  shows "call_post G st (exec (NewEvent q e ws) st)"
proof -
  note I = queue_invD[OF inv]
  let ?st = "snd (add_waits e ws False st)"
  have "queue_inv (add_mset (NewEvent q e ws) G) ?st"
    using I(1,2) by (intro add_waits_inv[OF inv, of "NewEvent q e ws"]) (auto simp: objects_ok_def fresh_ok_def)
  then have i: "queue_inv (add_mset (QueueEvent q e) G) ?st" by (rule constructed_inv)
  have "e < num_evs st" using I(1) by (simp add: objects_ok_def)
  then have "queue_inv (add_mset (SetStatus e CL_EXEC_STATUS_ERROR_FOR_EVENTS_IN_WAIT_LIST) (add_mset (QueueEvent q e) G)) ?st"
    by (intro add_frame_inv[OF i]) (simp_all add: CL_EXEC_STATUS_ERROR_FOR_EVENTS_IN_WAIT_LIST_def)
  then show ?thesis using i by (simp add: split_beta call_post_def wakes_def add_mset_commute)
qed

lemma fst_setStatusHelper [simp]: "fst (setStatusHelper e s st) = length (deps st e)"
  by (simp add: setStatusHelper_def Let_def)

lemma setStatus_cases:
  "etype st e = User \<or> parent st e \<noteq> None \<Longrightarrow> \<exists>cbs. setStatus e Complete st =
     ([NotifyComplete e 0 (length (deps st e)) False, Callbacks e Complete cbs], with_status e Complete (reference_queue (parent st e) 1 st))"
  "s < 0 \<Longrightarrow> \<exists>cbs. setStatus e s st =
     ([NotifyError e 0 (length (deps st e)), Callbacks e s cbs], reference_queue (parent st e) 1 (with_status e s st))"
  "s > 0 \<Longrightarrow> \<exists>cbs. setStatus e s st = ([Callbacks e s cbs], with_status e s st)"
  by (simp_all add: setStatus_def Let_def split_beta with_status_def Complete_def)

lemma set_status_post:
  assumes inv: "queue_inv (add_mset (SetStatus e s) G) st"
  shows "call_post G st (setStatus e s st)"
proof -
  note I = queue_invD[OF inv]
  let ?n = "length (deps st e)" and ?st = "with_status e s st"
  have s: "s \<le> 0" "etype st e = User \<or> parent st e \<noteq> None" using I(1) by (auto simp: objects_ok_def)
  have post: "call_post G st ([N, Callbacks e s cbs], st')"
    if "N = NotifyComplete e 0 ?n False \<or> N = NotifyError e 0 ?n" "same_view ?st st'" "threads st' = threads st" for N st' cbs
  proof (rule call_postI[OF _ that(2)])
    show "queue_inv (mset [N, Callbacks e s cbs] + G) ?st"
      using set_finished_inv[OF inv that(1)] inert_frame[of "Callbacks e s cbs"] by (simp add: add_mset_commute[of N])
    show "wakes st st'" using that(2,3) by (simp add: wakes_def same_view_def)
  qed (use that(1) in auto)
  show ?thesis
  proof (cases "s = Complete")
    case True
    let ?st' = "with_status e s (reference_queue (parent st e) 1 st)"
    have "same_view ?st ?st'" by (simp add: same_view_def)
    then show ?thesis using post[of "NotifyComplete e 0 ?n False" ?st'] True setStatus_cases(1)[OF s(2)] by auto
  next
    case False
    let ?st' = "reference_queue (parent st e) 1 ?st"
    have "same_view ?st ?st'" by (simp add: same_view_def)
    moreover have "s < 0" using False s(1) by (simp add: Complete_def)
    ultimately show ?thesis using post[of "NotifyError e 0 ?n" ?st'] setStatus_cases(2)[of s e st] by auto
  qed
qed

lemma removeWaitEvent_view:
  "removeWaitEvent d e st = (b, st') \<Longrightarrow> same_view (drop_wait d e st) st' \<and> threads st' = threads st \<and> b = (removeAll e (waits st d) = [])"
  by (auto simp: removeWaitEvent_def drop_wait_def same_view_def Let_def split: if_splits)

lemma notify_post:
  assumes inv: "queue_inv (add_mset N G) st" and N: "N = NotifyComplete e i n b \<or> N = NotifyError e i n" and i: "i < n"
    and d: "d = deps st e ! i" and X: "frame_ok st X" "queues X = None" "will_push st (the (parent st d)) X"
    and slots: "\<And>q. of_bool (slot st q X) + of_bool (slot st q N) \<le> (of_bool (slot st q X') + of_bool (slot st q N') :: nat)"
    and N': "N' = NotifyComplete e (i + 1) n b' \<or> N' = NotifyError e (i + 1) n"
    and X': "X' = X \<or> X = PushEvents q r False \<and> X' = PushEvents q r c"
  shows "queue_inv (add_mset X' (add_mset N' G)) (drop_wait d e st)"
proof -
  note I = queue_invD[OF inv]
  let ?st = "drop_wait d e st"
  have n: "n \<le> length (deps st e)" "e < num_evs st" using I(1) N by (auto simp: objects_ok_def)
  then have "d \<in> set (deps st e)" using i d by simp
  then have "parent st d \<noteq> None" using I(1) n(2) by (auto simp: objects_ok_def)
  then have "queue_inv (add_mset X (add_mset N G)) ?st"
    using X by (intro drop_wait_inv add_frame_inv[OF inv]) (auto simp: attended_def)
  then have i2: "queue_inv ({#X, N#} + G) ?st" by simp
  have nt: "\<exists>g \<in># {#X', N'#}. notifies ?st w x g" if "notifies ?st w x N" "w \<in> set (waits ?st x)" for w x
  proof -
    have w: "w = e" "x \<in> set (drop i (take n (deps st e)))" using that(1) N by auto
    then have "x \<noteq> d" using that(2) by auto
    moreover have "drop i (take n (deps st e)) = d # drop (i + 1) (take n (deps st e))"
      using i n d by (simp flip: Cons_nth_drop_Suc)
    ultimately have "x \<in> set (drop (i + 1) (take n (deps st e)))" using w(2) by simp
    then show ?thesis using N' w(1) by auto
  qed
  have "queue_inv ({#X', N'#} + G) ?st"
  proof (rule swap_frames[OF i2])
    show "\<exists>g \<in># {#X', N'#}. notifies ?st w x g" if "f \<in># {#X, N#}" "notifies ?st w x f" "w \<in> set (waits ?st x)" for w x f
      using that nt X' by auto
    show "call_slots {#X, N#} ?st p \<le> call_slots {#X', N'#} ?st p" for p using slots[of p] by (simp add: add.commute)
  qed (use X N N' X' n in auto)
  then show ?thesis by simp
qed

lemma notify_quiet_post:
  assumes inv: "queue_inv (add_mset (NotifyComplete e i n b) G) st" and i: "i < n" and d: "d = deps st e ! i" and w: "removeAll e (waits st d) \<noteq> []"
  shows "queue_inv (add_mset (NotifyComplete e (i + 1) n b) G) (drop_wait d e st)"
proof -
  note I = queue_invD[OF inv]
  let ?st = "drop_wait d e st"
  have n: "n \<le> length (deps st e)" "e < num_evs st" using I(1) by (auto simp: objects_ok_def)
  have i2: "queue_inv ({#NotifyComplete e i n b#} + G) ?st" using drop_wait_inv[OF inv, of e d] w by simp
  have nt: "x \<in> set (drop (i + 1) (take n (deps st e)))" if "x \<in> set (drop i (take n (deps st e)))" "e \<in> set (waits ?st x)" for x
  proof -
    have "drop i (take n (deps st e)) = d # drop (i + 1) (take n (deps st e))" using i n d by (simp flip: Cons_nth_drop_Suc)
    then show ?thesis using that by (auto split: if_splits)
  qed
  have "queue_inv ({#NotifyComplete e (i + 1) n b#} + G) ?st" by (rule swap_frames[OF i2]) (use n nt in auto)
  then show ?thesis by simp
qed

lemma notify_complete_post:
  assumes inv: "queue_inv (add_mset (NotifyComplete e i n b) G) st"
  shows "call_post G st (notify_complete e i n b st)"
proof (cases "i < n")
  case True
  note I = queue_invD[OF inv]
  let ?d = "deps st e ! i"
  obtain em st' where rw: "removeWaitEvent ?d e st = (em, st')" by fastforce
  note v = removeWaitEvent_view[OF rw]
  have w: "wakes st st'" using v by (simp add: wakes_def same_view_def)
  have "?d \<in> set (deps st e)" "e < num_evs st" using I(1) True by (auto simp: objects_ok_def)
  then obtain q where q: "parent st ?d = Some q" using I(1) by (fastforce simp: objects_ok_def)
  then have q': "parent st' ?d = Some q" using v by (simp add: same_view_def)
  show ?thesis
  proof (cases em)
    case empty: True
    let ?c = "parent st e = Some q"
    have "queue_inv (add_mset (PushEvents q (Some ?d) ?c) (add_mset (NotifyComplete e (i + 1) n (b \<or> ?c)) G)) (drop_wait ?d e st)"
      by (rule notify_post[OF inv _ True refl, where X = "PushEvents q (Some ?d) False"]) (use q in auto)
    then have "call_post G st ([PushEvents q (Some ?d) ?c, NotifyComplete e (i + 1) n (b \<or> ?c)], st')"
      using v w by (intro call_postI) auto
    then show ?thesis using True empty rw q' by (simp add: notify_complete_def Let_def)
  next
    case nonempty: False
    then have "queue_inv (add_mset (NotifyComplete e (i + 1) n b) G) (drop_wait ?d e st)"
      using v by (intro notify_quiet_post[OF inv True refl]) auto
    then have "call_post G st ([NotifyComplete e (i + 1) n b], st')" using v w by (intro call_postI) auto
    then show ?thesis using True nonempty rw by (simp add: notify_complete_def Let_def)
  qed
next
  case False
  have inv: "queue_inv ({#NotifyComplete e i n b#} + G) st" using inv by simp
  let ?gs = "case parent st e of None \<Rightarrow> [] | Some q \<Rightarrow> (if b then [] else [PushEvents q None True]) @ [ReleaseQueue q]"
  have "queue_inv (mset ?gs + G) st"
    by (rule swap_frames[OF inv]) (use False in \<open>auto split: option.splits\<close>)
  then show ?thesis using False
    by (auto simp: notify_complete_def Let_def call_post_def wakes_def split: option.splits)
qed

lemma notify_error_post:
  assumes inv: "queue_inv (add_mset (NotifyError e i n) G) st"
  shows "call_post G st (notify_error e i n st)"
proof (cases "i < n")
  case True
  note I = queue_invD[OF inv]
  let ?d = "deps st e ! i" and ?s = CL_EXEC_STATUS_ERROR_FOR_EVENTS_IN_WAIT_LIST
  obtain em st' where rw: "removeWaitEvent ?d e st = (em, st')" by fastforce
  note v = removeWaitEvent_view[OF rw]
  have "?d \<in> set (deps st e)" "e < num_evs st" using I(1) True by (auto simp: objects_ok_def)
  then have d: "?d < num_evs st" "parent st ?d \<noteq> None" using I(1) by (auto simp: objects_ok_def)
  have "queue_inv (add_mset (SetStatus ?d ?s) (add_mset (NotifyError e (i + 1) n) G)) (drop_wait ?d e st)"
    by (rule notify_post[OF inv _ True refl, where X = "SetStatus ?d ?s"])
       (use d in \<open>auto simp: CL_EXEC_STATUS_ERROR_FOR_EVENTS_IN_WAIT_LIST_def\<close>)
  then have "call_post G st ([SetStatus ?d ?s, NotifyError e (i + 1) n], st')"
    using v by (intro call_postI) (auto simp: wakes_def same_view_def)
  then show ?thesis using True rw by (simp add: notify_error_def Let_def)
next
  case False
  have inv: "queue_inv ({#NotifyError e i n#} + G) st" using inv by simp
  let ?gs = "case parent st e of None \<Rightarrow> [] | Some q \<Rightarrow> [PushEvents q None True, ReleaseQueue q]"
  have "queue_inv (mset ?gs + G) st"
    by (rule swap_frames[OF inv]) (use False in \<open>auto split: option.splits\<close>)
  then show ?thesis using False
    by (auto simp: notify_error_def call_post_def wakes_def split: option.splits)
qed

lemma clean_loop_inv:
  assumes "queue_inv F st" and "events_of st q = kept @ rest"
  shows "queue_inv F (clean_loop q kept rest st)"
  using assms
proof (induction q kept rest st rule: clean_loop.induct)
  case (2 q kept e rest st)
  show ?case
  proof (cases "status st e = Complete")
    case True
    have "attended F st q" if "kept = []"
      using queue_invD(6)[OF "2.prems"(1)] "2.prems"(2) that True by (auto simp: attended_ok_def head_ready_def Complete_def)
    then have "queue_inv F (set_events q (kept @ rest) st)"
      by (intro erase_inv[OF "2.prems"]) (use True in \<open>auto simp: status_defs\<close>)
    then have "queue_inv F (release_event e (set_events q (kept @ rest) (count_completed q (-1) st)))"
      using same_view_inv[OF same_view_erased] by simp
    then show ?thesis using "2.IH"(1)[OF True] True by simp
  next
    case False
    then show ?thesis using "2.IH"(2)[OF False] "2.prems" by simp
  qed
qed simp

lemma clean_loop_simps [simp]:
  "threads (clean_loop q kept rest st) = threads st" "p \<noteq> q \<Longrightarrow> events_of (clean_loop q kept rest st) p = events_of st p"
  by (induction q kept rest st rule: clean_loop.induct) simp_all

lemma clean_post:
  assumes "queue_inv (add_mset (CleanEvents q) G) st"
  shows "call_post G st (exec (CleanEvents q) st)"
proof -
  have inv: "queue_inv G st" using inert_frame[of "CleanEvents q"] assms by simp
  let ?c = "clean_loop q [] (events_of st q) st"
  have "queue_inv G ?c" by (rule clean_loop_inv[OF inv]) simp
  moreover have "wakes st (if events_of ?c q = [] then broadcast q ?c else ?c)" by (rule wakes_broadcast) auto
  moreover have "wakes st st" by (simp add: wakes_def)
  ultimately show ?thesis using inv
    by (simp add: call_post_def cleanEvents_def Let_def same_view_inv[OF same_view_flushed(2)] del: clean_loop_simps)
qed

lemma exec_post:
  assumes inv: "queue_inv (add_mset f G) st" and f: "\<not> is_Finish f"
  shows "call_post G st (exec f st)"
proof (cases f)
  case (NewEvent q e ws) then show ?thesis using new_event_post inv by simp
next
  case (QueueEvent q e)
  have "queue_inv (mset [PushEvents q None False] + G) (set_events q (events_of st q @ [e]) st)" using queue_event_inv inv QueueEvent by simp
  then show ?thesis unfolding QueueEvent exec.simps queueEvent_def
    by (rule call_postI) (simp_all add: wakes_def)
next
  case (PushEvents q r b) then show ?thesis using pushEventsOnDevice_post inv by simp
next
  case (SetStatus e s) then show ?thesis using set_status_post inv by simp
next
  case (NotifyComplete e i n b) then show ?thesis using notify_complete_post inv by simp
next
  case (NotifyError e i n) then show ?thesis using notify_error_post inv by simp
next
  case (Callbacks e s cbs)
  then have "queue_inv (mset [] + G) st" using inv inert_frame by simp
  then show ?thesis unfolding Callbacks exec.simps by (rule call_postI) (simp_all add: same_view_def wakes_def)
next
  case (ReleaseEvent e)
  then have "queue_inv (mset [] + G) st" using inv inert_frame by simp
  then show ?thesis unfolding ReleaseEvent exec.simps by (rule call_postI) (simp_all add: same_view_def wakes_def)
next
  case (ReleaseQueue q)
  have "queue_inv ({#ReleaseQueue q#} + G) st" using inv ReleaseQueue by simp
  then have "queue_inv (mset [PushEvents q None False, DerefQueue q] + G) st" by (rule swap_frames) auto
  then show ?thesis unfolding ReleaseQueue exec.simps by (rule call_postI) (simp_all add: wakes_def)
next
  case (DerefQueue q)
  then have "queue_inv (mset [] + G) st" using inv inert_frame by simp
  then show ?thesis unfolding DerefQueue exec.simps by (rule call_postI) (simp_all add: same_view_def wakes_def)
next
  case (Dispatch e)
  obtain cbs where s: "setStatus e Running st = ([Callbacks e Running cbs], with_status e Running st)"
    using setStatus_cases(3)[of Running e st] by (auto simp: Running_def)
  have "queue_inv (mset [Callbacks e Running cbs, Run e] + G) (with_status e Running st)"
    using dispatch_inv inv Dispatch inert_frame[of "Callbacks e Running cbs"] by simp
  then show ?thesis unfolding Dispatch exec.simps s by (simp add: call_post_def wakes_def)
next
  case (Run e)
  then show ?thesis using run_inv[of e G st] inv by (simp add: call_post_def wakes_def)
next
  case (SetUser e s)
  then have "queue_inv G st" "frame_ok st f" using inv inert_frame[of f G st] by auto
  then show ?thesis using add_frame_inv[of G st "SetStatus e s"] SetUser by (simp add: call_post_def wakes_def)
next
  case (CleanEvents q) then show ?thesis using clean_post inv by simp
next
  case (Finish q b) then show ?thesis using f by simp
qed

subsection \<open>Every reachable state\<close>

definition sleepers_ok :: "runtime \<Rightarrow> bool" where
  "sleepers_ok st \<longleftrightarrow> (\<forall>fs \<in> set (threads st). \<forall>q b. Finish q b \<in> set fs \<longrightarrow>
     (fs = [CleanEvents q, Finish q False] \<or> fs = [Finish q b]) \<and> (b \<longrightarrow> events_of st q \<noteq> []))"

definition runtime_inv :: "runtime \<Rightarrow> bool" where
  "runtime_inv st \<longleftrightarrow> queue_inv (frames st) st \<and> sleepers_ok st"

lemma inv_threads: "queue_inv F (st\<lparr>threads := ts\<rparr>) = queue_inv F st"
  by (rule same_view_inv) (simp add: same_view_def)

lemma frames_update:
  assumes "i < length ts" and "ts ! i = f # fs"
  shows "mset (filter P (concat (ts[i := gs @ fs]))) + mset (filter P [f]) = mset (filter P (concat ts)) + mset (filter P gs)"
proof -
  have "ts = take i ts @ (f # fs) # drop (Suc i) ts" using id_take_nth_drop[OF assms(1)] assms(2) by simp
  then have "concat ts = concat (take i ts) @ (f # fs) @ concat (drop (Suc i) ts)" by (metis concat.simps(2) concat_append)
  then show ?thesis using assms(1) by (simp add: upd_conv_take_nth_drop)
qed

lemma filter_wake: "filter (\<lambda>f. \<not> is_Finish f) (wake q fs) = filter (\<lambda>f. \<not> is_Finish f) fs"
  by (induction q fs rule: wake.induct) simp_all

lemma frames_wake: "mset (filter (\<lambda>f. \<not> is_Finish f) (concat (map (wake q) ts))) = mset (filter (\<lambda>f. \<not> is_Finish f) (concat ts))"
  by (induction ts) (simp_all add: filter_wake)

lemma wakes_frames: "wakes st st' \<Longrightarrow> frames st' = frames st"
  by (auto simp only: wakes_def frames_def frames_wake)

lemma wake_other: "\<not> is_Finish f \<Longrightarrow> wake q (f # fs) = f # fs"
  by (cases f) auto

lemma wakes_thread:
  assumes "wakes st st'" and "i < length (threads st)" and "threads st ! i = f # fs" and "\<not> is_Finish f"
  shows "i < length (threads st')" "threads st' ! i = f # fs"
  using assms by (auto simp: wakes_def wake_other)

lemma wake_set: "Finish p b \<in> set (wake q fs) \<Longrightarrow> \<exists>b'. Finish p b' \<in> set fs \<and> (b \<longrightarrow> b')"
  by (induction q fs rule: wake.induct) auto

lemma wakes_sleepers:
  assumes "wakes st st'" and "sleepers_ok st"
  shows "sleepers_ok st'"
  using assms(1) unfolding wakes_def
proof
  assume "threads st' = threads st \<and> (\<forall>q. events_of st' q = [] \<longrightarrow> events_of st q = [])"
  then show ?thesis using assms(2) by (auto simp: sleepers_ok_def)
next
  assume "\<exists>q. threads st' = map (wake q) (threads st) \<and> (\<forall>p. p \<noteq> q \<longrightarrow> events_of st' p = [] \<longrightarrow> events_of st p = [])"
  then obtain q where q: "threads st' = map (wake q) (threads st)" "\<And>p. p \<noteq> q \<Longrightarrow> events_of st' p = [] \<Longrightarrow> events_of st p = []" by blast
  show ?thesis unfolding sleepers_ok_def
  proof (intro ballI allI impI)
    fix gs p b assume gs: "gs \<in> set (threads st')" "Finish p b \<in> set gs"
    then obtain fs where fs: "fs \<in> set (threads st)" "gs = wake q fs" by (auto simp: q(1))
    then obtain b' where b': "Finish p b' \<in> set fs" using wake_set gs(2) by blast
    then have "fs = [CleanEvents p, Finish p False] \<or> fs = [Finish p b'] \<and> (b' \<longrightarrow> events_of st p \<noteq> [])"
      using assms(2) fs(1) unfolding sleepers_ok_def by blast
    then show "(gs = [CleanEvents p, Finish p False] \<or> gs = [Finish p b]) \<and> (b \<longrightarrow> events_of st' p \<noteq> [])"
      using gs(2) fs(2) q(2)[of p] by auto
  qed
qed

lemma sleepers_update:
  assumes "sleepers_ok st" and "\<forall>q b. Finish q b \<in> set gs \<longrightarrow>
     (gs = [CleanEvents q, Finish q False] \<or> gs = [Finish q b]) \<and> (b \<longrightarrow> events_of st q \<noteq> [])"
  shows "sleepers_ok (st\<lparr>threads := (threads st)[i := gs]\<rparr>)"
  using assms set_update_subset_insert[of "threads st" i gs] by (auto simp: sleepers_ok_def)

lemma run_thread_inv:
  assumes inv: "runtime_inv st" and i: "i < length (threads st)"
  shows "runtime_inv (run_thread i st)"
proof (cases "threads st ! i")
  case Nil then show ?thesis using inv by (simp add: run_thread_def)
next
  case (Cons f fs)
  note I = inv[unfolded runtime_inv_def, THEN conjunct1] inv[unfolded runtime_inv_def, THEN conjunct2]
  have mem: "f # fs \<in> set (threads st)" using Cons i by (metis nth_mem)
  show ?thesis
  proof (cases "is_Finish f")
    case True
    then obtain q b where f: "f = Finish q b" by (auto simp: is_Finish_iff)
    then have "f # fs = [CleanEvents q, Finish q False] \<or> f # fs = [Finish q b]"
      using I(2) mem unfolding sleepers_ok_def by (metis list.set_intros(1))
    then have fs: "fs = []" using f by simp
    show ?thesis
    proof (cases b)
      case False
      let ?gs = "if events_of st q = [] then [] else [Finish q True]"
      have "run_thread i st = st\<lparr>threads := (threads st)[i := ?gs @ fs]\<rparr>"
        using False Cons f fs by (simp add: run_thread_def asleep_def)
      moreover have "frames (st\<lparr>threads := (threads st)[i := ?gs @ fs]\<rparr>) = frames st"
        using frames_update[OF i Cons, of "\<lambda>f. \<not> is_Finish f" ?gs] by (auto simp: frames_def f)
      moreover have "sleepers_ok (st\<lparr>threads := (threads st)[i := ?gs @ fs]\<rparr>)"
        by (rule sleepers_update[OF I(2)]) (use fs in auto)
      ultimately show ?thesis using I(1) inv_threads unfolding runtime_inv_def by metis
    qed (use Cons f inv in \<open>simp add: run_thread_def asleep_def\<close>)
  next
    case False
    obtain gs st' where e: "exec f st = (gs, st')" by fastforce
    define G where "G = frames st - {#f#}"
    have "f \<in># frames st" using mem False by (force simp: frames_def)
    then have F: "frames st = add_mset f G" by (simp add: G_def)
    have post: "queue_inv (mset gs + G) st'" "\<forall>f \<in> set gs. \<not> is_Finish f" "wakes st st'"
      using exec_post[of f G st] I(1) F False e by (simp_all add: call_post_def)
    let ?st = "st'\<lparr>threads := (threads st')[i := gs @ fs]\<rparr>"
    have fin: "filter (\<lambda>f. \<not> is_Finish f) gs = gs" using post(2) by (simp add: filter_id_conv)
    have "frames ?st + {#f#} = frames st' + mset gs"
      using frames_update[OF wakes_thread[OF post(3) i Cons False], of "\<lambda>f. \<not> is_Finish f" gs] False by (simp add: frames_def fin)
    then have "frames ?st = mset gs + G" using wakes_frames[OF post(3)] F by simp
    moreover have "sleepers_ok ?st"
    proof (rule sleepers_update[OF wakes_sleepers[OF post(3) I(2)]], intro allI impI)
      fix q b assume "Finish q b \<in> set (gs @ fs)"
      then have b: "Finish q b \<in> set fs" using post(2) by auto
      then have "f # fs = [CleanEvents q, Finish q False] \<or> f # fs = [Finish q b]"
        using I(2) mem unfolding sleepers_ok_def by (metis list.set_intros(2))
      then have "f # fs = [CleanEvents q, Finish q False] \<and> \<not> b" using False b by auto
      moreover from this have "gs = []" using e by auto
      ultimately show "(gs @ fs = [CleanEvents q, Finish q False] \<or> gs @ fs = [Finish q b]) \<and> (b \<longrightarrow> events_of st' q \<noteq> [])" by auto
    qed
    moreover have "run_thread i st = ?st" using Cons False e by (cases f) (auto simp: run_thread_def asleep_def)
    ultimately show ?thesis using post(1) inv_threads unfolding runtime_inv_def by metis
  qed
qed

lemma spawn_inv:
  assumes "queue_inv (mset (filter (\<lambda>f. \<not> is_Finish f) fs) + frames st) st" and "sleepers_ok st"
    and "fs = [CleanEvents q, Finish q False] \<or> (\<forall>f \<in> set fs. \<not> is_Finish f)"
  shows "runtime_inv (spawn fs st)"
proof -
  have "frames (spawn fs st) = mset (filter (\<lambda>f. \<not> is_Finish f) fs) + frames st" by (simp add: frames_def spawn_def)
  moreover have "sleepers_ok (spawn fs st)" using assms(2,3) by (auto simp: sleepers_ok_def spawn_def)
  ultimately show ?thesis using assms(1) inv_threads unfolding runtime_inv_def spawn_def by metis
qed

lemma known_frames: "known st w \<Longrightarrow> w < num_evs st \<and> (\<forall>f \<in># frames st. queues f \<noteq> Some w)"
  by (auto simp: known_def frames_def)

lemma enqueue_inv:
  assumes inv: "runtime_inv st" and "t \<noteq> User" and "\<forall>w \<in> set ws. known st w" and st': "enqueue_command q t ws event st = Inr st'"
  shows "runtime_inv st'"
proof -
  let ?e = "num_evs st" and ?st = "Event_new (Some q) t Queued st"
  let ?st' = "if event then reference_event ?e ?st else ?st"
  have "queue_inv ({#NewEvent q ?e ws#} + frames st) ?st"
    using inv assms(2,3) known_frames by (intro Event_new_inv) (auto simp: runtime_inv_def)
  moreover have "same_view ?st ?st'" by (simp add: same_view_def)
  moreover have "frames ?st' = frames st" by (simp add: frames_def)
  moreover have "sleepers_ok ?st'" using inv by (simp add: sleepers_ok_def runtime_inv_def)
  moreover have "st' = spawn [NewEvent q ?e ws] ?st'" using st' by (auto simp: enqueue_command_def Let_def split: if_splits)
  ultimately show ?thesis by (auto intro!: spawn_inv simp: same_view_inv)
qed

lemma queue_step_inv:
  assumes "queue_step R st st'" and "R \<subseteq> {..0}" and inv: "runtime_inv st"
  shows "runtime_inv st'"
proof -
  note I = inv[unfolded runtime_inv_def, THEN conjunct1] inv[unfolded runtime_inv_def, THEN conjunct2]
  have one: "runtime_inv (spawn [f] st)" if "frame_ok st f" "queues f = None" "\<not> is_Finish f" for f
    using add_frame_inv[OF I(1) that(1,2)] that(3) I(2) by (intro spawn_inv) auto
  show ?thesis using assms(1)
  proof cases
    case (step_thread i) then show ?thesis using run_thread_inv inv by simp
  next
    case step_enqueue then show ?thesis using enqueue_inv[OF inv] by blast
  next
    case step_create_user
    have "queue_inv ({#} + frames st) (create_user st)" unfolding create_user_def using I(1) by (intro Event_new_inv) simp_all
    moreover have "frames (create_user st) = frames st" by (simp add: frames_def create_user_def)
    moreover have "sleepers_ok (create_user st)" using I(2) by (simp add: sleepers_ok_def create_user_def)
    ultimately show ?thesis using step_create_user by (simp add: runtime_inv_def)
  next
    case (step_set_user e s) then show ?thesis using assms(2) one[of "SetUser e s"] by (auto simp: known_def)
  next
    case (step_set_callback e t c)
    have "same_view st st'" "frames st' = frames st" "sleepers_ok st'"
      using I(2) unfolding step_set_callback by (auto simp: setCallback_def same_view_def frames_def sleepers_ok_def)
    then show ?thesis using I(1) by (simp add: runtime_inv_def same_view_inv)
  next
    case step_worker
    then obtain e es where e: "dev_events st = e # es" by (cases "dev_events st") auto
    let ?st = "st\<lparr>dev_events := es\<rparr>"
    have "frames ?st = frames st" "sleepers_ok ?st" using I(2) by (simp_all add: frames_def sleepers_ok_def)
    then have "runtime_inv (spawn [Dispatch e] ?st)" using get_inv[OF I(1) e] by (intro spawn_inv) auto
    then show ?thesis using e step_worker by (simp add: getEvent_def)
  next
    case (step_end e s)
    let ?st = "st\<lparr>started := remove1 e (started st)\<rparr>"
    have "frames ?st = frames st" "sleepers_ok ?st" using I(2) by (simp_all add: frames_def sleepers_ok_def)
    then have "runtime_inv (spawn [SetStatus e s] ?st)"
      using end_inv[OF I(1) step_end(2)] step_end(3) assms(2) by (intro spawn_inv) auto
    then show ?thesis using step_end by (simp add: end_command_def)
  next
    case (step_flush q) then show ?thesis using one[of "PushEvents q None False"] by simp
  next
    case (step_finish q)
    have "queue_inv (add_mset (CleanEvents q) (frames st)) st" using add_frame_inv[OF I(1)] by simp
    then show ?thesis unfolding step_finish using I(2) by (intro spawn_inv) auto
  qed
qed

lemma reachable_inv: "reachable R st \<Longrightarrow> R \<subseteq> {..0} \<Longrightarrow> runtime_inv st"
proof (induction rule: reachable.induct)
  case (reach_start st)
  then show ?case
    by (simp add: initial_def runtime_inv_def sleepers_ok_def frames_def queue_inv_def queue_inv_parts before_def head_ready_def
        device_slots_def call_slots_def acyclic_def)
next
  case (reach_step st st') then show ?case using queue_step_inv by blast
qed

subsection \<open>Nothing gets stuck\<close>

definition at_rest :: "runtime \<Rightarrow> bool" where
  "at_rest st \<longleftrightarrow> dev_events st = [] \<and> started st = [] \<and> (\<forall>fs \<in> set (threads st). case fs of [] \<Rightarrow> True | f # _ \<Rightarrow> asleep f)"

lemma at_rest_drained:
  assumes inv: "runtime_inv st" and rest: "at_rest st" and users: "\<forall>e < num_evs st. etype st e = User \<longrightarrow> status st e \<le> 0"
  shows "events_of st q = []" and "\<forall>fs \<in> set (threads st). fs = []" and "\<forall>e < num_evs st. status st e \<le> 0"
proof -
  note I = inv[unfolded runtime_inv_def, THEN conjunct1] inv[unfolded runtime_inv_def, THEN conjunct2]
  note J = queue_invD[OF I(1)]
  have sleeping: "fs = [] \<or> (\<exists>q. fs = [Finish q True] \<and> events_of st q \<noteq> [])" if "fs \<in> set (threads st)" for fs
  proof (cases fs)
    case (Cons f gs)
    then have "asleep f" using rest that by (auto simp: at_rest_def)
    then obtain q where "f = Finish q True" by (cases f) (auto simp: asleep_def)
    then show ?thesis using I(2) that Cons unfolding sleepers_ok_def by fastforce
  qed simp
  have F: "frames st = {#}"
  proof -
    have "filter (\<lambda>f. \<not> is_Finish f) fs = []" if "fs \<in> set (threads st)" for fs using sleeping[OF that] by auto
    then show ?thesis by (simp add: frames_def filter_concat)
  qed
  have fin: "status st e \<le> 0 \<or> e \<in> set (events_of st (the (parent st e))) \<and> status st e = Queued" if "e < num_evs st" for e
    using J(4) J(1) that users rest unfolding whereabouts_ok_def F at_rest_def objects_ok_def Complete_def by (cases "parent st e = None") auto
  have "finite (before st)"
  proof -
    have "before st \<subseteq> {..<num_evs st} \<times> {..<num_evs st}" using J(1) by (auto simp: before_def objects_ok_def dest!: earlier_in)
    then show ?thesis using finite_subset by blast
  qed
  then have wf: "wf (before st)" using J(7) by (simp add: order_ok_def finite_acyclic_wf)
  have none: "e \<notin> set (events_of st q)" for e q
  proof (induction e arbitrary: q rule: wf_induct_rule[OF wf])
    case (1 e)
    show ?case
    proof
      assume e: "e \<in> set (events_of st q)"
      then obtain us vs where es: "events_of st q = us @ e # vs" by (auto simp: in_set_conv_decomp)
      have "us = []"
      proof (rule ccontr)
        assume "us \<noteq> []"
        then have "(hd us, e) \<in> before st" using es by (auto simp: before_def earlier_append intro!: exI[of _ q])
        then show False using "1.IH" es \<open>us \<noteq> []\<close> by (metis Un_iff hd_in_set set_append)
      qed
      then have nr: "\<not> head_ready st q \<longrightarrow> status st e > 0 \<and> (status st e = Queued \<longrightarrow> waits st e \<noteq> [])" using es by (auto simp: head_ready_def)
      have ids: "e < num_evs st" "parent st e = Some q" using J(1) e by (auto simp: objects_ok_def)
      have "\<not> head_ready st q" using J(6) rest F by (auto simp: attended_ok_def attended_def at_rest_def)
      then have "status st e = Queued" "waits st e \<noteq> []" using nr fin[OF ids(1)] by auto
      then obtain w where w: "w \<in> set (waits st e)" by (meson hd_in_set)
      then have "w < num_evs st" "e \<in> set (deps st w)" "status st w > 0" using J(3) ids(1) F unfolding waits_ok_def by force+
      then have "(w, e) \<in> before st" "w \<in> set (events_of st (the (parent st w)))" using fin[of w] by (auto simp: before_def)
      then show False using "1.IH" by blast
    qed
  qed
  then have empty: "events_of st q = []" for q by (meson last_in_set)
  show "events_of st q = []" by (rule empty)
  show "\<forall>fs \<in> set (threads st). fs = []" using sleeping empty by blast
  show "\<forall>e < num_evs st. status st e \<le> 0" using fin empty by auto
qed

end
