(* ===== verification/Queue_Order.thy ===== *)
theory Queue_Order
  imports Queue_Progress
begin

text \<open>
  The order of commands when none of them fails: a command starts only when all events of its wait list are
  complete, a queue in order has one command on the device at a time, and barriers hold back the commands behind
  them. Again this holds for all interleavings.
\<close>

subsection \<open>The invariant\<close>

definition hands :: "frame multiset \<Rightarrow> runtime \<Rightarrow> nat \<Rightarrow> nat" where
  "hands F st e = count (mset (dev_events st @ started st)) e + size {#f \<in># F. in_hand e f#}"

lemma hands_add [simp]: "hands (add_mset f F) st e = hands F st e + of_bool (in_hand e f)"
  by (simp add: hands_def)

fun good_frame :: "runtime \<Rightarrow> frame \<Rightarrow> bool" where
  "good_frame st (SetStatus e s) \<longleftrightarrow> s = Complete"
| "good_frame st (SetUser e s) \<longleftrightarrow> s = Complete"
| "good_frame st (NotifyError e i n) \<longleftrightarrow> False"
| "good_frame st (NotifyComplete e i n b) \<longleftrightarrow> status st e = Complete"
| "good_frame st (Dispatch e) \<longleftrightarrow> status st e \<in> {Running, Submitted}"
| "good_frame st (Run e) \<longleftrightarrow> status st e \<in> {Running, Submitted}"
| "good_frame st (NewEvent q e ws) \<longleftrightarrow> status st e = Queued"
| "good_frame st (QueueEvent q e) \<longleftrightarrow> status st e = Queued"
| "good_frame _ _ \<longleftrightarrow> True"

text \<open>An event is in at most one pair of hands, and in none before it leaves its queue and after it is complete.\<close>

definition hands_ok :: "frame multiset \<Rightarrow> runtime \<Rightarrow> bool" where
  "hands_ok F st \<longleftrightarrow> (\<forall>e < num_evs st. status st e \<ge> 0) \<and> (\<forall>f \<in># F. good_frame st f) \<and>
     (\<forall>e \<in> set (dev_events st) \<union> set (started st). status st e \<in> {Running, Submitted}) \<and>
     (\<forall>e < num_evs st. parent st e \<noteq> None \<longrightarrow> hands F st e \<le> 1 \<and> (status st e = Complete \<longrightarrow> hands F st e = 0)) \<and>
     (\<forall>q. \<forall>e \<in> set (events_of st q). status st e = Queued \<longrightarrow> hands F st e = 0) \<and>
     (\<forall>f \<in># F. \<forall>e. queues f = Some e \<longrightarrow> hands F st e = 0)"

text \<open>An event that was waited for and is no longer is complete; an event that has left its queue waits for nothing.\<close>

definition deps_ok :: "frame multiset \<Rightarrow> runtime \<Rightarrow> bool" where
  "deps_ok F st \<longleftrightarrow> (\<forall>w < num_evs st. \<forall>d \<in> set (deps st w). w \<in> set (waits st d) \<or> status st w = Complete) \<and>
     (\<forall>d < num_evs st. parent st d = None \<or> status st d \<noteq> Queued \<or> hands F st d > 0 \<longrightarrow> waits st d = [])"

text \<open>In a queue, a command leaves the status \<open>Queued\<close> only behind complete ones, if the queue or the type of the one before asks for that.\<close>

definition holds_back :: "runtime \<Rightarrow> nat \<Rightarrow> nat \<Rightarrow> bool" where
  "holds_back st q x \<longleftrightarrow> \<not> is_ooo (cqs st q) \<or> etype st x \<in> {Barrier, Marker, WaitForEvents}"

definition in_sequence :: "runtime \<Rightarrow> nat \<Rightarrow> nat \<Rightarrow> nat \<Rightarrow> bool" where
  "in_sequence st q x y \<longleftrightarrow> (holds_back st q x \<longrightarrow> status st y = Queued \<or> status st x = Complete)"

definition sequence_ok :: "runtime \<Rightarrow> bool" where
  "sequence_ok st \<longleftrightarrow> (\<forall>e < num_evs st. \<forall>q. status st e \<in> {Running, Submitted} \<and> parent st e = Some q \<longrightarrow> e \<in> set (events_of st q)) \<and>
     (\<forall>q. sorted_wrt (in_sequence st q) (events_of st q)) \<and>
     (\<forall>q. \<forall>e \<in> set (events_of st q). isInstantaneous (etype st e) \<longrightarrow> status st e = Queued)"

definition order_inv :: "frame multiset \<Rightarrow> runtime \<Rightarrow> bool" where
  "order_inv F st \<longleftrightarrow> queue_inv F st \<and> hands_ok F st \<and> deps_ok F st \<and> sequence_ok st"

lemma order_invD:
  assumes "order_inv F st"
  shows "queue_inv F st" "hands_ok F st" "deps_ok F st" "sequence_ok st" "objects_ok F st" "fresh_ok F st"
  using assms by (simp_all add: order_inv_def queue_inv_def)

lemma order_invI: "queue_inv F st \<Longrightarrow> hands_ok F st \<Longrightarrow> deps_ok F st \<Longrightarrow> sequence_ok st \<Longrightarrow> order_inv F st"
  by (simp add: order_inv_def)

lemma hands_okD:
  assumes "hands_ok F st"
  shows "e < num_evs st \<Longrightarrow> 0 \<le> status st e" "f \<in># F \<Longrightarrow> good_frame st f"
    "e \<in> set (dev_events st) \<union> set (started st) \<Longrightarrow> status st e \<in> {Running, Submitted}"
    "e < num_evs st \<Longrightarrow> parent st e \<noteq> None \<Longrightarrow> hands F st e \<le> 1"
    "e < num_evs st \<Longrightarrow> parent st e \<noteq> None \<Longrightarrow> status st e = Complete \<Longrightarrow> hands F st e = 0"
    "e \<in> set (events_of st q) \<Longrightarrow> status st e = Queued \<Longrightarrow> hands F st e = 0"
    "f \<in># F \<Longrightarrow> queues f = Some e \<Longrightarrow> hands F st e = 0"
  using assms unfolding hands_ok_def by blast+

lemma hands_okI:
  assumes "\<And>e. e < num_evs st \<Longrightarrow> 0 \<le> status st e" "\<And>f. f \<in># F \<Longrightarrow> good_frame st f"
    "\<And>e. e \<in> set (dev_events st) \<union> set (started st) \<Longrightarrow> status st e \<in> {Running, Submitted}"
    "\<And>e. e < num_evs st \<Longrightarrow> parent st e \<noteq> None \<Longrightarrow> hands F st e \<le> 1"
    "\<And>e. e < num_evs st \<Longrightarrow> parent st e \<noteq> None \<Longrightarrow> status st e = Complete \<Longrightarrow> hands F st e = 0"
    "\<And>q e. e \<in> set (events_of st q) \<Longrightarrow> status st e = Queued \<Longrightarrow> hands F st e = 0"
    "\<And>f e. f \<in># F \<Longrightarrow> queues f = Some e \<Longrightarrow> hands F st e = 0"
  shows "hands_ok F st"
  using assms unfolding hands_ok_def by blast

lemma deps_okD:
  assumes "deps_ok F st"
  shows "w < num_evs st \<Longrightarrow> d \<in> set (deps st w) \<Longrightarrow> w \<in> set (waits st d) \<or> status st w = Complete"
    "d < num_evs st \<Longrightarrow> parent st d = None \<or> status st d \<noteq> Queued \<or> 0 < hands F st d \<Longrightarrow> waits st d = []"
  using assms unfolding deps_ok_def by blast+

lemma deps_okI:
  assumes "\<And>w d. w < num_evs st \<Longrightarrow> d \<in> set (deps st w) \<Longrightarrow> w \<in> set (waits st d) \<or> status st w = Complete"
    "\<And>d. d < num_evs st \<Longrightarrow> parent st d = None \<or> status st d \<noteq> Queued \<or> 0 < hands F st d \<Longrightarrow> waits st d = []"
  shows "deps_ok F st"
  using assms unfolding deps_ok_def by blast

lemma sequence_okD:
  assumes "sequence_ok st"
  shows "e < num_evs st \<Longrightarrow> status st e \<in> {Running, Submitted} \<Longrightarrow> parent st e = Some q \<Longrightarrow> e \<in> set (events_of st q)"
    "sorted_wrt (in_sequence st q) (events_of st q)"
    "e \<in> set (events_of st q) \<Longrightarrow> isInstantaneous (etype st e) \<Longrightarrow> status st e = Queued"
  using assms unfolding sequence_ok_def by blast+

lemma sequence_okI:
  assumes "\<And>e q. e < num_evs st \<Longrightarrow> status st e \<in> {Running, Submitted} \<Longrightarrow> parent st e = Some q \<Longrightarrow> e \<in> set (events_of st q)"
    "\<And>q. sorted_wrt (in_sequence st q) (events_of st q)"
    "\<And>q e. e \<in> set (events_of st q) \<Longrightarrow> isInstantaneous (etype st e) \<Longrightarrow> status st e = Queued"
  shows "sequence_ok st"
  using assms unfolding sequence_ok_def by blast

lemma good_frame_view: "(\<And>e. status st' e = status st e) \<Longrightarrow> good_frame st' f = good_frame st f"
  by (cases f) simp_all

lemma same_view_order:
  assumes "same_view st st'"
  shows "order_inv F st' = order_inv F st"
proof -
  have "hands F st' = hands F st" "good_frame st' = good_frame st" "in_sequence st' q = in_sequence st q" for q
    using assms good_frame_view[of st' st]
    by (simp_all add: same_view_def hands_def fun_eq_iff in_sequence_def holds_back_def)
  then show ?thesis using assms same_view_inv[OF assms]
    by (simp add: order_inv_def hands_ok_def deps_ok_def sequence_ok_def same_view_def)
qed

subsection \<open>Steps of the invariant\<close>

lemma hands_views [simp]:
  "hands F (with_status e s st) = hands F st" "hands F (set_events q es st) = hands F st" "hands F (count_device q n st) = hands F st"
  "hands F (drop_wait d e st) = hands F st" "hands F (add_dep w e st) = hands F st"
  "hands F (submit q e st) x = hands F st x + of_bool (x = e)"
  by (auto simp: hands_def fun_eq_iff)

lemma good_frame_views [simp]:
  "good_frame (set_events q es st) = good_frame st" "good_frame (count_device q n st) = good_frame st"
  "good_frame (drop_wait d e st) = good_frame st" "good_frame (add_dep w e st) = good_frame st"
  "good_frame (st\<lparr>dev_events := es\<rparr>) = good_frame st" "good_frame (st\<lparr>started := es\<rparr>) = good_frame st"
  by (rule ext, rule good_frame_view, simp)+

lemma in_sequence_views [simp]:
  "in_sequence (set_events p es st) = in_sequence st" "in_sequence (count_device p n st) = in_sequence st"
  "in_sequence (drop_wait d e st) = in_sequence st" "in_sequence (add_dep w e st) = in_sequence st"
  "in_sequence (st\<lparr>dev_events := es\<rparr>) = in_sequence st" "in_sequence (st\<lparr>started := es\<rparr>) = in_sequence st"
  by (simp_all add: fun_eq_iff in_sequence_def holds_back_def)

lemma order_views [simp]:
  "hands_ok F (drop_wait d e st) = hands_ok F st" "sequence_ok (drop_wait d e st) = sequence_ok st"
  "hands_ok F (add_dep w e st) = hands_ok F st" "sequence_ok (add_dep w e st) = sequence_ok st"
  "hands_ok F (count_device q n st) = hands_ok F st" "sequence_ok (count_device q n st) = sequence_ok st"
  "deps_ok F (count_device q n st) = deps_ok F st" "deps_ok F (set_events q es st) = deps_ok F st"
  by (simp_all only: hands_ok_def deps_ok_def sequence_ok_def drop_wait_simps add_dep_simps queue_update_simps queue_field_simps
      hands_views good_frame_views in_sequence_views)

lemma sequence_device_views [simp]:
  "sequence_ok (st\<lparr>dev_events := es\<rparr>) = sequence_ok st" "sequence_ok (st\<lparr>started := es\<rparr>) = sequence_ok st"
  by (simp_all add: sequence_ok_def)

lemma hands_pos: "f \<in># F \<Longrightarrow> in_hand e f \<Longrightarrow> 0 < hands F st e"
  by (auto dest!: multi_member_split)

lemma sorted_wrt_keep:
  assumes "sorted_wrt P xs" and "\<And>x y. x \<in> set xs \<Longrightarrow> y \<in> set xs \<Longrightarrow> P x y \<Longrightarrow> Q x y"
  shows "sorted_wrt Q xs"
  using assms by (auto intro: sorted_wrt_mono_rel)

text \<open>An event in hands, and what its new status leaves of the invariant.\<close>

lemma status_order:
  assumes inv: "order_inv (add_mset f G) st" and f: "in_hand e f" "e < num_evs st"
    and s: "s = Complete \<or> s = Running \<and> parent st e \<noteq> None \<and> status st e \<noteq> Complete \<and> status st e \<noteq> Queued"
    and g: "good_frame (with_status e s st) g" "queues g = None" "in_hand e g \<longleftrightarrow> s \<noteq> Complete" "\<And>x. x \<noteq> e \<Longrightarrow> \<not> in_hand x g"
  shows "hands_ok (add_mset g G) (with_status e s st)" "deps_ok (add_mset g G) (with_status e s st)" "sequence_ok (with_status e s st)"
proof -
  note I = order_invD[OF inv]
  let ?st = "with_status e s st"
  have other: "\<not> in_hand x f" if "x \<noteq> e" for x using f(1) that by (cases f) auto
  have qn: "queues f = None" using f(1) by (cases f) auto
  have par: "hands G st e = 0" "status st e \<noteq> Complete" if "parent st e \<noteq> None"
    using I(2) f that by (auto simp: hands_ok_def)
  have q: "status st e \<noteq> Queued" if "e \<in> set (events_of st q)" for q
    using I(2) f(1) that by (auto simp: hands_ok_def)
  have fr: "queues h \<noteq> Some e" if "h \<in># G" for h using I(2) f(1) that by (auto simp: hands_ok_def)
  have dev: "e \<notin> set (dev_events st) \<union> set (started st)"
  proof
    assume e: "e \<in> set (dev_events st) \<union> set (started st)"
    then have "hands G st e = 0" using par(1) I(5) by (simp add: objects_ok_def)
    then have "count (mset (dev_events st @ started st)) e = 0" unfolding hands_def by simp
    then show False using e by (simp add: count_mset_0_iff)
  qed
  have good: "good_frame ?st h" if h: "h \<in># G" for h
  proof -
    have "good_frame st h" using I(2) h by (simp add: hands_ok_def)
    moreover have "\<not> in_hand e h \<or> parent st e = None" using hands_pos[OF h, of e st] par(1) by (cases "parent st e") auto
    moreover have "parent st e = None \<Longrightarrow> h \<noteq> Dispatch e \<and> h \<noteq> Run e" using I(5) h by (auto simp: objects_ok_def)
    ultimately show ?thesis using fr[OF h] s par(2) by (cases h) auto
  qed
  have hx: "hands (add_mset g G) st x = (if x = e \<and> s = Complete then hands G st e else hands (add_mset f G) st x)" for x
    using f(1) other[of x] g(3) g(4)[of x] by auto
  have pos: "0 \<le> s" using s by (auto simp: status_defs)
  show "hands_ok (add_mset g G) ?st" unfolding hands_ok_def
  proof (intro conjI)
    show "\<forall>x < num_evs ?st. 0 \<le> status ?st x" using I(2) pos by (simp add: hands_ok_def)
    show "\<forall>h \<in># add_mset g G. good_frame ?st h" using good g(1) by simp
    show "\<forall>x \<in> set (dev_events ?st) \<union> set (started ?st). status ?st x \<in> {Running, Submitted}"
      using I(2) dev by (auto simp: hands_ok_def)
    show "\<forall>x < num_evs ?st. parent ?st x \<noteq> None \<longrightarrow> hands (add_mset g G) ?st x \<le> 1 \<and> (status ?st x = Complete \<longrightarrow> hands (add_mset g G) ?st x = 0)"
      using I(2) par(1) s unfolding hands_ok_def hands_views hx by (auto simp: status_defs)
    show "\<forall>p. \<forall>x \<in> set (events_of ?st p). status ?st x = Queued \<longrightarrow> hands (add_mset g G) ?st x = 0"
      using I(2) s unfolding hands_ok_def hands_views hx by (auto simp: status_defs)
    show "\<forall>h \<in># add_mset g G. \<forall>x. queues h = Some x \<longrightarrow> hands (add_mset g G) ?st x = 0"
      using I(2) g(2) fr unfolding hands_ok_def hands_views hx by auto
  qed
  have w: "waits st e = []" using I(3) f by (cases "parent st e") (auto simp: deps_ok_def)
  show "deps_ok (add_mset g G) ?st" unfolding deps_ok_def
  proof (intro conjI)
    show "\<forall>v < num_evs ?st. \<forall>d \<in> set (deps ?st v). v \<in> set (waits ?st d) \<or> status ?st v = Complete"
      using I(3) s by (auto simp: deps_ok_def)
    show "\<forall>d < num_evs ?st. parent ?st d = None \<or> status ?st d \<noteq> Queued \<or> 0 < hands (add_mset g G) ?st d \<longrightarrow> waits ?st d = []"
    proof (intro allI impI)
      fix d assume d: "d < num_evs ?st" "parent ?st d = None \<or> status ?st d \<noteq> Queued \<or> 0 < hands (add_mset g G) ?st d"
      show "waits ?st d = []"
      proof (cases "d = e")
        case False
        then have "hands (add_mset g G) st d = hands (add_mset f G) st d" "status ?st d = status st d" using hx[of d] by simp_all
        then have "d < num_evs st" "parent st d = None \<or> status st d \<noteq> Queued \<or> 0 < hands (add_mset f G) st d"
          using d unfolding hands_views by simp_all
        then have "waits st d = []" using I(3) unfolding deps_ok_def by blast
        then show ?thesis by simp
      qed (use w in simp)
    qed
  qed
  show "sequence_ok ?st" unfolding sequence_ok_def
  proof (intro conjI)
    have run: "status st e \<in> {Running, Submitted}" if "s = Running"
    proof -
      have p: "parent st e \<noteq> None" "status st e \<noteq> Complete" "status st e \<noteq> Queued" using s that by (auto simp: status_defs)
      have "0 \<le> status st e" using I(2) f(2) by (simp add: hands_ok_def)
      moreover have "status st e \<le> Complete \<or> status st e \<in> {Running, Submitted, Queued}"
        using queue_invD(4)[OF I(1)] f(2) p(1) unfolding whereabouts_ok_def by blast
      ultimately show ?thesis using p by (auto simp: Complete_def)
    qed
    show "\<forall>x < num_evs ?st. \<forall>p. status ?st x \<in> {Running, Submitted} \<and> parent ?st x = Some p \<longrightarrow> x \<in> set (events_of ?st p)"
    proof (intro allI impI)
      fix x p assume x: "x < num_evs ?st" "status ?st x \<in> {Running, Submitted} \<and> parent ?st x = Some p"
      have "status st x \<in> {Running, Submitted}"
      proof (cases "x = e")
        case True
        then have "s = Running" using x s by (auto simp: status_defs)
        then show ?thesis using run True by simp
      qed (use x in simp)
      moreover have "x < num_evs st" "parent st x = Some p" using x by simp_all
      ultimately have "x \<in> set (events_of st p)" using I(4) unfolding sequence_ok_def by blast
      then show "x \<in> set (events_of ?st p)" by simp
    qed
    show "\<forall>p. sorted_wrt (in_sequence ?st p) (events_of ?st p)"
    proof
      fix p
      have "sorted_wrt (in_sequence st p) (events_of st p)" using I(4) by (simp add: sequence_ok_def)
      then have "sorted_wrt (in_sequence ?st p) (events_of st p)"
        by (rule sorted_wrt_keep) (use q[of p] s in \<open>auto simp: in_sequence_def holds_back_def\<close>)
      then show "sorted_wrt (in_sequence ?st p) (events_of ?st p)" by simp
    qed
    show "\<forall>p. \<forall>x \<in> set (events_of ?st p). isInstantaneous (etype ?st x) \<longrightarrow> status ?st x = Queued"
    proof (intro allI ballI impI)
      fix p x assume x: "x \<in> set (events_of ?st p)" "isInstantaneous (etype ?st x)"
      then have "x \<in> set (events_of st p)" "status st x = Queued" using I(4) unfolding sequence_ok_def by simp_all
      moreover from this have "x \<noteq> e" using q[of p] by auto
      ultimately show "status ?st x = Queued" by simp
    qed
  qed
qed

text \<open>Calls that have no event in hands.\<close>

lemma hands_union: "hands (M + G) st e = hands G st e + size {#f \<in># M. in_hand e f#}"
  by (simp add: hands_def)

definition same_events :: "runtime \<Rightarrow> runtime \<Rightarrow> bool" where
  "same_events st st' \<longleftrightarrow> num_evs st' = num_evs st \<and>
     (\<forall>e. etype st' e = etype st e \<and> parent st' e = parent st e \<and> status st' e = status st e \<and> waits st' e = waits st e \<and>
        deps st' e = deps st e) \<and> (\<forall>q. events_of st' q = events_of st q \<and> is_ooo (cqs st' q) = is_ooo (cqs st q))"

lemma move_order:
  assumes inv: "order_inv F st" and q: "queue_inv F' st'" and view: "same_events st st'" and same: "\<And>e. hands F' st' e = hands F st e"
    and good: "\<And>f. f \<in># F' \<Longrightarrow> good_frame st f" and dev: "\<And>e. e \<in> set (dev_events st') \<union> set (started st') \<Longrightarrow> status st e \<in> {Running, Submitted}"
    and qs: "\<And>f e. f \<in># F' \<Longrightarrow> queues f = Some e \<Longrightarrow> \<exists>g \<in># F. queues g = Some e"
  shows "order_inv F' st'"
proof (rule order_invI[OF q])
  note I = order_invD[OF inv]
  have v: "num_evs st' = num_evs st" "\<And>e. etype st' e = etype st e" "\<And>e. parent st' e = parent st e" "\<And>e. status st' e = status st e"
      "\<And>e. waits st' e = waits st e" "\<And>e. deps st' e = deps st e" "\<And>q. events_of st' q = events_of st q" "\<And>q. is_ooo (cqs st' q) = is_ooo (cqs st q)"
    using view by (simp_all add: same_events_def)
  show "hands_ok F' st'"
  proof (rule hands_okI, unfold same v good_frame_view[of st' st, OF v(4)])
    show "hands F st e = 0" if "f \<in># F'" "queues f = Some e" for f e using qs[OF that] hands_okD(7)[OF I(2)] by blast
  qed (use good dev hands_okD[OF I(2)] in blast)+
  show "deps_ok F' st'" using I(3) unfolding deps_ok_def same v .
  have seq: "in_sequence st' q = in_sequence st q" for q by (simp add: fun_eq_iff in_sequence_def holds_back_def v)
  show "sequence_ok st'" using I(4) unfolding sequence_ok_def v seq .
qed

lemma same_view_events: "same_view st st' \<Longrightarrow> same_events st st'"
  by (simp add: same_view_def same_events_def)

lemma swap_order:
  assumes inv: "order_inv (N + G) st" and q: "queue_inv (M + G) st'" and M: "\<And>f. f \<in># M \<Longrightarrow> good_frame st f"
    and view: "same_view st st'" and same: "\<And>e. {#f \<in># M. in_hand e f#} = {#f \<in># N. in_hand e f#}"
    and qs: "\<And>f e. f \<in># M \<Longrightarrow> queues f = Some e \<Longrightarrow> \<exists>g \<in># N. queues g = Some e"
  shows "order_inv (M + G) st'"
proof (rule move_order[OF inv q same_view_events[OF view]])
  note I = order_invD[OF inv]
  show "hands (M + G) st' e = hands (N + G) st e" for e using view same[of e] by (simp add: hands_def same_view_def)
  show "good_frame st f" if "f \<in># M + G" for f using that M hands_okD(2)[OF I(2)] by auto
  show "status st e \<in> {Running, Submitted}" if "e \<in> set (dev_events st') \<union> set (started st')" for e
    using hands_okD(3)[OF I(2), of e] that view by (simp add: same_view_def)
  show "\<exists>g \<in># N + G. queues g = Some e" if "f \<in># M + G" "queues f = Some e" for f e using that qs by (metis union_iff)
qed

lemma drop_wait_order:
  assumes inv: "order_inv F st" and "queue_inv F (drop_wait d e st)" and e: "status st e = Complete"
  shows "order_inv F (drop_wait d e st)"
proof (rule order_invI[OF assms(2)])
  note I = order_invD[OF inv]
  let ?st = "drop_wait d e st"
  show "hands_ok F ?st" using I(2) by simp
  show "deps_ok F ?st"
  proof (rule deps_okI)
    show "w \<in> set (waits ?st x) \<or> status ?st w = Complete" if "w < num_evs ?st" "x \<in> set (deps ?st w)" for w x
      using that deps_okD(1)[OF I(3), of w x] e by auto
    show "waits ?st x = []" if "x < num_evs ?st" "parent ?st x = None \<or> status ?st x \<noteq> Queued \<or> 0 < hands F ?st x" for x
    proof -
      have "waits st x = []" using that deps_okD(2)[OF I(3), of x] unfolding hands_views by simp
      then show ?thesis by auto
    qed
  qed
  show "sequence_ok ?st" using I(4) by simp
qed

lemma sorted_wrt_erase: "sorted_wrt P (xs @ x # ys) \<Longrightarrow> sorted_wrt P (xs @ ys)"
  by (simp add: sorted_wrt_append)

lemma erase_order:
  assumes inv: "order_inv F st" and "queue_inv F (set_events q (kept @ rest) st)" and q: "events_of st q = kept @ e # rest"
    and e: "status st e = Complete"
  shows "order_inv F (set_events q (kept @ rest) st)"
proof (rule order_invI[OF assms(2)])
  note I = order_invD[OF inv]
  let ?st = "set_events q (kept @ rest) st"
  have sub: "x \<in> set (events_of st p)" if "x \<in> set (events_of ?st p)" for x p using that q by (auto split: if_splits)
  show "hands_ok F ?st"
  proof (rule hands_okI)
    show "hands F ?st x = 0" if "x \<in> set (events_of ?st p)" "status ?st x = Queued" for p x
      using hands_okD(6)[OF I(2) sub] that by simp
  qed (use hands_okD[OF I(2)] in simp_all)
  show "deps_ok F ?st" using I(3) by simp
  show "sequence_ok ?st"
  proof (rule sequence_okI)
    show "x \<in> set (events_of ?st p)" if "x < num_evs ?st" "status ?st x \<in> {Running, Submitted}" "parent ?st x = Some p" for x p
      using sequence_okD(1)[OF I(4), of x p] that e q by (auto simp: status_defs split: if_splits)
    show "sorted_wrt (in_sequence ?st p) (events_of ?st p)" for p
      using sequence_okD(2)[OF I(4), of p] q sorted_wrt_erase[of _ kept e rest] by auto
    show "status ?st x = Queued" if "x \<in> set (events_of ?st p)" "isInstantaneous (etype ?st x)" for p x
      using sequence_okD(3)[OF I(4) sub] that by simp
  qed
qed

lemma good_frame_submit:
  assumes "good_frame st f" and "status st e = Queued" and "queues f \<noteq> Some e"
  shows "good_frame (submit q e st) f"
  using assms by (cases f) (auto simp: status_defs)

lemma submit_order:
  assumes inv: "order_inv F st" and q: "events_of st q = kept @ e # rest" and e: "status st e = Queued" "waits st e = []" "\<not> isInstantaneous (etype st e)"
    and kept: "\<forall>x \<in> set kept. \<not> holds_back st q x"
  shows "order_inv F (submit q e st)"
proof (rule order_invI)
  note I = order_invD[OF inv]
  let ?st = "submit q e st"
  have mem: "e \<in> set (events_of st q)" using q by simp
  have p: "e < num_evs st" "parent st e = Some q" using I(5) mem by (auto simp: objects_ok_def)
  have h: "hands F st e = 0" by (rule hands_okD(6)[OF I(2) mem e(1)])
  have fr: "queues f \<noteq> Some e" if "f \<in># F" for f using I(6) that mem by (auto simp: fresh_ok_def)
  have hs: "hands F ?st x = hands F st x + of_bool (x = e)" for x by simp
  have eq: "p' = q" if "e \<in> set (events_of st p')" for p' using I(5) that p(2) by (auto simp: objects_ok_def)
  show "queue_inv F ?st" by (rule submit_inv[OF I(1) mem e(1)])
  show "hands_ok F ?st"
  proof (rule hands_okI)
    show "good_frame ?st f" if "f \<in># F" for f using good_frame_submit hands_okD(2)[OF I(2) that] e(1) fr[OF that] by blast
    show "status ?st x \<in> {Running, Submitted}" if "x \<in> set (dev_events ?st) \<union> set (started ?st)" for x
      using that hands_okD(3)[OF I(2), of x] by auto
    show "hands F ?st x \<le> 1" if "x < num_evs ?st" "parent ?st x \<noteq> None" for x
      using that hands_okD(4)[OF I(2), of x] h by auto
    show "hands F ?st x = 0" if "x < num_evs ?st" "parent ?st x \<noteq> None" "status ?st x = Complete" for x
      using that hands_okD(5)[OF I(2), of x] by (auto simp: status_defs split: if_splits)
    show "hands F ?st x = 0" if "x \<in> set (events_of ?st p)" "status ?st x = Queued" for x p
      using that hands_okD(6)[OF I(2), of x p] by (auto simp: status_defs split: if_splits)
    show "hands F ?st x = 0" if "f \<in># F" "queues f = Some x" for f x
      using that hands_okD(7)[OF I(2) that] fr[OF that(1)] by auto
    show "0 \<le> status ?st x" if "x < num_evs ?st" for x using that hands_okD(1)[OF I(2), of x] by (auto simp: status_defs)
  qed
  show "deps_ok F ?st"
  proof (rule deps_okI)
    show "w \<in> set (waits ?st x) \<or> status ?st w = Complete" if "w < num_evs ?st" "x \<in> set (deps ?st w)" for w x
      using that deps_okD(1)[OF I(3), of w x] e(1) by (auto simp: status_defs)
    show "waits ?st x = []" if "x < num_evs ?st" "parent ?st x = None \<or> status ?st x \<noteq> Queued \<or> 0 < hands F ?st x" for x
      using that deps_okD(2)[OF I(3), of x] e(2) by (cases "x = e") auto
  qed
  show "sequence_ok ?st"
  proof (rule sequence_okI)
    show "x \<in> set (events_of ?st p)" if "x < num_evs ?st" "status ?st x \<in> {Running, Submitted}" "parent ?st x = Some p" for x p
      using sequence_okD(1)[OF I(4), of x p] that mem \<open>parent st e = Some q\<close> by (cases "x = e") auto
    show "sorted_wrt (in_sequence ?st p) (events_of ?st p)" for p
    proof (cases "p = q")
      case True
      have "e \<notin> set kept" "e \<notin> set rest" using I(5) q unfolding objects_ok_def by (metis distinct_append distinct.simps(2) not_distinct_conv_prefix)+
      then show ?thesis using sequence_okD(2)[OF I(4), of q] kept e(1) unfolding True submit_simps(7) q sorted_wrt_append
        by (auto simp: in_sequence_def holds_back_def status_defs intro: sorted_wrt_keep)
    next
      case False
      then have "e \<notin> set (events_of st p)" using eq by auto
      then show ?thesis unfolding submit_simps(7)
        by (intro sorted_wrt_keep[OF sequence_okD(2)[OF I(4), of p]]) (auto simp: in_sequence_def holds_back_def)
    qed
    show "status ?st x = Queued" if "x \<in> set (events_of ?st p)" "isInstantaneous (etype ?st x)" for p x
      using sequence_okD(3)[OF I(4), of x p] that e(3) by auto
  qed
qed

text \<open>An event without work on the device leaves its queue for the call that completes it.\<close>

lemma instant_order:
  assumes inv: "order_inv F st" and q: "events_of st q = kept @ e # rest" and e: "status st e = Queued" "waits st e = []"
    and "queue_inv (add_mset (SetStatus e Complete) F) (set_events q (kept @ rest) st)"
  shows "order_inv (add_mset (SetStatus e Complete) F) (set_events q (kept @ rest) st)"
proof (rule order_invI[OF assms(5)])
  note I = order_invD[OF inv]
  let ?F = "add_mset (SetStatus e Complete) F" and ?st = "set_events q (kept @ rest) st"
  have mem: "e \<in> set (events_of st q)" using q by simp
  have p: "e < num_evs st" "parent st e = Some q" using I(5) mem by (auto simp: objects_ok_def)
  have h: "hands F st e = 0" by (rule hands_okD(6)[OF I(2) mem e(1)])
  have fr: "queues f \<noteq> Some e" if "f \<in># F" for f using I(6) that mem by (auto simp: fresh_ok_def)
  have sub: "x \<in> set (events_of st p) \<and> x \<noteq> e" if "x \<in> set (events_of ?st p)" for x p
  proof -
    have "e \<notin> set kept" "e \<notin> set rest" using I(5) q unfolding objects_ok_def by (metis distinct_append distinct.simps(2) not_distinct_conv_prefix)+
    moreover have "e \<notin> set (events_of st p)" if "p \<noteq> q" using I(5) p(2) that by (auto simp: objects_ok_def)
    ultimately show ?thesis using that q by (auto split: if_splits)
  qed
  show "hands_ok ?F ?st"
  proof (rule hands_okI)
    show "good_frame ?st f" if "f \<in># ?F" for f using hands_okD(2)[OF I(2), of f] that by auto
    show "status ?st x \<in> {Running, Submitted}" if "x \<in> set (dev_events ?st) \<union> set (started ?st)" for x
      using that hands_okD(3)[OF I(2), of x] by simp
    show "hands ?F ?st x \<le> 1" if "x < num_evs ?st" "parent ?st x \<noteq> None" for x
      using that hands_okD(4)[OF I(2), of x] h by auto
    show "hands ?F ?st x = 0" if "x < num_evs ?st" "parent ?st x \<noteq> None" "status ?st x = Complete" for x
      using that hands_okD(5)[OF I(2), of x] e(1) by (auto simp: status_defs)
    show "hands ?F ?st x = 0" if "x \<in> set (events_of ?st p)" "status ?st x = Queued" for x p
      using hands_okD(6)[OF I(2), of x p] sub[OF that(1)] that(2) by auto
    show "hands ?F ?st x = 0" if "f \<in># ?F" "queues f = Some x" for f x
      using that hands_okD(7)[OF I(2), of f x] fr[of f] by auto
    show "0 \<le> status ?st x" if "x < num_evs ?st" for x using that hands_okD(1)[OF I(2), of x] by simp
  qed
  show "deps_ok ?F ?st"
  proof (rule deps_okI)
    show "w \<in> set (waits ?st x) \<or> status ?st w = Complete" if "w < num_evs ?st" "x \<in> set (deps ?st w)" for w x
      using that deps_okD(1)[OF I(3), of w x] by simp
    show "waits ?st x = []" if "x < num_evs ?st" "parent ?st x = None \<or> status ?st x \<noteq> Queued \<or> 0 < hands ?F ?st x" for x
      using that deps_okD(2)[OF I(3), of x] e(2) by (cases "x = e") auto
  qed
  show "sequence_ok ?st"
  proof (rule sequence_okI)
    show "x \<in> set (events_of ?st p)" if "x < num_evs ?st" "status ?st x \<in> {Running, Submitted}" "parent ?st x = Some p" for x p
      using sequence_okD(1)[OF I(4), of x p] that e(1) q by (auto simp: status_defs split: if_splits)
    show "sorted_wrt (in_sequence ?st p) (events_of ?st p)" for p
      using sequence_okD(2)[OF I(4), of p] q sorted_wrt_erase[of _ kept e rest] by auto
    show "status ?st x = Queued" if "x \<in> set (events_of ?st p)" "isInstantaneous (etype ?st x)" for p x
      using sequence_okD(3)[OF I(4), of x p] sub that by simp
  qed
qed

lemma queue_event_order:
  assumes inv: "order_inv (add_mset (QueueEvent q e) G) st"
  shows "order_inv (add_mset (PushEvents q None False) G) (set_events q (events_of st q @ [e]) st)"
proof (rule order_invI)
  note I = order_invD[OF inv]
  let ?F = "add_mset (PushEvents q None False) G" and ?st = "set_events q (events_of st q @ [e]) st"
  show "queue_inv ?F ?st" by (rule queue_event_inv[OF I(1)])
  have e: "status st e = Queued" "hands G st e = 0"
    using hands_okD(2)[OF I(2), of "QueueEvent q e"] hands_okD(7)[OF I(2), of "QueueEvent q e" e] by auto
  have h: "hands ?F ?st x = hands (add_mset (QueueEvent q e) G) st x" for x by simp
  have mem: "x \<in> set (events_of st p) \<or> x = e" if "x \<in> set (events_of ?st p)" for x p using that by (auto split: if_splits)
  show "hands_ok ?F ?st"
  proof (rule hands_okI)
    show "hands ?F ?st x = 0" if "x \<in> set (events_of ?st p)" "status ?st x = Queued" for x p
      using hands_okD(6)[OF I(2), of x p] mem[OF that(1)] that(2) e(2) by auto
    show "good_frame ?st f" if "f \<in># ?F" for f using hands_okD(2)[OF I(2), of f] that by auto
    show "status ?st x \<in> {Running, Submitted}" if "x \<in> set (dev_events ?st) \<union> set (started ?st)" for x
      using that hands_okD(3)[OF I(2), of x] by simp
    show "hands ?F ?st x \<le> 1" if "x < num_evs ?st" "parent ?st x \<noteq> None" for x
      using that hands_okD(4)[OF I(2), of x] by simp
    show "hands ?F ?st x = 0" if "x < num_evs ?st" "parent ?st x \<noteq> None" "status ?st x = Complete" for x
      using that hands_okD(5)[OF I(2), of x] by simp
    show "hands ?F ?st x = 0" if "f \<in># ?F" "queues f = Some x" for f x
      using that hands_okD(7)[OF I(2), of f x] by auto
    show "0 \<le> status ?st x" if "x < num_evs ?st" for x using that hands_okD(1)[OF I(2), of x] by simp
  qed
  show "deps_ok ?F ?st" using I(3) unfolding deps_ok_def h by simp
  show "sequence_ok ?st"
  proof (rule sequence_okI)
    show "x \<in> set (events_of ?st p)" if "x < num_evs ?st" "status ?st x \<in> {Running, Submitted}" "parent ?st x = Some p" for x p
      using sequence_okD(1)[OF I(4), of x p] that by auto
    show "sorted_wrt (in_sequence ?st p) (events_of ?st p)" for p
      using sequence_okD(2)[OF I(4), of p] e(1) by (auto simp: sorted_wrt_append in_sequence_def)
    show "status ?st x = Queued" if "x \<in> set (events_of ?st p)" "isInstantaneous (etype ?st x)" for p x
      using sequence_okD(3)[OF I(4), of x p] mem[OF that(1)] that(2) e(1) by auto
  qed
qed

lemma add_dep_order:
  assumes inv: "order_inv F st" and f: "f \<in># F" "queues f = Some e" and w: "w < num_evs st" "status st w > 0" "\<forall>g \<in># F. queues g \<noteq> Some w"
  shows "order_inv F (add_dep w e st)"
proof (rule order_invI)
  note I = order_invD[OF inv]
  let ?st = "add_dep w e st"
  show "queue_inv F ?st" by (rule add_dep_inv[OF I(1) f w])
  have e: "status st e = Queued" using hands_okD(2)[OF I(2) f(1)] f(2) by (cases f) auto
  have "e < num_evs st" "parent st e \<noteq> None" using I(5) f by (cases f; auto simp: objects_ok_def)+
  show "hands_ok F ?st" "sequence_ok ?st" using I(2,4) by simp_all
  show "deps_ok F ?st"
  proof (rule deps_okI)
    show "v \<in> set (waits ?st x) \<or> status ?st v = Complete" if "v < num_evs ?st" "x \<in> set (deps ?st v)" for v x
      using that deps_okD(1)[OF I(3), of v x] by (auto split: if_splits)
    show "waits ?st x = []" if "x < num_evs ?st" "parent ?st x = None \<or> status ?st x \<noteq> Queued \<or> 0 < hands F ?st x" for x
      using that deps_okD(2)[OF I(3), of x] e hands_okD(7)[OF I(2) f] \<open>parent st e \<noteq> None\<close> by (cases "x = e") auto
  qed
qed

text \<open>The way through the device.\<close>

lemma dispatch_order:
  assumes inv: "order_inv (add_mset (Dispatch e) G) st"
  shows "order_inv (add_mset (Run e) G) (with_status e Running st)"
proof -
  note I = order_invD[OF inv]
  have e: "e < num_evs st" "parent st e \<noteq> None" using I(5) by (auto simp: objects_ok_def)
  have "status st e \<in> {Running, Submitted}" using hands_okD(2)[OF I(2), of "Dispatch e"] by simp
  then have s: "Running = Complete \<or> Running = Running \<and> parent st e \<noteq> None \<and> status st e \<noteq> Complete \<and> status st e \<noteq> Queued"
    using e(2) by (auto simp: status_defs)
  have "Running \<noteq> Complete" by (simp add: status_defs)
  then show ?thesis using status_order[OF inv _ e(1) s, of "Run e"] dispatch_inv[OF I(1)] by (simp add: order_inv_def)
qed

lemma run_order:
  assumes inv: "order_inv (add_mset (Run e) G) st"
  shows "order_inv G (st\<lparr>started := started st @ [e]\<rparr>)"
proof (rule move_order[OF inv])
  note I = order_invD[OF inv]
  let ?st = "st\<lparr>started := started st @ [e]\<rparr>"
  show "queue_inv G ?st" by (rule run_inv[OF I(1)])
  show "same_events st ?st" by (simp add: same_events_def)
  show "hands G ?st x = hands (add_mset (Run e) G) st x" for x by (simp add: hands_def)
  show "status st x \<in> {Running, Submitted}" if "x \<in> set (dev_events ?st) \<union> set (started ?st)" for x
    using that hands_okD(3)[OF I(2), of x] hands_okD(2)[OF I(2), of "Run e"] by auto
qed (use hands_okD(2)[OF order_invD(2)[OF inv]] in auto)

lemma get_order:
  assumes inv: "order_inv G st" and e: "dev_events st = e # es"
  shows "order_inv (add_mset (Dispatch e) G) (st\<lparr>dev_events := es\<rparr>)"
proof (rule move_order[OF inv])
  note I = order_invD[OF inv]
  let ?st = "st\<lparr>dev_events := es\<rparr>"
  show "queue_inv (add_mset (Dispatch e) G) ?st" by (rule get_inv[OF I(1) e])
  show "same_events st ?st" by (simp add: same_events_def)
  show "hands (add_mset (Dispatch e) G) ?st x = hands G st x" for x by (simp add: hands_def e)
  show "status st x \<in> {Running, Submitted}" if "x \<in> set (dev_events ?st) \<union> set (started ?st)" for x
    using that hands_okD(3)[OF I(2), of x] e by auto
  show "good_frame st f" if "f \<in># add_mset (Dispatch e) G" for f
    using that hands_okD(2)[OF I(2), of f] hands_okD(3)[OF I(2), of e] e by auto
qed auto

lemma end_order:
  assumes inv: "order_inv G st" and e: "e \<in> set (started st)"
  shows "order_inv (add_mset (SetStatus e Complete) G) (st\<lparr>started := remove1 e (started st)\<rparr>)"
proof (rule move_order[OF inv])
  note I = order_invD[OF inv]
  let ?st = "st\<lparr>started := remove1 e (started st)\<rparr>"
  show "queue_inv (add_mset (SetStatus e Complete) G) ?st" by (rule end_inv[OF I(1) e]) (simp add: Complete_def)
  show "same_events st ?st" by (simp add: same_events_def)
  show "hands (add_mset (SetStatus e Complete) G) ?st x = hands G st x" for x
  proof -
    obtain us vs where "started st = us @ e # vs" "e \<notin> set us" using split_list_first[OF e] by blast
    then show ?thesis by (simp add: hands_def remove1_append)
  qed
  show "status st x \<in> {Running, Submitted}" if "x \<in> set (dev_events ?st) \<union> set (started ?st)" for x
    using that hands_okD(3)[OF I(2), of x] set_remove1_subset[of e "started st"] by auto
  show "good_frame st f" if "f \<in># add_mset (SetStatus e Complete) G" for f
    using that hands_okD(2)[OF I(2), of f] by auto
qed auto

lemma Event_new_order:
  assumes inv: "order_inv G st" and "queue_inv (M + G) (Event_new q t s st)"
    and M: "q = None \<and> s = Submitted \<and> M = {#} \<or> (\<exists>p ws. q = Some p \<and> s = Queued \<and> M = {#NewEvent p (num_evs st) ws#})"
  shows "order_inv (M + G) (Event_new q t s st)"
proof (rule order_invI[OF assms(2)])
  note I = order_invD[OF inv]
  let ?st = "Event_new q t s st" and ?n = "num_evs st"
  have ids: "\<And>p. ?n \<notin> set (events_of st p)" "?n \<notin> set (dev_events st)" "?n \<notin> set (started st)" using I(5) by (auto simp: objects_ok_def)
  have ok: "\<And>f. f \<in># G \<Longrightarrow> frame_ok st f" using I(5) by (auto simp: objects_ok_def)
  have h: "hands (M + G) ?st x = hands G st x" for x using M by (auto simp: hands_def)
  have "\<not> in_hand ?n f" if "f \<in># G" for f
    using hands_okD(4)[OF I(2)] ok[OF that] by (cases f) auto
  then have hn: "hands G st ?n = 0" using ids by (auto simp: hands_def count_mset_0_iff simp flip: set_mset_eq_empty_iff)
  have good: "good_frame ?st f" if "f \<in># G" for f
    using hands_okD(2)[OF I(2) that] ok[OF that] by (cases f) auto
  show "hands_ok (M + G) ?st"
  proof (rule hands_okI, unfold h)
    show "0 \<le> status ?st x" if "x < num_evs ?st" for x
      using that hands_okD(1)[OF I(2), of x] M by (auto simp: less_Suc_eq status_defs)
    show "good_frame ?st f" if "f \<in># M + G" for f using that good M by auto
    show "status ?st x \<in> {Running, Submitted}" if "x \<in> set (dev_events ?st) \<union> set (started ?st)" for x
    proof -
      have "x \<noteq> ?n" using that ids by auto
      then show ?thesis using that hands_okD(3)[OF I(2), of x] by simp
    qed
    show "hands G st x \<le> 1" if "x < num_evs ?st" "parent ?st x \<noteq> None" for x
      using that hands_okD(4)[OF I(2), of x] hn by (cases "x = ?n") (auto simp: less_Suc_eq)
    show "hands G st x = 0" if "x < num_evs ?st" "parent ?st x \<noteq> None" "status ?st x = Complete" for x
      using that hands_okD(5)[OF I(2), of x] hn by (cases "x = ?n") (auto simp: less_Suc_eq)
    show "hands G st x = 0" if "x \<in> set (events_of ?st p)" "status ?st x = Queued" for x p
      using that hands_okD(6)[OF I(2), of x p] hn by (cases "x = ?n") auto
    show "hands G st x = 0" if "f \<in># M + G" "queues f = Some x" for f x
      using that hands_okD(7)[OF I(2), of f x] hn M by auto
  qed
  show "deps_ok (M + G) ?st"
  proof (rule deps_okI, unfold h)
    show "w \<in> set (waits ?st d) \<or> status ?st w = Complete" if "w < num_evs ?st" "d \<in> set (deps ?st w)" for w d
    proof -
      have w: "w < ?n" "d \<in> set (deps st w)" using that by (auto simp: less_Suc_eq split: if_splits)
      then have "d \<noteq> ?n" using I(5) by (auto simp: objects_ok_def)
      then show ?thesis using deps_okD(1)[OF I(3) w] w(1) by auto
    qed
    show "waits ?st d = []" if "d < num_evs ?st" "parent ?st d = None \<or> status ?st d \<noteq> Queued \<or> 0 < hands G st d" for d
    proof (cases "d = ?n")
      case False
      then show ?thesis using deps_okD(2)[OF I(3), of d] that by simp
    qed simp
  qed
  show "sequence_ok ?st"
  proof (rule sequence_okI)
    show "x \<in> set (events_of ?st p)" if "x < num_evs ?st" "status ?st x \<in> {Running, Submitted}" "parent ?st x = Some p" for x p
    proof (cases "x = ?n")
      case True then show ?thesis using that M by (auto simp: status_defs)
    next
      case False
      then show ?thesis using sequence_okD(1)[OF I(4), of x p] that by simp
    qed
    show "sorted_wrt (in_sequence ?st p) (events_of ?st p)" for p
      unfolding Event_new_simps(5) by (rule sorted_wrt_keep[OF sequence_okD(2)[OF I(4), of p]]) (use ids(1)[of p] in \<open>auto simp: in_sequence_def holds_back_def\<close>)
    show "status ?st x = Queued" if "x \<in> set (events_of ?st p)" "isInstantaneous (etype ?st x)" for p x
    proof -
      have "x \<noteq> ?n" using that ids by auto
      then show ?thesis using sequence_okD(3)[OF I(4), of x p] that by simp
    qed
  qed
qed

subsection \<open>Pushing\<close>

definition loop_order :: "nat \<Rightarrow> nat option \<Rightarrow> frame multiset \<Rightarrow> nat option \<times> runtime \<Rightarrow> bool" where
  "loop_order q r G res \<longleftrightarrow> (case res of
       (None, st) \<Rightarrow> order_inv (add_mset (PushEvents q r False) G) st
     | (Some e, st) \<Rightarrow> order_inv (add_mset (SetStatus e Complete) (add_mset (PushEvents q r False) G)) st)"

lemma push_loop_order:
  assumes "order_inv (add_mset (PushEvents q r False) G) st" and "events_of st q = kept @ rest"
    and "first \<longrightarrow> kept = []" and "\<forall>x \<in> set kept. etype st x \<notin> {Barrier, Marker, WaitForEvents}"
  shows "loop_order q r G (push_loop q r kept rest first n st)"
  using assms
proof (induction q r kept rest first n st rule: push_loop.induct)
  case (1 q ready kept first n st)
  then show ?case by (simp add: loop_order_def)
next
  case (2 q r kept e rest first n st)
  let ?F = "add_mset (PushEvents q r False) G"
  note inv = "2.prems"(1) and es = "2.prems"(2) and first = "2.prems"(3) and kept = "2.prems"(4)
  note I = order_invD[OF inv]
  have mem: "e \<in> set (events_of st q)" using es by simp
  have par: "parent st e = Some q" "e < num_evs st" using I(5) mem by (auto simp: objects_ok_def)
  have att: "attended ?F st q" by (simp add: attended_def)
  have s0: "0 \<le> status st e" by (rule hands_okD(1)[OF I(2) par(2)])
  show ?case
  proof (cases "status st e = Complete")
    case True
    let ?st = "release_event e (set_events q (kept @ rest) (count_completed q (-1) st))"
    have "queue_inv ?F (set_events q (kept @ rest) st)" using erase_inv[OF I(1) es att] True by (auto simp: status_defs)
    then have "order_inv ?F ?st" using erase_order[OF inv _ es True] same_view_order[OF same_view_erased] by simp
    moreover have "loop_order q r G (push_loop q r kept rest first n ?st)"
      by (rule "2.IH"(1)) (use True first kept calculation in auto)
    ultimately show ?thesis using True by simp
  next
    case False
    then have st: "\<not> (status st e = Complete \<or> status st e < 0)" using s0 by simp
    note step = push_loop.simps(2)[of q r kept e rest first n st]
    have quit: "loop_order q r G (None, st)" "loop_order q r G (None, set_flushed q False st)"
      using inv same_view_order[OF same_view_flushed(1)] by (simp_all add: loop_order_def)
    show ?thesis
    proof (cases "(r = None \<and> n > OOO_QUEUE_PUSH_EVENTS_THRESHOLD) \<or> (\<not> is_ooo (cqs st q) \<and> \<not> first) \<or> (etype st e = Barrier \<and> \<not> first)")
      case True then show ?thesis using quit unfolding step if_not_P[OF st] by (auto simp del: push_loop.simps)
    next
      case False
      then have go: "\<not> (r = None \<and> n > OOO_QUEUE_PUSH_EVENTS_THRESHOLD)" "\<not> (\<not> is_ooo (cqs st q) \<and> \<not> first)" "\<not> (etype st e = Barrier \<and> \<not> first)"
        by blast+
      note step = step[unfolded if_not_P[OF st] if_not_P[OF go(1)] if_not_P[OF go(2)] if_not_P[OF go(3)]]
      consider (away) "status st e \<noteq> Queued" | (waiting) "status st e = Queued" "waits st e \<noteq> []"
        | (instant) "status st e = Queued" "waits st e = []" "isInstantaneous (etype st e)"
        | (push) "status st e = Queued" "waits st e = []" "\<not> isInstantaneous (etype st e)" by blast
      then show ?thesis
      proof cases
        case away
        then have "\<not> isInstantaneous (etype st e)" using sequence_okD(3)[OF I(4) mem] by blast
        then have "loop_order q r G (push_loop q r (kept @ [e]) rest False (n + 1) st)" if "Some e \<noteq> r"
          by (intro "2.IH"(2)) (use st go away that inv es kept in \<open>auto simp: isInstantaneous_def\<close>)
        then show ?thesis using away quit unfolding step by (auto simp del: push_loop.simps)
      next
        case waiting
        have "loop_order q r G (push_loop q r (kept @ [e]) rest False (n + 1) (set_flushed q False st))"
          if "etype st e \<notin> {WaitForEvents, Barrier, Marker}"
        proof (rule "2.IH"(3))
          show "order_inv ?F (set_flushed q False st)" using inv same_view_order[OF same_view_flushed(1)] by simp
        qed (use st go waiting es kept that in auto)
        then show ?thesis using waiting quit(2) unfolding step by (auto simp: Let_def simp del: push_loop.simps)
      next
        case instant
        let ?H = "add_mset (SetStatus e Complete) ?F" and ?st = "set_events q (kept @ rest) st"
        let ?st' = "count_device q 1 (set_flushed q (kept @ rest = []) ?st)"
        have "queue_inv ?H st" using add_frame_inv[OF I(1), of "SetStatus e Complete"] par by (simp add: Complete_def)
        then have "queue_inv ?H ?st" by (rule erase_inv) (use es in \<open>auto simp: attended_def\<close>)
        then have o: "order_inv ?H ?st" by (rule instant_order[OF inv es instant(1,2)])
        have "queue_inv ?H (count_device q 1 st)" by (rule count_start_inv[OF I(1) par])
        then have "queue_inv ?H (set_events q (kept @ rest) (count_device q 1 st))" by (rule erase_inv) (use es in \<open>auto simp: attended_def\<close>)
        moreover have "same_view (set_events q (kept @ rest) (count_device q 1 st)) ?st'" by (simp add: same_view_def)
        ultimately have "queue_inv ?H ?st'" by (simp add: same_view_inv)
        then have "order_inv ?H ?st'"
        proof (rule move_order[OF o])
          show "same_events ?st ?st'" by (simp add: same_events_def)
          show "hands ?H ?st' x = hands ?H ?st x" for x by (simp add: hands_def)
        qed (use hands_okD(2,3)[OF order_invD(2)[OF o]] in auto)
        then show ?thesis using instant unfolding step by (simp add: loop_order_def del: push_loop.simps)
      next
        case push
        have "\<forall>x \<in> set kept. \<not> holds_back st q x" using go(2) first kept by (auto simp: holds_back_def)
        then have "order_inv ?F (submit q e st)" by (rule submit_order[OF inv es push])
        then have "loop_order q r G (push_loop q r kept (e # rest) False (n + 1) (submit q e st))"
          by (intro "2.IH"(4)) (use st go push es kept in auto)
        then show ?thesis using push unfolding step by (simp del: push_loop.simps)
      qed
    qed
  qed
qed

subsection \<open>Every call keeps the order\<close>

lemma add_waits_order:
  assumes "order_inv F st" and f: "f \<in># F" "queues f = Some e" and "\<forall>w \<in> set ws. w < num_evs st \<and> (\<forall>g \<in># F. queues g \<noteq> Some w)"
  shows "order_inv F (snd (add_waits e ws failed st)) \<and> fst (add_waits e ws failed st) = failed"
  using assms(1,4)
proof (induction ws arbitrary: failed st)
  case (Cons w ws)
  note I = order_invD[OF Cons.prems(1)]
  have s0: "\<not> status st w < 0" using hands_okD(1)[OF I(2), of w] Cons.prems(2) by simp
  show ?case
  proof (cases "status st w = Complete")
    case True
    then show ?thesis using Cons.IH[of st] Cons.prems by (auto simp: addDependentEvent_def)
  next
    case False
    let ?st = "upd_ev e (\<lambda>x. x\<lparr>p_wait_events := p_wait_events x @ [w]\<rparr>)
      (reference_event w (upd_ev w (\<lambda>x. x\<lparr>p_dependent_events := p_dependent_events x @ [e]\<rparr>) st))"
    have "same_view (add_dep w e st) ?st" by (auto simp: same_view_def reference_event_def)
    moreover have "order_inv F (add_dep w e st)"
      using Cons.prems False s0 by (intro add_dep_order[OF _ f]) (auto simp: Complete_def)
    ultimately have "order_inv F ?st" by (simp add: same_view_order)
    moreover have "add_waits e (w # ws) failed st = add_waits e ws failed ?st" using False s0 by (simp add: addDependentEvent_def)
    ultimately show ?thesis using Cons.IH[of ?st] Cons.prems by simp
  qed
qed simp

lemma add_frame_order:
  assumes "order_inv G st" and "frame_ok st f" and "queues f = None" and "good_frame st f" and "\<And>e. \<not> in_hand e f"
  shows "order_inv (add_mset f G) st"
  using swap_order[of "{#}" G st "{#f#}" st] add_frame_inv[of G st f] order_invD(1)[of G st] assms by simp

lemma drop_frame_order:
  assumes "order_inv (add_mset f G) st" and "queue_inv G st" and "\<And>e. \<not> in_hand e f"
  shows "order_inv G st"
  using swap_order[of "{#f#}" G st "{#}" st] assms by simp

lemma push_order:
  assumes inv: "order_inv (add_mset (PushEvents q r one) G) st" and post: "pushEventsOnDevice q r one st = (gs, st')"
  shows "order_inv (mset gs + G) st'"
proof -
  note I = order_invD[OF inv]
  have q: "queue_inv (mset gs + G) st'" using pushEventsOnDevice_post[OF I(1)] post by (simp add: call_post_def)
  define st1 where "st1 = (if one then count_completed q 1 (count_device q (-1) st) else st)"
  have inv1: "order_inv (add_mset (PushEvents q r False) G) st1"
  proof (cases one)
    case True
    have "same_view (count_device q (-1) st) st1" by (simp add: st1_def True same_view_def)
    then have "queue_inv (add_mset (PushEvents q r False) G) st1" using count_end_inv I(1) True by (simp add: same_view_inv)
    then show ?thesis
    proof (rule move_order[OF inv])
      show "same_events st st1" by (simp add: st1_def same_events_def)
      show "hands (add_mset (PushEvents q r False) G) st1 x = hands (add_mset (PushEvents q r one) G) st x" for x by (simp add: hands_def st1_def)
    qed (use hands_okD(2,3)[OF I(2)] True in \<open>auto simp: st1_def\<close>)
  qed (use inv st1_def in simp)
  show ?thesis
  proof (cases "is_ooo (cqs st1 q) \<and> r = None \<and> on_device st1 q > 2 \<and> gotEnoughToWorkOn st1")
    case True
    then have "gs = []" "st' = st1" using post by (simp_all add: pushEventsOnDevice_def Let_def flip: st1_def)
    then show ?thesis using drop_frame_order[OF inv1] q by simp
  next
    case False
    define st2 where "st2 = set_flushed q True st1"
    obtain inst st3 where loop: "push_loop q r [] (events_of st1 q) True 0 st2 = (inst, st3)" by fastforce
    have ord: "loop_order q r G (inst, st3)" unfolding loop[symmetric]
      by (rule push_loop_order) (use inv1 same_view_order[OF same_view_flushed(1)] in \<open>auto simp: st2_def\<close>)
    note post' = post[unfolded pushEventsOnDevice_def Let_def st1_def[symmetric] if_not_P[OF False] st2_def[symmetric] loop prod.case]
    have flush: "same_view st3 (if b then broadcast q (set_flushed q c st3) else set_flushed q c st3)" for b c by (simp add: same_view_def)
    show ?thesis
    proof (cases inst)
      case (Some e)
      then have gs: "gs = [SetStatus e Complete, ReleaseEvent e]" "same_view st3 st'" using post' by (auto split: if_splits)
      have "order_inv ({#SetStatus e Complete, PushEvents q r False#} + G) st3" using ord Some by (simp add: loop_order_def)
      then show ?thesis by (rule swap_order[OF _ q]) (use gs in auto)
    next
      case None
      then have gs: "gs = []" "same_view st3 st'" using post' by (auto simp: same_view_def split: if_splits)
      have "order_inv ({#PushEvents q r False#} + G) st3" using ord None by (simp add: loop_order_def)
      then show ?thesis by (rule swap_order[OF _ q]) (use gs in auto)
    qed
  qed
qed

lemma notify_order:
  assumes inv: "order_inv (add_mset (NotifyComplete e i n b) G) st" and post: "notify_complete e i n b st = (gs, st')"
  shows "order_inv (mset gs + G) st'"
proof -
  note I = order_invD[OF inv]
  have q: "queue_inv (mset gs + G) st'" using notify_complete_post[OF I(1)] post by (simp add: call_post_def)
  have e: "status st e = Complete" "e < num_evs st" "n \<le> length (deps st e)"
    using hands_okD(2)[OF I(2), of "NotifyComplete e i n b"] I(5) by (auto simp: objects_ok_def)
  show ?thesis
  proof (cases "i < n")
    case True
    let ?d = "deps st e ! i"
    obtain em st1 where rw: "removeWaitEvent ?d e st = (em, st1)" by fastforce
    note v = removeWaitEvent_view[OF rw]
    have "?d \<in> set (deps st e)" using True e(3) by simp
    then obtain p where p: "parent st ?d = Some p" using I(5) e(2) by (fastforce simp: objects_ok_def)
    then have p': "parent st1 ?d = Some p" using v by (simp add: same_view_def)
    let ?X = "PushEvents p (Some ?d) False"
    have "order_inv (add_mset ?X (add_mset (NotifyComplete e i n b) G)) st" by (rule add_frame_order[OF inv]) auto
    moreover from this have "queue_inv (add_mset ?X (add_mset (NotifyComplete e i n b) G)) (drop_wait ?d e st)"
      using p by (intro drop_wait_inv order_invD(1)) (auto simp: attended_def)
    ultimately have "order_inv ({#?X, NotifyComplete e i n b#} + G) (drop_wait ?d e st)" using drop_wait_order e(1) by simp
    then show ?thesis
    proof (rule swap_order[OF _ q])
      show "same_view (drop_wait ?d e st) st'" using v post rw True p' by (auto simp: notify_complete_def Let_def split: bool.splits)
      have "\<forall>f \<in> set gs. (\<exists>r c. f = PushEvents p r c) \<or> (\<exists>b. f = NotifyComplete e (i + 1) n b)"
        using post rw True p' by (auto simp: notify_complete_def Let_def split: bool.splits)
      then show "good_frame (drop_wait ?d e st) f" "queues f = Some x \<Longrightarrow> \<exists>g \<in># {#?X, NotifyComplete e i n b#}. queues g = Some x"
        if "f \<in># mset gs" for f x using that e(1) by auto
      show "{#f \<in># mset gs. in_hand x f#} = {#f \<in># {#?X, NotifyComplete e i n b#}. in_hand x f#}" for x
        using \<open>\<forall>f \<in> set gs. _\<close> by (auto simp flip: set_mset_eq_empty_iff)
    qed
  next
    case False
    have "order_inv ({#NotifyComplete e i n b#} + G) st" using inv by simp
    then show ?thesis
      by (rule swap_order[OF _ q]) (use post False in \<open>auto simp: notify_complete_def Let_def split: option.splits if_splits\<close>)
  qed
qed

lemma set_status_order:
  assumes inv: "order_inv (add_mset (SetStatus e s) G) st" and post: "setStatus e s st = (gs, st')"
  shows "order_inv (mset gs + G) st'"
proof -
  note I = order_invD[OF inv]
  have q: "queue_inv (mset gs + G) st'" using set_status_post[OF I(1)] post by (simp add: call_post_def)
  have s: "s = Complete" using hands_okD(2)[OF I(2), of "SetStatus e s"] by simp
  have e: "e < num_evs st" "etype st e = User \<or> parent st e \<noteq> None" using I(5) by (auto simp: objects_ok_def)
  let ?N = "NotifyComplete e 0 (length (deps st e)) False"
  have "order_inv (add_mset ?N G) (with_status e s st)"
    using status_order[OF inv _ e(1), of Complete ?N] set_finished_inv[OF I(1), of ?N] s by (simp add: order_inv_def)
  then have o: "order_inv ({#?N#} + G) (with_status e s st)" by simp
  obtain cbs where "gs = [?N, Callbacks e s cbs]" "st' = with_status e s (reference_queue (parent st e) 1 st)"
    using setStatus_cases(1)[OF e(2)] post s by auto
  then show ?thesis by (intro swap_order[OF o q]) (auto simp: same_view_def s)
qed

lemma clean_loop_order:
  assumes "order_inv F st" and "events_of st q = kept @ rest"
  shows "order_inv F (clean_loop q kept rest st)"
  using assms
proof (induction q kept rest st rule: clean_loop.induct)
  case (2 q kept e rest st)
  note I = order_invD[OF "2.prems"(1)]
  show ?case
  proof (cases "status st e = Complete")
    case True
    have "attended F st q" if "kept = []"
      using queue_invD(6)[OF I(1)] "2.prems"(2) that True by (auto simp: attended_ok_def head_ready_def Complete_def)
    then have "queue_inv F (set_events q (kept @ rest) st)"
      by (intro erase_inv[OF I(1) "2.prems"(2)]) (use True in \<open>auto simp: status_defs\<close>)
    then have "order_inv F (set_events q (kept @ rest) st)" by (rule erase_order[OF "2.prems"(1) _ "2.prems"(2) True])
    then have "order_inv F (release_event e (set_events q (kept @ rest) (count_completed q (-1) st)))"
      using same_view_order[OF same_view_erased] by simp
    then show ?thesis using "2.IH"(1)[OF True] True by simp
  next
    case False
    then show ?thesis using "2.IH"(2)[OF False] "2.prems" by simp
  qed
qed simp

lemma user_order:
  assumes inv: "order_inv G st" and e: "e < num_evs st" "parent st e = None"
  shows "order_inv (add_mset (SetStatus e Complete) G) st"
proof (rule order_invI)
  note I = order_invD[OF inv]
  let ?F = "add_mset (SetStatus e Complete) G"
  show "queue_inv ?F st" using add_frame_inv[OF I(1)] e(1) by (simp add: Complete_def)
  have h: "hands ?F st x = hands G st x" if "x \<noteq> e" for x using that by simp
  show "hands_ok ?F st"
  proof (rule hands_okI)
    show "good_frame st f" if "f \<in># ?F" for f using hands_okD(2)[OF I(2), of f] that by auto
    show "hands ?F st x \<le> 1" if "x < num_evs st" "parent st x \<noteq> None" for x
      using that e(2) h[of x] hands_okD(4)[OF I(2), of x] by auto
    show "hands ?F st x = 0" if "x < num_evs st" "parent st x \<noteq> None" "status st x = Complete" for x
      using that e(2) h[of x] hands_okD(5)[OF I(2), of x] by auto
    show "hands ?F st x = 0" if "x \<in> set (events_of st p)" "status st x = Queued" for x p
      using that e(2) I(5) h[of x] hands_okD(6)[OF I(2), of x p] by (auto simp: objects_ok_def)
    show "hands ?F st x = 0" if "f \<in># ?F" "queues f = Some x" for f x
    proof -
      have "f \<in># G" using that by auto
      moreover from this have "parent st x \<noteq> None" using I(5) that(2) by (cases f) (auto simp: objects_ok_def)
      ultimately show ?thesis using that(2) e(2) h[of x] hands_okD(7)[OF I(2), of f x] by auto
    qed
  qed (use hands_okD(1,3)[OF I(2)] in blast)+
  show "deps_ok ?F st"
  proof (rule deps_okI)
    show "waits st d = []" if "d < num_evs st" "parent st d = None \<or> status st d \<noteq> Queued \<or> 0 < hands ?F st d" for d
      using that e(2) h[of d] deps_okD(2)[OF I(3), of d] by (cases "d = e") auto
  qed (rule deps_okD(1)[OF I(3)])
  show "sequence_ok st" by (rule I(4))
qed

lemma exec_order:
  assumes inv: "order_inv (add_mset f G) st" and f: "\<not> is_Finish f" and ex: "exec f st = (gs, st')"
  shows "order_inv (mset gs + G) st'"
proof -
  note I = order_invD[OF inv]
  have q: "queue_inv (mset gs + G) st'" using exec_post[OF I(1) f] ex by (simp add: call_post_def)
  have inv': "order_inv ({#f#} + G) st" using inv by simp
  show ?thesis
  proof (cases f)
    case (NewEvent p e ws)
    have o: "order_inv (add_mset f G) (snd (add_waits e ws False st))" "\<not> fst (add_waits e ws False st)"
      using add_waits_order[OF inv, of f e ws False] I(5,6) NewEvent by (auto simp: objects_ok_def fresh_ok_def)
    then have o': "order_inv ({#f#} + G) (snd (add_waits e ws False st))" by simp
    have "status (snd (add_waits e ws False st)) e = Queued"
      using hands_okD(2)[OF order_invD(2)[OF o(1)], of f] NewEvent by simp
    then show ?thesis
      by (intro swap_order[OF o' q]) (use ex NewEvent o(2) in \<open>auto simp: split_beta\<close>)
  next
    case (QueueEvent p e)
    then have "order_inv (add_mset (PushEvents p None False) G) (set_events p (events_of st p @ [e]) st)" using queue_event_order inv by simp
    then show ?thesis using ex QueueEvent same_view_order[OF same_view_flushed(1)] by (auto simp: queueEvent_def)
  next
    case (PushEvents p r b) then show ?thesis using push_order inv ex by simp
  next
    case (SetStatus e s) then show ?thesis using set_status_order inv ex by simp
  next
    case (NotifyComplete e i n b) then show ?thesis using notify_order inv ex by simp
  next
    case (NotifyError e i n) then show ?thesis using hands_okD(2)[OF I(2), of f] by simp
  next
    case (Dispatch e)
    obtain cbs where "gs = [Callbacks e Running cbs, Run e]" "st' = with_status e Running st"
      using setStatus_cases(3)[of Running e st] ex Dispatch by (auto simp: Running_def)
    then show ?thesis using add_frame_order[OF dispatch_order, of e G st "Callbacks e Running cbs"] inv Dispatch by simp
  next
    case (Run e) then show ?thesis using run_order inv ex by auto
  next
    case (CleanEvents p)
    have "order_inv G st" by (rule drop_frame_order[OF inv]) (use I(1) inert_frame[of f] CleanEvents in auto)
    then have "order_inv G (clean_loop p [] (events_of st p) st)" by (rule clean_loop_order) simp
    then show ?thesis using ex CleanEvents \<open>order_inv G st\<close> same_view_order[OF same_view_flushed(2)]
      by (auto simp: cleanEvents_def Let_def split: if_splits)
  next
    case (SetUser e s)
    have s: "s = Complete" using hands_okD(2)[OF I(2), of f] SetUser by simp
    show ?thesis
    proof (cases "gs = []")
      case True then show ?thesis by (intro swap_order[OF inv' q]) (use ex SetUser in \<open>auto simp: same_view_def\<close>)
    next
      case False
      then have u: "gs = [SetStatus e Complete]" "st' = st" "etype st e = User" using ex SetUser s by (auto split: if_splits)
      have G: "order_inv G st" by (rule drop_frame_order[OF inv]) (use I(1) inert_frame[of f] SetUser in auto)
      have "e < num_evs st" "parent st e = None" using I(5) SetUser u(3) by (auto simp: objects_ok_def)
      then show ?thesis using user_order[OF G] u by simp
    qed
  next
    case (Finish p b) then show ?thesis using f by simp
  qed (intro swap_order[OF inv' q]; use ex in \<open>auto simp: same_view_def\<close>)+
qed

subsection \<open>Every reachable state\<close>

lemma order_threads: "order_inv F (st\<lparr>threads := ts\<rparr>) = order_inv F st"
  by (rule same_view_order) (simp add: same_view_def)

lemma run_thread_order:
  assumes inv: "runtime_inv st" "order_inv (frames st) st" and i: "i < length (threads st)"
  shows "order_inv (frames (run_thread i st)) (run_thread i st)"
proof (cases "threads st ! i")
  case Nil then show ?thesis using inv by (simp add: run_thread_def)
next
  case (Cons f fs)
  have mem: "f # fs \<in> set (threads st)" using Cons i by (metis nth_mem)
  show ?thesis
  proof (cases "is_Finish f")
    case True
    then obtain q b where f: "f = Finish q b" by (auto simp: is_Finish_iff)
    let ?gs = "if events_of st q = [] then [] else [Finish q True]"
    have "run_thread i st = (if b then st else st\<lparr>threads := (threads st)[i := ?gs @ fs]\<rparr>)"
      using Cons f by (simp add: run_thread_def asleep_def)
    moreover have "frames (st\<lparr>threads := (threads st)[i := ?gs @ fs]\<rparr>) = frames st"
      using frames_update[OF i Cons, of "\<lambda>f. \<not> is_Finish f" ?gs] by (auto simp: frames_def f)
    ultimately show ?thesis using inv(2) order_threads by (metis (full_types))
  next
    case False
    obtain gs st' where e: "exec f st = (gs, st')" by fastforce
    define G where "G = frames st - {#f#}"
    have "f \<in># frames st" using mem False by (force simp: frames_def)
    then have F: "frames st = add_mset f G" by (simp add: G_def)
    have post: "\<forall>f \<in> set gs. \<not> is_Finish f" "wakes st st'"
      using exec_post[of f G st] inv(1) F False e by (simp_all add: call_post_def runtime_inv_def)
    let ?st = "st'\<lparr>threads := (threads st')[i := gs @ fs]\<rparr>"
    have fin: "filter (\<lambda>f. \<not> is_Finish f) gs = gs" using post(1) by (simp add: filter_id_conv)
    have "frames ?st + {#f#} = frames st' + mset gs"
      using frames_update[OF wakes_thread[OF post(2) i Cons False], of "\<lambda>f. \<not> is_Finish f" gs] False by (simp add: frames_def fin)
    then have "frames ?st = mset gs + G" using wakes_frames[OF post(2)] F by simp
    moreover have "order_inv (mset gs + G) st'" using exec_order[OF _ False e] inv(2) F by simp
    moreover have "run_thread i st = ?st" using Cons False e by (cases f) (auto simp: run_thread_def asleep_def)
    ultimately show ?thesis using order_threads by metis
  qed
qed

lemma spawn_order:
  assumes "order_inv (mset (filter (\<lambda>f. \<not> is_Finish f) fs) + frames st) st"
  shows "order_inv (frames (spawn fs st)) (spawn fs st)"
proof -
  have "frames (spawn fs st) = mset (filter (\<lambda>f. \<not> is_Finish f) fs) + frames st" by (simp add: frames_def spawn_def)
  then show ?thesis using assms order_threads unfolding spawn_def by metis
qed

lemma queue_step_order:
  assumes "queue_step {Complete} st st'" and inv: "runtime_inv st" and ord: "order_inv (frames st) st"
  shows "order_inv (frames st') st'"
proof -
  have I: "queue_inv (frames st) st" using inv by (simp add: runtime_inv_def)
  have one: "order_inv (frames (spawn [f] st)) (spawn [f] st)"
    if "frame_ok st f" "queues f = None" "good_frame st f" "\<And>e. \<not> in_hand e f" "\<not> is_Finish f" for f
    using add_frame_order[OF ord that(1-4)] that(5) by (intro spawn_order) simp
  show ?thesis using assms(1)
  proof cases
    case (step_thread i) then show ?thesis using run_thread_order inv ord by simp
  next
    case (step_enqueue t ws q event)
    let ?e = "num_evs st" and ?st = "Event_new (Some q) t Queued st"
    let ?st' = "if event then reference_event ?e ?st else ?st"
    have "queue_inv ({#NewEvent q ?e ws#} + frames st) ?st"
      using I step_enqueue known_frames by (intro Event_new_inv) auto
    then have "order_inv ({#NewEvent q ?e ws#} + frames st) ?st" by (intro Event_new_order[OF ord]) auto
    moreover have "same_view ?st ?st'" by (simp add: same_view_def)
    moreover have "frames ?st' = frames st" by (simp add: frames_def)
    moreover have "st' = spawn [NewEvent q ?e ws] ?st'"
      using step_enqueue by (auto simp: enqueue_command_def Let_def split: if_splits)
    ultimately show ?thesis by (auto intro!: spawn_order simp: same_view_order)
  next
    case step_create_user
    have "queue_inv ({#} + frames st) (create_user st)" unfolding create_user_def using I by (intro Event_new_inv) simp_all
    then have "order_inv ({#} + frames st) (create_user st)" unfolding create_user_def by (intro Event_new_order[OF ord]) auto
    moreover have "frames (create_user st) = frames st" by (simp add: frames_def create_user_def)
    ultimately show ?thesis using step_create_user by simp
  next
    case (step_set_user e s) then show ?thesis using one[of "SetUser e s"] by (auto simp: known_def Complete_def)
  next
    case (step_set_callback e t c)
    have "same_view st st'" "frames st' = frames st"
      unfolding step_set_callback by (auto simp: setCallback_def same_view_def frames_def)
    then show ?thesis using ord by (simp add: same_view_order)
  next
    case step_worker
    then obtain e es where e: "dev_events st = e # es" by (cases "dev_events st") auto
    have "frames (st\<lparr>dev_events := es\<rparr>) = frames st" by (simp add: frames_def)
    then have "order_inv (frames (spawn [Dispatch e] (st\<lparr>dev_events := es\<rparr>))) (spawn [Dispatch e] (st\<lparr>dev_events := es\<rparr>))"
      using get_order[OF ord e] by (intro spawn_order) auto
    then show ?thesis using e step_worker by (simp add: getEvent_def)
  next
    case (step_end e s)
    let ?st = "st\<lparr>started := remove1 e (started st)\<rparr>"
    have "frames ?st = frames st" by (simp add: frames_def)
    then have "order_inv (frames (spawn [SetStatus e Complete] ?st)) (spawn [SetStatus e Complete] ?st)"
      using end_order[OF ord step_end(2)] by (intro spawn_order) auto
    then show ?thesis using step_end by (simp add: end_command_def)
  next
    case (step_flush q) then show ?thesis using one[of "PushEvents q None False"] by simp
  next
    case (step_finish q)
    have "order_inv (add_mset (CleanEvents q) (frames st)) st" using add_frame_order[OF ord] by simp
    then show ?thesis unfolding step_finish by (intro spawn_order) simp
  qed
qed

lemma reachable_order:
  assumes "reachable {Complete} st"
  shows "order_inv (frames st) st"
  using assms
proof (induction rule: reachable.induct)
  case (reach_start st)
  have "queue_inv (frames st) st" using reachable_inv[OF reachable.reach_start[OF reach_start, of "{}"]] by (simp add: runtime_inv_def)
  then show ?case using reach_start
    by (simp add: initial_def order_inv_def hands_ok_def deps_ok_def sequence_ok_def frames_def)
next
  case (reach_step st st')
  then show ?case using queue_step_order reachable_inv[of "{Complete}" st] by (simp add: Complete_def)
qed

end
