(* ===== verification/Queue_Termination.thy ===== *)
theory Queue_Termination
  imports Queue_Progress
begin

text \<open>
  The calls under way end: threads can make only finitely many steps before a new call or the end of a command
  gives them more to do. Calls push each other through queues and dependents; a step registers a new event, or takes an event
  out of a queue, or replaces a call by calls of a smaller rank.
\<close>

subsection \<open>The rank of a call\<close>

definition dep_rel :: "runtime \<Rightarrow> (nat \<times> nat) set" where
  "dep_rel st = {(w, d). w < num_evs st \<and> d \<in> set (deps st w)}"

definition height :: "runtime \<Rightarrow> nat \<Rightarrow> nat" where
  "height st e = card {d. (e, d) \<in> (dep_rel st)\<^sup>+}"

fun rank :: "runtime \<Rightarrow> frame \<Rightarrow> nat \<times> nat \<times> nat" where
  "rank st (NewEvent q e ws) = (0, 3, 0)"
| "rank st (QueueEvent q e) = (0, 3, 0)"
| "rank st (PushEvents q r b) = (0, 1, 0)"
| "rank st (SetStatus e s) = (Suc (height st e), 1, 0)"
| "rank st (NotifyComplete e i n b) = (Suc (height st e), 0, Suc n - i)"
| "rank st (NotifyError e i n) = (Suc (height st e), 0, Suc n - i)"
| "rank st (ReleaseQueue q) = (0, 2, 0)"
| "rank st (Dispatch e) = (0, 2, 0)"
| "rank st (Run e) = (0, 1, 0)"
| "rank st (SetUser e s) = (Suc (height st e), 2, 0)"
| "rank st (CleanEvents q) = (0, 1, 0)"
| "rank st _ = (0, 0, 0)"

definition lower :: "((nat \<times> nat \<times> nat) \<times> (nat \<times> nat \<times> nat)) set" where
  "lower = less_than <*lex*> less_than <*lex*> less_than"

lemma wf_lower: "wf lower"
  by (simp add: lower_def wf_lex_prod)

lemma height_less:
  assumes inv: "queue_inv F st" and d: "(e, d) \<in> dep_rel st"
  shows "height st d < height st e"
proof -
  note I = queue_invD[OF inv]
  have sub: "dep_rel st \<subseteq> {..<num_evs st} \<times> {..<num_evs st}" using I(1) by (auto simp: dep_rel_def objects_ok_def)
  then have "(dep_rel st)\<^sup>+ \<subseteq> {..<num_evs st} \<times> {..<num_evs st}" by (rule trancl_subset_Sigma)
  then have "finite {x. (e, x) \<in> (dep_rel st)\<^sup>+}" by (auto intro: finite_subset[of _ "{..<num_evs st}"])
  moreover have "acyclic (dep_rel st)"
    using I(7) unfolding order_ok_def by (rule acyclic_subset) (auto simp: dep_rel_def before_def)
  then have "{x. (d, x) \<in> (dep_rel st)\<^sup>+} \<subset> {x. (e, x) \<in> (dep_rel st)\<^sup>+}"
    using d by (auto simp: acyclic_def intro: trancl_into_trancl2)
  ultimately show ?thesis unfolding height_def by (rule psubset_card_mono)
qed

lemma rank_view:
  assumes "num_evs st' = num_evs st" and "\<And>e. deps st' e = deps st e"
  shows "rank st' f = rank st f"
proof -
  have "dep_rel st' = dep_rel st" using assms by (simp add: dep_rel_def)
  then show ?thesis by (cases f) (simp_all add: height_def)
qed

subsection \<open>What a call changes\<close>

fun creates :: "frame \<Rightarrow> bool" where
  "creates (NewEvent q e ws) \<longleftrightarrow> True"
| "creates _ \<longleftrightarrow> False"

definition queued :: "runtime \<Rightarrow> nat set" where
  "queued st = (\<Union>q. set (events_of st q))"

lemma push_loop_deps: "deps (snd (push_loop q r kept rest first n st)) x = deps st x"
  "num_evs (snd (push_loop q r kept rest first n st)) = num_evs st"
  by (induction q r kept rest first n st rule: push_loop.induct) (simp_all add: Let_def)

lemma push_loop_events:
  assumes "events_of st q = kept @ rest" and "distinct (kept @ rest)" and "push_loop q r kept rest first n st = (inst, st')"
  shows "set (events_of st' q) \<subseteq> set (kept @ rest) \<and> (\<forall>e. inst = Some e \<longrightarrow> e \<in> set (kept @ rest) \<and> e \<notin> set (events_of st' q))"
  using assms
proof (induction q r kept rest first n st rule: push_loop.induct)
  case (2 q r kept e rest first n st)
  let ?st = "release_event e (set_events q (kept @ rest) (count_completed q (-1) st))"
  note step = push_loop.simps(2)[of q r kept e rest first n st]
  consider (fin) "status st e = Complete \<or> status st e < 0" | (quit) "inst = None" "events_of st' q = events_of st q"
    | (away) "\<not> (status st e = Complete \<or> status st e < 0)" "\<not> (r = None \<and> n > OOO_QUEUE_PUSH_EVENTS_THRESHOLD)"
        "\<not> (\<not> is_ooo (cqs st q) \<and> \<not> first)" "\<not> (etype st e = Barrier \<and> \<not> first)"
    using "2.prems"(3) unfolding step by (auto simp del: push_loop.simps split: if_splits)
  then show ?case
  proof cases
    case fin
    then have "push_loop q r kept rest first n ?st = (inst, st')" using "2.prems"(3) unfolding step by (simp del: push_loop.simps)
    then show ?thesis using "2.IH"(1)[OF fin] "2.prems"(2) by auto
  next
    case quit then show ?thesis using "2.prems"(1) by simp
  next
    case away
    note res = "2.prems"(3)[unfolded step if_not_P[OF away(1)] if_not_P[OF away(2)] if_not_P[OF away(3)] if_not_P[OF away(4)]]
    note IH = "2.IH"(2-4)[OF away]
    have es: "events_of st q = (kept @ [e]) @ rest" "distinct ((kept @ [e]) @ rest)" using "2.prems"(1,2) by simp_all
    consider (pushed) "status st e \<noteq> Queued" | (waiting) "status st e = Queued" "waits st e \<noteq> []"
      | (instant) "status st e = Queued" "waits st e = []" "isInstantaneous (etype st e)"
      | (push) "status st e = Queued" "waits st e = []" "\<not> isInstantaneous (etype st e)" by blast
    then show ?thesis
    proof cases
      case pushed
      then show ?thesis using res IH(1)[OF pushed _ es] es(1) "2.prems"(1) by (auto simp del: push_loop.simps split: if_splits)
    next
      case waiting
      then show ?thesis using res IH(2)[of "set_flushed q False st"] es "2.prems"(1) by (auto simp: Let_def simp del: push_loop.simps split: if_splits)
    next
      case instant
      then show ?thesis using res "2.prems"(2) by (auto simp del: push_loop.simps)
    next
      case push
      then show ?thesis using res IH(3) "2.prems"(1,2) by (simp del: push_loop.simps)
    qed
  qed
qed auto

lemma finite_queued:
  assumes "queue_inv F st"
  shows "finite (queued st)"
proof -
  have "queued st \<subseteq> {..<num_evs st}" using queue_invD(1)[OF assms] by (auto simp: queued_def objects_ok_def)
  then show ?thesis by (rule finite_subset) simp
qed

text \<open>A step of a call that does not create an event.\<close>

definition smaller_step :: "frame \<Rightarrow> runtime \<Rightarrow> frame list \<Rightarrow> runtime \<Rightarrow> bool" where
  "smaller_step f st gs st' \<longleftrightarrow> num_evs st' = num_evs st \<and> (\<forall>e. deps st' e = deps st e) \<and> (\<forall>g \<in> set gs. queues g = None) \<and>
     (queued st' \<subset> queued st \<or> queued st' \<subseteq> queued st \<union> set_option (queues f) \<and> (\<forall>g \<in> set gs. (rank st g, rank st f) \<in> lower))"

lemma smaller_same:
  assumes "num_evs st' = num_evs st" and "\<And>e. deps st' e = deps st e" and "\<And>q. events_of st' q = events_of st q"
    and "\<forall>g \<in> set gs. queues g = None \<and> (rank st g, rank st f) \<in> lower"
  shows "smaller_step f st gs st'"
  using assms by (simp add: smaller_step_def queued_def)

lemma push_smaller:
  assumes inv: "queue_inv (add_mset (PushEvents q r one) G) st" and post: "pushEventsOnDevice q r one st = (gs, st')"
  shows "smaller_step (PushEvents q r one) st gs st'"
proof -
  define st1 where "st1 = (if one then count_completed q 1 (count_device q (-1) st) else st)"
  have v1: "\<And>p. events_of st1 p = events_of st p" "\<And>e. deps st1 e = deps st e" "num_evs st1 = num_evs st" by (simp_all add: st1_def)
  show ?thesis
  proof (cases "is_ooo (cqs st1 q) \<and> r = None \<and> on_device st1 q > 2 \<and> gotEnoughToWorkOn st1")
    case True
    then have "gs = []" "st' = st1" using post by (simp_all add: pushEventsOnDevice_def Let_def flip: st1_def)
    then show ?thesis using v1 by (intro smaller_same) simp_all
  next
    case False
    define st2 where "st2 = set_flushed q True st1"
    obtain inst st3 where loop: "push_loop q r [] (events_of st1 q) True 0 st2 = (inst, st3)" by fastforce
    note res = post[unfolded pushEventsOnDevice_def Let_def st1_def[symmetric] if_not_P[OF False] st2_def[symmetric] loop prod.case]
    have v3: "deps st3 e = deps st e" "num_evs st3 = num_evs st" for e
      using push_loop_deps[of q r "[]" "events_of st1 q" True 0 st2] loop v1 by (simp_all add: st2_def)
    have v': "deps st' e = deps st3 e" "num_evs st' = num_evs st3" "events_of st' p = events_of st3 p" for e p
      using res by (auto split: option.splits if_splits)
    have "distinct (events_of st q)" using queue_invD(1)[OF inv] by (simp add: objects_ok_def)
    then have ev: "set (events_of st3 q) \<subseteq> set (events_of st q)" "inst = Some e \<Longrightarrow> e \<in> set (events_of st q) \<and> e \<notin> set (events_of st3 q)" for e
      using push_loop_events[OF _ _ loop] v1 by (auto simp: st2_def)
    have oth: "events_of st3 p = events_of st p" if "p \<noteq> q" for p
      using push_loop_others[OF that, of r "[]" "events_of st1 q" True 0 st2] loop v1 by (simp add: st2_def)
    have sub: "queued st' \<subseteq> queued st"
    proof
      fix x assume "x \<in> queued st'"
      then obtain p where "x \<in> set (events_of st3 p)" by (auto simp: queued_def v')
      then have "x \<in> set (events_of st p)" using ev(1) oth by (cases "p = q") auto
      then show "x \<in> queued st" by (auto simp: queued_def)
    qed
    show ?thesis
    proof (cases inst)
      case None
      then have "gs = []" using res by simp
      then show ?thesis using sub v3 v' by (simp add: smaller_step_def)
    next
      case (Some e)
      have "e \<notin> set (events_of st3 p)" for p
      proof (cases "p = q")
        case False
        have "parent st e = Some q" using queue_invD(1)[OF inv] ev(2)[OF Some] by (simp add: objects_ok_def)
        then show ?thesis using oth[OF False] queue_invD(1)[OF inv] False by (auto simp: objects_ok_def)
      qed (use ev(2)[OF Some] in simp)
      then have "e \<notin> queued st'" by (simp add: queued_def v')
      moreover have "e \<in> queued st" using ev(2)[OF Some] by (auto simp: queued_def)
      ultimately have "queued st' \<subset> queued st" using sub by blast
      moreover have "gs = [SetStatus e Complete, ReleaseEvent e]" using res Some by simp
      ultimately show ?thesis using v3 v' by (simp add: smaller_step_def)
    qed
  qed
qed

lemma removeWaitEvent_same:
  assumes "removeWaitEvent d e st = (b, st')"
  shows "num_evs st' = num_evs st" "deps st' x = deps st x" "events_of st' q = events_of st q" "parent st' x = parent st x"
  using removeWaitEvent_view[OF assms] by (auto simp: same_view_def)

lemma notify_smaller:
  assumes post: "notify_complete e i n b st = (gs, st')"
  shows "smaller_step (NotifyComplete e i n b) st gs st'"
proof (cases "i < n")
  case True
  obtain em st1 where rw: "removeWaitEvent (deps st e ! i) e st = (em, st1)" by fastforce
  then have "st' = st1" "set gs \<subseteq> {NotifyComplete e (i + 1) n c |c. True} \<union> {PushEvents q r c |q r c. True}"
    using post True by (auto simp: notify_complete_def Let_def split: bool.splits option.splits)
  then show ?thesis using removeWaitEvent_same[OF rw] True by (intro smaller_same) (auto simp: lower_def)
next
  case False
  then show ?thesis using post by (intro smaller_same) (auto simp: notify_complete_def Let_def lower_def split: option.splits if_splits)
qed

lemma notify_error_smaller:
  assumes inv: "queue_inv (add_mset (NotifyError e i n) G) st" and post: "notify_error e i n st = (gs, st')"
  shows "smaller_step (NotifyError e i n) st gs st'"
proof (cases "i < n")
  case True
  let ?d = "deps st e ! i"
  obtain em st1 where rw: "removeWaitEvent ?d e st = (em, st1)" by fastforce
  then have "st' = st1" "gs = [SetStatus ?d CL_EXEC_STATUS_ERROR_FOR_EVENTS_IN_WAIT_LIST, NotifyError e (i + 1) n]"
    using post True by (auto simp: notify_error_def Let_def)
  moreover have "(e, ?d) \<in> dep_rel st" using queue_invD(1)[OF inv] True by (auto simp: dep_rel_def objects_ok_def)
  then have "height st ?d < height st e" by (rule height_less[OF inv])
  ultimately show ?thesis using removeWaitEvent_same[OF rw] True by (intro smaller_same) (auto simp: lower_def)
next
  case False
  then show ?thesis using post by (intro smaller_same) (auto simp: notify_error_def lower_def split: option.splits)
qed

lemma clean_loop_smaller:
  "events_of st q = kept @ rest \<Longrightarrow> set (events_of (clean_loop q kept rest st) q) \<subseteq> set (kept @ rest)"
  "deps (clean_loop q kept rest st) x = deps st x" "num_evs (clean_loop q kept rest st) = num_evs st"
  by (induction q kept rest st rule: clean_loop.induct) auto

lemma exec_smaller:
  assumes inv: "queue_inv (add_mset f G) st" and f: "\<not> is_Finish f" "\<not> creates f" and ex: "exec f st = (gs, st')"
  shows "smaller_step f st gs st'"
proof (cases f)
  case (NewEvent q e ws) then show ?thesis using f by simp
next
  case (QueueEvent q e)
  then show ?thesis using ex by (auto simp: smaller_step_def queued_def queueEvent_def lower_def split: if_splits)
next
  case (PushEvents q r b) then show ?thesis using push_smaller inv ex by simp
next
  case (SetStatus e s)
  then have s: "s \<le> 0" "etype st e = User \<or> parent st e \<noteq> None" using queue_invD(1)[OF inv] by (auto simp: objects_ok_def)
  show ?thesis
  proof (cases "s = Complete")
    case True
    then show ?thesis using setStatus_cases(1)[OF s(2)] ex SetStatus by (intro smaller_same) (auto simp: lower_def)
  next
    case False
    then have "s < 0" using s(1) by (simp add: Complete_def)
    then show ?thesis using setStatus_cases(2)[of s e st] ex SetStatus by (intro smaller_same) (auto simp: lower_def)
  qed
next
  case (NotifyComplete e i n b) then show ?thesis using notify_smaller ex by simp
next
  case (NotifyError e i n) then show ?thesis using notify_error_smaller inv ex by simp
next
  case (Dispatch e)
  obtain cbs where "gs = [Callbacks e Running cbs, Run e]" "st' = with_status e Running st"
    using setStatus_cases(3)[of Running e st] ex Dispatch by (auto simp: Running_def)
  then show ?thesis using Dispatch by (intro smaller_same) (auto simp: lower_def)
next
  case (CleanEvents q)
  then have gs: "gs = []" "st' = cleanEvents q st" using ex by simp_all
  let ?c = "clean_loop q [] (events_of st q) st"
  have "set (events_of ?c p) \<subseteq> set (events_of st p)" for p
    using clean_loop_smaller(1)[of st q "[]" "events_of st q"] by (cases "p = q") auto
  then have "queued ?c \<subseteq> queued st" by (auto simp: queued_def)
  then show ?thesis using gs clean_loop_smaller(2,3)[of q "[]" "events_of st q" st]
    by (auto simp: smaller_step_def cleanEvents_def Let_def queued_def)
next
  case (Finish q b) then show ?thesis using f by simp
qed (use ex in \<open>auto intro!: smaller_same simp: lower_def split: if_splits\<close>)

subsection \<open>Steps of threads end\<close>

definition awake :: "frame \<Rightarrow> bool" where
  "awake f \<longleftrightarrow> is_Finish f \<and> \<not> asleep f"

definition to_queue :: "frame multiset \<Rightarrow> nat" where
  "to_queue F = size {#f \<in># F. queues f \<noteq> None#}"

definition call_measure :: "runtime \<Rightarrow> nat \<times> nat \<times> (nat \<times> nat \<times> nat) multiset \<times> nat" where
  "call_measure st = (size {#f \<in># frames st. creates f#}, card (queued st) + to_queue (frames st),
     image_mset (rank st) (frames st), size (mset (filter awake (concat (threads st)))))"

definition call_order :: "(runtime \<times> runtime) set" where
  "call_order = inv_image (less_than <*lex*> less_than <*lex*> mult lower <*lex*> less_than) call_measure"

lemma wf_call_order: "wf call_order"
  unfolding call_order_def by (intro wf_inv_image wf_lex_prod wf_less_than wf_mult wf_lower)

definition can_go :: "nat \<Rightarrow> runtime \<Rightarrow> bool" where
  "can_go i st \<longleftrightarrow> i < length (threads st) \<and> (case threads st ! i of [] \<Rightarrow> False | f # _ \<Rightarrow> \<not> asleep f)"

lemma creates_queues: "creates f \<Longrightarrow> queues f \<noteq> None"
  by (cases f) auto

lemma new_event_frames: "creates f \<Longrightarrow> exec f st = (gs, st') \<Longrightarrow> \<forall>g \<in> set gs. \<not> creates g"
  by (cases f) (auto simp: split_beta)

lemma filter_none: "\<forall>x \<in># M. \<not> P x \<Longrightarrow> {#x \<in># M. P x#} = {#}"
  by (auto simp flip: set_mset_eq_empty_iff)

lemma exec_decreases:
  assumes inv: "queue_inv (add_mset f G) st" and f: "\<not> is_Finish f" and ex: "exec f st = (gs, st')"
    and F: "frames st = add_mset f G" and F': "frames st'' = mset gs + G" and view: "same_view st' st''"
  shows "(st'', st) \<in> call_order"
proof (cases "creates f")
  case True
  have "{#g \<in># mset gs. creates g#} = {#}" using new_event_frames[OF True ex] by (intro filter_none) simp
  then show ?thesis using True by (simp add: call_order_def call_measure_def F F')
next
  case False
  have sm: "smaller_step f st gs st'" by (rule exec_smaller[OF inv f False ex])
  have q: "queues g = None" if "g \<in> set gs" for g using sm that by (simp add: smaller_step_def)
  have cr: "\<not> creates g" if "g \<in> set gs" for g using q[OF that] creates_queues[of g] by auto
  have none: "{#g \<in># mset gs. creates g#} = {#}" "{#g \<in># mset gs. queues g \<noteq> None#} = {#}"
    by (rule filter_none, use cr in simp) (rule filter_none, use q in simp)
  have same: "queued st'' = queued st'" "num_evs st'' = num_evs st" "\<And>e. deps st'' e = deps st e"
    using view sm by (simp_all add: queued_def same_view_def smaller_step_def)
  have fin: "finite (queued st)" by (rule finite_queued[OF inv])
  have size: "to_queue (add_mset f G) = to_queue G + of_bool (queues f \<noteq> None)" "to_queue (mset gs + G) = to_queue G"
    using none(2) by (simp_all add: to_queue_def)
  have le: "card (queued st') \<le> card (queued st) + of_bool (queues f \<noteq> None)"
    if "queued st' \<subseteq> queued st \<union> set_option (queues f)"
  proof -
    have "card (queued st') \<le> card (queued st \<union> set_option (queues f))" using that fin by (intro card_mono) auto
    also have "\<dots> \<le> card (queued st) + card (set_option (queues f))" by (rule card_Un_le)
    finally show ?thesis by (cases "queues f") auto
  qed
  have "card (queued st'') + to_queue (frames st'') < card (queued st) + to_queue (frames st) \<or>
      card (queued st'') + to_queue (frames st'') = card (queued st) + to_queue (frames st) \<and> (\<forall>g \<in> set gs. (rank st g, rank st f) \<in> lower)"
  proof (cases "queued st' \<subset> queued st")
    case True
    then have "card (queued st') < card (queued st)" by (rule psubset_card_mono[OF fin])
    then show ?thesis by (simp add: F F' size same)
  next
    case sub: False
    then have "queued st' \<subseteq> queued st \<union> set_option (queues f)" "\<forall>g \<in> set gs. (rank st g, rank st f) \<in> lower"
      using sm by (simp_all add: smaller_step_def)
    then show ?thesis using le by (auto simp: F F' size same)
  qed
  moreover have "(image_mset (rank st'') (frames st''), image_mset (rank st) (frames st)) \<in> mult lower" if "\<forall>g \<in> set gs. (rank st g, rank st f) \<in> lower"
  proof -
    have "image_mset (rank st'') (frames st'') = image_mset (rank st) G + image_mset (rank st) (mset gs)"
      unfolding F' using rank_view[OF same(2,3)] by (simp add: fun_eq_iff union_commute cong: image_mset_cong)
    moreover have "image_mset (rank st) (frames st) = image_mset (rank st) G + {#rank st f#}" by (simp add: F)
    ultimately show ?thesis using that by (simp only:) (rule one_step_implies_mult; simp)
  qed
  moreover have "{#g \<in># mset gs + G. creates g#} = {#g \<in># add_mset f G. creates g#}" using none(1) False by simp
  ultimately show ?thesis by (auto simp: call_order_def call_measure_def F F')
qed

lemma run_thread_decreases:
  assumes inv: "runtime_inv st" and go: "can_go i st"
  shows "(run_thread i st, st) \<in> call_order"
proof -
  have i: "i < length (threads st)" using go by (simp add: can_go_def)
  obtain f fs where Cons: "threads st ! i = f # fs" and aw: "\<not> asleep f" using go by (auto simp: can_go_def split: list.splits)
  note I = inv[unfolded runtime_inv_def, THEN conjunct1]
  have mem: "f # fs \<in> set (threads st)" using Cons i by (metis nth_mem)
  obtain gs st' where e: "exec f st = (gs, st')" by fastforce
  have run: "run_thread i st = st'\<lparr>threads := (threads st')[i := gs @ fs]\<rparr>" using Cons aw e by (simp add: run_thread_def)
  show ?thesis
  proof (cases "is_Finish f")
    case True
    then obtain q where f: "f = Finish q False" using aw by (cases f) (auto simp: asleep_def)
    let ?st = "st\<lparr>threads := (threads st)[i := gs @ fs]\<rparr>"
    have gs: "gs = [] \<or> gs = [Finish q True]" "st' = st" using e f by (auto split: if_splits)
    have "frames ?st = frames st"
      using frames_update[OF i Cons, of "\<lambda>f. \<not> is_Finish f" gs] gs(1) by (auto simp: frames_def f)
    moreover have "mset (filter awake (concat (threads ?st))) + {#f#} = mset (filter awake (concat (threads st)))"
      using frames_update[OF i Cons, of awake gs] gs(1) f by (auto simp: awake_def asleep_def)
    then have "size (mset (filter awake (concat (threads ?st)))) < size (mset (filter awake (concat (threads st))))"
      by (metis add.commute less_add_one size_single size_union plus_1_eq_Suc lessI)
    moreover have "rank ?st = rank st" using rank_view[of ?st st] by (simp add: fun_eq_iff)
    moreover have "queued ?st = queued st" by (simp add: queued_def)
    ultimately show ?thesis unfolding run gs(2) by (simp add: call_order_def call_measure_def)
  next
    case False
    define G where "G = frames st - {#f#}"
    have "f \<in># frames st" using mem False by (force simp: frames_def)
    then have F: "frames st = add_mset f G" by (simp add: G_def)
    have post: "\<forall>f \<in> set gs. \<not> is_Finish f" "wakes st st'"
      using exec_post[of f G st] I F False e by (simp_all add: call_post_def)
    let ?st = "st'\<lparr>threads := (threads st')[i := gs @ fs]\<rparr>"
    have fin: "filter (\<lambda>f. \<not> is_Finish f) gs = gs" using post(1) by (simp add: filter_id_conv)
    have "frames ?st + {#f#} = frames st' + mset gs"
      using frames_update[OF wakes_thread[OF post(2) i Cons False], of "\<lambda>f. \<not> is_Finish f" gs] False by (simp add: frames_def fin)
    then have "frames ?st = mset gs + G" using wakes_frames[OF post(2)] F by simp
    then show ?thesis unfolding run using I F
      by (intro exec_decreases[OF _ False e F]) (simp_all add: same_view_def)
  qed
qed

end
