(* ===== verification/Queue_Properties.thy ===== *)
theory Queue_Properties
  imports Queue_Order Queue_Termination
begin

text \<open>What the command queues promise, and where they fail.\<close>

subsection \<open>Runs\<close>

definition all_ooo :: runtime where
  "all_ooo = \<lparr>evs = (\<lambda>_. \<lparr>e_type = User, e_parent = None, p_status = 0, p_wait_events = [], p_dependent_events = [], p_callbacks = [],
     e_references = 0\<rparr>), num_evs = 0, cqs = (\<lambda>_. \<lparr>p_events = [], p_num_events_on_device = 0, p_num_events_completed = 0, is_ooo = True,
     p_flushed = True, q_references = 1\<rparr>), dev_events = [], started = [], called = [], threads = []\<rparr>"

datatype action = Thread nat | Enqueue nat ev_type "nat list" bool | CreateUser | SetUserStatus nat int | Worker | EndCommand nat int | Flush nat | FinishQ nat

fun act :: "int set \<Rightarrow> action \<Rightarrow> runtime \<Rightarrow> runtime option" where
  "act R (Thread i) st = (if i < length (threads st) then Some (run_thread i st) else None)"
| "act R (Enqueue q t ws event) st = (if t \<noteq> User \<and> list_all (known st) ws then
     (case enqueue_command q t ws event st of Inl _ \<Rightarrow> None | Inr st \<Rightarrow> Some st) else None)"
| "act R CreateUser st = Some (create_user st)"
| "act R (SetUserStatus e s) st = (if known st e \<and> s \<in> R then Some (spawn [SetUser e s] st) else None)"
| "act R Worker st = (if dev_events st \<noteq> [] then Some (getEvent st) else None)"
| "act R (EndCommand e s) st = (if e \<in> set (started st) \<and> s \<in> R then Some (end_command e s st) else None)"
| "act R (Flush q) st = Some (spawn [PushEvents q None False] st)"
| "act R (FinishQ q) st = Some (spawn [CleanEvents q, Finish q False] st)"

fun acts :: "int set \<Rightarrow> action list \<Rightarrow> runtime \<Rightarrow> runtime option" where
  "acts R [] st = Some st"
| "acts R (a # as) st = (case act R a st of None \<Rightarrow> None | Some st \<Rightarrow> acts R as st)"

lemma act_step: "act R a st = Some st' \<Longrightarrow> queue_step R st st'"
  by (cases a) (auto simp: list_all_iff split: if_splits sum.splits intro: queue_step.intros)

lemma acts_reachable: "reachable R st \<Longrightarrow> acts R as st = Some st' \<Longrightarrow> reachable R st'"
  by (induction as arbitrary: st) (auto split: option.splits dest: act_step intro: reach_step)

subsection \<open>Progress\<close>

text \<open>
  C10: The calls under way end, in any interleaving: from a reachable state there is no infinite sequence of steps of
  threads. Only new calls and the ends of commands keep the queues going.
\<close>

theorem calls_end: "wf {(run_thread i st, st) |i st. reachable {..0} st \<and> can_go i st}"
  by (rule wf_subset[OF wf_call_order]) (auto intro: run_thread_decreases reachable_inv)

text \<open>
  C9: Nothing gets stuck and no wake-up is lost, in any interleaving and however commands end. In every
  reachable state in which no call can go on and the device has nothing to do, if the user events are set, then all
  queues are empty, all events have ended, and all calls have returned, those that wait in \<open>finish\<close> included.
\<close>

theorem queues_drained:
  assumes "R \<subseteq> {..0}" and "reachable R st" and "at_rest st" and "\<forall>e < num_evs st. etype st e = User \<longrightarrow> status st e \<le> Complete"
  shows "events_of st q = [] \<and> (\<forall>fs \<in> set (threads st). fs = []) \<and> (\<forall>e < num_evs st. status st e \<le> Complete)"
  using at_rest_drained[OF reachable_inv[OF assms(2,1)] assms(3)] assms(4) by (simp add: Complete_def)

text \<open>A command, a thread that waits in \<open>finish\<close>, and the end of the command.\<close>

definition solo :: "action list" where
  "solo = [Enqueue 0 NDRangeKernel [] True, Thread 0, Thread 0, Thread 0, FinishQ 0, Thread 1, Thread 1,
     Worker, Thread 2, Thread 2, Thread 2, EndCommand 0 Complete] @ map Thread (replicate 7 3) @ [Thread 1]"

lemma all_ooo_reachable: "reachable R all_ooo"
  by (rule reach_start) (simp add: initial_def all_ooo_def)

theorem queues_drained_witness:
  "\<exists>st. reachable {Complete} st \<and> num_evs st = 1 \<and> at_rest st \<and> events_of st 0 = [] \<and> status st 0 \<le> Complete"
proof -
  have "case acts {Complete} solo all_ooo of None \<Rightarrow> False | Some st \<Rightarrow> at_rest st \<and> num_evs st = 1 \<and> etype st 0 = NDRangeKernel"
    by code_simp
  then obtain st where run: "acts {Complete} solo all_ooo = Some st" and st: "at_rest st" "num_evs st = 1" "etype st 0 = NDRangeKernel"
    by (auto split: option.splits)
  have "reachable {Complete} st" by (rule acts_reachable[OF all_ooo_reachable run])
  then show ?thesis using queues_drained[of "{Complete}" st 0] st by (auto simp: Complete_def)
qed

subsection \<open>Order\<close>

lemma earlier_total: "x \<in> set xs \<Longrightarrow> y \<in> set xs \<Longrightarrow> x \<noteq> y \<Longrightarrow> (x, y) \<in> earlier xs \<or> (y, x) \<in> earlier xs"
  by (induction xs) auto

lemma sorted_earlier: "sorted_wrt P xs \<Longrightarrow> (x, y) \<in> earlier xs \<Longrightarrow> P x y"
  by (induction xs) auto

lemma one_on_device:
  assumes inv: "order_inv F st" and q: "\<not> is_ooo (cqs st q)"
  shows "device_slots st q \<le> 1"
proof (rule ccontr)
  note I = order_invD[OF inv]
  let ?xs = "filter (\<lambda>e. parent st e = Some q) (dev_events st @ started st)"
  assume "\<not> device_slots st q \<le> 1"
  then obtain a b ys where xs: "?xs = a # b # ys" unfolding device_slots_def by (cases ?xs; cases "tl ?xs") auto
  have mem: "e \<in> set (dev_events st) \<union> set (started st) \<and> parent st e = Some q" if "e \<in> {a, b}" for e
  proof -
    have "e \<in> set ?xs" unfolding xs using that by auto
    then show ?thesis by auto
  qed
  have st: "status st e \<in> {Running, Submitted}" "e < num_evs st" "e \<in> set (events_of st q)" if "e \<in> {a, b}" for e
  proof -
    show s: "status st e \<in> {Running, Submitted}" using hands_okD(3)[OF I(2)] mem[OF that] by blast
    show "e < num_evs st" using I(5) mem[OF that] unfolding objects_ok_def by blast
    then show "e \<in> set (events_of st q)" using sequence_okD(1)[OF I(4) _ s] mem[OF that] by blast
  qed
  have "a \<noteq> b"
  proof
    assume "a = b"
    then have "2 \<le> count (mset ?xs) a" unfolding xs by simp
    also have "\<dots> \<le> count (mset (dev_events st @ started st)) a" by simp
    also have "\<dots> \<le> hands F st a" by (simp add: hands_def)
    finally show False using hands_okD(4)[OF I(2), of a] st(2)[of a] mem[of a] by simp
  qed
  then have "(a, b) \<in> earlier (events_of st q) \<or> (b, a) \<in> earlier (events_of st q)" using earlier_total[OF st(3) st(3), of a b] by simp
  then have "in_sequence st q a b \<or> in_sequence st q b a" using sorted_earlier[OF sequence_okD(2)[OF I(4)]] by blast
  then show False using st(1)[of a] st(1)[of b] q by (auto simp: in_sequence_def holds_back_def status_defs)
qed


text \<open>Three commands in one queue out of order, of which two wait for the first.\<close>

definition fork :: "action list" where
  "fork = [Enqueue 0 NDRangeKernel [] True, Thread 0, Thread 0, Thread 0, Enqueue 0 NDRangeKernel [0] True, Thread 1, Thread 1, Thread 1,
     Enqueue 0 NDRangeKernel [0] True, Thread 2, Thread 2, Thread 2, Worker, Thread 3, Thread 3, Thread 3, EndCommand 0 Complete,
     Thread 4, Thread 4, Thread 4, Thread 4, Thread 4]"

lemma fork_run:
  "\<exists>st. reachable {Complete} st \<and> deps st 0 = [1, 2] \<and> num_evs st = 3 \<and> dev_events st = [1, 2] \<and> on_device st 0 = 1 \<and>
     events_of st 0 = [1, 2] \<and> status st 1 = Submitted"
proof -
  have "case acts {Complete} fork all_ooo of None \<Rightarrow> False | Some st \<Rightarrow> deps st 0 = [1, 2] \<and> num_evs st = 3 \<and> dev_events st = [1, 2] \<and>
     on_device st 0 = 1 \<and> events_of st 0 = [1, 2] \<and> status st 1 = Submitted"
    by code_simp
  then show ?thesis using acts_reachable[OF all_ooo_reachable] by (auto split: option.splits)
qed


subsection \<open>What goes wrong\<close>


text \<open>
  C36: An event that waits for a failed event may be given to the device. \<open>setStatus\<close> removes the failed
  event from the wait list before it sets the status of the waiting event; a push by another thread in between submits
  it. It then gets the error status while it is on the device, is removed from its queue, and when the application keeps no
  reference it is deleted before the worker takes it.
\<close>

theorem failed_wait_may_run:
  "\<exists>st w d. reachable {-5, Complete} st \<and> d \<in> set (deps st w) \<and> status st w = -5 \<and>
     status st d = CL_EXEC_STATUS_ERROR_FOR_EVENTS_IN_WAIT_LIST \<and> d \<in> set (dev_events st) \<and> e_references (evs st d) = 0"
proof -
  let ?run = "[CreateUser, Enqueue 0 NDRangeKernel [0] False, Thread 0, Thread 0, Thread 0, SetUserStatus 0 (-5), Thread 1, Thread 1, Thread 1,
     Flush 0, Thread 2, Thread 1, Flush 0, Thread 3]"
  have "case acts {-5, Complete} ?run all_ooo of None \<Rightarrow> False | Some st \<Rightarrow> deps st 0 = [1] \<and> status st 0 = -5 \<and>
     status st 1 = CL_EXEC_STATUS_ERROR_FOR_EVENTS_IN_WAIT_LIST \<and> dev_events st = [1] \<and> e_references (evs st 1) = 0"
    by code_simp
  then obtain st where "acts {-5, Complete} ?run all_ooo = Some st" and st: "deps st 0 = [1]" "status st 0 = -5"
      "status st 1 = CL_EXEC_STATUS_ERROR_FOR_EVENTS_IN_WAIT_LIST" "dev_events st = [1]" "e_references (evs st 1) = 0"
    by (auto split: option.splits)
  then have "reachable {-5, Complete} st" using acts_reachable[OF all_ooo_reachable] by blast
  then show ?thesis using st by (intro exI[of _ st] exI[of _ 0] exI[of _ 1]) simp
qed

end
