(* ===== verification/Spec2Isabelle.thy ===== *)
theory Spec2Isabelle
  imports DLoad_Containers DLoad_Endian DLoad_Symtab C60_Reloc DLoad_Args DLoad_Init DLoad_LoadRefs
    DLoad_Query OCL_Properties Kernel_Properties Host_Mail_Properties Queue_Properties
begin

text \<open>
  \<^bold>\<open>The DSP back end of the OpenCL runtime.\<close> The runtime runs OpenCL kernels on the C66x cores of a DSP. Five
  parts of it are modelled:
  \<^item> \<^bold>\<open>Loading.\<close> A DSP program is loaded with the DLOAD loader (\<open>src/host/src/core/dsp/tal/ocl_load\<close>), a C
    library that reads an ELF file, asks its client for target memory, relocates the image for the C6000 and writes
    it to the target. The client (\<open>tal/dload.cpp\<close>, \<open>ocl_load.c\<close>) gives the loader memory from the heap manager
    (\<open>heap_manager.h\<close>, through \<open>tal/shared_memory_provider.cpp\<close>) and keeps one loader instance per program. The
    calls go both ways: \<open>DLOAD_load\<close> calls \<open>DLIF_load_dependent\<close> of the client, which calls \<open>DLOAD_load\<close>.
  \<^item> \<^bold>\<open>Queues.\<close> Commands are events in command queues (\<open>src/host/src/core/commandqueue.cpp\<close>), which push them on the
    device when the queue's order and the events they wait for allow it; worker threads run them and report their
    end, which pushes further commands.
  \<^item> \<^bold>\<open>Arguments.\<close> \<open>Kernel::setArg\<close> (\<open>src/host/src/core/kernel.cpp\<close>) keeps the arguments of a kernel;
    \<open>DSPKernelEvent::callArgs\<close> (\<open>dsp/kernel.cpp\<close>) places them in registers and on the stack for the launch
    message.
  \<^item> \<^bold>\<open>Mail.\<close> \<open>dsp/rootdevice.cpp\<close> sends launch messages to the cores, after asking the core scheduler for
    single tasks, and the completion thread (\<open>offload/worker.h\<close>) collects the answers and completes events.
  \<^item> \<^bold>\<open>Monitor.\<close> The firmware of each core (\<open>src/monitor/src/monitor.c\<close>) takes messages, runs its share of the
    work-groups, or tasks, and answers.

  \<^bold>\<open>Theories.\<close>
  \<^item> \<open>DLoad_Prelude\<close>: C integers, calls that may not return (\<open>result\<close>, with \<open>Exit\<close>, \<open>AssertFail\<close>,
    \<open>Undefined\<close>, \<open>Diverge\<close>), \<open>bindR\<close>, postconditions \<open>holdsR\<close>, byte views of memory cells, C strings.
  \<^item> \<open>DLoad_Containers\<close>: \<open>ArrayList.c\<close>, \<open>Queue.h\<close>, \<open>Stack.h\<close> over an explicit heap of nodes. The locales
    \<open>growing_array\<close>, \<open>fifo\<close> and \<open>lifo\<close> are what the loader relies on; their interpretations justify
    that the loader state uses lists.
  \<^item> \<open>DLoad_Elf32\<close>, \<open>DLoad_Endian\<close>: the structures of \<open>elf32.h\<close> and their layout in a file, and
    \<open>dload_endian.c\<close>: swapping a structure is reading it on a host of the other byte order.
  \<^item> \<open>DLoad_State\<close>: the records of \<open>dload.h\<close> and \<open>dload_api.h\<close>, files, the client interface \<open>DLIF\<close> as a
    record of functions over a client state, and the loader object with the globals of \<open>dload.c\<close>.
  \<^item> \<open>DLoad_Symtab\<close>: \<open>symtab.c\<close>. Global symbols are copied with their names and values; a lookup
    finds the first definition in the order of the direct dependencies.
  \<^item> \<open>C60_Dynamic\<close>, \<open>C60_Reloc\<close>: \<open>c60_dynamic.c\<close> and \<open>c60_reloc.c\<close>. A relocation stores the right value
    into the right bit field and nothing else; the overflow test is exact; branches, near data and
    address pairs denote their objects; tables are processed entry by entry; relocating a module
    touches only the host copies of its segments. \<open>R_C6000_PREL31\<close>, 16 bit fields of files of the other
    byte order, and REL tables do not work, which is proved too.
  \<^item> \<open>DLoad_Headers\<close>: reading headers, the dynamic segment and its tables, and the sanity checks of
    \<open>dload.c\<close>, with the exact condition for accepting a file.
  \<^item> \<open>DLoad_Segments\<close>: loaded modules, static and dynamic allocation, moving symbols with their
    segments, copying, writing and releasing segments.
  \<^item> \<open>DLoad_Args\<close>, \<open>DLoad_Init\<close>: the \<open>.args\<close> section (locale \<open>target_memory\<close>, interpreted for the runtime
    in \<open>OCL_Client\<close>), initialisation and termination functions and their order.
  \<^item> \<open>DLoad_Core\<close>: \<open>DLOAD_create\<close>, \<open>DLOAD_load\<close>, \<open>DLOAD_load_symbols\<close>, \<open>DLOAD_unload\<close>, dependents and the
    dependency stack.
  \<^item> \<open>DLoad_Frame\<close>, \<open>DLoad_Refcount\<close>, \<open>DLoad_LoadRefs\<close>, \<open>DLoad_Unload\<close>: which steps touch which modules,
    and the invariant \<open>refcounts\<close>: the use count of every loaded module is the number of references to
    it. A load adds one reference, an unload gives one back, and unloading terminates.
  \<^item> \<open>DLoad_Query\<close>: the queries by file handle.
  \<^item> \<open>Heap_Manager\<close>, \<open>Heap_Properties\<close>: the heap manager; its two maps are a tiling of the managed memory
    into free and allocated blocks, which \<open>malloc\<close> and \<open>free\<close> keep. The locale \<open>block_allocator\<close> is what
    the loader's client relies on.
  \<^item> \<open>OCL_Client\<close>, \<open>OCL_Properties\<close>: the client callbacks and the class \<open>DLOAD\<close>; what a load leaves in
    target memory, loading and unloading a program, and what goes wrong with dependents, arguments,
    failed allocations and static executables.
  \<^item> \<open>Monitor\<close>, \<open>Monitor_NDRange\<close>, \<open>Monitor_Properties\<close>: the message loop of the monitor with all its
    commands, kernel calls that return, exit, abort or time out, and the distribution of work-groups. The cores
    together run every work-group exactly once; each message is answered or freed once; the OpenMP configuration
    lives as long as the processes that use it. The locale \<open>message_handler\<close> is what the loop relies on.
  \<^item> \<open>Kernel_Args\<close>, \<open>Kernel_Layout\<close>, \<open>Kernel_Placing\<close>, \<open>Kernel_Properties\<close>: setting arguments and placing
    them. Every argument within the limit ends up whole in a place of its own that the message announces; the
    exact errors otherwise.
  \<^item> \<open>Host_Mail\<close>, \<open>Host_Mail_Properties\<close>: the scheduler counts the running tasks of each core and picks a least
    loaded one; an event completes once, with the last of its answers. A kernel message is followed from the host
    through the monitors of all cores back to the completed event.
  \<^item> \<open>Command_Queue\<close>, \<open>Queue_Invariants\<close>, \<open>Queue_Progress\<close>, \<open>Queue_Order\<close>, \<open>Queue_Termination\<close>,
    \<open>Queue_Properties\<close>: the command queues as
    threads whose calls interleave, one locked section at a time. \<open>queue_inv\<close> is the invariant for progress: a queue
    whose first event can go on has a call or a command under way that will push it, so no wake-up is lost.
    \<open>order_inv\<close> is the one for order, for runs in which nothing fails. The steps of the calls under way are
    well-founded (\<open>call_order\<close>). Two faults of the code are shown by concrete
    runs.

  \<^bold>\<open>Conventions.\<close> Module objects live in a host heap (\<open>lmods\<close>, \<open>dmods\<close>) under addresses that are handed
  out once, so a dangling pointer is seen as \<open>Undefined\<close>. \<open>DLIF_malloc\<close> succeeds. Reading a closed file,
  or fewer bytes than asked for, is \<open>Undefined\<close>, since the loader does not look at the result. Fields
  that the code leaves unassigned are \<open>None\<close>. The alignment of host pointers, debug traces and printing
  are left out; messages to the client are kept in a log. A module is worked on as a value that is
  written back, since no other pointer to it is followed in between. Operations of the heap manager
  are atomic, as its mutex makes them. \<open>malloc\<close> and \<open>free\<close> are for one heap; the process numbers are
  data. On the side of the runtime, the locks of scheduler and table make their operations atomic, and answers are
  taken one by one in the order of their arrival. In the command queues a section under the lock of a queue or an event
  is one step; the constructor of an event registers its whole wait list in one step; events and queues are numbered
  and not deleted, a count of references of 0 marks a deleted one; callbacks are recorded, not run. The host is a 32 bit little endian one, and the monitor is the
  K2G build for Linux with OpenMP. The device memory of buffers is allocated before \<open>callArgs\<close> is called.

  \<^bold>\<open>Fuel.\<close> \<open>DLOAD_load\<close> and \<open>DLOAD_unload\<close> recurse through the client; fuel bounds the depth and running
  out of it is \<open>Diverge\<close>. For unloading, the number of loaded modules is enough; a load is only
  known to be bounded by the chain of files that name each other. Searches along linked
  structures recurse on lists. The loop over the work-groups of a core has the number of its work-groups as fuel,
  which is proved to be enough.

  \<^bold>\<open>Parameters.\<close> The file system is a partial function from names to contents. The client interface is
  a parameter of the loader, instantiated by \<open>ocl_client_DLIF\<close>. The order in which the heap manager
  visits an unordered set is a parameter. The kernels, DMA and OpenMP under the monitor are a record of functions
  over a device state.

  \<^bold>\<open>Not modelled.\<close> The name tables of \<open>elf32.c\<close> and all debug output; MSMC memory, mapping and cache
  control of the memory provider; start-up and hardware counters of the monitor and the device libraries under
  it, which work on device registers; the OpenCL API objects above (\<open>src/host/src/core\<close>: programs, contexts, memory
  objects and the data commands on them, queries and profiling); the offline compiler (\<open>src/host/clocl\<close>), which drives LLVM; the built-ins,
  which are OpenCL C.
\<close>

end
